(* ===== verification/Prelude.thy ===== *)
theory Prelude
  imports Main "HOL-Library.Word"
begin

text \<open>
  Shared vocabulary of the development: the machine integers of the target (x86_64,
  little-endian), the outcome of a piece of C code, and the generic facts on lists, options
  and words that the component theories share.

  A computation of the source has one of four outcomes.  \<open>Ret\<close> is a normal return,
  \<open>Panic\<close> a deliberate abort with a message (\<open>dyld_panic\<close>, \<open>abort\<close>), \<open>Fault\<close> an access to
  memory that is not mapped, and \<open>Undef\<close> an operation the C standard leaves undefined
  (a shift by at least the width of the operand).
\<close>

unbundle bit_operations_syntax

section \<open>Machine integers\<close>

type_synonym u8 = "8 word"
type_synonym u16 = "16 word"
type_synonym u32 = "32 word"
type_synonym u64 = "64 word"

text \<open>A C string without its terminator: a list of non-zero bytes.\<close>

type_synonym cstr = "u8 list"

definition is_cstr :: "cstr \<Rightarrow> bool" where
  "is_cstr s \<longleftrightarrow> (\<forall>c\<in>set s. c \<noteq> 0)"

section \<open>Outcomes\<close>

datatype 'a outcome = Ret 'a | Panic string | Fault | Undef

fun obind :: "'a outcome \<Rightarrow> ('a \<Rightarrow> 'b outcome) \<Rightarrow> 'b outcome" where
  "obind (Ret x) f = f x"
| "obind (Panic s) f = Panic s"
| "obind Fault f = Fault"
| "obind Undef f = Undef"

definition of_mem :: "'a option \<Rightarrow> 'a outcome" where
  "of_mem x = (case x of None \<Rightarrow> Fault | Some v \<Rightarrow> Ret v)"

lemma of_mem_simps [simp]: "of_mem None = Fault" "of_mem (Some v) = Ret v"
  by (simp_all add: of_mem_def)

lemma obind_eq_Ret [simp]: "obind x f = Ret y \<longleftrightarrow> (\<exists>v. x = Ret v \<and> f v = Ret y)"
  by (cases x) auto

lemma obind_eq_Fault: "obind x f = Fault \<longleftrightarrow> x = Fault \<or> (\<exists>v. x = Ret v \<and> f v = Fault)"
  by (cases x) auto

lemma of_mem_eq_Ret [simp]: "of_mem x = Ret v \<longleftrightarrow> x = Some v"
  by (cases x) auto

lemma of_mem_eq_Fault [simp]: "of_mem x = Fault \<longleftrightarrow> x = None"
  by (cases x) auto

lemma obind_Ret_right [simp]: "obind x Ret = x"
  by (cases x) auto

lemma obind_assoc: "obind (obind x f) g = obind x (\<lambda>v. obind (f v) g)"
  by (cases x) auto

lemma obind_cong [fundef_cong]:
  "x = x' \<Longrightarrow> (\<And>v. x' = Ret v \<Longrightarrow> f v = f' v) \<Longrightarrow> obind x f = obind x' f'"
  by (cases x') auto

section \<open>Runs that may not return\<close>

text \<open>\<open>None\<close> is a run that does not return, or that needs more than its bound.\<close>

fun rbind :: "'a outcome option \<Rightarrow> ('a \<Rightarrow> 'b outcome option) \<Rightarrow> 'b outcome option" where
  "rbind None f = None"
| "rbind (Some (Ret x)) f = f x"
| "rbind (Some (Panic e)) f = Some (Panic e)"
| "rbind (Some Fault) f = Some Fault"
| "rbind (Some Undef) f = Some Undef"

lemma rbind_eq_Ret [simp]:
  "rbind x f = Some (Ret y) \<longleftrightarrow> (\<exists>v. x = Some (Ret v) \<and> f v = Some (Ret y))"
  by (cases "(x, f)" rule: rbind.cases) auto

lemma rbind_cong [fundef_cong]:
  "x = x' \<Longrightarrow> (\<And>v. x' = Some (Ret v) \<Longrightarrow> f v = f' v) \<Longrightarrow> rbind x f = rbind x' f'"
  by (cases "(x', f)" rule: rbind.cases) auto

lemma rbind_assoc: "rbind (rbind x f) g = rbind x (\<lambda>v. rbind (f v) g)"
  by (cases "(x, f)" rule: rbind.cases) auto

section \<open>Little-endian byte sequences\<close>

text \<open>
  The byte images of the target's integers, used for memory slots and for raw integers on a
  wire: least significant byte first.
\<close>

primrec le_bytes :: "nat \<Rightarrow> 'a::len word \<Rightarrow> u8 list" where
  "le_bytes 0 w = []"
| "le_bytes (Suc n) w = ucast w # le_bytes n (drop_bit 8 w)"

primrec le_word :: "u8 list \<Rightarrow> 'a::len word" where
  "le_word [] = 0"
| "le_word (b # bs) = ucast b OR push_bit 8 (le_word bs)"

lemma length_le_bytes [simp]: "length (le_bytes n w) = n"
  by (induction n arbitrary: w) auto

lemma eval_le_bytes:
  "le_bytes (numeral k) w = ucast w # le_bytes (pred_numeral k) (drop_bit 8 w)"
  by (simp add: numeral_eq_Suc)

lemma le_word_le_bytes_take:
  "le_word (le_bytes n w) = (take_bit (8 * n) w :: 'a::len word)"
proof (induction n arbitrary: w)
  case 0
  then show ?case by simp
next
  case (Suc n)
  have "ucast (ucast w :: u8) OR push_bit 8 (take_bit (8 * n) (drop_bit 8 w))
      = take_bit (8 * Suc n) w"
    by (rule bit_word_eqI) (auto simp: bit_simps)
  with Suc show ?case by simp
qed

lemma le_word_le_bytes:
  "LENGTH('a) \<le> 8 * n \<Longrightarrow> le_word (le_bytes n w) = (w :: 'a::len word)"
  by (simp add: le_word_le_bytes_take take_bit_word_eq_self)

lemma le_bytes_le_word:
  "8 * length bs \<le> LENGTH('a) \<Longrightarrow> le_bytes (length bs) (le_word bs :: 'a::len word) = bs"
proof (induction bs)
  case Nil
  then show ?case by simp
next
  case (Cons b bs)
  let ?r = "le_word bs :: 'a word"
  have a: "ucast (ucast b OR push_bit 8 ?r :: 'a word) = b"
    using Cons.prems by (intro bit_word_eqI) (auto simp: bit_simps)
  have "bit (drop_bit 8 (push_bit 8 ?r)) i = bit ?r i" if "i < LENGTH('a)" for i
  proof (cases "i + 8 < LENGTH('a)")
    case True
    then show ?thesis by (simp add: bit_simps)
  next
    case False
    have "take_bit (8 * length bs) ?r = ?r"
    proof -
      have "le_word (le_bytes (length bs) ?r) = ?r" using Cons by simp
      then show ?thesis by (simp add: le_word_le_bytes_take)
    qed
    moreover have "8 * length bs \<le> i" using False Cons.prems by simp
    ultimately have "\<not> bit ?r i"
      by (metis bit_take_bit_iff not_le)
    then show ?thesis using False by (simp add: bit_simps)
  qed
  then have "drop_bit 8 (push_bit 8 ?r) = ?r"
    by (intro bit_word_eqI) auto
  moreover have "drop_bit 8 (ucast b OR push_bit 8 ?r) = drop_bit 8 (push_bit 8 ?r)"
    by (rule bit_word_eqI) (auto simp: bit_simps dest: bit_imp_le_length)
  ultimately show ?case using a Cons by simp
qed

section \<open>Words as numbers\<close>

lemma less_imp_Suc_nonzero: "x < (y :: 'a::len word) \<Longrightarrow> 1 + x \<noteq> 0"
  by (metis add_eq_0_iff not_less word_n1_ge)

lemma unat_Suc_less: "x < (y :: 'a::len word) \<Longrightarrow> unat (x + 1) = Suc (unat x)"
  by (metis add.commute less_imp_Suc_nonzero unatSuc)

lemma unat_diff_Suc_less:
  "x < (y :: 'a::len word) \<Longrightarrow> unat (y - (x + 1)) < unat (y - x)"
proof -
  assume xy: "x < y"
  then have "x + 1 \<le> y" by (metis inc_le)
  then have "unat (y - (x + 1)) = unat y - unat (x + 1)" by (rule unat_sub)
  moreover have "unat (y - x) = unat y - unat x" using xy by (intro unat_sub) simp
  ultimately show ?thesis using xy by (simp add: unat_Suc_less word_less_nat_alt)
qed

text \<open>Replacing a part of a list, and appending one element at a time.\<close>

lemma take_Suc_append_nth: "i < length xs \<Longrightarrow> take i xs @ [xs ! i] = take (Suc i) xs"
  by (simp add: take_Suc_conv_app_nth)

lemma map_of_append_notin: "k \<notin> fst ` set xs \<Longrightarrow> map_of (xs @ ys) k = map_of ys k"
  by (simp add: map_add_def dom_map_of_conv_image_fst split: option.split)
    (metis map_of_eq_None_iff option.distinct(1))

lemma map_of_rev_distinct: "distinct (map fst xs) \<Longrightarrow> map_of (rev xs) = map_of xs"
  by (subst map_of_inject_set) (simp_all add: rev_map [symmetric])

end
