(* ===== verification/Memory.thy ===== *)
theory Memory
  imports Prelude
begin

text \<open>
  The address space the C code runs in: a partial map from 64-bit addresses to bytes, \<open>None\<close>
  where nothing is mapped.  Pointer arithmetic is arithmetic on words, so it wraps as it
  does on the target.  Multi-byte slots are little-endian.  A string read that runs past the
  last address faults: address 0 is never mapped in a process of this system.
\<close>

type_synonym addr = u64
type_synonym mem = "addr \<Rightarrow> u8 option"

primrec load_bytes :: "mem \<Rightarrow> addr \<Rightarrow> nat \<Rightarrow> u8 list option" where
  "load_bytes m a 0 = Some []"
| "load_bytes m a (Suc n) =
     (case m a of None \<Rightarrow> None | Some b \<Rightarrow> map_option ((#) b) (load_bytes m (a + 1) n))"

primrec store_bytes :: "mem \<Rightarrow> addr \<Rightarrow> u8 list \<Rightarrow> mem option" where
  "store_bytes m a [] = Some m"
| "store_bytes m a (b # bs) =
     (if m a = None then None else store_bytes (m(a \<mapsto> b)) (a + 1) bs)"

definition load64 :: "mem \<Rightarrow> addr \<Rightarrow> u64 option" where
  "load64 m a = map_option le_word (load_bytes m a 8)"

definition store64 :: "mem \<Rightarrow> addr \<Rightarrow> u64 \<Rightarrow> mem option" where
  "store64 m a w = store_bytes m a (le_bytes 8 w)"

text \<open>A memory that holds one block of bytes.\<close>

definition mem_of :: "addr \<Rightarrow> u8 list \<Rightarrow> mem" where
  "mem_of a bs x = (if unat (x - a) < length bs then Some (bs ! unat (x - a)) else None)"

definition bytes_at :: "mem \<Rightarrow> addr \<Rightarrow> u8 list \<Rightarrow> bool" where
  "bytes_at m a bs \<longleftrightarrow> load_bytes m a (length bs) = Some bs"

definition mapped :: "mem \<Rightarrow> addr \<Rightarrow> nat \<Rightarrow> bool" where
  "mapped m a n \<longleftrightarrow> load_bytes m a n \<noteq> None"

function read_cstr :: "mem \<Rightarrow> addr \<Rightarrow> cstr outcome" where
  "read_cstr m a =
     (case m a of
        None \<Rightarrow> Fault
      | Some c \<Rightarrow> if c = 0 then Ret []
                  else if a = -1 then Fault
                  else obind (read_cstr m (a + 1)) (\<lambda>s. Ret (c # s)))"
  by pat_completeness auto
termination
proof (relation "measure (\<lambda>(m, a). unat (-1 - a))", goal_cases)
  case (2 m a c)
  then have "a < -1" by (simp add: word_order.not_eq_extremum)
  then show ?case by (simp only: in_measure prod.case) (rule unat_diff_Suc_less)
qed simp

declare read_cstr.simps [simp del]

definition cstr_at :: "mem \<Rightarrow> addr \<Rightarrow> cstr \<Rightarrow> bool" where
  "cstr_at m a s \<longleftrightarrow> is_cstr s \<and> bytes_at m a (s @ [0]) \<and> unat a + length s < 2 ^ 64"

section \<open>Loads and stores\<close>

lemma load_bytes_length: "load_bytes m a n = Some bs \<Longrightarrow> length bs = n"
  by (induction n arbitrary: a bs) (auto split: option.splits)

lemma bytes_at_Nil [simp]: "bytes_at m a []"
  by (simp add: bytes_at_def)

lemma bytes_at_Cons [simp]: "bytes_at m a (b # bs) \<longleftrightarrow> m a = Some b \<and> bytes_at m (a + 1) bs"
  by (auto simp: bytes_at_def split: option.splits)

lemma bytes_at_append:
  "bytes_at m a (bs @ cs) \<longleftrightarrow> bytes_at m a bs \<and> bytes_at m (a + of_nat (length bs)) cs"
  by (induction bs arbitrary: a) (auto simp: algebra_simps)

lemma load_bytes_iff: "load_bytes m a n = Some bs \<longleftrightarrow> length bs = n \<and> bytes_at m a bs"
  by (auto simp: bytes_at_def dest: load_bytes_length)

lemma store_bytes_outside:
  "store_bytes m a bs = Some m' \<Longrightarrow> (\<And>i. i < length bs \<Longrightarrow> x \<noteq> a + of_nat i) \<Longrightarrow> m' x = m x"
proof (induction bs arbitrary: m a)
  case Nil
  then show ?case by simp
next
  case (Cons b bs)
  from Cons.prems(2) [of 0] have xa: "x \<noteq> a" by simp
  have "m' x = (m(a \<mapsto> b)) x"
  proof (rule Cons.IH)
    show "store_bytes (m(a \<mapsto> b)) (a + 1) bs = Some m'"
      using Cons.prems(1) by (simp split: if_splits)
    fix i assume "i < length bs"
    then show "x \<noteq> a + 1 + of_nat i" using Cons.prems(2) [of "Suc i"] by (simp add: algebra_simps)
  qed
  with xa show ?case by simp
qed

lemma of_nat_addr_inj:
  "i < 2 ^ 64 \<Longrightarrow> j < 2 ^ 64 \<Longrightarrow> of_nat i = (of_nat j :: addr) \<longleftrightarrow> i = j"
  by (simp add: word_of_nat_eq_iff take_bit_nat_eq_self)

lemma store_bytes_load:
  "store_bytes m a bs = Some m' \<Longrightarrow> length bs \<le> 2 ^ 64 \<Longrightarrow> bytes_at m' a bs"
proof (induction bs arbitrary: m a)
  case Nil
  then show ?case by simp
next
  case (Cons b bs)
  from Cons.prems(1) have st: "store_bytes (m(a \<mapsto> b)) (a + 1) bs = Some m'"
    by (simp split: if_splits)
  have "m' a = (m(a \<mapsto> b)) a"
  proof (rule store_bytes_outside [OF st])
    fix i assume "i < length bs"
    with Cons.prems(2) have "of_nat (Suc i) \<noteq> (of_nat 0 :: addr)"
      by (subst of_nat_addr_inj) auto
    then show "a \<noteq> a + 1 + of_nat i" by (simp add: algebra_simps)
  qed
  with Cons.IH [OF st] Cons.prems(2) show ?case by simp
qed

lemma mapped_0 [simp]: "mapped m a 0"
  by (simp add: mapped_def)

lemma mapped_Suc: "mapped m a (Suc n) \<longleftrightarrow> m a \<noteq> None \<and> mapped m (a + 1) n"
  by (auto simp: mapped_def split: option.splits)

lemma mapped_cong: "(\<And>x. (m x = None) = (m' x = None)) \<Longrightarrow> mapped m a n = mapped m' a n"
  by (induction n arbitrary: a) (auto simp: mapped_Suc)

lemma mapped_nth: "mapped m a n \<Longrightarrow> i < n \<Longrightarrow> m (a + of_nat i) \<noteq> None"
proof (induction n arbitrary: a i)
  case (Suc n)
  then show ?case
    by (cases i) (use Suc.IH [of "a + 1" "i - 1"] in \<open>auto simp: mapped_Suc algebra_simps\<close>)
qed simp

lemma store_bytes_mapped:
  "mapped m a (length bs) \<Longrightarrow> \<exists>m'. store_bytes m a bs = Some m' \<and> (\<forall>x. (m' x = None) = (m x = None))"
proof (induction bs arbitrary: m a)
  case (Cons b bs)
  define m1 where "m1 = m(a \<mapsto> b)"
  from Cons.prems have ma: "m a \<noteq> None" and mp: "mapped m (a + 1) (length bs)"
    by (auto simp: mapped_Suc)
  have same: "\<And>x. (m x = None) = (m1 x = None)" using ma by (simp add: m1_def)
  from mp have "mapped m1 (a + 1) (length bs)" by (simp only: mapped_cong [OF same])
  from Cons.IH [OF this] ma same show ?case by (simp add: m1_def [symmetric])
qed simp

lemma store_bytes_dom:
  "store_bytes m a bs = Some m' \<Longrightarrow> (m' x = None) = (m x = None)"
  by (induction bs arbitrary: m a) (auto split: if_splits)

lemma load64_store64: "store64 m a w = Some m' \<Longrightarrow> load64 m' a = Some w"
  using store_bytes_load [of m a "le_bytes 8 w" m']
  by (simp add: store64_def load64_def bytes_at_def le_word_le_bytes)

lemma store64_outside:
  "store64 m a w = Some m' \<Longrightarrow> (\<And>i. i < 8 \<Longrightarrow> x \<noteq> a + of_nat i) \<Longrightarrow> m' x = m x"
  by (rule store_bytes_outside [of m a "le_bytes 8 w"]) (simp_all add: store64_def)

lemma store64_dom: "store64 m a w = Some m' \<Longrightarrow> (m' x = None) = (m x = None)"
  unfolding store64_def by (rule store_bytes_dom)

lemma store64_mapped: "mapped m a 8 \<Longrightarrow> \<exists>m'. store64 m a w = Some m'"
  using store_bytes_mapped [of m a "le_bytes 8 w"] by (auto simp: store64_def)

lemma mapped_bytes_at: "bytes_at m a bs \<Longrightarrow> length bs = n \<Longrightarrow> mapped m a n"
  by (auto simp: bytes_at_def mapped_def)

lemma load64_mapped: "mapped m a 8 \<Longrightarrow> \<exists>w. load64 m a = Some w"
  by (auto simp: load64_def mapped_def)

section \<open>Strings in memory\<close>

lemma unat_u64_less: "unat (a :: u64) < 2 ^ 64"
  by (rule order_less_le_trans [OF unsigned_less]) simp

lemma cstr_at_Nil [simp]: "cstr_at m a [] \<longleftrightarrow> m a = Some 0"
  using unat_u64_less [of a] by (simp add: cstr_at_def is_cstr_def)

lemma cstr_at_Cons:
  "cstr_at m a (c # s) \<longleftrightarrow> c \<noteq> 0 \<and> m a = Some c \<and> a \<noteq> -1 \<and> cstr_at m (a + 1) s"
proof -
  have "unat a + Suc (length s) < 2 ^ 64 \<longleftrightarrow> a \<noteq> -1 \<and> unat (a + 1) + length s < 2 ^ 64"
  proof (cases "a = -1")
    case True
    then show ?thesis by (simp add: unsigned_minus_1_eq_mask mask_eq_exp_minus_1)
  next
    case False
    then have "a < -1" by (simp add: word_order.not_eq_extremum)
    then have "unat (a + 1) = Suc (unat a)" by (rule unat_Suc_less)
    with False show ?thesis by simp
  qed
  then show ?thesis by (auto simp: cstr_at_def is_cstr_def)
qed

lemma read_cstr_at: "cstr_at m a s \<Longrightarrow> read_cstr m a = Ret s"
  by (induction s arbitrary: a) (auto simp: cstr_at_Cons read_cstr.simps [of m])

lemma read_cstr_Ret: "read_cstr m a = Ret s \<Longrightarrow> cstr_at m a s"
proof (induction s arbitrary: a)
  case Nil
  then show ?case by (subst (asm) read_cstr.simps) (auto split: option.splits if_splits)
next
  case (Cons c s)
  then show ?case
    by (subst (asm) (2) read_cstr.simps) (auto simp: cstr_at_Cons split: option.splits if_splits)
qed

lemma read_cstr_not_Panic [simp]: "read_cstr m a \<noteq> Panic e" "read_cstr m a \<noteq> Undef"
proof (induction m a rule: read_cstr.induct)
  case (1 m a)
  have "read_cstr m a \<noteq> Panic e \<and> read_cstr m a \<noteq> Undef"
  proof (cases "read_cstr m (a + 1)")
    case (Ret s)
    then show ?thesis by (subst (1 2) read_cstr.simps) (auto split: option.splits)
  next
    case (Panic e')
    then show ?thesis using 1 by (subst (1 2) read_cstr.simps) (auto split: option.splits)
  next
    case Fault
    then show ?thesis by (subst (1 2) read_cstr.simps) (auto split: option.splits)
  next
    case Undef
    then show ?thesis using 1 by (subst (1 2) read_cstr.simps) (auto split: option.splits)
  qed
  then show "read_cstr m a \<noteq> Panic e" "read_cstr m a \<noteq> Undef" by auto
qed

lemma unat_plus_of_nat: "unat p + n < 2 ^ 64 \<Longrightarrow> unat (p + of_nat n :: addr) = unat p + n"
  by (simp add: unat_plus_if' unat_of_nat)

section \<open>Regions\<close>

definition span :: "addr \<Rightarrow> nat \<Rightarrow> addr set" where
  "span a n = (\<lambda>i. a + of_nat i) ` {..<n}"

lemma span_Suc: "span a (Suc n) = insert a (span (a + 1) n)"
  unfolding span_def lessThan_Suc_eq_insert_0 image_insert image_image by (simp add: algebra_simps)

lemma span_0 [simp]: "span a 0 = {}"
  by (simp add: span_def)

lemma span_append: "span a (m + n) = span a m \<union> span (a + of_nat m) n"
  by (induction m arbitrary: a) (simp_all add: span_Suc algebra_simps)

lemma span_disjoint:
  assumes "unat a + n \<le> unat b" "unat b + k \<le> 2 ^ 64"
  shows "span a n \<inter> span b k = {}"
proof (rule ccontr)
  assume "span a n \<inter> span b k \<noteq> {}"
  then obtain i j where "i < n" "j < k" and eq: "a + of_nat i = b + of_nat j"
    by (auto simp: span_def)
  then have "unat a + i = unat b + j"
    using assms unat_plus_of_nat [of a i] unat_plus_of_nat [of b j] by simp
  with \<open>i < n\<close> assms(1) show False by simp
qed

lemma bytes_at_cong:
  "(\<And>x. x \<in> span a (length bs) \<Longrightarrow> m x = m' x) \<Longrightarrow> bytes_at m a bs = bytes_at m' a bs"
  by (induction bs arbitrary: a) (auto simp: span_Suc)

lemma load_bytes_cong:
  "(\<And>x. x \<in> span a n \<Longrightarrow> m x = m' x) \<Longrightarrow> load_bytes m a n = load_bytes m' a n"
  by (induction n arbitrary: a) (auto simp: span_Suc split: option.splits)

lemma load64_cong: "(\<And>x. x \<in> span a 8 \<Longrightarrow> m x = m' x) \<Longrightarrow> load64 m a = load64 m' a"
  unfolding load64_def by (simp add: load_bytes_cong [of a 8 m m'])

lemma store64_frame: "store64 m a w = Some m' \<Longrightarrow> x \<notin> span a 8 \<Longrightarrow> m' x = m x"
  by (erule store64_outside) (auto simp: span_def)

lemma load64_store64_other:
  "store64 m a w = Some m' \<Longrightarrow> span a 8 \<inter> span b 8 = {} \<Longrightarrow> load64 m' b = load64 m b"
  by (rule load64_cong) (auto dest: store64_frame)

end
