(* ===== verification/Image.thy ===== *)
theory Image
  imports Memory
begin

text \<open>
  \<open>userland/dyld/image.h\<close> and the address translation of \<open>macho_load.c\<close>: the loader's
  record of one Mach-O image.  Pointers into the image table \<open>g_images\<close> are indices.
  A stream range is a pair of addresses; a start of 0 means the stream is absent.
\<close>

record segment =
  vmaddr :: u64
  vmsize :: u64
  fileoff :: u64
  filesize :: u64

record image =
  im_path :: cstr
  im_mh :: addr
  im_slide :: u64
  im_segs :: "segment list"
  rebase_start :: addr
  rebase_end :: addr
  bind_start :: addr
  bind_end :: addr
  weak_bind_start :: addr
  weak_bind_end :: addr
  lazy_bind_start :: addr
  lazy_bind_end :: addr
  export_start :: addr
  export_end :: addr
  im_deps :: "nat list"

text \<open>The fields of \<open>struct dyld_info_command\<close> that the loader reads.\<close>

record dyld_info =
  di_rebase_off :: u32
  di_rebase_size :: u32
  di_bind_off :: u32
  di_bind_size :: u32
  di_weak_bind_off :: u32
  di_weak_bind_size :: u32
  di_lazy_bind_off :: u32
  di_lazy_bind_size :: u32
  di_export_off :: u32
  di_export_size :: u32

definition image_addr :: "image \<Rightarrow> u64 \<Rightarrow> addr" where
  "image_addr im unslid_vmaddr = unslid_vmaddr + im_slide im"

fun file_offset_in :: "image \<Rightarrow> segment list \<Rightarrow> u32 \<Rightarrow> addr" where
  "file_offset_in im [] off = 0"
| "file_offset_in im (s # ss) off =
     (if ucast off \<ge> fileoff s \<and> ucast off < fileoff s + filesize s
      then image_addr im (vmaddr s + (ucast off - fileoff s))
      else file_offset_in im ss off)"

definition image_file_offset_ptr :: "image \<Rightarrow> u32 \<Rightarrow> addr" where
  "image_file_offset_ptr im off = file_offset_in im (im_segs im) off"

definition translate_dyld_info :: "image \<Rightarrow> dyld_info \<Rightarrow> image" where
  "translate_dyld_info im dic =
     (let ptr = image_file_offset_ptr im;
          im1 = (if di_rebase_size dic \<noteq> 0
                 then im\<lparr>rebase_start := ptr (di_rebase_off dic),
                         rebase_end := ptr (di_rebase_off dic) + ucast (di_rebase_size dic)\<rparr> else im);
          im2 = (if di_bind_size dic \<noteq> 0
                 then im1\<lparr>bind_start := ptr (di_bind_off dic),
                          bind_end := ptr (di_bind_off dic) + ucast (di_bind_size dic)\<rparr> else im1);
          im3 = (if di_weak_bind_size dic \<noteq> 0
                 then im2\<lparr>weak_bind_start := ptr (di_weak_bind_off dic),
                          weak_bind_end := ptr (di_weak_bind_off dic) + ucast (di_weak_bind_size dic)\<rparr> else im2);
          im4 = (if di_lazy_bind_size dic \<noteq> 0
                 then im3\<lparr>lazy_bind_start := ptr (di_lazy_bind_off dic),
                          lazy_bind_end := ptr (di_lazy_bind_off dic) + ucast (di_lazy_bind_size dic)\<rparr> else im3)
      in if di_export_size dic \<noteq> 0
         then im4\<lparr>export_start := ptr (di_export_off dic),
                  export_end := ptr (di_export_off dic) + ucast (di_export_size dic)\<rparr> else im4)"

fun seg_contains :: "image \<Rightarrow> addr \<Rightarrow> segment list \<Rightarrow> bool" where
  "seg_contains im a [] = False"
| "seg_contains im a (s # ss) =
     (let base = vmaddr s + im_slide im in
      if a \<ge> base \<and> a < base + vmsize s then True else seg_contains im a ss)"

text \<open>The index of the first image with a segment around the address.\<close>

fun image_containing_from :: "nat \<Rightarrow> image list \<Rightarrow> addr \<Rightarrow> nat option" where
  "image_containing_from i [] a = None"
| "image_containing_from i (im # ims) a =
     (if seg_contains im a (im_segs im) then Some i else image_containing_from (Suc i) ims a)"

definition image_containing_address :: "image list \<Rightarrow> addr \<Rightarrow> nat option" where
  "image_containing_address images a = image_containing_from 0 images a"

lemma seg_contains_iff:
  "seg_contains im a ss \<longleftrightarrow>
     (\<exists>s\<in>set ss. vmaddr s + im_slide im \<le> a \<and> a < vmaddr s + im_slide im + vmsize s)"
  by (induction ss) (auto simp: Let_def)

lemma image_containing_from_Some:
  "image_containing_from i ims a = Some j \<longleftrightarrow>
     i \<le> j \<and> j < i + length ims \<and> seg_contains (ims ! (j - i)) a (im_segs (ims ! (j - i)))
     \<and> (\<forall>k<j - i. \<not> seg_contains (ims ! k) a (im_segs (ims ! k)))"
proof (induction ims arbitrary: i)
  case (Cons im ims)
  show ?case
  proof (cases "seg_contains im a (im_segs im)")
    case True
    then show ?thesis by (cases "j = i") (auto intro!: exI [of _ 0])
  next
    case False
    then have sh: "(\<forall>k<j - i. \<not> seg_contains ((im # ims) ! k) a (im_segs ((im # ims) ! k)))
        \<longleftrightarrow> (\<forall>k<j - Suc i. \<not> seg_contains (ims ! k) a (im_segs (ims ! k)))" if "i < j"
    proof -
      from that have "j - i = Suc (j - Suc i)" by arith
      with False show ?thesis by (simp only: All_less_Suc2) simp
    qed
    show ?thesis
    proof (cases "i < j")
      case True
      then have "j - i = Suc (j - Suc i)" by arith
      with True False Cons.IH sh show ?thesis by auto
    next
      case nlt: False
      with False Cons.IH show ?thesis by (cases "j = i") auto
    qed
  qed
qed simp

text \<open>An image record with every field cleared, as \<open>memset\<close> leaves it.\<close>

definition blank_image :: image where
  "blank_image = \<lparr>im_path = [], im_mh = 0, im_slide = 0, im_segs = [], rebase_start = 0,
     rebase_end = 0, bind_start = 0, bind_end = 0, weak_bind_start = 0, weak_bind_end = 0,
     lazy_bind_start = 0, lazy_bind_end = 0, export_start = 0, export_end = 0, im_deps = []\<rparr>"

end
