(* ===== verification/Uleb.thy ===== *)
theory Uleb
  imports Memory
begin

text \<open>
  \<open>userland/dyld/uleb.h\<close>: the ULEB128 and SLEB128 readers of the rebase, bind and export
  streams.  The read pointer \<open>p\<close> is threaded through and returned.  The shift count \<open>sh\<close> (the source's \<open>bit\<close>)
  grows by seven per byte; a shift by 64 or more is undefined in C and is \<open>Undef\<close> here.
  The signed reader's shift and negation wrap, as two's complement does on the target.

  The lemmas show what the readers compute on any terminated chunk, that they invert the
  standard encoders \<open>uleb_enc\<close> and \<open>sleb_enc\<close>, and that they stay inside the stream.
\<close>

section \<open>The readers\<close>

function uleb_loop :: "mem \<Rightarrow> addr \<Rightarrow> u64 \<Rightarrow> nat \<Rightarrow> addr \<Rightarrow> (u64 \<times> addr) outcome" where
  "uleb_loop m lim result sh p =
     (if p \<ge> lim then Panic ''uleb128 read past end''
      else obind (of_mem (m p)) (\<lambda>byte.
        if sh \<ge> 64 then Undef
        else let result' = result OR push_bit sh (ucast (byte AND 0x7f)) in
          if byte AND 0x80 \<noteq> 0 then uleb_loop m lim result' (sh + 7) (p + 1)
          else Ret (result', p + 1)))"
  by pat_completeness auto
termination
  by (relation "measure (\<lambda>(m, lim, r, b, p). unat (lim - p))")
    (auto simp: not_le intro: unat_diff_Suc_less)

definition read_uleb128 :: "mem \<Rightarrow> addr \<Rightarrow> addr \<Rightarrow> (u64 \<times> addr) outcome" where
  "read_uleb128 m lim p = uleb_loop m lim 0 0 p"

function sleb_loop :: "mem \<Rightarrow> addr \<Rightarrow> u64 \<Rightarrow> nat \<Rightarrow> addr \<Rightarrow> (u64 \<times> nat \<times> u8 \<times> addr) outcome" where
  "sleb_loop m lim result sh p =
     (if p \<ge> lim then Panic ''sleb128 read past end''
      else obind (of_mem (m p)) (\<lambda>byte.
        if sh \<ge> 64 then Undef
        else let result' = result OR push_bit sh (ucast (byte AND 0x7f)) in
          if byte AND 0x80 \<noteq> 0 then sleb_loop m lim result' (sh + 7) (p + 1)
          else Ret (result', sh + 7, byte, p + 1)))"
  by pat_completeness auto
termination
  by (relation "measure (\<lambda>(m, lim, r, b, p). unat (lim - p))")
    (auto simp: not_le intro: unat_diff_Suc_less)

definition read_sleb128 :: "mem \<Rightarrow> addr \<Rightarrow> addr \<Rightarrow> (u64 \<times> addr) outcome" where
  "read_sleb128 m lim p =
     obind (sleb_loop m lim 0 0 p) (\<lambda>(result, sh, byte, p').
       Ret (if sh < 64 \<and> byte AND 0x40 \<noteq> 0 then result OR - push_bit sh 1 else result, p'))"

declare uleb_loop.simps [simp del] sleb_loop.simps [simp del]

section \<open>Chunks and their values\<close>

text \<open>A chunk is a byte list whose continuation bits are set on all bytes but the last.\<close>

fun leb_chunk :: "u8 list \<Rightarrow> bool" where
  "leb_chunk [] = False"
| "leb_chunk [b] = (b AND 0x80 = 0)"
| "leb_chunk (b # c # bs) = (b AND 0x80 \<noteq> 0 \<and> leb_chunk (c # bs))"

fun leb_val :: "u8 list \<Rightarrow> u64" where
  "leb_val [] = 0"
| "leb_val (b # bs) = ucast (b AND 0x7f) OR push_bit 7 (leb_val bs)"

lemma leb_chunk_Cons:
  "leb_chunk (b # bs) \<longleftrightarrow> (if bs = [] then b AND 0x80 = 0 else b AND 0x80 \<noteq> 0 \<and> leb_chunk bs)"
  by (cases bs) auto

lemma addr_Suc_le: "unat p + Suc n \<le> unat (lim :: addr) \<Longrightarrow> p < lim \<and> unat (p + 1) = Suc (unat p)"
proof -
  assume "unat p + Suc n \<le> unat lim"
  then have "p < lim" by (simp add: word_less_nat_alt)
  then show ?thesis by (simp add: unat_Suc_less)
qed

lemma push_bit_OR_word: "push_bit n (x OR y) = push_bit n x OR push_bit n (y :: 'a::len word)"
  by (rule bit_word_eqI) (auto simp: bit_simps)

lemma uleb_loop_chunk:
  assumes "bytes_at m p bs" "leb_chunk bs" "unat p + length bs \<le> unat lim"
    and "sh + 7 * length bs < 71"
  shows "uleb_loop m lim r sh p = Ret (r OR push_bit sh (leb_val bs), p + of_nat (length bs))"
  using assms
proof (induction bs arbitrary: r sh p)
  case (Cons b bs)
  have p: "p < lim" "unat (p + 1) = Suc (unat p)"
    using addr_Suc_le [of p "length bs" lim] Cons.prems(3) by auto
  then have np: "\<not> lim \<le> p" by simp
  let ?r = "r OR push_bit sh (ucast (b AND 0x7f))"
  have step: "uleb_loop m lim r sh p =
      (if b AND 0x80 \<noteq> 0 then uleb_loop m lim ?r (sh + 7) (p + 1) else Ret (?r, p + 1))"
    using np Cons.prems by (simp add: uleb_loop.simps [of m lim r sh p] Let_def)
  show ?case
  proof (cases "bs = []")
    case True
    with Cons.prems(2) show ?thesis by (simp add: step)
  next
    case False
    with Cons.prems p have
      "uleb_loop m lim ?r (sh + 7) (p + 1)
        = Ret (?r OR push_bit (sh + 7) (leb_val bs), p + 1 + of_nat (length bs))"
      by (intro Cons.IH) (auto simp: leb_chunk_Cons)
    moreover have "b AND 0x80 \<noteq> 0" using False Cons.prems(2) by (simp add: leb_chunk_Cons)
    ultimately show ?thesis
      by (simp add: step push_bit_OR_word push_bit_push_bit add.commute or.assoc algebra_simps)
  qed
qed simp

lemma sleb_loop_chunk:
  assumes "bytes_at m p bs" "leb_chunk bs" "unat p + length bs \<le> unat lim"
    and "sh + 7 * length bs < 71"
  shows "sleb_loop m lim r sh p =
    Ret (r OR push_bit sh (leb_val bs), sh + 7 * length bs, last bs, p + of_nat (length bs))"
  using assms
proof (induction bs arbitrary: r sh p)
  case (Cons b bs)
  have p: "p < lim" "unat (p + 1) = Suc (unat p)"
    using addr_Suc_le [of p "length bs" lim] Cons.prems(3) by auto
  then have np: "\<not> lim \<le> p" by simp
  let ?r = "r OR push_bit sh (ucast (b AND 0x7f))"
  have step: "sleb_loop m lim r sh p =
      (if b AND 0x80 \<noteq> 0 then sleb_loop m lim ?r (sh + 7) (p + 1)
       else Ret (?r, sh + 7, b, p + 1))"
    using np Cons.prems by (simp add: sleb_loop.simps [of m lim r sh p] Let_def)
  show ?case
  proof (cases "bs = []")
    case True
    with Cons.prems(2) show ?thesis by (simp add: step)
  next
    case False
    with Cons.prems p have
      "sleb_loop m lim ?r (sh + 7) (p + 1)
        = Ret (?r OR push_bit (sh + 7) (leb_val bs), sh + 7 + 7 * length bs, last bs,
               p + 1 + of_nat (length bs))"
      by (intro Cons.IH) (auto simp: leb_chunk_Cons)
    moreover have "b AND 0x80 \<noteq> 0" using False Cons.prems(2) by (simp add: leb_chunk_Cons)
    ultimately show ?thesis using False
      by (simp add: step push_bit_OR_word push_bit_push_bit add.commute or.assoc algebra_simps)
  qed
qed simp

lemmas read_uleb128_chunk = uleb_loop_chunk [where r = 0 and sh = 0, simplified, folded read_uleb128_def]

section \<open>Encoders and round trips\<close>

function uleb_enc :: "u64 \<Rightarrow> u8 list" where
  "uleb_enc x = (if x < 128 then [ucast x] else (ucast x OR 0x80) # uleb_enc (drop_bit 7 x))"
  by pat_completeness auto
termination
proof (relation "measure unat", goal_cases)
  case (2 x)
  then have "0 < unat x" by (simp add: not_less word_le_nat_alt)
  then show ?case by (simp add: unat_drop_bit_eq drop_bit_nat_def)
qed simp

declare uleb_enc.simps [simp del]


lemma and_7f: "b AND 0x7f = take_bit 7 (b :: u8)"
  by (simp add: take_bit_eq_mask mask_eq_exp_minus_1)

lemma and_80: "b AND 0x80 = 0 \<longleftrightarrow> \<not> bit (b :: u8) 7"
  using and_exp_eq_0_iff_not_bit [of b 7] by simp

lemma and_40: "b AND 0x40 = 0 \<longleftrightarrow> \<not> bit (b :: u8) 6"
  using and_exp_eq_0_iff_not_bit [of b 6] by simp

lemma bit_or_80: "bit (b OR 0x80 :: u8) n \<longleftrightarrow> bit b n \<or> n = 7"
proof -
  have "(0x80 :: u8) = 2 ^ 7" by simp
  then show ?thesis by (simp only: bit_or_iff bit_exp_iff) auto
qed

lemmas byte_masks = and_7f and_80 and_40 bit_or_80

lemma small_u64_bit: "(x :: u64) < 128 \<Longrightarrow> bit x n \<Longrightarrow> n < 7"
proof -
  assume "x < 128" "bit x n"
  then have "take_bit 7 (unat x) = unat x"
    by (intro take_bit_nat_eq_self) (simp add: word_less_nat_alt)
  moreover have "bit (unat x) n" using \<open>bit x n\<close> by (simp add: bit_simps)
  ultimately show "n < 7" by (metis bit_take_bit_iff)
qed

lemma small_byte: "x < 128 \<Longrightarrow> ucast x AND 0x80 = (0 :: u8) \<and> (ucast (ucast x AND 0x7f :: u8) :: u64) = x"
  by (auto simp: byte_masks bit_simps dest: small_u64_bit intro!: bit_word_eqI)

lemma leb_chunk_uleb_enc: "leb_chunk (uleb_enc x)"
proof (induction x rule: uleb_enc.induct)
  case (1 x)
  have "uleb_enc y \<noteq> []" for y by (subst uleb_enc.simps) simp
  with 1 show ?case
    by (subst uleb_enc.simps) (simp add: leb_chunk_Cons small_byte byte_masks)
qed

lemma split_7: "ucast ((ucast x OR 0x80 :: u8) AND 0x7f) OR push_bit 7 (drop_bit 7 x) = (x :: u64)"
proof (rule bit_word_eqI)
  fix n assume "n < LENGTH(64)"
  then show "bit (ucast ((ucast x OR 0x80 :: u8) AND 0x7f) OR push_bit 7 (drop_bit 7 x)) n = bit x n"
    by (cases "n < 7") (auto simp: bit_simps byte_masks)
qed

lemma leb_val_uleb_enc: "leb_val (uleb_enc x) = x"
proof (induction x rule: uleb_enc.induct)
  case (1 x)
  then show ?case
    by (subst uleb_enc.simps) (simp add: small_byte split_7 del: word_bw_assocs)
qed

lemma length_uleb_enc: "unat x < 2 ^ (7 * Suc k) \<Longrightarrow> length (uleb_enc x) \<le> Suc k"
proof (induction k arbitrary: x)
  case 0
  then have "x < 128" by (simp add: word_less_nat_alt)
  then show ?case by (subst uleb_enc.simps) simp
next
  case (Suc k)
  have "unat x < 128 * 2 ^ (7 * Suc k)" using Suc.prems by (simp add: power_add)
  then have "unat (drop_bit 7 x) < 2 ^ (7 * Suc k)"
    by (simp add: unat_drop_bit_eq drop_bit_nat_def less_mult_imp_div_less mult.commute)
  from Suc.IH [OF this] show ?case by (subst uleb_enc.simps) simp
qed

lemma length_uleb_enc_10: "length (uleb_enc x) \<le> 10"
proof -
  have "unat x < 2 ^ (7 * Suc 9)"
    by (rule order_less_le_trans [OF unat_u64_less]) simp
  then show ?thesis using length_uleb_enc [of x 9] by simp
qed

text \<open>The reader inverts the encoder on every 64-bit value.\<close>

lemma read_uleb128_enc:
  assumes "bytes_at m p (uleb_enc x)" and "unat p + length (uleb_enc x) \<le> unat lim"
  shows "read_uleb128 m lim p = Ret (x, p + of_nat (length (uleb_enc x)))"
  using read_uleb128_chunk [OF assms(1) leb_chunk_uleb_enc assms(2)] length_uleb_enc_10 [of x]
  by (simp add: leb_val_uleb_enc)

function sleb_enc :: "u64 \<Rightarrow> u8 list" where
  "sleb_enc x =
     (let b = ucast x AND 0x7f; x' = signed_drop_bit 7 x in
      if x' = 0 \<and> b AND 0x40 = 0 \<or> x' = -1 \<and> b AND 0x40 \<noteq> 0 then [b]
      else (b OR 0x80) # sleb_enc x')"
  by pat_completeness auto
termination
proof (relation "measure (\<lambda>x. nat (if sint x < 0 then - sint x - 1 else sint x))", goal_cases)
  case (2 x b x')
  have x': "sint x' = sint x div 128"
    by (simp add: "2"(2) sint_signed_drop_bit_eq drop_bit_int_def)
  have "sint x \<noteq> 0"
  proof
    assume "sint x = 0"
    then have "x = 0" by (metis signed_word_eqI sint_0)
    with 2 show False by simp
  qed
  moreover have "sint x \<noteq> -1"
  proof
    assume "sint x = -1"
    then have "x = -1" by (metis signed_word_eqI sint_n1)
    with 2 show False by (simp add: byte_masks bit_simps)
  qed
  ultimately show ?case using x' by auto
qed simp

declare sleb_enc.simps [simp del]

lemma bit_leb_val: "bit (leb_val bs) i \<Longrightarrow> i < 7 * length bs"
proof (induction bs arbitrary: i)
  case (Cons b bs)
  then show ?case
    by (cases "i < 7") (auto simp: byte_masks bit_simps dest!: Cons.IH)
qed simp

lemma sleb_enc_nonempty [simp]: "sleb_enc x \<noteq> []"
  by (subst sleb_enc.simps) (simp add: Let_def)

lemma leb_chunk_sleb_enc: "leb_chunk (sleb_enc x)"
proof (induction x rule: sleb_enc.induct)
  case (1 x)
  then show ?case
    by (subst sleb_enc.simps) (auto simp: Let_def leb_chunk_Cons byte_masks bit_simps)
qed

lemma sleb_enc_unfold:
  "b = ucast x AND 0x7f \<Longrightarrow> y = signed_drop_bit 7 x \<Longrightarrow>
   sleb_enc x = (if y = 0 \<and> b AND 0x40 = 0 \<or> y = -1 \<and> b AND 0x40 \<noteq> 0 then [b]
                 else (b OR 0x80) # sleb_enc y)"
  by (subst sleb_enc.simps) (simp only: Let_def)

lemma bit_signed_drop_7: "i < 64 \<Longrightarrow> 7 \<le> i \<Longrightarrow> bit (signed_drop_bit 7 (x :: u64)) (i - 7) = bit x i"
  by (auto simp: bit_simps)

lemma sleb_enc_bits:
  "i < 64 \<Longrightarrow> bit x i = (if i < 7 * length (sleb_enc x) then bit (leb_val (sleb_enc x)) i
                        else bit (last (sleb_enc x)) 6)"
proof (induction x arbitrary: i rule: sleb_enc.induct)
  case (1 x)
  define b :: u8 where "b = ucast x AND 0x7f"
  define y where "y = signed_drop_bit 7 x"
  have lo: "bit b i = bit x i" if "i < 7" for i using that by (simp add: b_def byte_masks bit_simps)
  have hi: "bit y (i - 7) = bit x i" if "7 \<le> i" using bit_signed_drop_7 [OF "1.prems" that] by (simp add: y_def)
  show ?case
  proof (cases "y = 0 \<and> b AND 0x40 = 0 \<or> y = -1 \<and> b AND 0x40 \<noteq> 0")
    case True
    then have enc: "sleb_enc x = [b]" by (simp only: sleb_enc_unfold [OF b_def y_def] if_True simp_thms)
    show ?thesis
    proof (cases "i < 7")
      case True
      then show ?thesis by (auto simp: enc lo byte_masks bit_simps)
    next
      case False
      with hi True "1.prems" show ?thesis by (auto simp: enc byte_masks)
    qed
  next
    case False
    then have enc: "sleb_enc x = (b OR 0x80) # sleb_enc y"
      by (simp only: sleb_enc_unfold [OF b_def y_def] if_False)
    show ?thesis
    proof (cases "i < 7")
      case True
      then show ?thesis using "1.prems" by (auto simp: enc lo byte_masks bit_simps)
    next
      case ge: False
      have "bit y (i - 7) = (if i - 7 < 7 * length (sleb_enc y) then bit (leb_val (sleb_enc y)) (i - 7)
                        else bit (last (sleb_enc y)) 6)"
        using False "1.prems" unfolding y_def b_def by (intro "1.IH") (simp_all add: Let_def)
      moreover have "i - 7 < 7 * length (sleb_enc y) \<longleftrightarrow> i < 7 * length (sleb_enc x)"
        using ge by (simp add: enc) arith
      ultimately show ?thesis using hi ge "1.prems" by (simp add: enc byte_masks bit_simps)
    qed
  qed
qed

lemma length_sleb_enc:
  "- (2 ^ (7 * k + 6)) \<le> sint x \<Longrightarrow> sint x < 2 ^ (7 * k + 6) \<Longrightarrow> length (sleb_enc x) \<le> Suc k"
proof (induction k arbitrary: x)
  case 0
  define b :: u8 where "b = ucast x AND 0x7f"
  define y where "y = signed_drop_bit 7 x"
  have sy: "sint y = sint x div 128"
    by (simp add: y_def sint_signed_drop_bit_eq drop_bit_int_def)
  have b6: "bit b 6 = bit x 6" by (simp add: b_def byte_masks bit_simps)
  have "bit x 6 = odd (sint x div 64)"
    using bit_sint_iff [of x 6] by (simp add: bit_iff_odd [of "sint x"])
  then have "y = 0 \<and> \<not> bit b 6 \<or> y = -1 \<and> bit b 6"
  proof (cases "sint x < 0")
    case True
    with 0 have "sint x div 64 = -1" "sint x div 128 = -1" by auto
    with sy b6 \<open>bit x 6 = odd (sint x div 64)\<close> show ?thesis
      by (metis even_minus odd_one signed_word_eqI sint_n1)
  next
    case False
    with 0 have "sint x div 64 = 0" "sint x div 128 = 0" by auto
    with sy b6 \<open>bit x 6 = odd (sint x div 64)\<close> show ?thesis
      by (metis even_zero signed_word_eqI sint_0)
  qed
  then show ?case by (subst sleb_enc.simps) (simp add: Let_def b_def y_def byte_masks)
next
  case (Suc k)
  define y where "y = signed_drop_bit 7 x"
  have sy: "sint y = sint x div 128"
    by (simp add: y_def sint_signed_drop_bit_eq drop_bit_int_def)
  have pw: "(2 :: int) ^ (7 * Suc k + 6) = 128 * 2 ^ (7 * k + 6)" by (simp add: power_add)
  have "length (sleb_enc y) \<le> Suc k"
    using Suc.prems unfolding pw by (intro Suc.IH) (auto simp: sy)
  then show ?case by (subst sleb_enc.simps) (simp add: Let_def y_def)
qed

lemma length_sleb_enc_10: "length (sleb_enc x) \<le> 10"
proof -
  have "- (2 ^ 63) \<le> sint x" "sint x < 2 ^ 63"
    using sint_greater_eq [of x] sint_less [of x] by simp_all
  then show ?thesis using length_sleb_enc [of 9 x] by simp
qed

lemma bit_minus_exp: "bit (- (2 ^ k) :: u64) i \<longleftrightarrow> k \<le> i \<and> i < 64"
proof -
  have "- (2 ^ k) = (NOT (mask k) :: u64)" by (simp add: minus_exp_eq_not_mask)
  then show ?thesis by (auto simp: bit_simps)
qed

lemma read_sleb128_enc:
  assumes "bytes_at m p (sleb_enc x)" and "unat p + length (sleb_enc x) \<le> unat lim"
  shows "read_sleb128 m lim p = Ret (x, p + of_nat (length (sleb_enc x)))"
proof -
  let ?bs = "sleb_enc x"
  have loop: "sleb_loop m lim 0 0 p =
      Ret (leb_val ?bs, 7 * length ?bs, last ?bs, p + of_nat (length ?bs))"
    using sleb_loop_chunk [OF assms(1) leb_chunk_sleb_enc assms(2), of 0 0] length_sleb_enc_10 [of x]
    by simp
  have "(if 7 * length ?bs < 64 \<and> last ?bs AND 0x40 \<noteq> 0
         then leb_val ?bs OR - push_bit (7 * length ?bs) 1 else leb_val ?bs) = x" (is "?v = x")
  proof (rule bit_word_eqI)
    fix i assume "i < LENGTH(64)"
    then show "bit ?v i = bit x i"
      using bit_leb_val [of ?bs i] sleb_enc_bits [of i x] by (auto simp: bit_or_iff bit_minus_exp and_40)
  qed
  then show ?thesis by (simp add: read_sleb128_def loop)
qed

section \<open>The readers stay inside the stream\<close>

definition range_mapped :: "mem \<Rightarrow> addr \<Rightarrow> addr \<Rightarrow> bool" where
  "range_mapped m p lim \<longleftrightarrow> (\<forall>x. p \<le> x \<and> x < lim \<longrightarrow> m x \<noteq> None)"

lemma less_Suc_word: "p < (lim :: addr) \<Longrightarrow> p < p + 1 \<and> p + 1 \<le> lim"
  by (metis inc_le add.commute less_imp_Suc_nonzero unat_Suc_less lessI word_less_nat_alt)

lemma uleb_loop_bounds: "uleb_loop m lim r sh p = Ret (v, q) \<Longrightarrow> p < q \<and> q \<le> lim"
proof (induction m lim r sh p rule: uleb_loop.induct)
  case (1 m lim r sh p)
  from "1.prems" have "\<not> lim \<le> p" by (subst (asm) uleb_loop.simps) auto
  then have p: "p < p + 1" "p + 1 \<le> lim" using less_Suc_word [of p lim] by auto
  from "1.prems" \<open>\<not> lim \<le> p\<close> obtain b where b: "m p = Some b"
    and res: "uleb_loop m lim (r OR push_bit sh (ucast (b AND 0x7f))) (sh + 7) (p + 1) = Ret (v, q)
      \<or> q = p + 1" and sh: "\<not> 64 \<le> sh" "b AND 0x80 \<noteq> 0 \<or> q = p + 1"
    by (subst (asm) uleb_loop.simps) (auto simp: Let_def split: if_splits)
  show ?case
  proof (cases "q = p + 1")
    case False
    with res sh "1.IH" [OF \<open>\<not> lim \<le> p\<close>, of b] b have "p + 1 < q \<and> q \<le> lim" by auto
    with p show ?thesis by auto
  qed (use p in simp)
qed

lemma uleb_loop_no_fault: "range_mapped m p lim \<Longrightarrow> uleb_loop m lim r sh p \<noteq> Fault"
proof (induction m lim r sh p rule: uleb_loop.induct)
  case (1 m lim r sh p)
  show ?case
  proof (cases "lim \<le> p")
    case True
    then show ?thesis by (simp add: uleb_loop.simps)
  next
    case False
    with "1.prems" obtain b where b: "m p = Some b" by (auto simp: range_mapped_def not_le)
    from False have "p < p + 1" using less_Suc_word [of p lim] by auto
    with "1.prems" have "range_mapped m (p + 1) lim" by (auto simp: range_mapped_def)
    with "1.IH" [OF False, of b] b False show ?thesis
      by (subst uleb_loop.simps) (auto simp: Let_def)
  qed
qed

lemma read_uleb128_bounds: "read_uleb128 m lim p = Ret (v, q) \<Longrightarrow> p < q \<and> q \<le> lim"
  unfolding read_uleb128_def by (rule uleb_loop_bounds)

lemma read_uleb128_no_fault: "range_mapped m p lim \<Longrightarrow> read_uleb128 m lim p \<noteq> Fault"
  unfolding read_uleb128_def by (rule uleb_loop_no_fault)

lemma sleb_loop_bounds: "sleb_loop m lim r sh p = Ret (v, n, y, q) \<Longrightarrow> p < q \<and> q \<le> lim"
proof (induction m lim r sh p rule: sleb_loop.induct)
  case (1 m lim r sh p)
  from "1.prems" have "\<not> lim \<le> p" by (subst (asm) sleb_loop.simps) auto
  then have p: "p < p + 1" "p + 1 \<le> lim" using less_Suc_word [of p lim] by auto
  from "1.prems" \<open>\<not> lim \<le> p\<close> obtain b where b: "m p = Some b"
    and res: "sleb_loop m lim (r OR push_bit sh (ucast (b AND 0x7f))) (sh + 7) (p + 1) = Ret (v, n, y, q)
      \<or> q = p + 1" and sh: "\<not> 64 \<le> sh" "b AND 0x80 \<noteq> 0 \<or> q = p + 1"
    by (subst (asm) sleb_loop.simps) (auto simp: Let_def split: if_splits)
  show ?case
  proof (cases "q = p + 1")
    case False
    with res sh "1.IH" [OF \<open>\<not> lim \<le> p\<close>, of b] b have "p + 1 < q \<and> q \<le> lim" by auto
    with p show ?thesis by auto
  qed (use p in simp)
qed

lemma read_sleb128_bounds: "read_sleb128 m lim p = Ret (v, q) \<Longrightarrow> p < q \<and> q \<le> lim"
  unfolding read_sleb128_def by (auto dest: sleb_loop_bounds split: if_splits)

section \<open>Opcode bytes and their arguments\<close>

text \<open>The streams' opcode bytes: the opcode in the high nibble, an immediate in the low one.\<close>

lemma opcode_masks [simp]:
  fixes i :: u8
  assumes "i AND 0xF0 = 0"
  shows "(0x10 OR i) AND 0xF0 = 0x10" "(0x20 OR i) AND 0xF0 = 0x20" "(0x30 OR i) AND 0xF0 = 0x30"
    "(0x40 OR i) AND 0xF0 = 0x40" "(0x50 OR i) AND 0xF0 = 0x50" "(0x60 OR i) AND 0xF0 = 0x60"
    "(0x70 OR i) AND 0xF0 = 0x70" "(0x80 OR i) AND 0xF0 = 0x80"
    "(0x90 OR i) AND 0xF0 = 0x90" "(0xA0 OR i) AND 0xF0 = 0xA0" "(0xB0 OR i) AND 0xF0 = 0xB0"
    "(0xC0 OR i) AND 0xF0 = 0xC0"
  using assms by (simp_all add: bit.conj_disj_distrib2)

lemma imm_nibble: "i AND 0xF0 = 0 \<Longrightarrow> i AND 0x0F = (i :: u8)"
proof -
  assume "i AND 0xF0 = 0"
  then have "i AND 0x0F = i AND (0x0F OR 0xF0)" by (simp only: bit.conj_disj_distrib) simp
  also have "0x0F OR 0xF0 = (- 1 :: u8)" by simp
  finally show ?thesis by (simp only: bit.conj_one_right)
qed

lemma imm_masks [simp]:
  fixes i :: u8
  assumes "i AND 0xF0 = 0"
  shows "(0x10 OR i) AND 0x0F = i" "(0x20 OR i) AND 0x0F = i" "(0x30 OR i) AND 0x0F = i"
    "(0x40 OR i) AND 0x0F = i" "(0x50 OR i) AND 0x0F = i" "(0x60 OR i) AND 0x0F = i"
    "(0x70 OR i) AND 0x0F = i" "(0x80 OR i) AND 0x0F = i" "(0x90 OR i) AND 0x0F = i"
    "(0xA0 OR i) AND 0x0F = i" "(0xB0 OR i) AND 0x0F = i" "(0xC0 OR i) AND 0x0F = i"
  using imm_nibble [OF assms] by (simp_all add: bit.conj_disj_distrib2)

lemma uleb_enc_ne: "length (uleb_enc v) > 0"
  by (subst uleb_enc.simps) simp

lemma addr_plus_one:
  assumes "unat p + n \<le> unat (lim :: addr)" "0 < n"
  shows "p < lim" "unat (p + 1) = unat p + 1"
proof -
  show "p < lim" using assms by (simp add: word_less_nat_alt)
  then show "unat (p + 1) = unat p + 1" by (simp add: unat_Suc_less)
qed

lemma read_uleb128_at:
  "bytes_at m p (uleb_enc v @ bs) \<Longrightarrow> unat p + length (uleb_enc v) \<le> unat lim \<Longrightarrow>
   read_uleb128 m lim p = Ret (v, p + of_nat (length (uleb_enc v)))"
  by (rule read_uleb128_enc) (auto simp: bytes_at_append)

lemma read_uleb128_arg:
  assumes "bytes_at m p (c # uleb_enc v @ bs)" "unat p + Suc (length (uleb_enc v)) \<le> unat lim"
  shows "read_uleb128 m lim (p + 1) = Ret (v, p + 1 + of_nat (length (uleb_enc v)))"
  using assms addr_plus_one [OF assms(2)] by (intro read_uleb128_enc) (simp_all add: bytes_at_append)

end
