(* ===== verification/Rebase.thy ===== *)
theory Rebase
  imports Image Uleb
begin

text \<open>
  \<open>userland/dyld/rebase.c\<close>: the interpreter of the rebase opcode stream, which adds the
  image's slide to every pointer slot the linker listed.  \<open>do_rebase\<close> is the fixup of one
  slot, \<open>rebase_step\<close> one turn of the loop, \<open>rebase_loop\<close> the loop and \<open>image_rebase\<close> the
  entry point.  Memory is threaded through, since the stream lies in the same address space
  as the slots.

  The abstract side is a list of operations \<open>rop\<close>, their encoding, and the list of fixups
  they stand for.  The lemmas show that the interpreter applies exactly those fixups, in
  order, with every panic and fault, and what applying them does to memory.
\<close>

section \<open>The interpreter\<close>

record rstate =
  rb_type :: u32
  rb_seg :: u32
  rb_off :: u64

definition fixup_addr :: "image \<Rightarrow> u32 \<Rightarrow> u64 \<Rightarrow> addr" where
  "fixup_addr im seg_index seg_offset =
     image_addr im (vmaddr (im_segs im ! unat seg_index) + seg_offset)"

definition do_rebase :: "mem \<Rightarrow> image \<Rightarrow> u32 \<Rightarrow> u64 \<Rightarrow> u32 \<Rightarrow> mem outcome" where
  "do_rebase m im seg_index seg_offset ty =
     (if unat seg_index \<ge> length (im_segs im) then Panic ''rebase: bad segment index''
      else if ty \<noteq> 1 then Panic ''rebase: unsupported type''
      else let slot = fixup_addr im seg_index seg_offset in
        obind (of_mem (load64 m slot)) (\<lambda>v. of_mem (store64 m slot (v + im_slide im))))"

primrec do_rebase_times ::
  "nat \<Rightarrow> mem \<Rightarrow> image \<Rightarrow> u32 \<Rightarrow> u64 \<Rightarrow> u32 \<Rightarrow> u64 \<Rightarrow> (mem \<times> u64) outcome" where
  "do_rebase_times 0 m im seg off ty stride = Ret (m, off)"
| "do_rebase_times (Suc n) m im seg off ty stride =
     obind (do_rebase m im seg off ty) (\<lambda>m'.
       do_rebase_times n m' im seg (off + stride) ty stride)"

definition rebase_step ::
  "mem \<Rightarrow> image \<Rightarrow> u8 \<Rightarrow> u8 \<Rightarrow> rstate \<Rightarrow> addr \<Rightarrow> (mem \<times> rstate \<times> addr) outcome" where
  "rebase_step m im opcode imm st p =
     (let lim = rebase_end im in
      if opcode = 0x10 then Ret (m, st\<lparr>rb_type := ucast imm\<rparr>, p)
      else if opcode = 0x20 then
        obind (read_uleb128 m lim p) (\<lambda>(v, p'). Ret (m, st\<lparr>rb_seg := ucast imm, rb_off := v\<rparr>, p'))
      else if opcode = 0x30 then
        obind (read_uleb128 m lim p) (\<lambda>(v, p'). Ret (m, st\<lparr>rb_off := rb_off st + v\<rparr>, p'))
      else if opcode = 0x40 then Ret (m, st\<lparr>rb_off := rb_off st + ucast imm * 8\<rparr>, p)
      else if opcode = 0x50 then
        obind (do_rebase_times (unat imm) m im (rb_seg st) (rb_off st) (rb_type st) 8)
          (\<lambda>(m', off). Ret (m', st\<lparr>rb_off := off\<rparr>, p))
      else if opcode = 0x60 then
        obind (read_uleb128 m lim p) (\<lambda>(count, p').
        obind (do_rebase_times (unat count) m im (rb_seg st) (rb_off st) (rb_type st) 8)
          (\<lambda>(m', off). Ret (m', st\<lparr>rb_off := off\<rparr>, p')))
      else if opcode = 0x70 then
        obind (do_rebase m im (rb_seg st) (rb_off st) (rb_type st)) (\<lambda>m'.
        obind (read_uleb128 m' lim p) (\<lambda>(v, p').
          Ret (m', st\<lparr>rb_off := rb_off st + (v + 8)\<rparr>, p')))
      else if opcode = 0x80 then
        obind (read_uleb128 m lim p) (\<lambda>(count, p1).
        obind (read_uleb128 m lim p1) (\<lambda>(skip, p2).
        obind (do_rebase_times (unat count) m im (rb_seg st) (rb_off st) (rb_type st) (skip + 8))
          (\<lambda>(m', off). Ret (m', st\<lparr>rb_off := off\<rparr>, p2))))
      else Panic ''rebase: unknown opcode'')"

lemma rebase_step_progress:
  "rebase_step m im opcode imm st p = Ret (m', st', p') \<Longrightarrow> p \<le> p'"
  unfolding rebase_step_def Let_def
  by (auto split: if_splits prod.splits dest!: read_uleb128_bounds)

function rebase_loop :: "mem \<Rightarrow> image \<Rightarrow> rstate \<Rightarrow> addr \<Rightarrow> mem outcome" where
  "rebase_loop m im st p =
     (if p < rebase_end im then
        obind (of_mem (m p)) (\<lambda>byte.
          if byte AND 0xF0 = 0 then Ret m
          else obind (rebase_step m im (byte AND 0xF0) (byte AND 0x0F) st (p + 1))
            (\<lambda>(m', st', p'). rebase_loop m' im st' p'))
      else Ret m)"
  by pat_completeness auto
termination
proof (relation "measure (\<lambda>(m, im, st, p). unat (rebase_end im) - unat p)", goal_cases)
  case (2 m im st p byte r m' r' st' p')
  from 2 have "p + 1 \<le> p'" by (auto dest: rebase_step_progress)
  moreover have "unat (p + 1) = Suc (unat p)" using 2(1) by (rule unat_Suc_less)
  ultimately show ?case using 2(1) by (simp add: word_le_nat_alt word_less_nat_alt)
qed simp

declare rebase_loop.simps [simp del]

definition image_rebase :: "mem \<Rightarrow> image \<Rightarrow> mem outcome" where
  "image_rebase m im =
     (if rebase_start im = 0 then Ret m
      else rebase_loop m im \<lparr>rb_type = 0, rb_seg = 0, rb_off = 0\<rparr> (rebase_start im))"

section \<open>Operations, their encoding and their fixups\<close>

datatype rop =
    SetType u8
  | SetSegOff u8 u64
  | AddAddr u64
  | AddScaled u8
  | TimesImm u8
  | TimesUleb u64
  | ThenAdd u64
  | TimesSkip u64 u64

fun rop_enc :: "rop \<Rightarrow> u8 list" where
  "rop_enc (SetType i) = [0x10 OR i]"
| "rop_enc (SetSegOff i v) = (0x20 OR i) # uleb_enc v"
| "rop_enc (AddAddr v) = 0x30 # uleb_enc v"
| "rop_enc (AddScaled i) = [0x40 OR i]"
| "rop_enc (TimesImm i) = [0x50 OR i]"
| "rop_enc (TimesUleb n) = 0x60 # uleb_enc n"
| "rop_enc (ThenAdd v) = 0x70 # uleb_enc v"
| "rop_enc (TimesSkip n k) = 0x80 # uleb_enc n @ uleb_enc k"

fun rop_ok :: "rop \<Rightarrow> bool" where
  "rop_ok (SetType i) = (i AND 0xF0 = 0)"
| "rop_ok (SetSegOff i v) = (i AND 0xF0 = 0)"
| "rop_ok (AddScaled i) = (i AND 0xF0 = 0)"
| "rop_ok (TimesImm i) = (i AND 0xF0 = 0)"
| "rop_ok _ = True"

text \<open>A fixup: segment index, offset in the segment, type.\<close>

type_synonym fixup = "u32 \<times> u64 \<times> u32"

primrec fix_times :: "nat \<Rightarrow> u32 \<Rightarrow> u64 \<Rightarrow> u32 \<Rightarrow> u64 \<Rightarrow> fixup list" where
  "fix_times 0 seg off ty stride = []"
| "fix_times (Suc n) seg off ty stride = (seg, off, ty) # fix_times n seg (off + stride) ty stride"

fun rop_run :: "rop \<Rightarrow> rstate \<Rightarrow> fixup list \<times> rstate" where
  "rop_run (SetType i) st = ([], st\<lparr>rb_type := ucast i\<rparr>)"
| "rop_run (SetSegOff i v) st = ([], st\<lparr>rb_seg := ucast i, rb_off := v\<rparr>)"
| "rop_run (AddAddr v) st = ([], st\<lparr>rb_off := rb_off st + v\<rparr>)"
| "rop_run (AddScaled i) st = ([], st\<lparr>rb_off := rb_off st + ucast i * 8\<rparr>)"
| "rop_run (TimesImm i) st =
     (fix_times (unat i) (rb_seg st) (rb_off st) (rb_type st) 8,
      st\<lparr>rb_off := rb_off st + ucast i * 8\<rparr>)"
| "rop_run (TimesUleb n) st =
     (fix_times (unat n) (rb_seg st) (rb_off st) (rb_type st) 8, st\<lparr>rb_off := rb_off st + n * 8\<rparr>)"
| "rop_run (ThenAdd v) st =
     ([(rb_seg st, rb_off st, rb_type st)], st\<lparr>rb_off := rb_off st + (v + 8)\<rparr>)"
| "rop_run (TimesSkip n k) st =
     (fix_times (unat n) (rb_seg st) (rb_off st) (rb_type st) (k + 8),
      st\<lparr>rb_off := rb_off st + n * (k + 8)\<rparr>)"

fun rops_fixups :: "rop list \<Rightarrow> rstate \<Rightarrow> fixup list" where
  "rops_fixups [] st = []"
| "rops_fixups (r # rs) st = fst (rop_run r st) @ rops_fixups rs (snd (rop_run r st))"

fun do_rebases :: "mem \<Rightarrow> image \<Rightarrow> fixup list \<Rightarrow> mem outcome" where
  "do_rebases m im [] = Ret m"
| "do_rebases m im ((seg, off, ty) # fs) =
     obind (do_rebase m im seg off ty) (\<lambda>m'. do_rebases m' im fs)"

text \<open>No fixup writes into the region \<open>A\<close>.\<close>

definition avoids :: "image \<Rightarrow> addr set \<Rightarrow> fixup list \<Rightarrow> bool" where
  "avoids im A fs \<longleftrightarrow>
     (\<forall>(seg, off, ty)\<in>set fs. unat seg < length (im_segs im) \<longrightarrow>
        span (fixup_addr im seg off) 8 \<inter> A = {})"

section \<open>The interpreter applies the fixups of its stream\<close>

lemma do_rebases_append:
  "do_rebases m im (fs @ gs) = obind (do_rebases m im fs) (\<lambda>m'. do_rebases m' im gs)"
  by (induction m im fs rule: do_rebases.induct) (auto simp: obind_assoc intro: obind_cong)

lemma do_rebase_times_fixups:
  "do_rebase_times n m im seg off ty stride =
   obind (do_rebases m im (fix_times n seg off ty stride)) (\<lambda>m'. Ret (m', off + of_nat n * stride))"
  by (induction n arbitrary: m off) (auto simp: obind_assoc algebra_simps intro: obind_cong)

lemma do_rebase_frame:
  "do_rebase m im seg off ty = Ret m' \<Longrightarrow> avoids im A [(seg, off, ty)] \<Longrightarrow> x \<in> A \<Longrightarrow> m' x = m x"
  by (auto simp: do_rebase_def Let_def avoids_def split: if_splits dest!: store64_frame)

lemma do_rebases_frame:
  "do_rebases m im fs = Ret m' \<Longrightarrow> avoids im A fs \<Longrightarrow> x \<in> A \<Longrightarrow> m' x = m x"
proof (induction m im fs rule: do_rebases.induct)
  case (2 m im seg off ty fs)
  then obtain m1 where "do_rebase m im seg off ty = Ret m1" "do_rebases m1 im fs = Ret m'" by auto
  moreover from 2(3) have "avoids im A [(seg, off, ty)]" "avoids im A fs" by (auto simp: avoids_def)
  ultimately show ?case using 2(1,4) do_rebase_frame by fastforce
qed simp

lemma avoids_append [simp]: "avoids im A (fs @ gs) \<longleftrightarrow> avoids im A fs \<and> avoids im A gs"
  by (simp add: avoids_def ball_Un)

lemma avoids_mono: "avoids im B fs \<Longrightarrow> A \<subseteq> B \<Longrightarrow> avoids im A fs"
  by (fastforce simp: avoids_def)

lemma do_rebases_bytes:
  "do_rebases m im fs = Ret m' \<Longrightarrow> avoids im (span p (length bs)) fs \<Longrightarrow>
   bytes_at m' p bs = bytes_at m p bs"
  by (rule bytes_at_cong) (rule do_rebases_frame)

lemma rop_enc_pos: "0 < length (rop_enc r)"
  by (cases r) simp_all

lemma rebase_loop_turn:
  "p < rebase_end im \<Longrightarrow> m p = Some b \<Longrightarrow> b AND 0xF0 \<noteq> 0 \<Longrightarrow>
   rebase_loop m im st p =
     obind (rebase_step m im (b AND 0xF0) (b AND 0x0F) st (p + 1))
       (\<lambda>(m', st', p'). rebase_loop m' im st' p')"
  by (subst rebase_loop.simps) simp

lemma rebase_loop_op:
  assumes at: "bytes_at m p (rop_enc r)" and ok: "rop_ok r"
    and lim: "unat p + length (rop_enc r) \<le> unat (rebase_end im)"
    and clear: "avoids im (span p (length (rop_enc r))) (fst (rop_run r st))"
  shows "rebase_loop m im st p =
    obind (do_rebases m im (fst (rop_run r st))) (\<lambda>m'.
      rebase_loop m' im (snd (rop_run r st)) (p + of_nat (length (rop_enc r))))"
proof (cases r)
  case (SetType i)
  with assms addr_plus_one(1) [OF lim rop_enc_pos] show ?thesis
    by (subst rebase_loop_turn [where b = "hd (rop_enc r)"]) (simp_all add: rebase_step_def)
next
  case (SetSegOff i v)
  with at lim have "read_uleb128 m (rebase_end im) (p + 1) = Ret (v, p + 1 + of_nat (length (uleb_enc v)))"
    by (intro read_uleb128_arg [where bs = "[]"]) simp_all
  with SetSegOff assms addr_plus_one(1) [OF lim rop_enc_pos] show ?thesis
    by (subst rebase_loop_turn [where b = "hd (rop_enc r)"]) (simp_all add: rebase_step_def flip: add.assoc)
next
  case (AddAddr v)
  with at lim have "read_uleb128 m (rebase_end im) (p + 1) = Ret (v, p + 1 + of_nat (length (uleb_enc v)))"
    by (intro read_uleb128_arg [where bs = "[]"]) simp_all
  with AddAddr assms addr_plus_one(1) [OF lim rop_enc_pos] show ?thesis
    by (subst rebase_loop_turn [where b = "hd (rop_enc r)"]) (simp_all add: rebase_step_def flip: add.assoc)
next
  case (AddScaled i)
  with assms addr_plus_one(1) [OF lim rop_enc_pos] show ?thesis
    by (subst rebase_loop_turn [where b = "hd (rop_enc r)"]) (simp_all add: rebase_step_def)
next
  case (TimesImm i)
  with assms addr_plus_one(1) [OF lim rop_enc_pos] show ?thesis
    by (subst rebase_loop_turn [where b = "hd (rop_enc r)"]) (simp_all add: rebase_step_def do_rebase_times_fixups obind_assoc)
next
  case (TimesUleb n)
  with at lim have "read_uleb128 m (rebase_end im) (p + 1) = Ret (n, p + 1 + of_nat (length (uleb_enc n)))"
    by (intro read_uleb128_arg [where bs = "[]"]) simp_all
  with TimesUleb assms addr_plus_one(1) [OF lim rop_enc_pos] show ?thesis
    by (subst rebase_loop_turn [where b = "hd (rop_enc r)"])
      (simp_all add: rebase_step_def do_rebase_times_fixups obind_assoc flip: add.assoc)
next
  case (ThenAdd v)
  have "read_uleb128 m' (rebase_end im) (p + 1) = Ret (v, p + 1 + of_nat (length (uleb_enc v)))"
    if "do_rebase m im (rb_seg st) (rb_off st) (rb_type st) = Ret m'" for m'
  proof -
    have "do_rebases m im [(rb_seg st, rb_off st, rb_type st)] = Ret m'" using that by simp
    from do_rebases_bytes [OF this, of p "rop_enc r"] clear at
    have "bytes_at m' p (rop_enc r)" by (simp add: ThenAdd)
    then show ?thesis using lim addr_plus_one [OF lim rop_enc_pos]
      by (intro read_uleb128_enc) (simp_all add: ThenAdd)
  qed
  with ThenAdd assms addr_plus_one(1) [OF lim rop_enc_pos] show ?thesis
    by (subst rebase_loop_turn [where b = "hd (rop_enc r)"]) (auto simp: rebase_step_def obind_assoc simp flip: add.assoc intro: obind_cong)
next
  case (TimesSkip n k)
  let ?q = "p + 1 + of_nat (length (uleb_enc n))"
  have "unat ?q = unat p + 1 + length (uleb_enc n)"
    using lim addr_plus_one(2) [OF lim rop_enc_pos] unat_u64_less [of "rebase_end im"]
    by (subst unat_plus_of_nat) (simp_all add: TimesSkip)
  moreover have "read_uleb128 m (rebase_end im) (p + 1) = Ret (n, ?q)"
    using at lim by (intro read_uleb128_arg [where bs = "uleb_enc k"]) (simp_all add: TimesSkip)
  moreover have "bytes_at m ?q (uleb_enc k)"
    using at by (simp add: TimesSkip bytes_at_append)
  ultimately have "read_uleb128 m (rebase_end im) (p + 1) = Ret (n, ?q)"
    "read_uleb128 m (rebase_end im) ?q = Ret (k, ?q + of_nat (length (uleb_enc k)))"
    using lim by (simp_all add: read_uleb128_enc TimesSkip)
  with TimesSkip assms addr_plus_one(1) [OF lim rop_enc_pos] show ?thesis
    by (subst rebase_loop_turn [where b = "hd (rop_enc r)"])
      (simp_all add: rebase_step_def do_rebase_times_fixups obind_assoc flip: add.assoc)
qed

lemma rebase_loop_ops:
  assumes "bytes_at m p (concat (map rop_enc rs) @ [0])" "\<forall>r\<in>set rs. rop_ok r"
    "unat p + length (concat (map rop_enc rs)) < unat (rebase_end im)"
    "avoids im (span p (Suc (length (concat (map rop_enc rs))))) (rops_fixups rs st)"
  shows "rebase_loop m im st p = do_rebases m im (rops_fixups rs st)"
  using assms
proof (induction rs arbitrary: m st p)
  case Nil
  then show ?case by (subst rebase_loop.simps) (simp add: word_less_nat_alt)
next
  case (Cons r rs)
  let ?n = "length (rop_enc r)" and ?rest = "concat (map rop_enc rs)"
  let ?q = "p + of_nat ?n"
  from Cons.prems have at: "bytes_at m p (rop_enc r)" "bytes_at m ?q (?rest @ [0])"
    by (simp_all add: bytes_at_append)
  have sp: "span p (Suc (length (concat (map rop_enc (r # rs))))) = span p ?n \<union> span ?q (Suc (length ?rest))"
    by (simp flip: span_append)
  from Cons.prems(4) have clear: "avoids im (span p ?n) (fst (rop_run r st))"
    "avoids im (span ?q (Suc (length ?rest))) (fst (rop_run r st))"
    "avoids im (span ?q (Suc (length ?rest))) (rops_fixups rs (snd (rop_run r st)))"
    unfolding sp by (auto elim: avoids_mono)
  have uq: "unat ?q = unat p + ?n"
    using Cons.prems(3) unat_u64_less [of "rebase_end im"] by (intro unat_plus_of_nat) simp
  have "rebase_loop m im st p = obind (do_rebases m im (fst (rop_run r st)))
      (\<lambda>m'. rebase_loop m' im (snd (rop_run r st)) ?q)"
    using Cons.prems at clear by (intro rebase_loop_op) auto
  also have "\<dots> = obind (do_rebases m im (fst (rop_run r st)))
      (\<lambda>m'. do_rebases m' im (rops_fixups rs (snd (rop_run r st))))"
  proof (rule obind_cong [OF refl], rule Cons.IH)
    fix m' assume "do_rebases m im (fst (rop_run r st)) = Ret m'"
    from do_rebases_bytes [OF this, of ?q "?rest @ [0]"] clear(2) at(2)
    show "bytes_at m' ?q (?rest @ [0])" by simp
  qed (use Cons.prems clear(3) uq in auto)
  finally show ?case by (simp add: do_rebases_append)
qed

section \<open>What the fixups do to memory\<close>

fun fixup_slot :: "image \<Rightarrow> fixup \<Rightarrow> addr" where
  "fixup_slot im (seg, off, ty) = fixup_addr im seg off"

fun fixup_ok :: "image \<Rightarrow> fixup \<Rightarrow> bool" where
  "fixup_ok im (seg, off, ty) \<longleftrightarrow> unat seg < length (im_segs im) \<and> ty = 1"

definition slots_disjoint :: "image \<Rightarrow> fixup list \<Rightarrow> bool" where
  "slots_disjoint im =
     sorted_wrt (\<lambda>f g. span (fixup_slot im f) 8 \<inter> span (fixup_slot im g) 8 = {})"

lemma do_rebase_ok:
  assumes "fixup_ok im (seg, off, ty)" "mapped m (fixup_addr im seg off) 8"
  obtains m' where "do_rebase m im seg off ty = Ret m'"
    "load64 m' (fixup_addr im seg off) =
       map_option (\<lambda>v. v + im_slide im) (load64 m (fixup_addr im seg off))"
    "\<And>x. x \<notin> span (fixup_addr im seg off) 8 \<Longrightarrow> m' x = m x"
    "\<And>x. (m' x = None) = (m x = None)"
proof -
  let ?a = "fixup_addr im seg off"
  obtain v where v: "load64 m ?a = Some v" using load64_mapped assms(2) by blast
  obtain m' where m': "store64 m ?a (v + im_slide im) = Some m'" using store64_mapped assms(2) by blast
  show thesis
  proof (rule that)
    show "do_rebase m im seg off ty = Ret m'" using assms(1) v m' by (simp add: do_rebase_def)
  qed (use m' v in \<open>auto simp: load64_store64 store64_dom dest: store64_frame\<close>)
qed

lemma do_rebases_effect:
  "\<forall>f\<in>set fs. fixup_ok im f \<and> mapped m (fixup_slot im f) 8 \<Longrightarrow> slots_disjoint im fs \<Longrightarrow>
   \<exists>m'. do_rebases m im fs = Ret m'
     \<and> (\<forall>f\<in>set fs. load64 m' (fixup_slot im f) =
          map_option (\<lambda>v. v + im_slide im) (load64 m (fixup_slot im f)))
     \<and> (\<forall>x. x \<notin> (\<Union>f\<in>set fs. span (fixup_slot im f) 8) \<longrightarrow> m' x = m x)"
proof (induction fs arbitrary: m)
  case Nil
  then show ?case by simp
next
  case (Cons f fs)
  obtain seg off ty where f: "f = (seg, off, ty)" by (cases f)
  let ?a = "fixup_addr im seg off"
  from Cons.prems(1) have ok: "fixup_ok im (seg, off, ty)" and mp: "mapped m ?a 8" by (auto simp: f)
  from do_rebase_ok [OF ok mp] obtain m1 where m1: "do_rebase m im seg off ty = Ret m1"
    "load64 m1 ?a = map_option (\<lambda>v. v + im_slide im) (load64 m ?a)"
    "\<And>x. x \<notin> span ?a 8 \<Longrightarrow> m1 x = m x" "\<And>x. (m1 x = None) = (m x = None)" by blast
  have "\<forall>f\<in>set fs. fixup_ok im f \<and> mapped m1 (fixup_slot im f) 8"
    using Cons.prems(1) mapped_cong [of m1 m, OF m1(4)] by simp
  moreover have dis: "slots_disjoint im fs" "\<forall>g\<in>set fs. span ?a 8 \<inter> span (fixup_slot im g) 8 = {}"
    using Cons.prems(2) by (auto simp: slots_disjoint_def f)
  ultimately obtain m' where m': "do_rebases m1 im fs = Ret m'"
    "\<forall>f\<in>set fs. load64 m' (fixup_slot im f) =
       map_option (\<lambda>v. v + im_slide im) (load64 m1 (fixup_slot im f))"
    "\<forall>x. x \<notin> (\<Union>f\<in>set fs. span (fixup_slot im f) 8) \<longrightarrow> m' x = m1 x"
    using Cons.IH by blast
  have "load64 m1 (fixup_slot im g) = load64 m (fixup_slot im g)" if "g \<in> set fs" for g
    by (rule load64_cong) (use that dis(2) m1(3) in blast)
  moreover have "load64 m' ?a = load64 m1 ?a"
    by (rule load64_cong) (use dis(2) m'(3) in blast)
  ultimately show ?case using m1 m' by (intro exI [of _ m']) (auto simp: f)
qed

section \<open>Properties\<close>

text \<open>C5 the rebase interpreter applies exactly the fixups its opcode stream stands for, in
  stream order, and with every panic and fault of the single fixups, as long as no fixup
  overwrites the stream itself.\<close>

theorem image_rebase_refines:
  assumes "rebase_start im \<noteq> 0" and "\<forall>r\<in>set rs. rop_ok r"
    and "bytes_at m (rebase_start im) (concat (map rop_enc rs) @ [0])"
    and "unat (rebase_start im) + length (concat (map rop_enc rs)) < unat (rebase_end im)"
    and "avoids im (span (rebase_start im) (Suc (length (concat (map rop_enc rs)))))
           (rops_fixups rs \<lparr>rb_type = 0, rb_seg = 0, rb_off = 0\<rparr>)"
  shows "image_rebase m im = do_rebases m im (rops_fixups rs \<lparr>rb_type = 0, rb_seg = 0, rb_off = 0\<rparr>)"
  using assms rebase_loop_ops [OF assms(3,2,4,5)] by (simp add: image_rebase_def)

text \<open>rebasing adds the slide to every listed pointer slot, once, and changes no other
  byte of memory.\<close>

theorem image_rebase_effect:
  assumes "rebase_start im \<noteq> 0" and "\<forall>r\<in>set rs. rop_ok r"
    and "bytes_at m (rebase_start im) (concat (map rop_enc rs) @ [0])"
    and "unat (rebase_start im) + length (concat (map rop_enc rs)) < unat (rebase_end im)"
    and "fs = rops_fixups rs \<lparr>rb_type = 0, rb_seg = 0, rb_off = 0\<rparr>"
    and "avoids im (span (rebase_start im) (Suc (length (concat (map rop_enc rs))))) fs"
    and "\<forall>f\<in>set fs. fixup_ok im f \<and> mapped m (fixup_slot im f) 8" and "slots_disjoint im fs"
  shows "\<exists>m'. image_rebase m im = Ret m'
    \<and> (\<forall>f\<in>set fs. load64 m' (fixup_slot im f) =
         map_option (\<lambda>v. v + im_slide im) (load64 m (fixup_slot im f)))
    \<and> (\<forall>x. x \<notin> (\<Union>f\<in>set fs. span (fixup_slot im f) 8) \<longrightarrow> m' x = m x)"
proof -
  have "image_rebase m im = do_rebases m im fs"
    using rebase_loop_ops [OF assms(3,2,4)] assms(1,5,6) by (simp add: image_rebase_def)
  with do_rebases_effect [OF assms(7,8)] show ?thesis by simp
qed

text \<open>Two adjacent slots at 0x800, slide 0x100, listed by a stream at 0x400.\<close>

definition rebase_ops :: "rop list" where
  "rebase_ops = [SetType 1, SetSegOff 0 0, TimesImm 2]"

definition rebase_mem :: mem where
  "rebase_mem = mem_of 0x400 (concat (map rop_enc rebase_ops) @ [0])
     ++ mem_of 0x800 (le_bytes 8 (0x7000 :: u64) @ le_bytes 8 (0x7010 :: u64))"

definition rebase_image :: image where
  "rebase_image = blank_image\<lparr>im_slide := 0x100,
     im_segs := [\<lparr>vmaddr = 0x700, vmsize = 0x100, fileoff = 0, filesize = 0x100\<rparr>],
     rebase_start := 0x400, rebase_end := 0x406\<rparr>"

lemma rebase_sample_bytes: "concat (map rop_enc rebase_ops) = [0x11, 0x20, 0, 0x52]"
  by (simp add: rebase_ops_def uleb_enc.simps)

lemma rebase_sample_addrs:
  "fixup_addr rebase_image 0 0 = 0x800" "fixup_addr rebase_image 0 8 = 0x808"
  "rebase_start rebase_image = 0x400" "rebase_end rebase_image = 0x406"
  by (simp_all add: rebase_image_def fixup_addr_def image_addr_def)

lemma rebase_sample_hyps:
  "rebase_start rebase_image \<noteq> 0" "\<forall>r\<in>set rebase_ops. rop_ok r"
  "bytes_at rebase_mem (rebase_start rebase_image) (concat (map rop_enc rebase_ops) @ [0])"
  "unat (rebase_start rebase_image) + length (concat (map rop_enc rebase_ops))
     < unat (rebase_end rebase_image)"
  unfolding rebase_sample_bytes rebase_sample_addrs
  by (simp_all add: rebase_ops_def rebase_mem_def mem_of_def map_add_def uleb_enc.simps)

lemma rebase_sample_avoids:
  "avoids rebase_image
     (span (rebase_start rebase_image) (Suc (length (concat (map rop_enc rebase_ops)))))
     [(0, 0, 1), (0, 8, 1)]"
proof -
  have "span 0x400 5 \<inter> span 0x800 8 = {}" "span 0x400 5 \<inter> span 0x808 8 = {}"
    by (intro span_disjoint; simp)+
  then show ?thesis
    by (simp add: avoids_def Int_commute rebase_sample_bytes rebase_sample_addrs eval_nat_numeral)
qed

lemma rebase_sample_fixups:
  "rops_fixups rebase_ops \<lparr>rb_type = 0, rb_seg = 0, rb_off = 0\<rparr> = [(0, 0, 1), (0, 8, 1)]"
  "\<forall>f\<in>set [(0, 0, 1), (0, 8, 1)]. fixup_ok rebase_image f \<and> mapped rebase_mem (fixup_slot rebase_image f) 8"
  "slots_disjoint rebase_image [(0, 0, 1), (0, 8, 1)]"
  by code_simp+

theorem image_rebase_refines_witness:
  "image_rebase rebase_mem rebase_image = do_rebases rebase_mem rebase_image [(0, 0, 1), (0, 8, 1)]"
  using image_rebase_refines [OF rebase_sample_hyps] rebase_sample_avoids rebase_sample_fixups(1)
  by simp

theorem image_rebase_effect_witness:
  "\<exists>m'. image_rebase rebase_mem rebase_image = Ret m'
     \<and> load64 m' 0x800 = Some 0x7100 \<and> load64 m' 0x808 = Some 0x7110"
proof -
  have "fixup_slot rebase_image (0, 0, 1) = 0x800" "fixup_slot rebase_image (0, 8, 1) = 0x808"
    "load64 rebase_mem 0x800 = Some 0x7000" "load64 rebase_mem 0x808 = Some 0x7010"
    "im_slide rebase_image = 0x100" by code_simp+
  with image_rebase_effect [OF rebase_sample_hyps rebase_sample_fixups(1) [symmetric]
      rebase_sample_avoids rebase_sample_fixups(2,3)]
  show ?thesis by auto
qed

end
