(* ===== verification/ExportTrie.thy ===== *)
theory ExportTrie
  imports Image Uleb
begin

text \<open>
  \<open>userland/dyld/export_trie.c\<close>: the walk of the export trie that resolves a symbol name in
  one image.  \<open>resolve_loop\<close> is the outer loop; it has no bound in the source, so it is a
  partial function whose \<open>None\<close> means that it never returns.  \<open>child_loop\<close> is the scan of one
  node's edges; it returns the pointer \<open>next\<close> (0 when no edge matches) and the rest of the
  symbol.

  The abstract side is the datatype \<open>etrie\<close>, the layout predicate \<open>trie_at\<close> and the lookup
  \<open>etrie_find\<close>.  The lemmas show that the walk refines the lookup and that the lookup is the
  finite map of the exported names.
\<close>

section \<open>The walk\<close>

definition label_matches :: "cstr \<Rightarrow> cstr \<Rightarrow> bool" where
  \<comment> \<open>\<open>strncmp(s, label, strlen(label)) == 0\<close>\<close>
  "label_matches s label \<longleftrightarrow> take (length label) s = label"

function child_loop :: "mem \<Rightarrow> image \<Rightarrow> u8 \<Rightarrow> u8 \<Rightarrow> addr \<Rightarrow> cstr \<Rightarrow> (addr \<times> cstr) outcome" where
  "child_loop m im count i p s =
     (if i < count then
        obind (read_cstr m p) (\<lambda>label.
        obind (read_uleb128 m (export_end im) (p + of_nat (length label) + 1)) (\<lambda>(child_off, p').
          if label_matches s label
          then Ret (export_start im + child_off, drop (length label) s)
          else child_loop m im count (i + 1) p' s))
      else Ret (0, s))"
  by pat_completeness auto
termination
  by (relation "measure (\<lambda>(m, im, count, i, p, s). unat (count - i))")
    (auto intro: unat_diff_Suc_less)

declare child_loop.simps [simp del]

text \<open>What is returned at a node when the symbol is used up.\<close>

definition terminal_value :: "mem \<Rightarrow> image \<Rightarrow> u64 \<Rightarrow> addr \<Rightarrow> u64 outcome" where
  "terminal_value m im terminal_size p =
     (if terminal_size = 0 then Ret 0
      else obind (read_uleb128 m (export_end im) p) (\<lambda>(flags, p1).
        if flags AND (0x08 OR 0x10) \<noteq> 0 then Ret 0
        else obind (read_uleb128 m (export_end im) p1) (\<lambda>(off, p2). Ret (im_mh im + off))))"

partial_function (option) resolve_loop :: "mem \<Rightarrow> image \<Rightarrow> addr \<Rightarrow> cstr \<Rightarrow> u64 outcome option" where
  "resolve_loop m im p s =
     (case read_uleb128 m (export_end im) p of
        Panic e \<Rightarrow> Some (Panic e) | Fault \<Rightarrow> Some Fault | Undef \<Rightarrow> Some Undef
      | Ret (terminal_size, p1) \<Rightarrow>
          if s = [] then Some (terminal_value m im terminal_size p1)
          else
            (let children = p1 + terminal_size in
             case obind (of_mem (m children)) (\<lambda>count. child_loop m im count 0 (children + 1) s) of
               Panic e \<Rightarrow> Some (Panic e) | Fault \<Rightarrow> Some Fault | Undef \<Rightarrow> Some Undef
             | Ret (next, s') \<Rightarrow> if next = 0 then Some (Ret 0) else resolve_loop m im next s'))"

definition image_resolve_export :: "mem \<Rightarrow> image \<Rightarrow> cstr \<Rightarrow> u64 outcome option" where
  "image_resolve_export m im symbol =
     (if export_start im = 0 then Some (Ret 0)
      else resolve_loop m im (export_start im) symbol)"

section \<open>Abstract tries and their layout\<close>

text \<open>A node: its terminal flags and offset, and its edges (label, node offset, node).\<close>

datatype etrie = ENode "(u64 \<times> u64) option" "(cstr \<times> u64 \<times> etrie) list"

fun etrie_find :: "etrie \<Rightarrow> cstr \<Rightarrow> (u64 \<times> u64) option"
  and edges_find :: "(cstr \<times> u64 \<times> etrie) list \<Rightarrow> cstr \<Rightarrow> (u64 \<times> u64) option" where
  "etrie_find (ENode t es) s = (if s = [] then t else edges_find es s)"
| "edges_find [] s = None"
| "edges_find ((l, off, c) # es) s =
     (if label_matches s l then etrie_find c (drop (length l) s) else edges_find es s)"

fun etrie_entries :: "etrie \<Rightarrow> (cstr \<times> u64 \<times> u64) list"
  and edges_entries :: "(cstr \<times> u64 \<times> etrie) list \<Rightarrow> (cstr \<times> u64 \<times> u64) list" where
  "etrie_entries (ENode t es) =
     (case t of None \<Rightarrow> [] | Some x \<Rightarrow> [([], x)]) @ edges_entries es"
| "edges_entries [] = []"
| "edges_entries ((l, off, c) # es) =
     map (\<lambda>(s, x). (l @ s, x)) (etrie_entries c) @ edges_entries es"

text \<open>Labels are not empty and no label of a node starts another one.\<close>

fun etrie_wf :: "etrie \<Rightarrow> bool"
  and edges_wf :: "(cstr \<times> u64 \<times> etrie) list \<Rightarrow> bool" where
  "etrie_wf (ENode t es) = edges_wf es"
| "edges_wf [] = True"
| "edges_wf ((l, off, c) # es) =
     (l \<noteq> [] \<and> (\<forall>(l', _)\<in>set es. \<not> label_matches l l' \<and> \<not> label_matches l' l)
      \<and> etrie_wf c \<and> edges_wf es)"

definition payload :: "(u64 \<times> u64) option \<Rightarrow> u8 list" where
  "payload t = (case t of None \<Rightarrow> [] | Some (flags, off) \<Rightarrow> uleb_enc flags @ uleb_enc off)"

definition node_head :: "(u64 \<times> u64) option \<Rightarrow> nat \<Rightarrow> u8 list" where
  "node_head t n = uleb_enc (of_nat (length (payload t))) @ payload t @ [of_nat n]"

definition edge_head :: "cstr \<Rightarrow> u64 \<Rightarrow> u8 list" where
  "edge_head l off = l @ [0] @ uleb_enc off"

fun trie_at :: "mem \<Rightarrow> addr \<Rightarrow> addr \<Rightarrow> addr \<Rightarrow> etrie \<Rightarrow> bool"
  and edges_at :: "mem \<Rightarrow> addr \<Rightarrow> addr \<Rightarrow> addr \<Rightarrow> (cstr \<times> u64 \<times> etrie) list \<Rightarrow> bool" where
  "trie_at m start lim p (ENode t es) =
     (bytes_at m p (node_head t (length es)) \<and> length es < 256
      \<and> unat p + length (node_head t (length es)) \<le> unat lim
      \<and> edges_at m start lim (p + of_nat (length (node_head t (length es)))) es)"
| "edges_at m start lim p [] = True"
| "edges_at m start lim p ((l, off, c) # es) =
     (bytes_at m p (edge_head l off) \<and> is_cstr l
      \<and> unat p + length (edge_head l off) \<le> unat lim
      \<and> start + off \<noteq> 0 \<and> trie_at m start lim (start + off) c
      \<and> edges_at m start lim (p + of_nat (length (edge_head l off))) es)"

text \<open>What the walk answers for an abstract lookup: re-exports and resolvers count as absent.\<close>

definition export_answer :: "image \<Rightarrow> (u64 \<times> u64) option \<Rightarrow> u64" where
  "export_answer im r =
     (case r of None \<Rightarrow> 0
      | Some (flags, off) \<Rightarrow> if flags AND (0x08 OR 0x10) \<noteq> 0 then 0 else im_mh im + off)"


section \<open>The walk refines the lookup\<close>

lemma bytes_at_cstr:
  "bytes_at m p (l @ 0 # bs) \<Longrightarrow> is_cstr l \<Longrightarrow> unat p + length l < 2 ^ 64 \<Longrightarrow> cstr_at m p l"
  using bytes_at_append [of m p "l @ [0]" bs] by (simp add: cstr_at_def)

fun first_edge :: "(cstr \<times> u64 \<times> etrie) list \<Rightarrow> cstr \<Rightarrow> (cstr \<times> u64 \<times> etrie) option" where
  "first_edge [] s = None"
| "first_edge ((l, off, c) # es) s =
     (if label_matches s l then Some (l, off, c) else first_edge es s)"

lemma edges_find_first:
  "edges_find es s =
     (case first_edge es s of None \<Rightarrow> None | Some (l, off, c) \<Rightarrow> etrie_find c (drop (length l) s))"
  by (induction es s rule: first_edge.induct) auto

lemma first_edge_at:
  "first_edge es s = Some (l, off, c) \<Longrightarrow> edges_at m start lim p es \<Longrightarrow>
   start + off \<noteq> 0 \<and> trie_at m start lim (start + off) c \<and> is_cstr l \<and> size c < Suc (size_list (size_prod (\<lambda>x. 0) (size_prod (\<lambda>x. 0) size)) es)"
  by (induction es s arbitrary: p rule: first_edge.induct) (fastforce split: if_splits)+

lemma child_step:
  assumes "bytes_at m p (edge_head l off)" "is_cstr l"
    and "unat p + length (edge_head l off) \<le> unat (export_end im)" "i < count"
  shows "child_loop m im count i p s =
    (if label_matches s l then Ret (export_start im + off, drop (length l) s)
     else child_loop m im count (i + 1) (p + of_nat (length (edge_head l off))) s)"
proof -
  let ?q = "p + of_nat (length l) + 1"
  have lim: "unat (export_end im) < 2 ^ 64" by (rule unat_u64_less)
  then have "unat p + length l < 2 ^ 64" using assms(3) by (simp add: edge_head_def)
  then have str: "read_cstr m p = Ret l"
    using assms(1,2) by (intro read_cstr_at bytes_at_cstr) (auto simp: edge_head_def)
  have q: "?q = p + of_nat (length l + 1)" by simp
  have "unat ?q = unat p + (length l + 1)"
    unfolding q using assms(3) lim by (intro unat_plus_of_nat) (simp add: edge_head_def)
  moreover have "bytes_at m ?q (uleb_enc off)"
    using assms(1) by (simp add: edge_head_def bytes_at_append)
  ultimately have "read_uleb128 m (export_end im) ?q = Ret (off, ?q + of_nat (length (uleb_enc off)))"
    using assms(3) by (intro read_uleb128_enc) (simp_all add: edge_head_def)
  with str assms(4) show ?thesis
    by (subst child_loop.simps) (simp add: edge_head_def algebra_simps)
qed

lemma child_loop_edges:
  assumes "edges_at m (export_start im) (export_end im) p es" "unat i + length es = unat count"
  shows "child_loop m im count i p s =
    Ret (case first_edge es s of None \<Rightarrow> (0, s)
         | Some (l, off, c) \<Rightarrow> (export_start im + off, drop (length l) s))"
  using assms
proof (induction es arbitrary: p i)
  case Nil
  then have "\<not> i < count" by (simp add: word_less_nat_alt)
  then show ?case by (subst child_loop.simps) simp
next
  case (Cons e es)
  obtain l off c where e: "e = (l, off, c)" by (cases e)
  from Cons.prems(2) have i: "i < count" by (simp add: word_less_nat_alt)
  then have "unat (i + 1) + length es = unat count"
    using Cons.prems(2) by (simp add: unat_Suc_less)
  from Cons.IH [OF _ this] Cons.prems(1) i show ?case
    by (auto simp: e child_step)
qed

lemma terminal_value_payload:
  assumes "bytes_at m p (payload t)" "unat p + length (payload t) \<le> unat (export_end im)"
    and "n = of_nat (length (payload t))"
  shows "terminal_value m im n p = Ret (export_answer im t)"
proof (cases t)
  case None
  then show ?thesis using assms(3) by (simp add: terminal_value_def export_answer_def payload_def)
next
  case (Some fo)
  obtain flags off where fo: "fo = (flags, off)" by (cases fo)
  have ne: "length (uleb_enc flags) > 0" by (subst uleb_enc.simps) simp
  have small: "length (payload t) \<le> 20"
    using length_uleb_enc_10 [of flags] length_uleb_enc_10 [of off] Some fo by (simp add: payload_def)
  have n: "n \<noteq> 0"
  proof -
    have "unat n = length (payload t)" using small assms(3) by (simp add: unat_of_nat)
    then show ?thesis using ne Some fo by (auto simp: payload_def)
  qed
  let ?p1 = "p + of_nat (length (uleb_enc flags))"
  have r1: "read_uleb128 m (export_end im) p = Ret (flags, ?p1)"
    using assms Some fo by (intro read_uleb128_enc) (auto simp: payload_def bytes_at_append)
  have "unat ?p1 = unat p + length (uleb_enc flags)"
    using assms(2) unat_u64_less [of "export_end im"] Some fo
    by (intro unat_plus_of_nat) (simp add: payload_def)
  then have r2: "read_uleb128 m (export_end im) ?p1 = Ret (off, ?p1 + of_nat (length (uleb_enc off)))"
    using assms Some fo by (intro read_uleb128_enc) (auto simp: payload_def bytes_at_append)
  show ?thesis using n r1 r2 Some fo by (simp add: terminal_value_def export_answer_def)
qed

lemma resolve_loop_trie:
  "trie_at m (export_start im) (export_end im) p t \<Longrightarrow>
   resolve_loop m im p s = Some (Ret (export_answer im (etrie_find t s)))"
proof (induction t arbitrary: p s rule: measure_induct_rule [of size])
  case (less t)
  obtain v es where t: "t = ENode v es" by (cases t)
  let ?n = "of_nat (length (payload v)) :: u64"
  let ?hd = "uleb_enc ?n"
  let ?p1 = "p + of_nat (length ?hd)"
  have at: "bytes_at m p (?hd @ payload v @ [of_nat (length es)])"
      "unat p + length ?hd + length (payload v) + 1 \<le> unat (export_end im)" "length es < 256"
    and es: "edges_at m (export_start im) (export_end im)
        (p + of_nat (length ?hd + length (payload v) + 1)) es"
    using less.prems by (auto simp: t node_head_def algebra_simps)
  have r: "read_uleb128 m (export_end im) p = Ret (?n, ?p1)"
    using at by (intro read_uleb128_enc) (auto simp: bytes_at_append)
  have up1: "unat ?p1 = unat p + length ?hd"
    using at unat_u64_less [of "export_end im"] by (intro unat_plus_of_nat) simp
  show ?case
  proof (cases "s = []")
    case True
    have "terminal_value m im ?n ?p1 = Ret (export_answer im v)"
      using at up1 by (intro terminal_value_payload) (auto simp: bytes_at_append)
    with True r show ?thesis by (subst resolve_loop.simps) (simp add: t)
  next
    case False
    have cnt: "m (?p1 + ?n) = Some (of_nat (length es))"
      using at by (simp add: bytes_at_append algebra_simps)
    have "unat (0 :: u8) + length es = unat (of_nat (length es) :: u8)"
      using at(3) by (simp add: unat_of_nat)
    from child_loop_edges [OF es this, of s]
    have ch: "child_loop m im (of_nat (length es)) 0 (?p1 + ?n + 1) s =
      Ret (case first_edge es s of None \<Rightarrow> (0, s)
         | Some (l, off, c) \<Rightarrow> (export_start im + off, drop (length l) s))"
      by (simp add: algebra_simps)
    show ?thesis
    proof (cases "first_edge es s")
      case None
      with False r cnt ch show ?thesis
        by (subst resolve_loop.simps) (simp add: t Let_def edges_find_first export_answer_def)
    next
      case (Some e)
      obtain l off c where e: "e = (l, off, c)" by (cases e)
      from first_edge_at [OF Some [unfolded e] es]
      have c: "export_start im + off \<noteq> 0" "trie_at m (export_start im) (export_end im) (export_start im + off) c"
        "size c < size t" by (auto simp: t)
      from less.IH [OF c(3,2)] c(1) False r cnt ch Some e show ?thesis
        by (subst resolve_loop.simps) (simp add: t Let_def edges_find_first)
    qed
  qed
qed

section \<open>The lookup is the map of the exported names\<close>

lemma map_of_prefixed:
  "map_of (map (\<lambda>(s, x). (l @ s, x)) xs) s =
     (if label_matches s l then map_of xs (drop (length l) s) else None)"
proof (induction xs)
  case (Cons e xs)
  have "s = l @ fst e \<longleftrightarrow> label_matches s l \<and> drop (length l) s = fst e"
    by (metis append_eq_conv_conj append_take_drop_id label_matches_def)
  with Cons show ?case by (cases e) auto
qed simp

lemma edges_entries_key:
  "(k, v) \<in> set (edges_entries es) \<Longrightarrow> \<exists>e\<in>set es. label_matches k (fst e)"
proof (induction es)
  case (Cons e es)
  obtain l off c where "e = (l, off, c)" by (cases e)
  with Cons show ?case by (auto simp: label_matches_def)
qed simp

lemma prefixes_comparable:
  "label_matches s l \<Longrightarrow> label_matches s l' \<Longrightarrow> label_matches l l' \<or> label_matches l' l"
  unfolding label_matches_def by (metis append_take_drop_id take_append min_def take_take nle_le)

lemma map_of_edges_None:
  assumes "label_matches s l" "\<forall>(l', _)\<in>set es. \<not> label_matches l l' \<and> \<not> label_matches l' l"
  shows "map_of (edges_entries es) s = None"
proof (rule ccontr)
  assume "map_of (edges_entries es) s \<noteq> None"
  then obtain v where "(s, v) \<in> set (edges_entries es)" by (auto dest: map_of_SomeD)
  then obtain e where "e \<in> set es" "label_matches s (fst e)" using edges_entries_key by blast
  with assms prefixes_comparable [OF assms(1)] show False by fastforce
qed

lemma map_of_edges_Nil: "edges_wf es \<Longrightarrow> map_of (edges_entries es) [] = None"
  by (induction es) (auto simp: map_of_prefixed label_matches_def map_add_def)

lemma etrie_find_map_of:
  "etrie_wf t \<Longrightarrow> etrie_find t s = map_of (etrie_entries t) s"
  "edges_wf es \<Longrightarrow> edges_find es s = map_of (edges_entries es) s"
proof (induction t s and es s rule: etrie_find_edges_find.induct)
  case (1 t es s)
  then show ?case by (auto simp: map_of_edges_Nil split: option.splits)
next
  case (3 l off c es s)
  then show ?case
    using map_of_edges_None [of s l es] by (auto simp: map_of_prefixed map_add_def split: option.splits)
qed simp

section \<open>Properties\<close>

text \<open>C1 resolving a name walks the trie to the entry of that name: where the bytes of the
  export stream are the layout of a trie whose sibling labels do not start one another, the
  answer is the address of the entry, or 0 when there is none or it is a re-export or a
  resolver.  The walk always returns.\<close>

theorem export_lookup_correct:
  assumes "trie_at m (export_start im) (export_end im) (export_start im) t"
    and "export_start im \<noteq> 0" and "etrie_wf t"
  shows "image_resolve_export m im s = Some (Ret (export_answer im (map_of (etrie_entries t) s)))"
  using resolve_loop_trie [OF assms(1)] assms(2,3)
  by (simp add: image_resolve_export_def etrie_find_map_of)

text \<open>An image that exports \<open>_a\<close> at 0x20 and \<open>_bc\<close> at 0x40, mapped at 1000.\<close>

definition sample_trie :: etrie where
  "sample_trie = ENode None
     [([95, 97], 11, ENode (Some (0, 0x20)) []), ([95, 98, 99], 15, ENode (Some (0, 0x40)) [])]"

definition sample_mem :: mem where
  "sample_mem = mem_of 1000 [0, 2, 95, 97, 0, 11, 95, 98, 99, 0, 15, 2, 0, 0x20, 0, 2, 0, 0x40, 0]"


lemma sample_trie_at: "trie_at sample_mem 1000 1019 1000 sample_trie"
  by code_simp

theorem export_lookup_witness:
  "image_resolve_export sample_mem
     (blank_image\<lparr>im_mh := 0x5000, export_start := 1000, export_end := 1019\<rparr>) [95, 98, 99]
   = Some (Ret 0x5040)"
proof -
  let ?im = "blank_image\<lparr>im_mh := 0x5000, export_start := 1000, export_end := 1019\<rparr>"
  have "export_answer ?im (map_of (etrie_entries sample_trie) [95, 98, 99]) = 0x5040"
    by code_simp
  moreover have "etrie_wf sample_trie" by code_simp
  ultimately show ?thesis
    using export_lookup_correct [of sample_mem ?im sample_trie "[95, 98, 99]"] sample_trie_at by simp
qed

text \<open>A trie whose one node is its own child under the empty label.\<close>

definition cyclic_mem :: mem where
  "cyclic_mem = mem_of 1000 [0, 1, 0, 0]"

definition cyclic_image :: image where
  "cyclic_image = blank_image\<lparr>export_start := 1000, export_end := 1004\<rparr>"

lemma cyclic_step:
  "read_uleb128 cyclic_mem 1004 1000 = Ret (0, 1001)"
  "cyclic_mem 1001 = Some 1"
  "child_loop cyclic_mem cyclic_image 1 0 1002 [97] = Ret (1000, [97])"
  by code_simp+

text \<open>the walk has no bound of its own: on a trie whose node is its own child it never
  returns.\<close>

theorem export_walk_diverges: "image_resolve_export cyclic_mem cyclic_image [97] = None"
proof -
  have "\<not> (m = cyclic_mem \<and> im = cyclic_image \<and> p = 1000 \<and> s = [97])"
    if "resolve_loop m im p s = Some r" for m im p s r
    using that
  proof (rule resolve_loop.raw_induct [rotated])
    fix self :: "mem \<Rightarrow> image \<Rightarrow> addr \<Rightarrow> cstr \<Rightarrow> u64 outcome option" and m im p s r
    assume IH: "\<And>m im p s r. self m im p s = Some r \<Longrightarrow>
        \<not> (m = cyclic_mem \<and> im = cyclic_image \<and> p = 1000 \<and> s = [97])"
      and step: "(case read_uleb128 m (export_end im) p of
        Ret (terminal_size, p1) \<Rightarrow>
          if s = [] then Some (terminal_value m im terminal_size p1)
          else let children = p1 + terminal_size in
             case obind (of_mem (m children)) (\<lambda>count. child_loop m im count 0 (children + 1) s) of
               Ret (next, s') \<Rightarrow> if next = 0 then Some (Ret 0) else self m im next s'
             | Panic e \<Rightarrow> Some (Panic e) | Fault \<Rightarrow> Some Fault | Undef \<Rightarrow> Some Undef
      | Panic e \<Rightarrow> Some (Panic e) | Fault \<Rightarrow> Some Fault | Undef \<Rightarrow> Some Undef) = Some r"
    show "\<not> (m = cyclic_mem \<and> im = cyclic_image \<and> p = 1000 \<and> s = [97])"
    proof
      assume now: "m = cyclic_mem \<and> im = cyclic_image \<and> p = 1000 \<and> s = [97]"
      have "export_end cyclic_image = 1004" by (simp add: cyclic_image_def)
      with step now cyclic_step have "self cyclic_mem cyclic_image 1000 [97] = Some r"
        by (simp add: Let_def)
      then show False using IH by blast
    qed
  qed
  then have "resolve_loop cyclic_mem cyclic_image 1000 [97] \<noteq> Some r" for r
    by blast
  then have "resolve_loop cyclic_mem cyclic_image 1000 [97] = None"
    by (cases "resolve_loop cyclic_mem cyclic_image 1000 [97]") blast+
  then show ?thesis by (simp add: image_resolve_export_def cyclic_image_def blank_image_def)
qed

end
