(* ===== verification/Bind.thy ===== *)
theory Bind
  imports Rebase ExportTrie
begin

text \<open>
  \<open>userland/dyld/bind.c\<close>: symbol lookup over the loaded images and the interpreter of the
  bind opcode streams.  The loader's globals are the record \<open>dyenv\<close>; an image pointer is an
  index into \<open>de_images\<close>.  The address of \<open>_dyld_stub_binder_entry\<close>, an assembly symbol, is
  the field \<open>de_stub\<close>.  A symbol pointer in the decoder state is an address in the stream; the
  name is read when it is looked up, as a whole.  \<open>None\<close> is a lookup that never returns
  (see \<open>ExportTrie\<close>).

  The abstract side is a list of operations \<open>bop\<close>, their encoding and the bind records they
  stand for.  The lemmas show that the interpreter performs exactly these records, in order,
  and what a record does.
\<close>

section \<open>Symbol lookup\<close>

record dyenv =
  de_images :: "image list"
  de_main :: nat
  de_stub :: addr

record 's bstate =
  b_seg :: u32
  b_off :: u64
  b_type :: u32
  b_addend :: u64
  b_ordinal :: u32
  b_sym :: 's

definition ordinal_to_image :: "dyenv \<Rightarrow> nat \<Rightarrow> u32 \<Rightarrow> nat option" where
  "ordinal_to_image env ix ordinal =
     (let deps = im_deps (de_images env ! ix) in
      if ordinal = 0 then Some ix
      else if ordinal = - 1 then Some (de_main env)
      else if sint ordinal \<ge> 1 \<and> sint ordinal \<le> int (length deps)
           then Some (deps ! nat (sint ordinal - 1))
      else None)"

text \<open>
  The export walk on a symbol argument.  A null symbol is dereferenced after the first number
  of the trie has been read.
\<close>

definition resolve_in :: "mem \<Rightarrow> image \<Rightarrow> cstr option \<Rightarrow> u64 outcome option" where
  "resolve_in m im nm =
     (case nm of
        Some s \<Rightarrow> image_resolve_export m im s
      | None \<Rightarrow> Some (if export_start im = 0 then Ret 0
                else obind (read_uleb128 m (export_end im) (export_start im)) (\<lambda>_. Fault)))"

fun resolve_flat :: "mem \<Rightarrow> image list \<Rightarrow> cstr option \<Rightarrow> u64 outcome option" where
  "resolve_flat m [] nm = Some (Ret 0)"
| "resolve_flat m (im # ims) nm =
     rbind (resolve_in m im nm) (\<lambda>a. if a \<noteq> 0 then Some (Ret a) else resolve_flat m ims nm)"

definition stub_name :: cstr where
  \<comment> \<open>\<open>"dyld_stub_binder"\<close>\<close>
  "stub_name = [100,121,108,100,95,115,116,117,98,95,98,105,110,100,101,114]"

definition resolve_symbol :: "mem \<Rightarrow> dyenv \<Rightarrow> nat \<Rightarrow> u32 \<Rightarrow> cstr option \<Rightarrow> u64 outcome option" where
  "resolve_symbol m env ix ordinal nm =
     (if nm = Some stub_name then Some (Ret (de_stub env))
      else case ordinal_to_image env ix ordinal of
        Some t \<Rightarrow> rbind (resolve_in m (de_images env ! t) nm)
          (\<lambda>a. if a \<noteq> 0 then Some (Ret a) else resolve_flat m (de_images env) nm)
      | None \<Rightarrow> resolve_flat m (de_images env) nm)"

section \<open>The interpreter\<close>

definition bind_init :: "'s \<Rightarrow> 's bstate" where
  "bind_init s = \<lparr>b_seg = 0, b_off = 0, b_type = 1, b_addend = 0, b_ordinal = 0, b_sym = s\<rparr>"

definition sym_arg :: "mem \<Rightarrow> addr \<Rightarrow> cstr option outcome" where
  "sym_arg m p = (if p = 0 then Ret None else obind (read_cstr m p) (\<lambda>s. Ret (Some s)))"

text \<open>One fixup: the checks, the lookup, the write.  The symbol's name is passed in.\<close>

definition bind_apply ::
  "mem \<Rightarrow> dyenv \<Rightarrow> nat \<Rightarrow> 's bstate \<Rightarrow> cstr option outcome \<Rightarrow> (mem \<times> u64) outcome option" where
  "bind_apply m env ix st name =
     (if b_type st \<noteq> 1 then Some (Panic ''bind: unsupported type'')
      else if unat (b_seg st) \<ge> length (im_segs (de_images env ! ix))
      then Some (Panic ''bind: bad segment index'')
      else rbind (Some name) (\<lambda>nm.
        rbind (resolve_symbol m env ix (b_ordinal st) nm) (\<lambda>resolved.
        if resolved = 0
        then Some (Panic (case nm of Some s \<Rightarrow> map (\<lambda>c. char_of (unat c)) s | None \<Rightarrow> ''(unknown symbol)''))
        else let value = resolved + b_addend st in
          rbind (Some (of_mem (store64 m (fixup_addr (de_images env ! ix) (b_seg st) (b_off st)) value)))
            (\<lambda>m'. Some (Ret (m', value))))))"

primrec bind_times ::
  "nat \<Rightarrow> mem \<Rightarrow> dyenv \<Rightarrow> nat \<Rightarrow> addr \<Rightarrow> u8 \<Rightarrow> u8 \<Rightarrow> u64 \<Rightarrow> addr bstate \<Rightarrow> u64 \<Rightarrow> addr \<Rightarrow>
   (mem \<times> addr bstate \<times> u64 \<times> addr) outcome option" where
  "bind_times 0 m env ix lim opcode imm skip st result p = Some (Ret (m, st, result, p))"
| "bind_times (Suc n) m env ix lim opcode imm skip st result p =
     rbind (bind_apply m env ix st (sym_arg m (b_sym st))) (\<lambda>(m', value).
     rbind (if opcode = 0xA0 then Some (read_uleb128 m' lim p)
            else if opcode = 0xB0 then Some (Ret (ucast imm * 8, p))
            else Some (Ret (skip, p))) (\<lambda>(d, p').
       bind_times n m' env ix lim opcode imm skip (st\<lparr>b_off := b_off st + d + 8\<rparr>) value p'))"

definition bind_do ::
  "mem \<Rightarrow> dyenv \<Rightarrow> nat \<Rightarrow> addr \<Rightarrow> u8 \<Rightarrow> u8 \<Rightarrow> addr bstate \<Rightarrow> u64 \<Rightarrow> addr \<Rightarrow>
   (mem \<times> addr bstate \<times> u64 \<times> addr) outcome option" where
  "bind_do m env ix lim opcode imm st result p =
     (if opcode = 0xC0 then
        rbind (Some (read_uleb128 m lim p)) (\<lambda>(count, p1).
        rbind (Some (read_uleb128 m lim p1)) (\<lambda>(skip, p2).
          bind_times (unat count) m env ix lim opcode imm skip st result p2))
      else bind_times 1 m env ix lim opcode imm 0 st result p)"

text \<open>
  The scan over a symbol name in the stream, and the step over its terminator.  Forming a
  pointer past the last address is undefined.
\<close>

function skip_symbol :: "mem \<Rightarrow> addr \<Rightarrow> addr \<Rightarrow> addr outcome" where
  "skip_symbol m lim p =
     (if p < lim then
        obind (of_mem (m p)) (\<lambda>c. if c \<noteq> 0 then skip_symbol m lim (p + 1) else Ret (p + 1))
      else if p = - 1 then Undef else Ret (p + 1))"
  by pat_completeness auto
termination
  by (relation "measure (\<lambda>(m, lim, p). unat (lim - p))") (auto intro: unat_diff_Suc_less)

declare skip_symbol.simps [simp del]

definition bind_set ::
  "mem \<Rightarrow> addr \<Rightarrow> u8 \<Rightarrow> u8 \<Rightarrow> addr bstate \<Rightarrow> addr \<Rightarrow> (addr bstate \<times> addr) outcome" where
  "bind_set m lim opcode imm st p =
     (if opcode = 0x00 then Ret (bind_init 0, p)
      else if opcode = 0x10 then Ret (st\<lparr>b_ordinal := ucast imm\<rparr>, p)
      else if opcode = 0x20 then
        obind (read_uleb128 m lim p) (\<lambda>(v, p'). Ret (st\<lparr>b_ordinal := ucast v\<rparr>, p'))
      else if opcode = 0x30 then
        Ret (st\<lparr>b_ordinal := (if imm = 0 then 0 else scast (0xF0 OR imm))\<rparr>, p)
      else if opcode = 0x40 then obind (skip_symbol m lim p) (\<lambda>p'. Ret (st\<lparr>b_sym := p\<rparr>, p'))
      else if opcode = 0x50 then Ret (st\<lparr>b_type := ucast imm\<rparr>, p)
      else if opcode = 0x60 then
        obind (read_sleb128 m lim p) (\<lambda>(v, p'). Ret (st\<lparr>b_addend := v\<rparr>, p'))
      else if opcode = 0x70 then
        obind (read_uleb128 m lim p) (\<lambda>(v, p'). Ret (st\<lparr>b_seg := ucast imm, b_off := v\<rparr>, p'))
      else if opcode = 0x80 then
        obind (read_uleb128 m lim p) (\<lambda>(v, p'). Ret (st\<lparr>b_off := b_off st + v\<rparr>, p'))
      else Panic ''bind: unknown opcode'')"

lemma less_Suc_if_not_max: "p \<noteq> - 1 \<Longrightarrow> p < (p + 1 :: addr)"
  using less_Suc_word [of p "- 1"] by (simp add: word_order.not_eq_extremum)

lemma skip_symbol_progress: "skip_symbol m lim p = Ret q \<Longrightarrow> p < q"
proof (induction m lim p rule: skip_symbol.induct)
  case (1 m lim p)
  show ?case
  proof (cases "p < lim")
    case True
    then have "p < p + 1" using less_Suc_word by blast
    with 1 True show ?thesis
      by (subst (asm) (2) skip_symbol.simps) (auto split: if_splits dest: order_less_trans)
  next
    case False
    with 1(2) show ?thesis
      by (subst (asm) skip_symbol.simps) (auto split: if_splits simp: less_Suc_if_not_max)
  qed
qed

lemma bind_set_progress: "bind_set m lim opcode imm st p = Ret (st', p') \<Longrightarrow> p \<le> p'"
  unfolding bind_set_def
  by (auto split: if_splits prod.splits
      dest!: read_uleb128_bounds read_sleb128_bounds skip_symbol_progress)

lemma bind_times_progress:
  "bind_times n m env ix lim opcode imm skip st result p = Some (Ret (m', st', result', p')) \<Longrightarrow> p \<le> p'"
proof (induction n arbitrary: m st result p)
  case (Suc n)
  then obtain m1 v d p1 where
    d: "(if opcode = 0xA0 then Some (read_uleb128 m1 lim p)
         else if opcode = 0xB0 then Some (Ret (ucast imm * 8, p))
         else Some (Ret (skip, p))) = Some (Ret (d, p1))"
    and rest: "bind_times n m1 env ix lim opcode imm skip (st\<lparr>b_off := b_off st + d + 8\<rparr>) v p1
      = Some (Ret (m', st', result', p'))"
    by auto
  from d have "p \<le> p1" by (auto split: if_splits dest!: read_uleb128_bounds)
  with Suc.IH [OF rest] show ?case by simp
qed simp

lemma bind_do_progress:
  "bind_do m env ix lim opcode imm st result p = Some (Ret (m', st', result', p')) \<Longrightarrow> p \<le> p'"
  unfolding bind_do_def
  by (auto split: if_splits simp del: One_nat_def dest!: read_uleb128_bounds bind_times_progress)

definition is_do_opcode :: "u8 \<Rightarrow> bool" where
  "is_do_opcode opcode \<longleftrightarrow> opcode = 0x90 \<or> opcode = 0xA0 \<or> opcode = 0xB0 \<or> opcode = 0xC0"

function run_bind_loop ::
  "mem \<Rightarrow> dyenv \<Rightarrow> nat \<Rightarrow> addr \<Rightarrow> bool \<Rightarrow> addr bstate \<Rightarrow> u64 \<Rightarrow> addr \<Rightarrow> (u64 \<times> mem) outcome option" where
  "run_bind_loop m env ix lim single st result p =
     (if p < lim then
        rbind (Some (of_mem (m p))) (\<lambda>byte.
          if is_do_opcode (byte AND 0xF0) then
            rbind (bind_do m env ix lim (byte AND 0xF0) (byte AND 0x0F) st result (p + 1))
              (\<lambda>(m', st', result', p').
                 if single then Some (Ret (result', m'))
                 else run_bind_loop m' env ix lim single st' result' p')
          else
            rbind (Some (bind_set m lim (byte AND 0xF0) (byte AND 0x0F) st (p + 1)))
              (\<lambda>(st', p'). run_bind_loop m env ix lim single st' result p'))
      else Some (Ret (result, m)))"
  by pat_completeness auto
termination
proof (relation "measure (\<lambda>(m, env, ix, lim, single, st, result, p). unat lim - unat p)", goal_cases)
  case (2 m env ix lim single st result p byte r m' r1 st' r2 result' p')
  then have "p + 1 \<le> p'" by (auto dest: bind_do_progress)
  moreover have "unat (p + 1) = Suc (unat p)" using 2(1) by (rule unat_Suc_less)
  ultimately show ?case using 2(1) by (simp add: word_le_nat_alt word_less_nat_alt)
next
  case (3 m env ix lim single st result p byte r st' p')
  then have "p + 1 \<le> p'" by (auto dest: bind_set_progress)
  moreover have "unat (p + 1) = Suc (unat p)" using 3(1) by (rule unat_Suc_less)
  ultimately show ?case using 3(1) by (simp add: word_le_nat_alt word_less_nat_alt)
qed simp

declare run_bind_loop.simps [simp del]

definition run_bind_stream ::
  "mem \<Rightarrow> dyenv \<Rightarrow> nat \<Rightarrow> addr \<Rightarrow> addr \<Rightarrow> bool \<Rightarrow> (u64 \<times> mem) outcome option" where
  "run_bind_stream m env ix p lim single = run_bind_loop m env ix lim single (bind_init 0) 0 p"

definition image_bind :: "mem \<Rightarrow> dyenv \<Rightarrow> nat \<Rightarrow> mem outcome option" where
  "image_bind m env ix =
     (let im = de_images env ! ix in
      rbind (if bind_start im \<noteq> 0
             then rbind (run_bind_stream m env ix (bind_start im) (bind_end im) False)
                    (\<lambda>(r, m'). Some (Ret m'))
             else Some (Ret m)) (\<lambda>m1.
        if weak_bind_start im \<noteq> 0
        then rbind (run_bind_stream m1 env ix (weak_bind_start im) (weak_bind_end im) False)
               (\<lambda>(r, m'). Some (Ret m'))
        else Some (Ret m1)))"

definition dyld_bind_lazy_symbol ::
  "mem \<Rightarrow> dyenv \<Rightarrow> nat \<Rightarrow> u32 \<Rightarrow> (u64 \<times> mem) outcome option" where
  "dyld_bind_lazy_symbol m env ix lazy_offset =
     (let im = de_images env ! ix in
      if lazy_bind_start im = 0 \<or> lazy_offset \<ge> ucast (lazy_bind_end im - lazy_bind_start im)
      then Some (Panic ''lazy bind: offset out of range'')
      else run_bind_stream m env ix (lazy_bind_start im + ucast lazy_offset) (lazy_bind_end im) True)"

section \<open>Operations, their encoding and their records\<close>

datatype bop =
    BDone
  | BOrdinalImm u8
  | BOrdinalUleb u64
  | BSpecial u8
  | BSymbol u8 cstr
  | BType u8
  | BAddend u64
  | BSegOff u8 u64
  | BAddAddr u64
  | BDo u8
  | BDoAdd u8 u64
  | BDoScaled u8
  | BDoTimes u8 u64 u64

fun bop_enc :: "bop \<Rightarrow> u8 list" where
  "bop_enc BDone = [0]"
| "bop_enc (BOrdinalImm i) = [0x10 OR i]"
| "bop_enc (BOrdinalUleb v) = 0x20 # uleb_enc v"
| "bop_enc (BSpecial i) = [0x30 OR i]"
| "bop_enc (BSymbol i s) = (0x40 OR i) # s @ [0]"
| "bop_enc (BType i) = [0x50 OR i]"
| "bop_enc (BAddend v) = 0x60 # sleb_enc v"
| "bop_enc (BSegOff i v) = (0x70 OR i) # uleb_enc v"
| "bop_enc (BAddAddr v) = 0x80 # uleb_enc v"
| "bop_enc (BDo i) = [0x90 OR i]"
| "bop_enc (BDoAdd i v) = (0xA0 OR i) # uleb_enc v"
| "bop_enc (BDoScaled i) = [0xB0 OR i]"
| "bop_enc (BDoTimes i n k) = (0xC0 OR i) # uleb_enc n @ uleb_enc k"

fun bop_imm :: "bop \<Rightarrow> u8" where
  "bop_imm (BOrdinalImm i) = i" | "bop_imm (BSpecial i) = i" | "bop_imm (BSymbol i s) = i"
| "bop_imm (BType i) = i" | "bop_imm (BSegOff i v) = i" | "bop_imm (BDo i) = i"
| "bop_imm (BDoAdd i v) = i" | "bop_imm (BDoScaled i) = i" | "bop_imm (BDoTimes i n k) = i"
| "bop_imm _ = 0"

fun bop_ok :: "bop \<Rightarrow> bool" where
  "bop_ok (BSymbol i s) = (i AND 0xF0 = 0 \<and> is_cstr s)"
| "bop_ok b = (bop_imm b AND 0xF0 = 0)"

fun is_do :: "bop \<Rightarrow> bool" where
  "is_do (BDo i) = True" | "is_do (BDoAdd i v) = True" | "is_do (BDoScaled i) = True"
| "is_do (BDoTimes i n k) = True" | "is_do _ = False"

text \<open>A bind record is the decoder state at a fixup, with the symbol's name.\<close>

type_synonym bindrec = "cstr option bstate"

primrec rec_times :: "nat \<Rightarrow> bindrec \<Rightarrow> u64 \<Rightarrow> bindrec list" where
  "rec_times 0 st stride = []"
| "rec_times (Suc n) st stride = st # rec_times n (st\<lparr>b_off := b_off st + stride\<rparr>) stride"

fun bop_recs :: "bop \<Rightarrow> bindrec \<Rightarrow> bindrec list" where
  "bop_recs (BDo i) st = [st]"
| "bop_recs (BDoAdd i v) st = [st]"
| "bop_recs (BDoScaled i) st = [st]"
| "bop_recs (BDoTimes i n k) st = rec_times (unat n) st (k + 8)"
| "bop_recs _ st = []"

fun bop_next :: "bop \<Rightarrow> bindrec \<Rightarrow> bindrec" where
  "bop_next BDone st = bind_init None"
| "bop_next (BOrdinalImm i) st = st\<lparr>b_ordinal := ucast i\<rparr>"
| "bop_next (BOrdinalUleb v) st = st\<lparr>b_ordinal := ucast v\<rparr>"
| "bop_next (BSpecial i) st = st\<lparr>b_ordinal := (if i = 0 then 0 else scast (0xF0 OR i))\<rparr>"
| "bop_next (BSymbol i s) st = st\<lparr>b_sym := Some s\<rparr>"
| "bop_next (BType i) st = st\<lparr>b_type := ucast i\<rparr>"
| "bop_next (BAddend v) st = st\<lparr>b_addend := v\<rparr>"
| "bop_next (BSegOff i v) st = st\<lparr>b_seg := ucast i, b_off := v\<rparr>"
| "bop_next (BAddAddr v) st = st\<lparr>b_off := b_off st + v\<rparr>"
| "bop_next (BDo i) st = st\<lparr>b_off := b_off st + 8\<rparr>"
| "bop_next (BDoAdd i v) st = st\<lparr>b_off := b_off st + v + 8\<rparr>"
| "bop_next (BDoScaled i) st = st\<lparr>b_off := b_off st + ucast i * 8 + 8\<rparr>"
| "bop_next (BDoTimes i n k) st = st\<lparr>b_off := b_off st + n * (k + 8)\<rparr>"

fun bops_recs :: "bool \<Rightarrow> bop list \<Rightarrow> bindrec \<Rightarrow> bindrec list" where
  "bops_recs single [] st = []"
| "bops_recs single (b # bs) st =
     bop_recs b st @ (if single \<and> is_do b then [] else bops_recs single bs (bop_next b st))"

fun do_binds :: "mem \<Rightarrow> dyenv \<Rightarrow> nat \<Rightarrow> bindrec list \<Rightarrow> u64 \<Rightarrow> (u64 \<times> mem) outcome option" where
  "do_binds m env ix [] result = Some (Ret (result, m))"
| "do_binds m env ix (st # sts) result =
     rbind (bind_apply m env ix st (Ret (b_sym st))) (\<lambda>(m', value). do_binds m' env ix sts value)"

section \<open>The interpreter performs the records of its stream\<close>

definition name_sim :: "mem \<Rightarrow> addr set \<Rightarrow> addr \<Rightarrow> cstr option \<Rightarrow> bool" where
  "name_sim m R p nm =
     (case nm of
        None \<Rightarrow> p = 0
      | Some s \<Rightarrow> p \<noteq> 0 \<and> cstr_at m p s \<and> span p (Suc (length s)) \<subseteq> R)"

definition bsim :: "mem \<Rightarrow> addr set \<Rightarrow> addr bstate \<Rightarrow> bindrec \<Rightarrow> bool" where
  "bsim m R st a \<longleftrightarrow>
     b_seg st = b_seg a \<and> b_off st = b_off a \<and> b_type st = b_type a \<and> b_addend st = b_addend a
     \<and> b_ordinal st = b_ordinal a
     \<and> name_sim m R (b_sym st) (b_sym a)"

definition rec_clear :: "dyenv \<Rightarrow> nat \<Rightarrow> addr set \<Rightarrow> bindrec \<Rightarrow> bool" where
  "rec_clear env ix R a \<longleftrightarrow>
     (unat (b_seg a) < length (im_segs (de_images env ! ix)) \<longrightarrow>
        span (fixup_addr (de_images env ! ix) (b_seg a) (b_off a)) 8 \<inter> R = {})"

abbreviation bavoids :: "dyenv \<Rightarrow> nat \<Rightarrow> addr set \<Rightarrow> bindrec list \<Rightarrow> bool" where
  "bavoids env ix R recs \<equiv> list_all (rec_clear env ix R) recs"

lemma cstr_at_cong:
  "(\<And>x. x \<in> span a (Suc (length s)) \<Longrightarrow> m' x = m x) \<Longrightarrow> cstr_at m a s \<Longrightarrow> cstr_at m' a s"
  using bytes_at_cong [of a "s @ [0]" m' m] by (simp add: cstr_at_def)

lemma bsim_frame:
  assumes "bsim m R st a" "\<And>x. x \<in> R \<Longrightarrow> m' x = m x"
  shows "bsim m' R st a"
  using assms cstr_at_cong [of "b_sym st" _ m' m]
  unfolding bsim_def name_sim_def by (auto split: option.splits)

lemma bind_apply_sim:
  assumes "bsim m R st a"
  shows "bind_apply m env ix st (sym_arg m (b_sym st)) = bind_apply m env ix a (Ret (b_sym a))"
proof -
  have "sym_arg m (b_sym st) = Ret (b_sym a)"
    using assms by (auto simp: bsim_def name_sim_def sym_arg_def read_cstr_at split: option.splits)
  with assms show ?thesis by (simp add: bsim_def bind_apply_def cong: if_cong)
qed

lemma bind_apply_frame:
  "bind_apply m env ix a nm = Some (Ret (m', v)) \<Longrightarrow> rec_clear env ix R a \<Longrightarrow> x \<in> R \<Longrightarrow> m' x = m x"
  by (auto simp: bind_apply_def rec_clear_def Let_def split: if_splits dest!: store64_frame)

lemma do_binds_frame:
  "do_binds m env ix recs r = Some (Ret (r', m')) \<Longrightarrow> bavoids env ix R recs \<Longrightarrow> x \<in> R \<Longrightarrow> m' x = m x"
proof (induction m env ix recs r rule: do_binds.induct)
  case (2 m env ix st sts result)
  then obtain m1 v where
    "bind_apply m env ix st (Ret (b_sym st)) = Some (Ret (m1, v))"
    "do_binds m1 env ix sts v = Some (Ret (r', m'))" by auto
  then show ?case using 2 bind_apply_frame [of m env ix st _ m1 v R x] by auto
qed simp

lemma do_binds_append:
  "do_binds m env ix (as @ bs) r = rbind (do_binds m env ix as r) (\<lambda>(r', m'). do_binds m' env ix bs r')"
  by (induction m env ix as r rule: do_binds.induct) (auto simp: rbind_assoc intro!: rbind_cong)

lemma bind_times_sim:
  assumes "bsim m R st a" "opcode \<noteq> 0xA0" "d = (if opcode = 0xB0 then ucast imm * 8 else skip)"
    "bavoids env ix R (rec_times n a (d + 8))"
  shows "bind_times n m env ix lim opcode imm skip st r p =
    rbind (do_binds m env ix (rec_times n a (d + 8)) r)
      (\<lambda>(r', m'). Some (Ret (m', st\<lparr>b_off := b_off st + of_nat n * (d + 8)\<rparr>, r', p)))"
  using assms
proof (induction n arbitrary: m st a r)
  case (Suc n)
  let ?st = "st\<lparr>b_off := b_off st + d + 8\<rparr>" and ?a = "a\<lparr>b_off := b_off a + (d + 8)\<rparr>"
  have "bind_times n m' env ix lim opcode imm skip ?st v p =
      rbind (do_binds m' env ix (rec_times n ?a (d + 8)) v)
        (\<lambda>(r', m'). Some (Ret (m', st\<lparr>b_off := b_off st + of_nat (Suc n) * (d + 8)\<rparr>, r', p)))"
    if "bind_apply m env ix a (Ret (b_sym a)) = Some (Ret (m', v))" for m' v
  proof -
    have "bsim m R ?st ?a" using Suc.prems(1) by (simp add: bsim_def add.assoc)
    then have "bsim m' R ?st ?a"
      by (rule bsim_frame) (rule bind_apply_frame [OF that], use Suc.prems(4) in simp_all)
    from Suc.IH [OF this] Suc.prems show ?thesis by (simp add: algebra_simps)
  qed
  with Suc.prems show ?case
    by (auto simp: bind_apply_sim rbind_assoc intro!: rbind_cong)
qed simp

lemma bop_opcode:
  assumes "bop_ok b"
  shows "is_do_opcode (hd (bop_enc b) AND 0xF0) = is_do b"
    "hd (bop_enc b) AND 0x0F = bop_imm b"
  using assms by (cases b; simp add: is_do_opcode_def)+

lemma bop_enc_pos: "0 < length (bop_enc b)"
  by (cases b) simp_all

lemma bind_do_sim:
  assumes sim: "bsim m R st a" and b: "bop_ok b" "is_do b" and at: "bytes_at m p (bop_enc b)"
    and lim: "unat p + length (bop_enc b) \<le> unat lim" and R: "span p (length (bop_enc b)) \<subseteq> R"
    and av: "bavoids env ix R (bop_recs b a)"
  shows "bind_do m env ix lim (hd (bop_enc b) AND 0xF0) (bop_imm b) st r (p + 1) =
    rbind (do_binds m env ix (bop_recs b a) r) (\<lambda>(r', m').
      Some (Ret (m', st\<lparr>b_off := b_off (bop_next b a)\<rparr>, r', p + of_nat (length (bop_enc b)))))"
proof (cases b)
  case (BDo i)
  with bind_times_sim [OF sim, of "0x90" 0 i 0 env ix 1] b av sim show ?thesis
    by (simp add: bind_do_def bsim_def)
next
  case (BDoScaled i)
  with bind_times_sim [OF sim, of "0xB0" "ucast i * 8" i 0 env ix 1] b av sim show ?thesis
    by (simp add: bind_do_def bsim_def add.assoc)
next
  case (BDoTimes i n k)
  let ?q = "p + 1 + of_nat (length (uleb_enc n))"
  have "unat ?q = unat p + 1 + length (uleb_enc n)"
    using lim addr_plus_one(2) [OF lim bop_enc_pos] unat_u64_less [of lim]
    by (subst unat_plus_of_nat) (simp_all add: BDoTimes)
  moreover have n: "read_uleb128 m lim (p + 1) = Ret (n, ?q)"
    using at lim by (intro read_uleb128_arg [where bs = "uleb_enc k"]) (simp_all add: BDoTimes)
  moreover have "bytes_at m ?q (uleb_enc k)"
    using at by (simp add: BDoTimes bytes_at_append)
  ultimately have "read_uleb128 m lim ?q = Ret (k, ?q + of_nat (length (uleb_enc k)))"
    using lim by (simp add: read_uleb128_enc BDoTimes)
  with n BDoTimes bind_times_sim [OF sim, of "0xC0" k i k env ix "unat n"] b av sim show ?thesis
    by (simp add: bind_do_def bsim_def flip: add.assoc)
next
  case (BDoAdd i v)
  have "read_uleb128 m' lim (p + 1) = Ret (v, p + 1 + of_nat (length (uleb_enc v)))"
    if "bind_apply m env ix a (Ret (b_sym a)) = Some (Ret (m', w))" for m' w
  proof -
    have "\<And>x. x \<in> span p (length (bop_enc b)) \<Longrightarrow> m' x = m x"
      using bind_apply_frame [OF that] av R by (auto simp: BDoAdd)
    then have "bytes_at m' p (bop_enc b)" using at bytes_at_cong [of p "bop_enc b" m' m] by simp
    then show ?thesis using lim by (intro read_uleb128_arg [where bs = "[]"]) (simp_all add: BDoAdd)
  qed
  with BDoAdd b sim show ?thesis
    by (auto simp: bind_do_def bind_apply_sim [OF sim] rbind_assoc bsim_def add.assoc intro!: rbind_cong)
qed (use b in simp_all)

lemma skip_symbol_cstr:
  "cstr_at m p s \<Longrightarrow> unat p + length s < unat lim \<Longrightarrow>
   skip_symbol m lim p = Ret (p + of_nat (length s) + 1)"
proof (induction s arbitrary: p)
  case Nil
  then show ?case by (subst skip_symbol.simps) (simp add: word_less_nat_alt)
next
  case (Cons c s)
  then have p: "p < lim" by (simp add: word_less_nat_alt)
  then have "unat (p + 1) = Suc (unat p)" by (rule unat_Suc_less)
  with Cons p show ?case by (subst skip_symbol.simps) (simp add: cstr_at_Cons flip: add.assoc)
qed

lemma bind_set_sim:
  assumes sim: "bsim m R st a" and b: "bop_ok b" "\<not> is_do b" and at: "bytes_at m p (bop_enc b)"
    and lim: "unat p + length (bop_enc b) \<le> unat lim" and R: "span p (length (bop_enc b)) \<subseteq> R"
  obtains st' where
    "bind_set m lim (hd (bop_enc b) AND 0xF0) (bop_imm b) st (p + 1) =
       Ret (st', p + of_nat (length (bop_enc b)))"
    "bsim m R st' (bop_next b a)"
proof (cases b)
  case BDone
  with that [of "bind_init 0"] show thesis by (simp add: bind_set_def bsim_def name_sim_def bind_init_def)
next
  case (BSymbol i s)
  have p: "p < lim" "unat (p + 1) = unat p + 1" using addr_plus_one [OF lim bop_enc_pos] by auto
  have str: "cstr_at m (p + 1) s"
    using at b lim p unat_u64_less [of lim] by (simp add: BSymbol cstr_at_def)
  moreover have "unat (p + 1) + length s < unat lim" using lim p by (simp add: BSymbol)
  ultimately have "skip_symbol m lim (p + 1) = Ret (p + 1 + of_nat (length s) + 1)"
    by (rule skip_symbol_cstr)
  moreover have "p + 1 \<noteq> 0" using less_imp_Suc_nonzero [OF p(1)] by (simp add: add.commute)
  moreover have "span (p + 1) (Suc (length s)) \<subseteq> R" using R by (simp add: BSymbol span_Suc [of p])
  moreover have "p + 1 + of_nat (length s) + 1 = p + of_nat (length (bop_enc b))"
    by (simp add: BSymbol)
  ultimately show thesis
    using that [of "st\<lparr>b_sym := p + 1\<rparr>"] b sim str
    by (simp add: BSymbol bind_set_def bsim_def name_sim_def)
next
  case (BOrdinalUleb v)
  then have "read_uleb128 m lim (p + 1) = Ret (v, p + 1 + of_nat (length (uleb_enc v)))"
    using at lim by (intro read_uleb128_arg [where bs = "[]"]) simp_all
  with that [of "st\<lparr>b_ordinal := ucast v\<rparr>"] sim show thesis
    by (simp add: BOrdinalUleb bind_set_def bsim_def flip: add.assoc)
next
  case (BSegOff i v)
  then have "read_uleb128 m lim (p + 1) = Ret (v, p + 1 + of_nat (length (uleb_enc v)))"
    using at lim by (intro read_uleb128_arg [where bs = "[]"]) simp_all
  with that [of "st\<lparr>b_seg := ucast i, b_off := v\<rparr>"] sim b show thesis
    by (simp add: BSegOff bind_set_def bsim_def flip: add.assoc)
next
  case (BAddAddr v)
  then have "read_uleb128 m lim (p + 1) = Ret (v, p + 1 + of_nat (length (uleb_enc v)))"
    using at lim by (intro read_uleb128_arg [where bs = "[]"]) simp_all
  with that [of "st\<lparr>b_off := b_off st + v\<rparr>"] sim show thesis
    by (simp add: BAddAddr bind_set_def bsim_def flip: add.assoc)
next
  case (BAddend v)
  then have "read_sleb128 m lim (p + 1) = Ret (v, p + 1 + of_nat (length (sleb_enc v)))"
    using at lim addr_plus_one [OF lim bop_enc_pos] by (intro read_sleb128_enc) simp_all
  with that [of "st\<lparr>b_addend := v\<rparr>"] sim show thesis
    by (simp add: BAddend bind_set_def bsim_def flip: add.assoc)
next
  case (BOrdinalImm i)
  with that [of "st\<lparr>b_ordinal := ucast i\<rparr>"] sim b show thesis
    by (simp add: bind_set_def bsim_def)
next
  case (BSpecial i)
  with that [of "st\<lparr>b_ordinal := (if i = 0 then 0 else scast (0xF0 OR i))\<rparr>"] sim b show thesis
    by (simp add: bind_set_def bsim_def)
next
  case (BType i)
  with that [of "st\<lparr>b_type := ucast i\<rparr>"] sim b show thesis
    by (simp add: bind_set_def bsim_def)
qed (use b in simp_all)

lemma run_bind_loop_do:
  assumes "p < lim" "m p = Some b" "is_do_opcode (b AND 0xF0)"
  shows "run_bind_loop m env ix lim single st r p =
    rbind (bind_do m env ix lim (b AND 0xF0) (b AND 0x0F) st r (p + 1))
      (\<lambda>(m', st', r', p'). if single then Some (Ret (r', m'))
         else run_bind_loop m' env ix lim single st' r' p')"
  using assms by (subst run_bind_loop.simps) simp

lemma run_bind_loop_set:
  assumes "p < lim" "m p = Some b" "\<not> is_do_opcode (b AND 0xF0)"
  shows "run_bind_loop m env ix lim single st r p =
    rbind (Some (bind_set m lim (b AND 0xF0) (b AND 0x0F) st (p + 1)))
      (\<lambda>(st', p'). run_bind_loop m env ix lim single st' r p')"
  using assms by (subst run_bind_loop.simps) simp

lemma bytes_at_hd: "bytes_at m p bs \<Longrightarrow> 0 < length bs \<Longrightarrow> m p = Some (hd bs)"
  by (cases bs) simp_all

lemma bop_recs_not_do: "\<not> is_do b \<Longrightarrow> bop_recs b a = []"
  by (cases b) simp_all

lemma bop_next_do: "is_do b \<Longrightarrow> bop_next b a = a\<lparr>b_off := b_off (bop_next b a)\<rparr>"
  by (cases b) simp_all

lemma run_bind_loop_ops:
  assumes "bsim m R st a" "\<forall>b\<in>set bs. bop_ok b" "bytes_at m p (concat (map bop_enc bs))"
    "unat p + length (concat (map bop_enc bs)) \<le> unat lim"
    "single \<and> (\<exists>b\<in>set bs. is_do b) \<or> unat p + length (concat (map bop_enc bs)) = unat lim"
    "span p (length (concat (map bop_enc bs))) \<subseteq> R"
    "bavoids env ix R (bops_recs single bs a)"
  shows "run_bind_loop m env ix lim single st r p = do_binds m env ix (bops_recs single bs a) r"
  using assms
proof (induction bs arbitrary: m st a p r)
  case Nil
  then show ?case by (subst run_bind_loop.simps) (simp add: word_less_nat_alt)
next
  case (Cons b bs)
  let ?n = "length (bop_enc b)" and ?rest = "concat (map bop_enc bs)"
  let ?q = "p + of_nat ?n"
  from Cons.prems have at: "bytes_at m p (bop_enc b)" "bytes_at m ?q ?rest"
    and ok: "bop_ok b" and lim: "unat p + ?n \<le> unat lim"
    by (simp_all add: bytes_at_append)
  have R: "span p ?n \<subseteq> R" "span ?q (length ?rest) \<subseteq> R"
    using Cons.prems(6) by (simp_all add: span_append)
  have uq: "unat ?q = unat p + ?n"
    using lim unat_u64_less [of lim] by (intro unat_plus_of_nat) simp
  have p: "p < lim" "m p = Some (hd (bop_enc b))"
    using addr_plus_one(1) [OF lim bop_enc_pos] bytes_at_hd [OF at(1) bop_enc_pos] by auto
  note opc = bop_opcode [OF ok]
  show ?case
  proof (cases "is_do b")
    case False
    from bind_set_sim [OF Cons.prems(1) ok False at(1) lim R(1)] obtain st' where
      st': "bind_set m lim (hd (bop_enc b) AND 0xF0) (bop_imm b) st (p + 1) = Ret (st', ?q)"
      "bsim m R st' (bop_next b a)" by blast
    have "run_bind_loop m env ix lim single st' r ?q = do_binds m env ix (bops_recs single bs (bop_next b a)) r"
      by (rule Cons.IH [OF st'(2)]) (use Cons.prems False at(2) uq R(2) in auto)
    with False st'(1) p opc show ?thesis
      by (simp add: run_bind_loop_set bop_recs_not_do)
  next
    case True
    from Cons.prems(7) have av: "bavoids env ix R (bop_recs b a)" by simp
    have run: "run_bind_loop m env ix lim single st r p =
      rbind (do_binds m env ix (bop_recs b a) r) (\<lambda>(r', m'). if single then Some (Ret (r', m'))
        else run_bind_loop m' env ix lim single (st\<lparr>b_off := b_off (bop_next b a)\<rparr>) r' ?q)"
      using p opc True bind_do_sim [OF Cons.prems(1) ok True at(1) lim R(1) av]
      by (auto simp: run_bind_loop_do rbind_assoc intro!: rbind_cong)
    show ?thesis
    proof (cases single)
      case True
      have id: "rbind X (\<lambda>(x, y). Some (Ret (x, y))) = X" for X :: "(u64 \<times> mem) outcome option"
        by (cases "(X, \<lambda>v :: u64 \<times> mem. None :: unit outcome option)" rule: rbind.cases) auto
      with True run \<open>is_do b\<close> show ?thesis by simp
    next
      case False
      have "run_bind_loop m' env ix lim single (st\<lparr>b_off := b_off (bop_next b a)\<rparr>) r' ?q =
          do_binds m' env ix (bops_recs single bs (bop_next b a)) r'"
        if d: "do_binds m env ix (bop_recs b a) r = Some (Ret (r', m'))" for m' r'
      proof (rule Cons.IH)
        have same: "\<And>x. x \<in> R \<Longrightarrow> m' x = m x" using do_binds_frame [OF d av] by blast
        have "bsim m R (st\<lparr>b_off := b_off (bop_next b a)\<rparr>) (a\<lparr>b_off := b_off (bop_next b a)\<rparr>)"
          using Cons.prems(1) by (simp add: bsim_def)
        with same show "bsim m' R (st\<lparr>b_off := b_off (bop_next b a)\<rparr>) (bop_next b a)"
          by (subst bop_next_do [OF True]) (rule bsim_frame)
        show "bytes_at m' ?q ?rest"
          using at(2) R(2) same bytes_at_cong [of ?q ?rest m' m] by blast
      qed (use Cons.prems False True uq R(2) in auto)
      with False run show ?thesis
        by (auto simp: do_binds_append intro!: rbind_cong)
    qed
  qed
qed

section \<open>Lookup over well-formed export tries\<close>

text \<open>What an image exports, as an abstract trie; an image with no export stream has none.\<close>

definition exports_as :: "mem \<Rightarrow> image \<Rightarrow> etrie \<Rightarrow> bool" where
  "exports_as m im t \<longleftrightarrow>
     (if export_start im = 0 then etrie_entries t = []
      else trie_at m (export_start im) (export_end im) (export_start im) t \<and> etrie_wf t)"

definition exported :: "image \<Rightarrow> etrie \<Rightarrow> cstr \<Rightarrow> u64" where
  "exported im t s = export_answer im (map_of (etrie_entries t) s)"

text \<open>The search order: the image the ordinal names, then every image in load order.\<close>

definition search_order :: "dyenv \<Rightarrow> nat \<Rightarrow> u32 \<Rightarrow> nat list" where
  "search_order env ix ordinal =
     (case ordinal_to_image env ix ordinal of None \<Rightarrow> [] | Some t \<Rightarrow> [t])
     @ [0..<length (de_images env)]"

fun first_nonzero :: "u64 list \<Rightarrow> u64" where
  "first_nonzero [] = 0"
| "first_nonzero (a # as) = (if a \<noteq> 0 then a else first_nonzero as)"

lemma resolve_in_exports:
  "exports_as m im t \<Longrightarrow> resolve_in m im (Some s) = Some (Ret (exported im t s))"
  using resolve_loop_trie [of m im "export_start im" t s]
  by (auto simp: exports_as_def resolve_in_def exported_def image_resolve_export_def export_answer_def
      etrie_find_map_of split: if_splits)

lemma resolve_flat_exports:
  "list_all2 (exports_as m) ims ts \<Longrightarrow>
   resolve_flat m ims (Some s) = Some (Ret (first_nonzero (map2 (\<lambda>im t. exported im t s) ims ts)))"
  by (induction ims ts rule: list_all2_induct) (simp_all add: resolve_in_exports)

lemma map2_upt:
  "length xs = length ys \<Longrightarrow> map2 f xs ys = map (\<lambda>i. f (xs ! i) (ys ! i)) [0..<length xs]"
  by (rule nth_equalityI) simp_all

section \<open>Properties\<close>

text \<open>C4 a lookup takes the first definition in the search order: the image the ordinal
  names, then the images in load order.  It always returns when the export streams are laid
  out as tries, and the answer is 0 exactly when no image defines the name.\<close>

theorem resolve_symbol_correct:
  assumes "list_all2 (exports_as m) (de_images env) ts" and "s \<noteq> stub_name"
    and "\<forall>t. ordinal_to_image env ix ordinal = Some t \<longrightarrow> t < length (de_images env)"
  shows "resolve_symbol m env ix ordinal (Some s) = Some (Ret
    (first_nonzero (map (\<lambda>i. exported (de_images env ! i) (ts ! i) s) (search_order env ix ordinal))))"
proof -
  note flat = resolve_flat_exports [OF assms(1), of s,
      unfolded map2_upt [OF list_all2_lengthD [OF assms(1)]]]
  show ?thesis
  proof (cases "ordinal_to_image env ix ordinal")
    case None
    with flat assms(2) show ?thesis by (simp add: resolve_symbol_def search_order_def)
  next
    case (Some t)
    with assms have "exports_as m (de_images env ! t) (ts ! t)"
      by (auto dest: list_all2_nthD)
    from resolve_in_exports [OF this] flat assms(2) Some show ?thesis
      by (simp add: resolve_symbol_def search_order_def)
  qed
qed

text \<open>C3 running a bind stream performs exactly the bind records its opcodes stand for, in
  stream order; a lazy run stops after the first fixup.  A record looks its symbol up and
  writes the slot; its panics and faults are the run's.\<close>

theorem run_bind_stream_refines:
  assumes "\<forall>b\<in>set bs. bop_ok b" and "bytes_at m p (concat (map bop_enc bs))"
    and "unat p + length (concat (map bop_enc bs)) \<le> unat lim"
    and "single \<and> (\<exists>b\<in>set bs. is_do b) \<or> unat p + length (concat (map bop_enc bs)) = unat lim"
    and "bavoids env ix (span p (length (concat (map bop_enc bs)))) (bops_recs single bs (bind_init None))"
  shows "run_bind_stream m env ix p lim single =
    do_binds m env ix (bops_recs single bs (bind_init None)) 0"
  unfolding run_bind_stream_def
  by (rule run_bind_loop_ops [OF _ assms(1-4) order_refl assms(5)])
    (simp add: bsim_def name_sim_def bind_init_def)

text \<open>C2 binding a lazy pointer: the record at the given offset of the lazy stream, as the
  linker writes it, makes the stub helper resolve the name, store the address in the slot
  the record names, change nothing else, and return that address.\<close>

theorem lazy_bind_correct:
  assumes "im = de_images env ! ix" and "lazy_bind_start im \<noteq> 0"
    and "lazy_offset < ucast (lazy_bind_end im - lazy_bind_start im)"
    and "bs = [BSegOff seg off, BOrdinalImm ordinal, BSymbol flags s, BDo 0, BDone]"
    and "\<forall>b\<in>set bs. bop_ok b" and "p = lazy_bind_start im + ucast lazy_offset"
    and "bytes_at m p (concat (map bop_enc bs))"
    and "unat p + length (concat (map bop_enc bs)) \<le> unat (lazy_bind_end im)"
    and "unat seg < length (im_segs im)" and "slot = fixup_addr im (ucast seg) off"
    and "mapped m slot 8" and "span slot 8 \<inter> span p (length (concat (map bop_enc bs))) = {}"
    and "resolve_symbol m env ix (ucast ordinal) (Some s) = Some (Ret target)" and "target \<noteq> 0"
  shows "\<exists>m'. dyld_bind_lazy_symbol m env ix lazy_offset = Some (Ret (target, m'))
    \<and> load64 m' slot = Some target \<and> (\<forall>x. x \<notin> span slot 8 \<longrightarrow> m' x = m x)"
proof -
  let ?rec = "\<lparr>b_seg = ucast seg, b_off = off, b_type = 1, b_addend = 0, b_ordinal = ucast ordinal,
    b_sym = Some s\<rparr>"
  have useg: "unat (ucast seg :: u32) = unat seg" using unsigned_less [of seg, where ?'a = nat]
    by (simp add: unsigned_ucast_eq take_bit_nat_eq_self)
  obtain m' where m': "store64 m slot target = Some m'" using store64_mapped assms(11) by blast
  have recs: "bops_recs True bs (bind_init None) = [?rec]"
    by (simp add: assms(4) bind_init_def)
  have "dyld_bind_lazy_symbol m env ix lazy_offset = run_bind_stream m env ix p (lazy_bind_end im) True"
    using assms(1-3,6) by (auto simp: dyld_bind_lazy_symbol_def Let_def dest: leD)
  also have "\<dots> = do_binds m env ix (bops_recs True bs (bind_init None)) 0"
    unfolding run_bind_stream_def
    by (rule run_bind_loop_ops [OF _ assms(5,7,8) _ order_refl])
      (use assms(1,4,10,12) in \<open>auto simp: recs bsim_def name_sim_def bind_init_def rec_clear_def\<close>)
  also have "\<dots> = Some (Ret (target, m'))"
    using assms(1,9,10,13,14) m' by (simp add: recs bind_apply_def useg)
  finally show ?thesis using m' by (auto simp: load64_store64 dest: store64_frame)
qed

text \<open>
  A process of two images: the main executable with one lazy pointer at 0x800 and its lazy
  record at 0x600, and a dependency that exports \<open>_bc\<close> (the trie of \<open>ExportTrie\<close>).
\<close>

definition bind_sample_ops :: "bop list" where
  "bind_sample_ops = [BSegOff 0 0, BOrdinalImm 1, BSymbol 0 [95, 98, 99], BDo 0, BDone]"

definition bind_mem :: mem where
  "bind_mem = sample_mem ++ mem_of 0x600 (concat (map bop_enc bind_sample_ops))
     ++ mem_of 0x800 (le_bytes 8 (0 :: u64))"

definition bind_main :: image where
  "bind_main = blank_image\<lparr>im_slide := 0x100,
     im_segs := [\<lparr>vmaddr = 0x700, vmsize = 0x100, fileoff = 0, filesize = 0x100\<rparr>],
     lazy_bind_start := 0x600, lazy_bind_end := 0x60A, im_deps := [1]\<rparr>"

definition bind_dep :: image where
  "bind_dep = blank_image\<lparr>im_mh := 0x5000, export_start := 1000, export_end := 1019\<rparr>"

definition bind_env :: dyenv where
  "bind_env = \<lparr>de_images = [bind_main, bind_dep], de_main = 0, de_stub = 0x9000\<rparr>"

lemmas bind_sample_defs = bind_mem_def sample_mem_def mem_of_def map_add_def bind_sample_ops_def
  uleb_enc.simps bind_main_def bind_dep_def bind_env_def blank_image_def

lemma bind_sample_bytes:
  "concat (map bop_enc bind_sample_ops) = [0x70, 0, 0x11, 0x40, 95, 98, 99, 0, 0x90, 0]"
  by (simp add: bind_sample_ops_def uleb_enc.simps)

lemma bind_sample_at: "bytes_at bind_mem 0x600 [0x70, 0, 0x11, 0x40, 95, 98, 99, 0, 0x90, 0]"
  by (simp add: bind_sample_defs)

lemma bind_sample_ok: "\<forall>b\<in>set bind_sample_ops. bop_ok b"
  by (simp add: bind_sample_ops_def is_cstr_def)

lemma bind_sample_span: "span 0x800 8 \<inter> span 0x600 10 = {}"
  using span_disjoint [of "0x600" 10 "0x800" 8] by (simp add: Int_commute)

lemma bind_sample_slot: "fixup_addr bind_main 0 0 = 0x800"
  by (simp add: fixup_addr_def bind_main_def image_addr_def)

lemma bind_sample_exports:
  "list_all2 (exports_as bind_mem) (de_images bind_env) [ENode None [], sample_trie]"
proof -
  have "trie_at bind_mem 1000 1019 1000 sample_trie"
    by (simp add: sample_trie_def node_head_def edge_head_def payload_def is_cstr_def bind_sample_defs)
  moreover have "etrie_wf sample_trie" by code_simp
  ultimately show ?thesis by (simp add: exports_as_def bind_env_def bind_main_def bind_dep_def blank_image_def)
qed

lemma bind_sample_images: "de_images bind_env = [bind_main, bind_dep]"
  by (simp add: bind_env_def)

lemma bind_sample_lazy:
  "lazy_bind_start bind_main = 0x600" "lazy_bind_end bind_main = 0x60A" "length (im_segs bind_main) = 1"
  by (simp_all add: bind_main_def blank_image_def)

lemma bind_sample_order: "search_order bind_env 0 1 = [1, 0, 1]"
  by code_simp

lemma bind_sample_exported:
  "exported bind_dep sample_trie [95, 98, 99] = 0x5040"
  by code_simp

theorem resolve_symbol_witness:
  "resolve_symbol bind_mem bind_env 0 1 (Some [95, 98, 99]) = Some (Ret 0x5040)"
proof -
  have "ordinal_to_image bind_env 0 1 = Some 1" by code_simp
  moreover have "length (de_images bind_env) = 2" by (simp add: bind_env_def)
  ultimately have "\<forall>t. ordinal_to_image bind_env 0 1 = Some t \<longrightarrow> t < length (de_images bind_env)"
    by simp
  moreover have "[95, 98, 99] \<noteq> stub_name" by (simp add: stub_name_def)
  ultimately show ?thesis
    using resolve_symbol_correct [OF bind_sample_exports, of "[95, 98, 99]" 0 1]
    by (simp add: bind_sample_order bind_sample_images bind_sample_exported)
qed

lemma bind_sample_resolves:
  "resolve_symbol bind_mem bind_env 0 1 (Some [95, 98, 99]) = Some (Ret 0x5040)"
proof -
  have "exports_as bind_mem bind_dep sample_trie"
    using bind_sample_exports by (simp add: bind_env_def)
  from resolve_in_exports [OF this, of "[95, 98, 99]"] show ?thesis
    by (simp add: resolve_symbol_def stub_name_def ordinal_to_image_def bind_env_def bind_main_def
        blank_image_def bind_sample_exported [unfolded bind_env_def])
qed

theorem run_bind_stream_witness:
  "run_bind_stream bind_mem bind_env 0 0x600 0x60A False =
     do_binds bind_mem bind_env 0 (bops_recs False bind_sample_ops (bind_init None)) 0"
proof (rule run_bind_stream_refines [OF bind_sample_ok])
  show "bavoids bind_env 0 (span 0x600 (length (concat (map bop_enc bind_sample_ops))))
      (bops_recs False bind_sample_ops (bind_init None))"
    unfolding bind_sample_bytes using bind_sample_span bind_sample_slot
    by (simp add: bind_sample_ops_def rec_clear_def bind_init_def bind_env_def eval_nat_numeral)
qed (unfold bind_sample_bytes, use bind_sample_at in simp_all)

theorem lazy_bind_witness:
  "\<exists>m'. dyld_bind_lazy_symbol bind_mem bind_env 0 0 = Some (Ret (0x5040, m'))
     \<and> load64 m' 0x800 = Some 0x5040"
proof -
  have "\<exists>m'. dyld_bind_lazy_symbol bind_mem bind_env 0 0 = Some (Ret (0x5040, m'))
    \<and> load64 m' 0x800 = Some 0x5040 \<and> (\<forall>x. x \<notin> span 0x800 8 \<longrightarrow> m' x = bind_mem x)"
  proof (rule lazy_bind_correct [where im = bind_main and p = "0x600" and seg = 0 and off = 0])
    show "bind_sample_ops = [BSegOff 0 0, BOrdinalImm 1, BSymbol 0 [95, 98, 99], BDo 0, BDone]"
      by (rule bind_sample_ops_def)
    show "mapped bind_mem 0x800 8"
      by (rule mapped_bytes_at [where bs = "[0, 0, 0, 0, 0, 0, 0, 0]"])
        (simp_all add: bind_sample_defs eval_le_bytes)
    show "resolve_symbol bind_mem bind_env 0 (ucast (1 :: u8)) (Some [95, 98, 99]) = Some (Ret 0x5040)"
      using bind_sample_resolves by simp
    show "bytes_at bind_mem 0x600 (concat (map bop_enc bind_sample_ops))"
      unfolding bind_sample_bytes by (rule bind_sample_at)
    show "span 0x800 8 \<inter> span 0x600 (length (concat (map bop_enc bind_sample_ops))) = {}"
      unfolding bind_sample_bytes using bind_sample_span by (simp add: eval_nat_numeral)
    show "\<forall>b\<in>set bind_sample_ops. bop_ok b" by (rule bind_sample_ok)
  qed (simp_all add: bind_sample_images bind_sample_lazy bind_sample_slot bind_sample_bytes)
  then show ?thesis by blast
qed

end
