(* ===== verification/Loader.thy ===== *)
theory Loader
  imports Bind
begin

text \<open>
  Loading of images, \<open>userland/dyld/macho_load.c\<close>, and the start of a program,
  \<open>userland/dyld/dyld_main.c\<close>.  A file is what the loader reads of it: whether its header is that
  of a 64-bit Mach-O and its load commands can be read, the commands, and its bytes.  The file
  system and the success of \<open>mmap\<close> at a fixed address are arguments.  \<open>headers\<close> holds the load
  commands of every image in the table, which the code reads from its mapped header;
  \<open>preferred_base\<close> is written by the code but never read.

  The two functions that call each other, \<open>image_load_dependency\<close> and \<open>image_parse_loaded\<close>, have
  a bound on the depth of their calls; one more than \<open>IMAGE_MAX\<close> is enough, since every call
  that goes deeper has taken a new entry of the table.
\<close>

section \<open>Files and the table of images\<close>

record section_64 =
  sec_mod_init :: bool
  sec_addr :: u64
  sec_size :: u64

datatype load_command =
    LcSegment segment "section_64 list"
  | LcDyldInfo dyld_info
  | LcLoadDylib cstr
  | LcMain u64
  | LcOther

record macho =
  mf_header_ok :: bool
  mf_commands_ok :: bool
  mf_commands :: "load_command list"
  mf_bytes :: "u8 list"

record loader_env =
  le_files :: "cstr \<rightharpoonup> macho"
  le_mmap_ok :: "addr \<Rightarrow> u64 \<Rightarrow> bool"

record loader =
  images :: "image list"
  headers :: "load_command list list"
  next_dylib_base :: u64
  l_mem :: mem

definition image_max :: nat where "image_max = 16"
definition image_max_segments :: nat where "image_max_segments = 12"
definition image_max_deps :: nat where "image_max_deps = 8"
definition dylib_slot_size :: u64 where "dylib_slot_size = 0x10000000"

text \<open>\<open>strncpy\<close> into the path field of 256 bytes.\<close>

definition path_field :: "cstr \<Rightarrow> cstr" where
  "path_field p = take 255 p"

fun find_loaded_in :: "nat \<Rightarrow> image list \<Rightarrow> cstr \<Rightarrow> nat option" where
  "find_loaded_in i [] path = None"
| "find_loaded_in i (im # ims) path =
     (if im_path im = path then Some i else find_loaded_in (Suc i) ims path)"

definition find_loaded :: "cstr \<Rightarrow> loader \<Rightarrow> nat option" where
  "find_loaded path st = find_loaded_in 0 (images st) path"

definition update_image :: "nat \<Rightarrow> (image \<Rightarrow> image) \<Rightarrow> loader \<Rightarrow> loader" where
  "update_image i f st = st\<lparr>images := (images st)[i := f (images st ! i)]\<rparr>"

section \<open>Mapping a file\<close>

text \<open>The first pass: the address of the segment that holds the header, and the highest end.\<close>

fun layout :: "load_command list \<Rightarrow> u64 \<times> u64 \<Rightarrow> u64 \<times> u64" where
  "layout [] r = r"
| "layout (LcSegment s secs # cs) (lo, hi) =
     layout cs (if fileoff s = 0 \<and> 0 < filesize s then vmaddr s else lo,
                if hi < vmaddr s + vmsize s then vmaddr s + vmsize s else hi)"
| "layout (_ # cs) r = layout cs r"

definition map_anon :: "addr \<Rightarrow> u64 \<Rightarrow> mem \<Rightarrow> mem" where
  "map_anon dest n m = (\<lambda>x. if x - dest < n then Some 0 else m x)"

text \<open>\<open>read\<close> at an offset: all bytes are there and all addresses are mapped, or it falls short.\<close>

definition read_at :: "u8 list \<Rightarrow> u64 \<Rightarrow> u64 \<Rightarrow> addr \<Rightarrow> mem \<Rightarrow> mem option" where
  "read_at bytes off n dest m =
     (let chunk = take (unat n) (drop (unat off) bytes) in
      if length chunk < unat n then None else store_bytes m dest chunk)"

text \<open>The second pass.\<close>

fun map_segments :: "loader_env \<Rightarrow> macho \<Rightarrow> u64 \<Rightarrow> load_command list \<Rightarrow> mem \<Rightarrow> mem outcome" where
  "map_segments env f slide [] m = Ret m"
| "map_segments env f slide (LcSegment s secs # cs) m =
     (if vmsize s = 0 then map_segments env f slide cs m
      else
        let dest = vmaddr s + slide in
        if \<not> le_mmap_ok env dest (vmsize s) then Panic ''segment mmap failed''
        else if 0 < filesize s then
          case read_at (mf_bytes f) (fileoff s) (filesize s) dest (map_anon dest (vmsize s) m) of
            None \<Rightarrow> Panic ''short read of segment contents''
          | Some m' \<Rightarrow> map_segments env f slide cs m'
        else map_segments env f slide cs (map_anon dest (vmsize s) m))"
| "map_segments env f slide (_ # cs) m = map_segments env f slide cs m"

definition slots_of :: "u64 \<Rightarrow> u64" where
  "slots_of extent =
     (let slots = (extent + dylib_slot_size - 1) div dylib_slot_size in if slots < 1 then 1 else slots)"

text \<open>From \<open>open\<close> to \<open>close\<close>: the commands of the file, the address of its header and its slide.\<close>

definition map_file ::
  "loader_env \<Rightarrow> cstr \<Rightarrow> loader \<Rightarrow> (load_command list \<times> addr \<times> u64 \<times> loader) outcome" where
  "map_file env path st =
     (case le_files env path of
        None \<Rightarrow> Panic ''cannot open''
      | Some f \<Rightarrow>
          if \<not> mf_header_ok f then Panic ''not a 64-bit Mach-O''
          else if \<not> mf_commands_ok f then Panic ''short read of load commands''
          else
            let (lo, hi) = layout (mf_commands f) (- 1, 0) in
            if lo = - 1 \<or> hi \<le> lo then Panic ''no segments''
            else
              let load_addr = next_dylib_base st; slide = load_addr - lo in
              obind (map_segments env f slide (mf_commands f) (l_mem st)) (\<lambda>m.
                Ret (mf_commands f, lo + slide, slide,
                  st\<lparr>next_dylib_base := load_addr + slots_of (hi - lo) * dylib_slot_size,
                     l_mem := m\<rparr>)))"

section \<open>Loading\<close>

definition new_image :: "cstr \<Rightarrow> loader \<Rightarrow> loader" where
  "new_image path st =
     st\<lparr>images := images st @ [blank_image\<lparr>im_path := path_field path\<rparr>],
        headers := headers st @ [[]]\<rparr>"

definition set_header :: "nat \<Rightarrow> load_command list \<Rightarrow> addr \<Rightarrow> u64 \<Rightarrow> loader \<Rightarrow> loader" where
  "set_header i cmds mh slide st =
     (update_image i (\<lambda>im. im\<lparr>im_mh := mh, im_slide := slide\<rparr>) st)
       \<lparr>headers := (headers st)[i := cmds]\<rparr>"

function (sequential) image_load_dependency ::
    "nat \<Rightarrow> loader_env \<Rightarrow> cstr \<Rightarrow> loader \<Rightarrow> (nat \<times> loader) outcome option"
  and parse_commands ::
    "nat \<Rightarrow> loader_env \<Rightarrow> nat \<Rightarrow> load_command list \<Rightarrow> loader \<Rightarrow> loader outcome option" where
  "image_load_dependency 0 env path st = None"
| "image_load_dependency (Suc n) env path st =
     (case find_loaded path st of
        Some i \<Rightarrow> Some (Ret (i, st))
      | None \<Rightarrow>
          if image_max \<le> length (images st) then Some (Panic ''too many loaded images'')
          else
            let i = length (images st) in
            rbind (Some (map_file env path (new_image path st))) (\<lambda>(cmds, mh, slide, st1).
              rbind (parse_commands n env i cmds (set_header i cmds mh slide st1))
                (\<lambda>st2. Some (Ret (i, st2)))))"
| "parse_commands n env i [] st = Some (Ret st)"
| "parse_commands n env i (LcSegment s secs # cs) st =
     (if image_max_segments \<le> length (im_segs (images st ! i)) then Some (Panic ''too many segments'')
      else parse_commands n env i cs (update_image i (\<lambda>im. im\<lparr>im_segs := im_segs im @ [s]\<rparr>) st))"
| "parse_commands n env i (LcDyldInfo d # cs) st =
     parse_commands n env i cs (update_image i (\<lambda>im. translate_dyld_info im d) st)"
| "parse_commands n env i (LcLoadDylib p # cs) st =
     (if image_max_deps \<le> length (im_deps (images st ! i)) then Some (Panic ''too many dependencies'')
      else rbind (image_load_dependency n env p st) (\<lambda>(d, st').
        parse_commands n env i cs (update_image i (\<lambda>im. im\<lparr>im_deps := im_deps im @ [d]\<rparr>) st')))"
| "parse_commands n env i (_ # cs) st = parse_commands n env i cs st"
  by pat_completeness auto
termination
  by (relation "measures [\<lambda>x. case x of Inl (n, env, path, st) \<Rightarrow> 2 * n |
        Inr (n, env, i, cs, st) \<Rightarrow> 2 * n + 1,
      \<lambda>x. case x of Inl _ \<Rightarrow> 0 | Inr (n, env, i, cs, st) \<Rightarrow> length cs]") auto

definition image_parse_loaded ::
  "nat \<Rightarrow> loader_env \<Rightarrow> nat \<Rightarrow> load_command list \<Rightarrow> addr \<Rightarrow> u64 \<Rightarrow> loader \<Rightarrow> loader outcome option" where
  "image_parse_loaded n env i cmds mh slide st = parse_commands n env i cmds (set_header i cmds mh slide st)"

section \<open>Starting a program\<close>

fun preferred_base_from :: "load_command list \<Rightarrow> u64 option \<Rightarrow> u64 option" where
  "preferred_base_from [] r = r"
| "preferred_base_from (LcSegment s secs # cs) r =
     preferred_base_from cs (if fileoff s = 0 \<and> 0 < filesize s then Some (vmaddr s) else r)"
| "preferred_base_from (_ # cs) r = preferred_base_from cs r"

definition find_preferred_base :: "load_command list \<Rightarrow> u64 outcome" where
  "find_preferred_base cmds =
     (case preferred_base_from cmds None of
        None \<Rightarrow> Panic ''main executable: no segment at file offset 0''
      | Some b \<Rightarrow> Ret b)"

fun find_entry_point :: "addr \<Rightarrow> load_command list \<Rightarrow> addr outcome" where
  "find_entry_point mh [] = Panic ''main executable: no LC_MAIN''"
| "find_entry_point mh (LcMain off # cs) = Ret (mh + off)"
| "find_entry_point mh (_ # cs) = find_entry_point mh cs"

text \<open>The slots of the initialisers of one image, in the order in which
  \<open>image_run_mod_init_funcs\<close> calls what they hold.\<close>

definition section_slots :: "image \<Rightarrow> section_64 \<Rightarrow> addr list" where
  "section_slots im sec =
     (if sec_mod_init sec
      then map (\<lambda>k. image_addr im (sec_addr sec) + 8 * of_nat k) [0..<unat (ucast (sec_size sec div 8) :: u32)]
      else [])"

fun image_run_mod_init_funcs :: "image \<Rightarrow> load_command list \<Rightarrow> addr list" where
  "image_run_mod_init_funcs im [] = []"
| "image_run_mod_init_funcs im (LcSegment s secs # cs) =
     concat (map (section_slots im) secs) @ image_run_mod_init_funcs im cs"
| "image_run_mod_init_funcs im (_ # cs) = image_run_mod_init_funcs im cs"

definition init_order :: "loader \<Rightarrow> nat list" where
  "init_order st = rev [0..<length (images st)]"

fun rebase_images :: "image list \<Rightarrow> mem \<Rightarrow> mem outcome" where
  "rebase_images [] m = Ret m"
| "rebase_images (im # ims) m = obind (image_rebase m im) (rebase_images ims)"

fun bind_images :: "dyenv \<Rightarrow> nat list \<Rightarrow> mem \<Rightarrow> mem outcome option" where
  "bind_images env [] m = Some (Ret m)"
| "bind_images env (i # is) m = rbind (image_bind m env i) (bind_images env is)"

definition first_loader :: "cstr \<Rightarrow> load_command list \<Rightarrow> mem \<Rightarrow> loader" where
  "first_loader argv0 cmds m =
     \<lparr>images = [blank_image\<lparr>im_path := path_field argv0\<rparr>], headers = [cmds],
      next_dylib_base = 0x210000000, l_mem = m\<rparr>"

definition load_main :: "loader_env \<Rightarrow> cstr \<Rightarrow> load_command list \<Rightarrow> addr \<Rightarrow> mem \<Rightarrow> loader outcome option" where
  "load_main env argv0 cmds mh m =
     rbind (Some (find_preferred_base cmds)) (\<lambda>base.
       image_parse_loaded (Suc image_max) env 0 cmds mh (mh - base) (first_loader argv0 cmds m))"

text \<open>The whole of \<open>dyld_bootstrap_main\<close> except for the call of \<open>__objc_init\<close> and the table for
  debuggers: the loader's tables, the slots of the initialisers in the order of their calls, and
  the entry point.  \<open>stub\<close> is the address of the lazy binding helper.\<close>

definition dyld_bootstrap_main ::
  "loader_env \<Rightarrow> addr \<Rightarrow> cstr \<Rightarrow> load_command list \<Rightarrow> addr \<Rightarrow> mem \<Rightarrow>
   (loader \<times> addr list \<times> addr) outcome option" where
  "dyld_bootstrap_main env stub argv0 cmds mh m =
     rbind (load_main env argv0 cmds mh m) (\<lambda>st.
     rbind (Some (rebase_images (images st) (l_mem st))) (\<lambda>m1.
     rbind (bind_images \<lparr>de_images = images st, de_main = 0, de_stub = stub\<rparr>
              [0..<length (images st)] m1) (\<lambda>m2.
     rbind (Some (find_entry_point mh cmds)) (\<lambda>entry.
       Some (Ret (st\<lparr>l_mem := m2\<rparr>,
         concat (map (\<lambda>i. image_run_mod_init_funcs (images st ! i) (headers st ! i)) (init_order st)),
         entry))))))"

section \<open>Loading returns\<close>

lemma update_image_simps [simp]:
  "length (images (update_image i f st)) = length (images st)"
  "headers (update_image i f st) = headers st"
  "next_dylib_base (update_image i f st) = next_dylib_base st"
  "l_mem (update_image i f st) = l_mem st"
  by (simp_all add: update_image_def)

lemma set_header_simps [simp]:
  "length (images (set_header i cmds mh slide st)) = length (images st)"
  "length (headers (set_header i cmds mh slide st)) = length (headers st)"
  "next_dylib_base (set_header i cmds mh slide st) = next_dylib_base st"
  "l_mem (set_header i cmds mh slide st) = l_mem st"
  by (simp_all add: set_header_def)

lemma map_file_images:
  "map_file env path st = Ret (cmds, mh, slide, st') \<Longrightarrow>
   images st' = images st \<and> headers st' = headers st"
  by (auto simp: map_file_def Let_def split: option.splits if_splits prod.splits)

lemma new_image_simps [simp]:
  "length (images (new_image path st)) = Suc (length (images st))"
  "length (headers (new_image path st)) = Suc (length (headers st))"
  by (simp_all add: new_image_def)

lemma rbind_eq_None: "rbind x f = None \<longleftrightarrow> x = None \<or> (\<exists>v. x = Some (Ret v) \<and> f v = None)"
  by (cases "(x, f)" rule: rbind.cases) auto

text \<open>The shape of a run that succeeds, as a rule: \<open>P\<close> is shown of calls of
  \<open>image_load_dependency\<close> and \<open>Q\<close> of calls of the loop over the load commands.\<close>

lemma loading_induct:
  assumes cached: "\<And>path st i. find_loaded path st = Some i \<Longrightarrow> P path st i st"
    and load: "\<And>path st cmds mh slide st1 st2. find_loaded path st = None \<Longrightarrow>
      length (images st) < image_max \<Longrightarrow>
      map_file env path (new_image path st) = Ret (cmds, mh, slide, st1) \<Longrightarrow>
      Q (length (images st)) cmds (set_header (length (images st)) cmds mh slide st1) st2 \<Longrightarrow>
      P path st (length (images st)) st2"
    and nil: "\<And>i st. Q i [] st st"
    and segment: "\<And>i s secs cs st st'. length (im_segs (images st ! i)) < image_max_segments \<Longrightarrow>
      Q i cs (update_image i (\<lambda>im. im\<lparr>im_segs := im_segs im @ [s]\<rparr>) st) st' \<Longrightarrow>
      Q i (LcSegment s secs # cs) st st'"
    and info: "\<And>i d cs st st'. Q i cs (update_image i (\<lambda>im. translate_dyld_info im d) st) st' \<Longrightarrow>
      Q i (LcDyldInfo d # cs) st st'"
    and dylib: "\<And>i p cs st d st1 st'. length (im_deps (images st ! i)) < image_max_deps \<Longrightarrow>
      P p st d st1 \<Longrightarrow>
      Q i cs (update_image i (\<lambda>im. im\<lparr>im_deps := im_deps im @ [d]\<rparr>) st1) st' \<Longrightarrow>
      Q i (LcLoadDylib p # cs) st st'"
    and main: "\<And>i off cs st st'. Q i cs st st' \<Longrightarrow> Q i (LcMain off # cs) st st'"
    and other: "\<And>i cs st st'. Q i cs st st' \<Longrightarrow> Q i (LcOther # cs) st st'"
  shows "image_load_dependency n env' path st = Some (Ret (d, st')) \<Longrightarrow> env' = env \<Longrightarrow> P path st d st'"
    and "parse_commands n env' i cs st = Some (Ret st') \<Longrightarrow> env' = env \<Longrightarrow> Q i cs st st'"
proof (induction n env' path st and n env' i cs st arbitrary: d st' and st'
    rule: image_load_dependency_parse_commands.induct)
  case (1 env' path st)
  then show ?case by simp
next
  case (2 n env' path st)
  show ?case
  proof (cases "find_loaded path st")
    case None
    let ?i = "length (images st)"
    from "2.prems" None obtain cmds mh slide st1 where
      m: "Some (map_file env' path (new_image path st)) = Some (Ret (cmds, mh, slide, st1))" and
      p: "parse_commands n env' ?i cmds (set_header ?i cmds mh slide st1) = Some (Ret st')" and
      s: "d = ?i" "\<not> image_max \<le> ?i"
      by (auto simp: Let_def split: if_splits)
    from "2.IH" [OF None s(2) refl m refl refl refl p "2.prems"(2)] m None s(2) "2.prems"(2)
    show ?thesis unfolding s(1) by (intro load [of path st cmds mh slide st1]) auto
  qed (use "2.prems" cached in auto)
next
  case (6 n env' i p cs st)
  from "6.prems" obtain d st1 where
    l: "image_load_dependency n env' p st = Some (Ret (d, st1))" and
    q: "parse_commands n env' i cs (update_image i (\<lambda>im. im\<lparr>im_deps := im_deps im @ [d]\<rparr>) st1) =
      Some (Ret st')" and
    s: "\<not> image_max_deps \<le> length (im_deps (images st ! i))"
    by (auto split: if_splits)
  from "6.IH"(1) [OF s l "6.prems"(2)] "6.IH"(2) [OF s l refl q "6.prems"(2)] s
  show ?case by (intro dylib [of st i p d st1]) auto
qed (auto split: if_splits intro: nil segment info main other)

text \<open>Every call deeper has a longer table of images.\<close>

definition grown :: "loader \<Rightarrow> loader \<Rightarrow> bool" where
  "grown st st' \<longleftrightarrow> length (images st) \<le> length (images st') \<and>
     (length (images st) \<le> image_max \<longrightarrow> length (images st') \<le> image_max)"

lemma grown_load:
  assumes "length (images st) < image_max" "map_file env path (new_image path st) = Ret (cmds, mh, slide, st1)"
    "grown (set_header i cmds mh slide st1) st2"
  shows "grown st st2"
  using assms map_file_images [OF assms(2)] by (simp add: grown_def)

lemma grown_update: "grown (update_image i f st) st' \<longleftrightarrow> grown st st'"
  by (simp add: grown_def)

lemma grown_trans: "grown st st1 \<Longrightarrow> grown st1 st2 \<Longrightarrow> grown st st2"
  by (auto simp: grown_def)

lemma grown_refl: "grown st st" by (simp add: grown_def)

lemma loading_grows:
  "image_load_dependency n env path st = Some (Ret (d, st')) \<Longrightarrow> grown st st'"
  "parse_commands n env i cs st = Some (Ret st') \<Longrightarrow> grown st st'"
proof -
  note r = loading_induct [where P = "\<lambda>_ st _ st'. grown st st'" and Q = "\<lambda>_ _ st st'. grown st st'"
      and env = env, OF grown_refl _ grown_refl _ _ _ _ _ _ refl, unfolded grown_update]
  show "grown st st'" if "image_load_dependency n env path st = Some (Ret (d, st'))"
    by (rule r(1) [OF _ _ _ _ _ _ that]) (erule (2) grown_load | assumption | erule (1) grown_trans)+
  show "grown st st'" if "parse_commands n env i cs st = Some (Ret st')"
    by (rule r(2) [OF _ _ _ _ _ _ that]) (erule (2) grown_load | assumption | erule (1) grown_trans)+
qed

lemma load_None:
  assumes "image_load_dependency (Suc n) env path st = None"
  shows "find_loaded path st = None \<and> \<not> image_max \<le> length (images st) \<and>
    (\<exists>cmds mh slide st1.
      Some (map_file env path (new_image path st)) = Some (Ret (cmds, mh, slide, st1)) \<and>
      parse_commands n env (length (images st)) cmds
        (set_header (length (images st)) cmds mh slide st1) = None)"
  using assms by (auto simp: Let_def rbind_eq_None split: option.splits if_splits)

lemma dylib_None:
  assumes "parse_commands n env i (LcLoadDylib p # cs) st = None"
  shows "\<not> image_max_deps \<le> length (im_deps (images st ! i)) \<and>
    (image_load_dependency n env p st = None \<or>
     (\<exists>d st1. image_load_dependency n env p st = Some (Ret (d, st1)) \<and>
        parse_commands n env i cs (update_image i (\<lambda>im. im\<lparr>im_deps := im_deps im @ [d]\<rparr>) st1) = None))"
  using assms by (auto simp: rbind_eq_None split: if_splits)

lemma loading_total:
  "length (images st) \<le> image_max \<Longrightarrow> image_max < n + length (images st) \<Longrightarrow>
     image_load_dependency n env path st \<noteq> None"
  "length (images st) \<le> image_max \<Longrightarrow> image_max < n + length (images st) \<Longrightarrow>
     parse_commands n env i cs st \<noteq> None"
proof (induction n env path st and n env i cs st rule: image_load_dependency_parse_commands.induct)
  case (2 n env path st)
  show ?case
  proof (rule notI)
    assume "image_load_dependency (Suc n) env path st = None"
    from load_None [OF this] obtain cmds mh slide st1 where f: "find_loaded path st = None"
      and s: "\<not> image_max \<le> length (images st)"
      and m: "Some (map_file env path (new_image path st)) = Some (Ret (cmds, mh, slide, st1))"
      and p: "parse_commands n env (length (images st)) cmds
        (set_header (length (images st)) cmds mh slide st1) = None" by blast
    from m have "length (images st1) = Suc (length (images st))"
      using map_file_images [of env path "new_image path st" cmds mh slide st1] by simp
    with "2.IH" [OF f s refl m refl refl refl] p "2.prems"(2) s show False by simp
  qed
next
  case (6 n env i p cs st)
  show ?case
  proof (rule notI)
    assume "parse_commands n env i (LcLoadDylib p # cs) st = None"
    from dylib_None [OF this] "6.IH"(1) [OF _ "6.prems"] obtain d st1 where
      s: "\<not> image_max_deps \<le> length (im_deps (images st ! i))" and
      l: "image_load_dependency n env p st = Some (Ret (d, st1))" and
      q: "parse_commands n env i cs (update_image i (\<lambda>im. im\<lparr>im_deps := im_deps im @ [d]\<rparr>) st1) = None"
      by blast
    have "length (images st1) \<le> image_max" "image_max < n + length (images st1)"
      using loading_grows(1) [OF l] "6.prems" by (simp_all add: grown_def)
    with "6.IH"(2) [OF s l refl] q show False by simp
  qed
qed (simp_all split: if_splits)

text \<open>C16 Loading a program's images returns: the fixed bound on the depth of calls is never
  reached, whatever the images are and however they depend on each other, cycles included.\<close>
theorem load_main_returns: "load_main env argv0 cmds mh m \<noteq> None"
proof (cases "find_preferred_base cmds")
  case (Ret base)
  have "parse_commands (Suc image_max) env 0 cmds
      (set_header 0 cmds mh (mh - base) (first_loader argv0 cmds m)) \<noteq> None"
    by (rule loading_total(2)) (simp_all add: first_loader_def image_max_def)
  with Ret show ?thesis by (simp add: load_main_def image_parse_loaded_def)
qed (simp_all add: load_main_def)

section \<open>The table of images after loading\<close>

definition dylib_names :: "load_command list \<Rightarrow> cstr list" where
  "dylib_names cmds = concat (map (\<lambda>c. case c of LcLoadDylib p \<Rightarrow> [p] | _ \<Rightarrow> []) cmds)"

lemma dylib_names_simps [simp]:
  "dylib_names [] = []"
  "dylib_names (LcSegment s secs # cs) = dylib_names cs"
  "dylib_names (LcDyldInfo d # cs) = dylib_names cs"
  "dylib_names (LcLoadDylib p # cs) = p # dylib_names cs"
  "dylib_names (LcMain off # cs) = dylib_names cs"
  "dylib_names (LcOther # cs) = dylib_names cs"
  by (simp_all add: dylib_names_def)

text \<open>The dependencies of an image are the images that its commands name, in their order.\<close>

definition resolved :: "loader \<Rightarrow> nat \<Rightarrow> bool" where
  "resolved st i \<longleftrightarrow> list_all (\<lambda>d. d < length (images st)) (im_deps (images st ! i)) \<and>
     map (\<lambda>d. im_path (images st ! d)) (im_deps (images st ! i)) = dylib_names (headers st ! i)"

definition loaded :: "loader_env \<Rightarrow> loader \<Rightarrow> nat \<Rightarrow> bool" where
  "loaded env st i \<longleftrightarrow> resolved st i \<and>
     map_option mf_commands (le_files env (im_path (images st ! i))) = Some (headers st ! i)"

definition short_names :: "load_command list \<Rightarrow> bool" where
  "short_names cmds \<longleftrightarrow> list_all (\<lambda>p. length p \<le> 255) (dylib_names cmds)"

definition env_short :: "loader_env \<Rightarrow> bool" where
  "env_short env \<longleftrightarrow> (\<forall>f\<in>ran (le_files env). short_names (mf_commands f))"

definition table :: "loader \<Rightarrow> bool" where
  "table st \<longleftrightarrow> length (headers st) = length (images st) \<and> distinct (map im_path (images st))"

text \<open>A call only adds images, and finishes those.\<close>

definition adds :: "loader_env \<Rightarrow> nat set \<Rightarrow> loader \<Rightarrow> loader \<Rightarrow> bool" where
  "adds env keep st st' \<longleftrightarrow> table st' \<and> length (images st) \<le> length (images st') \<and>
     (\<forall>j<length (images st). im_path (images st' ! j) = im_path (images st ! j) \<and>
        headers st' ! j = headers st ! j \<and> (j \<in> keep \<longrightarrow> images st' ! j = images st ! j)) \<and>
     (\<forall>j<length (images st'). length (images st) \<le> j \<longrightarrow> loaded env st' j)"

definition loads_ok :: "loader_env \<Rightarrow> cstr \<Rightarrow> loader \<Rightarrow> nat \<Rightarrow> loader \<Rightarrow> bool" where
  "loads_ok env path st d st' \<longleftrightarrow> (table st \<and> length path \<le> 255 \<longrightarrow>
     adds env UNIV st st' \<and> d < length (images st') \<and> im_path (images st' ! d) = path)"

definition parses_ok :: "loader_env \<Rightarrow> nat \<Rightarrow> load_command list \<Rightarrow> loader \<Rightarrow> loader \<Rightarrow> bool" where
  "parses_ok env i cs st st' \<longleftrightarrow> (table st \<and> i < length (images st) \<and> short_names cs \<longrightarrow>
     adds env (- {i}) st st' \<and>
     (\<exists>ds. im_deps (images st' ! i) = im_deps (images st ! i) @ ds \<and>
        list_all (\<lambda>d. d < length (images st')) ds \<and>
        map (\<lambda>d. im_path (images st' ! d)) ds = dylib_names cs))"

lemma find_loaded_in_Some:
  "find_loaded_in i ims path = Some j \<Longrightarrow> i \<le> j \<and> j < i + length ims \<and> im_path (ims ! (j - i)) = path"
  by (induction ims arbitrary: i) (auto simp: nth_Cons' split: if_splits, fastforce+)

lemma find_loaded_in_None: "find_loaded_in i ims path = None \<Longrightarrow> path \<notin> im_path ` set ims"
  by (induction ims arbitrary: i) (auto split: if_splits)

lemma addsD:
  assumes "adds env keep st st'"
  shows "table st'" "length (images st) \<le> length (images st')"
    "j < length (images st) \<Longrightarrow> im_path (images st' ! j) = im_path (images st ! j)"
    "j < length (images st) \<Longrightarrow> headers st' ! j = headers st ! j"
    "j < length (images st) \<Longrightarrow> j \<in> keep \<Longrightarrow> images st' ! j = images st ! j"
    "length (images st) \<le> j \<Longrightarrow> j < length (images st') \<Longrightarrow> loaded env st' j"
  using assms by (simp_all add: adds_def)

lemma addsI:
  assumes "table st'" "length (images st) \<le> length (images st')"
    "\<And>j. j < length (images st) \<Longrightarrow> im_path (images st' ! j) = im_path (images st ! j)"
    "\<And>j. j < length (images st) \<Longrightarrow> headers st' ! j = headers st ! j"
    "\<And>j. j < length (images st) \<Longrightarrow> j \<in> keep \<Longrightarrow> images st' ! j = images st ! j"
    "\<And>j. length (images st) \<le> j \<Longrightarrow> j < length (images st') \<Longrightarrow> loaded env st' j"
  shows "adds env keep st st'"
  using assms by (simp add: adds_def)

lemma resolved_adds:
  assumes "loaded env st j" "j < length (images st)" "adds env keep st st'" "j \<in> keep"
  shows "loaded env st' j"
proof -
  note a = addsD [OF assms(3)]
  let ?ds = "im_deps (images st ! j)"
  have d: "list_all (\<lambda>d. d < length (images st)) ?ds" using assms(1) by (simp add: loaded_def resolved_def)
  then have "list_all (\<lambda>d. d < length (images st')) ?ds"
    using a(2) by (auto simp: list_all_iff)
  moreover have "map (\<lambda>d. im_path (images st' ! d)) ?ds = map (\<lambda>d. im_path (images st ! d)) ?ds"
    using d a(3) by (intro map_cong) (auto simp: list_all_iff)
  ultimately show ?thesis using assms(1) a(4) [OF assms(2)] a(5) [OF assms(2,4)]
    by (simp only: loaded_def resolved_def)
qed

lemma adds_trans:
  assumes "adds env k1 st st1" "adds env k2 st1 st2" "\<And>j. length (images st) \<le> j \<Longrightarrow> j \<in> k2"
  shows "adds env (k1 \<inter> k2) st st2"
proof (rule addsI)
  note a = addsD [OF assms(1)] and b = addsD [OF assms(2)]
  show "table st2" by (rule b(1))
  show "length (images st) \<le> length (images st2)" using a(2) b(2) by simp
  fix j
  show "loaded env st2 j" if j: "length (images st) \<le> j" "j < length (images st2)"
  proof (cases "j < length (images st1)")
    case True
    show ?thesis by (rule resolved_adds [OF a(6) [OF j(1) True] True assms(2) assms(3) [OF j(1)]])
  next
    case False
    then show ?thesis using b(6) [of j] j(2) by simp
  qed
  assume j: "j < length (images st)"
  then have j1: "j < length (images st1)" using a(2) by simp
  show "im_path (images st2 ! j) = im_path (images st ! j)" using a(3) [OF j] b(3) [OF j1] by simp
  show "headers st2 ! j = headers st ! j" using a(4) [OF j] b(4) [OF j1] by simp
  show "images st2 ! j = images st ! j" if "j \<in> k1 \<inter> k2"
    using a(5) [OF j] b(5) [OF j1] that by simp
qed

lemma update_table:
  assumes "i < length (images st)" "im_path (f (images st ! i)) = im_path (images st ! i)"
  shows "table (update_image i f st) \<longleftrightarrow> table st"
proof -
  have "map im_path ((images st)[i := f (images st ! i)]) = map im_path (images st)"
    unfolding map_update assms(2) using assms(1) by (metis list_update_id nth_map)
  then show ?thesis by (simp add: table_def update_image_def)
qed

lemma update_adds:
  assumes "table st" "i < length (images st)" "im_path (f (images st ! i)) = im_path (images st ! i)"
  shows "adds env (- {i}) st (update_image i f st)"
  using assms update_table [of i st f]
  by (intro addsI) (auto simp: update_image_def nth_list_update)

text \<open>A command that keeps the path and the dependencies of the image.\<close>

lemma parses_update:
  assumes "parses_ok env i cs (update_image i f st) st'" "dylib_names (c # cs) = dylib_names cs"
    "im_path (f (images st ! i)) = im_path (images st ! i)"
    "im_deps (f (images st ! i)) = im_deps (images st ! i)"
  shows "parses_ok env i (c # cs) st st'"
  unfolding parses_ok_def
proof
  assume h: "table st \<and> i < length (images st) \<and> short_names (c # cs)"
  then have u: "adds env (- {i}) st (update_image i f st)" using update_adds assms(3) by blast
  have "short_names cs" using h assms(2) by (simp add: short_names_def)
  then have "adds env (- {i}) (update_image i f st) st' \<and>
    (\<exists>ds. im_deps (images st' ! i) = im_deps (images (update_image i f st) ! i) @ ds \<and>
        list_all (\<lambda>d. d < length (images st')) ds \<and>
        map (\<lambda>d. im_path (images st' ! d)) ds = dylib_names cs)"
    using assms(1) h addsD(1) [OF u] by (simp add: parses_ok_def)
  then show "adds env (- {i}) st st' \<and>
    (\<exists>ds. im_deps (images st' ! i) = im_deps (images st ! i) @ ds \<and>
        list_all (\<lambda>d. d < length (images st')) ds \<and>
        map (\<lambda>d. im_path (images st' ! d)) ds = dylib_names (c # cs))"
    using adds_trans [OF u, of "- {i}" st'] h assms(2,4) by (auto simp: update_image_def)
qed

lemma translate_frame [simp]:
  "im_path (translate_dyld_info im d) = im_path im" "im_deps (translate_dyld_info im d) = im_deps im"
  by (simp_all add: translate_dyld_info_def Let_def)

lemma parses_dylib:
  assumes "loads_ok env p st d st1"
    "parses_ok env i cs (update_image i (\<lambda>im. im\<lparr>im_deps := im_deps im @ [d]\<rparr>) st1) st'"
  shows "parses_ok env i (LcLoadDylib p # cs) st st'"
  unfolding parses_ok_def
proof
  let ?u = "update_image i (\<lambda>im. im\<lparr>im_deps := im_deps im @ [d]\<rparr>) st1"
  assume h: "table st \<and> i < length (images st) \<and> short_names (LcLoadDylib p # cs)"
  then have p: "length p \<le> 255" "short_names cs" by (simp_all add: short_names_def)
  with assms(1) h have l: "adds env UNIV st st1" "d < length (images st1)" "im_path (images st1 ! d) = p"
    by (simp_all add: loads_ok_def)
  have i1: "i < length (images st1)" using h addsD(2) [OF l(1)] by simp
  have u: "adds env (- {i}) st1 ?u" by (rule update_adds) (use addsD(1) [OF l(1)] i1 in simp_all)
  from assms(2) addsD(1) [OF u] i1 p(2) obtain ds where
    q: "adds env (- {i}) ?u st'" "im_deps (images st' ! i) = im_deps (images ?u ! i) @ ds"
      "list_all (\<lambda>d. d < length (images st')) ds"
      "map (\<lambda>d. im_path (images st' ! d)) ds = dylib_names cs"
    by (auto simp: parses_ok_def)
  have "adds env (- {i}) st1 st'" using adds_trans [OF u q(1)] i1 by simp
  from adds_trans [OF l(1) this] h have a: "adds env (- {i}) st st'" by simp
  have "im_deps (images ?u ! i) = im_deps (images st ! i) @ [d]"
    using i1 addsD(5) [OF l(1), of i] h by (simp add: update_image_def)
  moreover have "d < length (images st')" "im_path (images st' ! d) = p"
    using l(2,3) addsD(2,3) [OF \<open>adds env (- {i}) st1 st'\<close>] by (auto intro: less_le_trans)
  ultimately show "adds env (- {i}) st st' \<and>
    (\<exists>ds. im_deps (images st' ! i) = im_deps (images st ! i) @ ds \<and>
        list_all (\<lambda>d. d < length (images st')) ds \<and>
        map (\<lambda>d. im_path (images st' ! d)) ds = dylib_names (LcLoadDylib p # cs))"
    using a q(2,3,4) by (intro conjI exI [of _ "d # ds"]) simp_all
qed

lemma loads_new:
  assumes "find_loaded path st = None" "env_short env"
    "map_file env path (new_image path st) = Ret (cmds, mh, slide, st1)"
    "parses_ok env (length (images st)) cmds (set_header (length (images st)) cmds mh slide st1) st2"
  shows "loads_ok env path st (length (images st)) st2"
  unfolding loads_ok_def
proof
  let ?i = "length (images st)" and ?s = "set_header (length (images st)) cmds mh slide st1"
  assume h: "table st \<and> length path \<le> 255"
  have im1: "images st1 = images st @ [blank_image\<lparr>im_path := path\<rparr>]" "headers st1 = headers st @ [[]]"
    using map_file_images [OF assms(3)] h by (simp_all add: new_image_def path_field_def)
  have sh: "images ?s = images st @ [blank_image\<lparr>im_path := path, im_mh := mh, im_slide := slide\<rparr>]"
    "headers ?s = headers st @ [cmds]"
    using h by (simp_all add: set_header_def update_image_def im1 table_def list_update_append)
  have "path \<notin> im_path ` set (images st)"
    using find_loaded_in_None assms(1) by (auto simp: find_loaded_def)
  then have t: "table ?s" using h by (auto simp: table_def sh)
  have "short_names cmds"
    using assms(2,3) by (auto simp: env_short_def map_file_def Let_def ran_def split: option.splits if_splits prod.splits)
  with assms(4) t obtain ds where p: "adds env (- {?i}) ?s st2"
    "im_deps (images st2 ! ?i) = im_deps (images ?s ! ?i) @ ds"
    "list_all (\<lambda>d. d < length (images st2)) ds"
    "map (\<lambda>d. im_path (images st2 ! d)) ds = dylib_names cmds"
    by (auto simp: parses_ok_def sh)
  note a = addsD [OF p(1)]
  have "map_option mf_commands (le_files env path) = Some cmds"
    using assms(3) by (auto simp: map_file_def Let_def split: option.splits if_splits prod.splits)
  moreover have "headers st2 ! ?i = cmds" "im_path (images st2 ! ?i) = path"
    using a(3,4) [of ?i] h by (simp_all add: sh blank_image_def table_def nth_append)
  ultimately have r: "loaded env st2 ?i"
    using p(2-4) by (simp add: loaded_def resolved_def sh blank_image_def)
  have "adds env UNIV st st2"
  proof (rule addsI)
    show "loaded env st2 j" if "?i \<le> j" "j < length (images st2)" for j
      using r a(6) [of j] that by (cases "j = ?i") (simp_all add: sh)
  qed (use a h in \<open>auto simp: sh nth_append table_def\<close>)
  then show "adds env UNIV st st2 \<and> ?i < length (images st2) \<and> im_path (images st2 ! ?i) = path"
    using a(2) a(3) [of ?i] by (simp add: sh blank_image_def)
qed

lemma loads_cached:
  assumes "find_loaded path st = Some i"
  shows "loads_ok env path st i st"
  using find_loaded_in_Some [of 0 "images st" path i] assms
  by (auto simp: loads_ok_def find_loaded_def intro!: addsI)

lemma loads_table:
  assumes "env_short env"
  shows "image_load_dependency n env path st = Some (Ret (d, st')) \<Longrightarrow> loads_ok env path st d st'"
    and "parse_commands n env i cs st = Some (Ret st') \<Longrightarrow> parses_ok env i cs st st'"
proof -
  have nil: "parses_ok env i [] st st" for i st by (auto simp: parses_ok_def intro!: addsI)
  have same: "parses_ok env i (c # cs) st st'" if "parses_ok env i cs st st'" "dylib_names (c # cs) = dylib_names cs"
    for i c cs st st'
    using that by (simp add: parses_ok_def short_names_def)
  note r = loading_induct [where P = "loads_ok env" and Q = "parses_ok env" and env = env,
      OF _ _ _ _ _ _ _ _ _ refl]
  show "loads_ok env path st d st'" if "image_load_dependency n env path st = Some (Ret (d, st'))"
    by (rule r(1) [OF _ _ _ _ _ _ _ _ that])
       (erule loads_cached | erule (2) loads_new [OF _ assms] | rule nil | erule (1) parses_dylib |
        erule parses_update | erule same | simp)+
  show "parses_ok env i cs st st'" if "parse_commands n env i cs st = Some (Ret st')"
    by (rule r(2) [OF _ _ _ _ _ _ _ _ that])
       (erule loads_cached | erule (2) loads_new [OF _ assms] | rule nil | erule (1) parses_dylib |
        erule parses_update | erule same | simp)+
qed

text \<open>C15 After loading, the table holds every image once, each with the load commands of the file
  at its path, and the dependencies of each image are, in order, exactly the images that its
  commands name: what a bind ordinal selects is the library that the linker meant.  Names have at
  most 255 bytes.\<close>
theorem load_main_correct:
  assumes "load_main env argv0 cmds mh m = Some (Ret st)" "env_short env" "short_names cmds"
  shows "distinct (map im_path (images st)) \<and> headers st ! 0 = cmds \<and> resolved st 0 \<and>
    list_all (loaded env st) [1..<length (images st)]"
proof -
  from assms(1) obtain base where p: "parse_commands (Suc image_max) env 0 cmds
      (set_header 0 cmds mh (mh - base) (first_loader argv0 cmds m)) = Some (Ret st)"
    by (auto simp: load_main_def image_parse_loaded_def)
  let ?s = "set_header 0 cmds mh (mh - base) (first_loader argv0 cmds m)"
  have s: "length (images ?s) = 1" "headers ?s = [cmds]" "im_deps (images ?s ! 0) = []" "table ?s"
    by (simp_all add: first_loader_def set_header_def update_image_def blank_image_def table_def)
  from loads_table(2) [OF assms(2) p] s assms(3) obtain ds where
    a: "adds env (- {0}) ?s st" and d: "im_deps (images st ! 0) = ds"
      "list_all (\<lambda>d. d < length (images st)) ds"
      "map (\<lambda>d. im_path (images st ! d)) ds = dylib_names cmds"
    by (auto simp: parses_ok_def)
  note f = addsD [OF a]
  have "headers st ! 0 = cmds" using f(4) [of 0] unfolding s(1,2) by simp
  moreover from this have "resolved st 0" using d by (simp only: resolved_def simp_thms)
  moreover have "list_all (loaded env st) [1..<length (images st)]"
    using f(6) s(1) by (simp add: list_all_iff)
  ultimately show ?thesis using f(1) by (simp add: table_def)
qed

section \<open>An example, and the order of initialisers\<close>

text \<open>A program that needs two libraries, the second of which needs the first one.\<close>

definition demo_segment :: segment where
  "demo_segment = \<lparr>vmaddr = 0, vmsize = 0x1000, fileoff = 0, filesize = 4\<rparr>"

definition demo_library :: "cstr list \<Rightarrow> macho" where
  "demo_library ds = \<lparr>mf_header_ok = True, mf_commands_ok = True,
     mf_commands = LcSegment demo_segment [] # map LcLoadDylib ds, mf_bytes = [1, 2, 3, 4]\<rparr>"

definition demo_env :: loader_env where
  "demo_env = \<lparr>le_files = [[65] \<mapsto> demo_library [], [66] \<mapsto> demo_library [[65]]],
     le_mmap_ok = (\<lambda>_ _. True)\<rparr>"

definition demo_commands :: "load_command list" where
  "demo_commands = [LcSegment demo_segment [], LcLoadDylib [65], LcLoadDylib [66], LcMain 8]"

lemmas loader_eval = load_main_def find_preferred_base_def demo_commands_def demo_segment_def
  demo_env_def demo_library_def image_parse_loaded_def first_loader_def blank_image_def
  path_field_def set_header_def update_image_def find_loaded_def new_image_def map_file_def
  slots_of_def dylib_slot_size_def read_at_def map_anon_def image_max_def image_max_segments_def
  image_max_deps_def

lemmas load_numeral = image_load_dependency.simps(2) [of "pred_numeral k" for k, folded numeral_eq_Suc]

lemma demo_load:
  "\<exists>st. load_main demo_env [77] demo_commands 0x100000000 Map.empty = Some (Ret st) \<and>
     map im_path (images st) = [[77], [65], [66]] \<and> map im_deps (images st) = [[1, 2], [], [1]]"
  by (simp add: loader_eval load_numeral del: rbind_eq_Ret image_load_dependency.simps)

lemma demo_short: "env_short demo_env" "short_names demo_commands"
  by (auto simp: env_short_def short_names_def demo_env_def demo_library_def demo_commands_def
      ran_def split: if_splits)

lemma demo_length: "map im_path (images st) = [[77], [65], [66]] \<Longrightarrow> length (images st) = 3"
  by (drule arg_cong [of _ _ length]) simp

lemma load_main_correct_witness:
  "\<exists>st. load_main demo_env [77] demo_commands 0x100000000 Map.empty = Some (Ret st) \<and>
     length (images st) = 3 \<and>
     distinct (map im_path (images st)) \<and> headers st ! 0 = demo_commands \<and> resolved st 0 \<and>
     list_all (loaded demo_env st) [1..<length (images st)]"
proof -
  obtain st where s: "load_main demo_env [77] demo_commands 0x100000000 Map.empty = Some (Ret st) \<and>
     map im_path (images st) = [[77], [65], [66]] \<and> map im_deps (images st) = [[1, 2], [], [1]]"
    using demo_load ..
  note e = conjunct1 [OF s] and p = conjunct1 [OF conjunct2 [OF s]]
  show ?thesis
    by (rule exI [of _ st], rule conjI [OF e], rule conjI [OF demo_length [OF p]],
        rule load_main_correct [OF e demo_short])
qed

text \<open>The initialisers of a library can run before those of a library it depends on.  The order
  is that of the table from its end, which puts a dependency after its dependent when another
  image had named the dependency before: here the second library is initialised first.\<close>
theorem initialised_before_dependency:
  "\<exists>st. load_main demo_env [77] demo_commands 0x100000000 Map.empty = Some (Ret st) \<and>
     1 \<in> set (im_deps (images st ! 2)) \<and> init_order st = [2, 1, 0]"
proof -
  obtain st where s: "load_main demo_env [77] demo_commands 0x100000000 Map.empty = Some (Ret st) \<and>
     map im_path (images st) = [[77], [65], [66]] \<and> map im_deps (images st) = [[1, 2], [], [1]]"
    using demo_load ..
  note e = conjunct1 [OF s] and p = conjunct1 [OF conjunct2 [OF s]] and d = conjunct2 [OF conjunct2 [OF s]]
  note l = demo_length [OF p]
  have "2 < length (images st)" unfolding l by simp
  then have "im_deps (images st ! 2) = map im_deps (images st) ! 2" by (rule nth_map [symmetric])
  then have "1 \<in> set (im_deps (images st ! 2))" unfolding d by simp
  moreover have "init_order st = [2, 1, 0]" unfolding init_order_def l by (simp add: upt_rec)
  ultimately show ?thesis by (intro exI [of _ st] conjI e)
qed

end
