(* ===== verification/XpcValue.thy ===== *)
theory XpcValue
  imports Prelude
begin

text \<open>
  The value level of \<open>userland/libxpc\<close>: \<open>xpc_object.c\<close>, \<open>xpc_array.c\<close> and
  \<open>xpc_dictionary.c\<close> on trees of values.  A dictionary is its key/value chain, head first,
  and a key is what \<open>strdup\<close> keeps of it.  Doubles are their 64 bits.  Connections and errors
  have no value; they carry the address that identifies them.  The reference counts and the
  sharing of objects are the subject of \<open>XpcHeap\<close>.
\<close>

section \<open>Values\<close>

datatype xval =
    XNull
  | XBool bool
  | XInt64 u64
  | XUInt64 u64
  | XDouble u64
  | XString "u8 list"
  | XData "u8 list"
  | XArray "xval list"
  | XDict "(cstr \<times> xval) list"
  | XConnection nat
  | XError nat cstr

text \<open>What a C string operation sees of a byte block: the bytes before the first NUL.\<close>

definition c_str :: "u8 list \<Rightarrow> cstr" where
  "c_str bs = takeWhile (\<lambda>c. c \<noteq> 0) bs"

lemma is_cstr_c_str [simp]: "is_cstr (c_str bs)"
  by (auto simp: is_cstr_def c_str_def dest: set_takeWhileD)

lemma c_str_id [simp]: "is_cstr s \<Longrightarrow> c_str s = s"
  by (simp add: c_str_def is_cstr_def takeWhile_eq_all_conv)

section \<open>Dictionaries\<close>

definition find_kv :: "(cstr \<times> xval) list \<Rightarrow> cstr \<Rightarrow> (cstr \<times> xval) option" where
  "find_kv kvs key = find (\<lambda>(k, v). k = key) kvs"

fun replace_value :: "(cstr \<times> xval) list \<Rightarrow> cstr \<Rightarrow> xval \<Rightarrow> (cstr \<times> xval) list" where
  "replace_value [] key v = []"
| "replace_value ((k, w) # kvs) key v =
     (if k = key then (k, v) # kvs else (k, w) # replace_value kvs key v)"

definition xpc_dictionary_set_value ::
  "(cstr \<times> xval) list \<Rightarrow> cstr \<Rightarrow> xval \<Rightarrow> (cstr \<times> xval) list" where
  "xpc_dictionary_set_value kvs key v =
     (case find_kv kvs key of Some kv \<Rightarrow> replace_value kvs key v | None \<Rightarrow> (key, v) # kvs)"

definition xpc_dictionary_get_value :: "(cstr \<times> xval) list \<Rightarrow> cstr \<Rightarrow> xval option" where
  "xpc_dictionary_get_value kvs key = map_option snd (find_kv kvs key)"

definition xpc_dictionary_create :: "(cstr \<times> xval) list \<Rightarrow> (cstr \<times> xval) list" where
  "xpc_dictionary_create kvs = foldl (\<lambda>d (k, v). xpc_dictionary_set_value d k v) [] kvs"

fun xpc_dictionary_apply ::
  "(cstr \<Rightarrow> xval \<Rightarrow> 's \<Rightarrow> bool \<times> 's) \<Rightarrow> (cstr \<times> xval) list \<Rightarrow> 's \<Rightarrow> bool \<times> 's" where
  "xpc_dictionary_apply applier [] s = (True, s)"
| "xpc_dictionary_apply applier ((k, v) # kvs) s =
     (let (go, s') = applier k v s in
      if go then xpc_dictionary_apply applier kvs s' else (False, s'))"

definition dict_inv :: "(cstr \<times> xval) list \<Rightarrow> bool" where
  "dict_inv kvs \<longleftrightarrow> distinct (map fst kvs)"

lemma find_kv_map_of: "map_option snd (find_kv kvs key) = map_of kvs key"
  by (induction kvs) (auto simp: find_kv_def)

lemma find_kv_None: "find_kv kvs key = None \<longleftrightarrow> key \<notin> fst ` set kvs"
  by (force simp: find_kv_def find_None_iff)

lemma replace_value_keys [simp]: "map fst (replace_value kvs key v) = map fst kvs"
  by (induction kvs) auto

lemma map_of_replace_value:
  "key \<in> fst ` set kvs \<Longrightarrow> map_of (replace_value kvs key v) = (map_of kvs)(key \<mapsto> v)"
  by (induction kvs) (force simp: fun_eq_iff)+

lemma get_value_map_of: "xpc_dictionary_get_value kvs key = map_of kvs key"
  by (simp add: xpc_dictionary_get_value_def find_kv_map_of)

lemma map_of_set_value: "map_of (xpc_dictionary_set_value kvs key v) = (map_of kvs)(key \<mapsto> v)"
proof (cases "key \<in> fst ` set kvs")
  case True
  then have "find_kv kvs key \<noteq> None" by (simp add: find_kv_None)
  then show ?thesis
    using map_of_replace_value [OF True] by (auto simp: xpc_dictionary_set_value_def)
next
  case False
  then have "find_kv kvs key = None" by (simp only: find_kv_None not_False_eq_True)
  then show ?thesis by (simp add: xpc_dictionary_set_value_def)
qed

lemma set_value_inv: "dict_inv kvs \<Longrightarrow> dict_inv (xpc_dictionary_set_value kvs key v)"
  using find_kv_None [of kvs key]
  by (auto simp: dict_inv_def xpc_dictionary_set_value_def split: option.split)

lemma set_value_fresh:
  "key \<notin> fst ` set kvs \<Longrightarrow> xpc_dictionary_set_value kvs key v = (key, v) # kvs"
  by (simp add: xpc_dictionary_set_value_def find_kv_None [THEN iffD2])

lemma set_value_members:
  "(k, w) \<in> set (xpc_dictionary_set_value kvs key v) \<Longrightarrow> (k, w) \<in> set kvs \<or> k = key \<and> w = v"
proof -
  have "(k, w) \<in> set (replace_value kvs key v) \<Longrightarrow> (k, w) \<in> set kvs \<or> k = key \<and> w = v"
    by (induction kvs) (auto split: if_splits)
  then show "(k, w) \<in> set (xpc_dictionary_set_value kvs key v) \<Longrightarrow> ?thesis"
    by (auto simp: xpc_dictionary_set_value_def split: option.splits)
qed

text \<open>
  The typed setters and getters.  A getter reads the member of the union its type names
  without looking at the tag; the numbers below are read as they are stored.  A getter of a
  value of another type reads whatever the union holds: that is outside the model, \<open>Undef\<close>.
\<close>

definition xpc_dictionary_set_bool where
  "xpc_dictionary_set_bool kvs key b = xpc_dictionary_set_value kvs key (XBool b)"
definition xpc_dictionary_set_int64 where
  "xpc_dictionary_set_int64 kvs key i = xpc_dictionary_set_value kvs key (XInt64 i)"
definition xpc_dictionary_set_uint64 where
  "xpc_dictionary_set_uint64 kvs key u = xpc_dictionary_set_value kvs key (XUInt64 u)"
definition xpc_dictionary_set_double where
  "xpc_dictionary_set_double kvs key d = xpc_dictionary_set_value kvs key (XDouble d)"
definition xpc_dictionary_set_string where
  "xpc_dictionary_set_string kvs key s = xpc_dictionary_set_value kvs key (XString s)"
definition xpc_dictionary_set_data where
  "xpc_dictionary_set_data kvs key bs = xpc_dictionary_set_value kvs key (XData bs)"

definition xpc_dictionary_get_bool :: "(cstr \<times> xval) list \<Rightarrow> cstr \<Rightarrow> bool outcome" where
  "xpc_dictionary_get_bool kvs key =
     (case xpc_dictionary_get_value kvs key of
        None \<Rightarrow> Ret False | Some (XBool b) \<Rightarrow> Ret b | _ \<Rightarrow> Undef)"

definition xpc_dictionary_get_int64 :: "(cstr \<times> xval) list \<Rightarrow> cstr \<Rightarrow> u64 outcome" where
  "xpc_dictionary_get_int64 kvs key =
     (case xpc_dictionary_get_value kvs key of
        None \<Rightarrow> Ret 0 | Some (XInt64 i) \<Rightarrow> Ret i | Some (XUInt64 i) \<Rightarrow> Ret i
      | Some (XDouble i) \<Rightarrow> Ret i | _ \<Rightarrow> Undef)"

definition xpc_dictionary_get_uint64 :: "(cstr \<times> xval) list \<Rightarrow> cstr \<Rightarrow> u64 outcome" where
  "xpc_dictionary_get_uint64 = xpc_dictionary_get_int64"

definition xpc_dictionary_get_double :: "(cstr \<times> xval) list \<Rightarrow> cstr \<Rightarrow> u64 outcome" where
  "xpc_dictionary_get_double = xpc_dictionary_get_int64"

definition xpc_dictionary_get_string :: "(cstr \<times> xval) list \<Rightarrow> cstr \<Rightarrow> u8 list option outcome" where
  "xpc_dictionary_get_string kvs key =
     (case xpc_dictionary_get_value kvs key of
        None \<Rightarrow> Ret None | Some (XString s) \<Rightarrow> Ret (Some s) | _ \<Rightarrow> Undef)"

definition xpc_dictionary_get_data ::
  "(cstr \<times> xval) list \<Rightarrow> cstr \<Rightarrow> (u8 list option \<times> nat) outcome" where
  "xpc_dictionary_get_data kvs key =
     (case xpc_dictionary_get_value kvs key of
        None \<Rightarrow> Ret (None, 0)
      | Some (XData bs) \<Rightarrow> Ret (Some bs, length bs)
      | Some (XString s) \<Rightarrow> Ret (Some s, length s) | _ \<Rightarrow> Undef)"

definition xpc_dictionary_get_array :: "(cstr \<times> xval) list \<Rightarrow> cstr \<Rightarrow> xval option" where
  "xpc_dictionary_get_array kvs key =
     (case xpc_dictionary_get_value kvs key of Some (XArray vs) \<Rightarrow> Some (XArray vs) | _ \<Rightarrow> None)"

definition xpc_dictionary_get_dictionary :: "(cstr \<times> xval) list \<Rightarrow> cstr \<Rightarrow> xval option" where
  "xpc_dictionary_get_dictionary kvs key =
     (case xpc_dictionary_get_value kvs key of Some (XDict d) \<Rightarrow> Some (XDict d) | _ \<Rightarrow> None)"

section \<open>Arrays\<close>

definition array_append_index :: nat where
  \<comment> \<open>\<open>XPC_ARRAY_APPEND\<close>, \<open>(size_t)-1\<close>\<close>
  "array_append_index = 2 ^ 64 - 1"

definition xpc_array_append_value :: "xval list \<Rightarrow> xval \<Rightarrow> xval list" where
  "xpc_array_append_value vs v = vs @ [v]"

definition xpc_array_create :: "xval list \<Rightarrow> xval list" where
  "xpc_array_create objects = foldl xpc_array_append_value [] objects"

definition xpc_array_set_value :: "xval list \<Rightarrow> nat \<Rightarrow> xval \<Rightarrow> xval list" where
  "xpc_array_set_value vs index v =
     (if index = array_append_index then xpc_array_append_value vs v
      else if index \<ge> length vs then vs @ replicate (index - length vs) XNull @ [v]
      else vs[index := v])"

definition xpc_array_get_value :: "xval list \<Rightarrow> nat \<Rightarrow> xval option" where
  "xpc_array_get_value vs index = (if index \<ge> length vs then None else Some (vs ! index))"

text \<open>The capacity that \<open>ensure_cap\<close> chooses: doubled from 4 until it is enough.\<close>

fun grow_cap :: "nat \<Rightarrow> nat \<Rightarrow> nat \<Rightarrow> nat" where
  "grow_cap 0 newcap need = newcap"
| "grow_cap (Suc n) newcap need = (if newcap < need then grow_cap n (newcap * 2) need else newcap)"

definition ensure_cap :: "nat \<Rightarrow> nat \<Rightarrow> nat" where
  "ensure_cap cap need =
     (if need \<le> cap then cap else grow_cap need (if cap \<noteq> 0 then cap * 2 else 4) need)"

lemma grow_cap_enough: "0 < newcap \<Longrightarrow> need \<le> newcap * 2 ^ n \<Longrightarrow> need \<le> grow_cap n newcap need"
  by (induction n arbitrary: newcap) (auto simp: algebra_simps)

lemma ensure_cap_enough: "need \<le> ensure_cap cap need"
proof -
  have "need \<le> c * 2 ^ need" if "0 < c" for c
    using that less_exp [of need] by (metis le_trans less_imp_le mult_le_mono1 mult_1 Suc_leI One_nat_def)
  then show ?thesis by (simp add: ensure_cap_def grow_cap_enough)
qed

lemma array_create_id [simp]: "xpc_array_create vs = vs"
proof -
  have "foldl xpc_array_append_value acc vs = acc @ vs" for acc
    by (induction vs arbitrary: acc) (auto simp: xpc_array_append_value_def)
  then show ?thesis by (simp add: xpc_array_create_def)
qed

section \<open>Comparison, copying\<close>

definition double_nan :: "u64 \<Rightarrow> bool" where
  "double_nan d \<longleftrightarrow> d AND 0x7FFFFFFFFFFFFFFF > 0x7FF0000000000000"

definition double_eq :: "u64 \<Rightarrow> u64 \<Rightarrow> bool" where
  "double_eq a b \<longleftrightarrow> \<not> double_nan a \<and> \<not> double_nan b
     \<and> (a = b \<or> (a AND 0x7FFFFFFFFFFFFFFF = 0 \<and> b AND 0x7FFFFFFFFFFFFFFF = 0))"

text \<open>
  \<open>xpc_equal\<close> on two objects that are not one and the same object, except that a connection
  or an error is equal to itself: their addresses decide.
\<close>

fun xpc_equal :: "xval \<Rightarrow> xval \<Rightarrow> bool"
  and array_equal :: "xval list \<Rightarrow> xval list \<Rightarrow> bool"
  and dict_equal :: "(cstr \<times> xval) list \<Rightarrow> (cstr \<times> xval) list \<Rightarrow> bool" where
  "xpc_equal XNull w = (case w of XNull \<Rightarrow> True | _ \<Rightarrow> False)"
| "xpc_equal (XBool a) w = (case w of XBool b \<Rightarrow> a = b | _ \<Rightarrow> False)"
| "xpc_equal (XInt64 a) w = (case w of XInt64 b \<Rightarrow> a = b | _ \<Rightarrow> False)"
| "xpc_equal (XUInt64 a) w = (case w of XUInt64 b \<Rightarrow> a = b | _ \<Rightarrow> False)"
| "xpc_equal (XDouble a) w = (case w of XDouble b \<Rightarrow> double_eq a b | _ \<Rightarrow> False)"
| "xpc_equal (XString a) w = (case w of XString b \<Rightarrow> length a = length b \<and> a = b | _ \<Rightarrow> False)"
| "xpc_equal (XData a) w = (case w of XData b \<Rightarrow> length a = length b \<and> a = b | _ \<Rightarrow> False)"
| "xpc_equal (XArray a) w = (case w of XArray b \<Rightarrow> length a = length b \<and> array_equal a b | _ \<Rightarrow> False)"
| "xpc_equal (XDict a) w = (case w of XDict b \<Rightarrow> length a = length b \<and> dict_equal a b | _ \<Rightarrow> False)"
| "xpc_equal (XConnection a) w = (case w of XConnection b \<Rightarrow> a = b | _ \<Rightarrow> False)"
| "xpc_equal (XError a e) w = (case w of XError b f \<Rightarrow> a = b | _ \<Rightarrow> False)"
| "array_equal [] bs = True"
| "array_equal (a # as) bs =
     (case bs of [] \<Rightarrow> True | b # bs' \<Rightarrow> xpc_equal a b \<and> array_equal as bs')"
| "dict_equal [] b = True"
| "dict_equal ((k, v) # kvs) b =
     (case xpc_dictionary_get_value b k of None \<Rightarrow> False
      | Some w \<Rightarrow> xpc_equal v w \<and> dict_equal kvs b)"

fun xpc_copy :: "xval \<Rightarrow> xval"
  and array_copy :: "xval list \<Rightarrow> xval list \<Rightarrow> xval list"
  and dictionary_copy :: "(cstr \<times> xval) list \<Rightarrow> (cstr \<times> xval) list \<Rightarrow> (cstr \<times> xval) list" where
  "xpc_copy (XArray vs) = XArray (array_copy vs [])"
| "xpc_copy (XDict kvs) = XDict (dictionary_copy kvs [])"
| "xpc_copy v = v"
| "array_copy [] copy = copy"
| "array_copy (v # vs) copy = array_copy vs (xpc_array_append_value copy (xpc_copy v))"
| "dictionary_copy [] copy = copy"
| "dictionary_copy ((k, v) # kvs) copy =
     dictionary_copy kvs (xpc_dictionary_set_value copy k (xpc_copy v))"

text \<open>Copying keeps every array and reverses every dictionary's chain.\<close>

fun rev_dicts :: "xval \<Rightarrow> xval" where
  "rev_dicts (XArray vs) = XArray (map rev_dicts vs)"
| "rev_dicts (XDict kvs) = XDict (rev (map (\<lambda>(k, v). (k, rev_dicts v)) kvs))"
| "rev_dicts v = v"

text \<open>Every dictionary inside has distinct keys, and keys are C strings.\<close>

fun xval_wf :: "xval \<Rightarrow> bool" where
  "xval_wf (XArray vs) = (\<forall>v\<in>set vs. xval_wf v)"
| "xval_wf (XDict kvs) = (dict_inv kvs \<and> (\<forall>(k, v)\<in>set kvs. is_cstr k \<and> xval_wf v))"
| "xval_wf v = True"

lemma copy_rev_dicts:
  "xval_wf v \<Longrightarrow> xpc_copy v = rev_dicts v"
  "\<forall>v\<in>set vs. xval_wf v \<Longrightarrow> array_copy vs acc = acc @ map rev_dicts vs"
  "dict_inv kvs \<Longrightarrow> \<forall>(k, v)\<in>set kvs. xval_wf v \<Longrightarrow> fst ` set kvs \<inter> fst ` set dacc = {} \<Longrightarrow>
   dictionary_copy kvs dacc = rev (map (\<lambda>(k, v). (k, rev_dicts v)) kvs) @ dacc"
proof (induction v and vs acc and kvs dacc rule: xpc_copy_array_copy_dictionary_copy.induct)
  case (2 kvs)
  then show ?case by fastforce
next
  case (7 k v kvs copy)
  then have "k \<notin> fst ` set copy" by auto
  with 7 show ?case by (simp add: set_value_fresh dict_inv_def)
qed (simp_all add: xpc_array_append_value_def)

lemma map_of_rev_dicts:
  "dict_inv kvs \<Longrightarrow>
   map_of (rev (map (\<lambda>(k, v). (k, rev_dicts v)) kvs)) k = map_option rev_dicts (map_of kvs k)"
proof -
  assume "dict_inv kvs"
  then have d: "distinct (map fst (map (\<lambda>(k, v). (k, rev_dicts v)) kvs))"
    by (simp add: dict_inv_def case_prod_beta comp_def)
  have "map_of (map (\<lambda>(k, v). (k, rev_dicts v)) kvs) k = map_option rev_dicts (map_of kvs k)"
    by (induction kvs) auto
  with map_of_rev_distinct [OF d] show ?thesis by simp
qed

text \<open>No double inside is a NaN.\<close>

fun nan_free :: "xval \<Rightarrow> bool" where
  "nan_free (XDouble d) = (\<not> double_nan d)"
| "nan_free (XArray vs) = (\<forall>v\<in>set vs. nan_free v)"
| "nan_free (XDict kvs) = (\<forall>(k, v)\<in>set kvs. nan_free v)"
| "nan_free v = True"

lemma array_equal_iff:
  "length as = length bs \<Longrightarrow> array_equal as bs \<longleftrightarrow> (\<forall>i<length as. xpc_equal (as ! i) (bs ! i))"
proof (induction as arbitrary: bs)
  case (Cons a as)
  then obtain b bs' where "bs = b # bs'" by (cases bs) auto
  with Cons show ?case by (auto simp: nth_Cons' gr0_conv_Suc less_Suc_eq_0_disj)
qed simp

lemma dict_equal_iff:
  "dict_equal kvs b \<longleftrightarrow> (\<forall>(k, v)\<in>set kvs. \<exists>w. map_of b k = Some w \<and> xpc_equal v w)"
  by (induction kvs) (auto simp: get_value_map_of split: option.splits)

lemma equal_rev_dicts: "xval_wf v \<Longrightarrow> nan_free v \<Longrightarrow> xpc_equal v (rev_dicts v)"
proof (induction v rule: rev_dicts.induct)
  case (1 vs)
  then show ?case by (simp add: array_equal_iff)
next
  case (2 kvs)
  then have "\<exists>w. map_of (rev (map (\<lambda>(k, v). (k, rev_dicts v)) kvs)) k = Some w \<and> xpc_equal v w"
    if "(k, v) \<in> set kvs" for k v
    using that by (fastforce simp: map_of_rev_dicts dict_inv_def)
  then show ?case by (auto simp: dict_equal_iff)
qed (simp_all add: double_eq_def)

section \<open>Properties\<close>

text \<open>a dictionary is a finite map: setting a key defines it as the value and leaves every
  other key alone, and keys stay distinct.\<close>

theorem dictionary_set_get:
  assumes "dict_inv kvs"
  shows "xpc_dictionary_get_value (xpc_dictionary_set_value kvs key v) k =
      (if k = key then Some v else xpc_dictionary_get_value kvs k)
    \<and> dict_inv (xpc_dictionary_set_value kvs key v)"
  using assms by (simp add: get_value_map_of map_of_set_value set_value_inv)

theorem dictionary_set_get_witness:
  "xpc_dictionary_get_value (xpc_dictionary_set_value [([107], XNull)] [107] (XBool True)) [107]
     = Some (XBool True)"
  using dictionary_set_get [of "[([107], XNull)]" "[107]" "XBool True" "[107]"]
  by (simp add: dict_inv_def)

text \<open>a copy of a value without NaNs compares equal to it, at any depth of arrays and
  dictionaries.\<close>

theorem xpc_copy_equal:
  assumes "xval_wf v" and "nan_free v"
  shows "xpc_equal v (xpc_copy v)"
  using assms by (simp add: copy_rev_dicts equal_rev_dicts)

theorem xpc_copy_equal_witness:
  "xpc_equal (XDict [([97], XArray [XInt64 1]), ([98], XNull)])
     (xpc_copy (XDict [([97], XArray [XInt64 1]), ([98], XNull)]))"
  by (rule xpc_copy_equal) (simp_all add: dict_inv_def is_cstr_def)

end
