(* ===== verification/XpcSerialize.thy ===== *)
theory XpcSerialize
  imports XpcValue
begin

text \<open>
  \<open>userland/libxpc/xpc_serialize.c\<close>: the wire format of XPC messages.  The writer and the
  reader are the source's records; \<open>encode\<close> and \<open>decode\<close> recurse over values and over the
  input.  The depth of \<open>decode\<close> is bounded by a fuel argument, the loops over elements by
  their counts; the fuel chosen by \<open>xpc_deserialize\<close>, one more than the length of the input,
  is enough, because every level reads a tag.

  The lemmas show when a value is encoded and as what, that decoding never reads past the
  input and never runs out of fuel, and that it gives back the value with every dictionary's
  chain reversed.
\<close>

section \<open>The writer\<close>

record writer =
  w_buf :: "u8 list"
  w_cap :: nat
  w_overflow :: bool

definition w_bytes :: "writer \<Rightarrow> u8 list \<Rightarrow> writer" where
  "w_bytes w bs =
     (if w_overflow w then w
      else if length bs > w_cap w - length (w_buf w) then w\<lparr>w_overflow := True\<rparr>
      else w\<lparr>w_buf := w_buf w @ bs\<rparr>)"

definition w_u8 :: "writer \<Rightarrow> u8 \<Rightarrow> writer" where
  "w_u8 w v = w_bytes w [v]"

definition w_u32 :: "writer \<Rightarrow> u32 \<Rightarrow> writer" where
  "w_u32 w v = w_bytes w (le_bytes 4 v)"

definition w_u64 :: "writer \<Rightarrow> u64 \<Rightarrow> writer" where
  "w_u64 w v = w_bytes w (le_bytes 8 v)"

fun encode :: "writer \<Rightarrow> xval \<Rightarrow> writer"
  and encode_items :: "writer \<Rightarrow> xval list \<Rightarrow> writer"
  and encode_kvs :: "writer \<Rightarrow> (cstr \<times> xval) list \<Rightarrow> writer" where
  "encode w XNull = w_u8 w 1"
| "encode w (XBool b) = w_u8 (w_u8 w 2) (if b then 1 else 0)"
| "encode w (XInt64 i) = w_u64 (w_u8 w 3) i"
| "encode w (XUInt64 u) = w_u64 (w_u8 w 4) u"
| "encode w (XDouble d) = w_bytes (w_u8 w 5) (le_bytes 8 d)"
| "encode w (XString s) = w_bytes (w_u32 (w_u8 w 6) (of_nat (length s))) s"
| "encode w (XData bs) = w_bytes (w_u32 (w_u8 w 7) (of_nat (length bs))) bs"
| "encode w (XArray vs) = encode_items (w_u32 (w_u8 w 8) (of_nat (length vs))) vs"
| "encode w (XDict kvs) = encode_kvs (w_u32 (w_u8 w 9) (of_nat (length kvs))) kvs"
| "encode w (XConnection c) = w\<lparr>w_overflow := True\<rparr>"
| "encode w (XError e s) = w\<lparr>w_overflow := True\<rparr>"
| "encode_items w [] = w"
| "encode_items w (v # vs) = encode_items (encode w v) vs"
| "encode_kvs w [] = w"
| "encode_kvs w ((k, v) # kvs) =
     encode_kvs (encode (w_bytes (w_u32 w (of_nat (length k)))
       (take (unat (of_nat (length k) :: u32)) k)) v) kvs"

definition xpc_serialize :: "xval \<Rightarrow> nat \<Rightarrow> u8 list option" where
  "xpc_serialize obj cap =
     (let w = encode \<lparr>w_buf = [], w_cap = cap, w_overflow = False\<rparr> obj in
      if w_overflow w then None else Some (w_buf w))"

section \<open>The reader\<close>

record reader =
  r_buf :: "u8 list"
  r_pos :: nat
  r_error :: bool

definition r_bytes :: "reader \<Rightarrow> nat \<Rightarrow> u8 list option \<times> reader" where
  "r_bytes r n =
     (if r_error r \<or> n > length (r_buf r) - r_pos r then (None, r\<lparr>r_error := True\<rparr>)
      else (Some (take n (drop (r_pos r) (r_buf r))), r\<lparr>r_pos := r_pos r + n\<rparr>))"

definition r_u8 :: "reader \<Rightarrow> u8 option \<times> reader" where
  "r_u8 r = (let (bs, r') = r_bytes r 1 in (map_option le_word bs, r'))"

definition r_u32 :: "reader \<Rightarrow> u32 option \<times> reader" where
  "r_u32 r = (let (bs, r') = r_bytes r 4 in (map_option le_word bs, r'))"

definition r_u64 :: "reader \<Rightarrow> u64 option \<times> reader" where
  "r_u64 r = (let (bs, r') = r_bytes r 8 in (map_option le_word bs, r'))"

text \<open>A length-prefixed block: strings and data.\<close>

definition r_block :: "reader \<Rightarrow> u8 list option \<times> reader" where
  "r_block r =
     (case r_u32 r of
        (None, r1) \<Rightarrow> (None, r1\<lparr>r_error := True\<rparr>)
      | (Some len, r1) \<Rightarrow>
          if unat len > length (r_buf r1) - r_pos r1 then (None, r1\<lparr>r_error := True\<rparr>)
          else (Some (take (unat len) (drop (r_pos r1) (r_buf r1))), r1\<lparr>r_pos := r_pos r1 + unat len\<rparr>))"

text \<open>A key: the test is the same, but a bad length leaves the error flag as it is.\<close>

definition r_key :: "reader \<Rightarrow> u8 list option \<times> reader" where
  "r_key r =
     (case r_u32 r of
        (None, r1) \<Rightarrow> (None, r1)
      | (Some klen, r1) \<Rightarrow>
          if unat klen > length (r_buf r1) - r_pos r1 then (None, r1)
          else (Some (take (unat klen) (drop (r_pos r1) (r_buf r1))), r1\<lparr>r_pos := r_pos r1 + unat klen\<rparr>))"

definition opt_val :: "('b \<Rightarrow> xval) \<Rightarrow> 'b option \<times> reader \<Rightarrow> (xval option \<times> reader) option" where
  "opt_val f x = Some (map_option f (fst x), snd x)"

fun decode :: "nat \<Rightarrow> reader \<Rightarrow> (xval option \<times> reader) option"
  and decode_items :: "nat \<Rightarrow> nat \<Rightarrow> xval list \<Rightarrow> reader \<Rightarrow> (xval option \<times> reader) option"
  and decode_kvs :: "nat \<Rightarrow> nat \<Rightarrow> (cstr \<times> xval) list \<Rightarrow> reader \<Rightarrow> (xval option \<times> reader) option" where
  "decode 0 r = None"
| "decode (Suc f) r =
     (case r_u8 r of
        (None, r1) \<Rightarrow> Some (None, r1)
      | (Some tag, r1) \<Rightarrow>
          if tag = 1 then Some (Some XNull, r1)
          else if tag = 2 then opt_val (\<lambda>v. XBool (v \<noteq> 0)) (r_u8 r1)
          else if tag = 3 then opt_val XInt64 (r_u64 r1)
          else if tag = 4 then opt_val XUInt64 (r_u64 r1)
          else if tag = 5 then opt_val (\<lambda>bs. XDouble (le_word bs)) (r_bytes r1 8)
          else if tag = 6 then opt_val XString (r_block r1)
          else if tag = 7 then opt_val XData (r_block r1)
          else if tag = 8 then
            (case r_u32 r1 of (None, r2) \<Rightarrow> Some (None, r2)
             | (Some count, r2) \<Rightarrow> decode_items f (unat count) [] r2)
          else if tag = 9 then
            (case r_u32 r1 of (None, r2) \<Rightarrow> Some (None, r2)
             | (Some count, r2) \<Rightarrow> decode_kvs f (unat count) [] r2)
          else Some (None, r1\<lparr>r_error := True\<rparr>))"
| "decode_items f 0 a r = Some (Some (XArray a), r)"
| "decode_items f (Suc n) a r =
     (case decode f r of
        None \<Rightarrow> None
      | Some (None, r1) \<Rightarrow> Some (None, r1)
      | Some (Some v, r1) \<Rightarrow> decode_items f n (xpc_array_append_value a v) r1)"
| "decode_kvs f 0 d r = Some (Some (XDict d), r)"
| "decode_kvs f (Suc n) d r =
     (case r_key r of
        (None, r1) \<Rightarrow> Some (None, r1)
      | (Some key, r1) \<Rightarrow>
          (case decode f r1 of
             None \<Rightarrow> None
           | Some (None, r2) \<Rightarrow> Some (None, r2)
           | Some (Some v, r2) \<Rightarrow>
               decode_kvs f n (xpc_dictionary_set_value d (c_str key) v) r2))"

definition xpc_deserialize :: "u8 list \<Rightarrow> (xval option \<times> reader) option" where
  "xpc_deserialize buf = decode (length buf + 1) \<lparr>r_buf = buf, r_pos = 0, r_error = False\<rparr>"

section \<open>What is encoded\<close>

text \<open>The bytes of a value; \<open>serializable\<close> excludes connections and errors.\<close>

fun wire :: "xval \<Rightarrow> u8 list" where
  "wire XNull = [1]"
| "wire (XBool b) = [2, if b then 1 else 0]"
| "wire (XInt64 i) = 3 # le_bytes 8 i"
| "wire (XUInt64 u) = 4 # le_bytes 8 u"
| "wire (XDouble d) = 5 # le_bytes 8 d"
| "wire (XString s) = 6 # le_bytes 4 (of_nat (length s) :: u32) @ s"
| "wire (XData bs) = 7 # le_bytes 4 (of_nat (length bs) :: u32) @ bs"
| "wire (XArray vs) = 8 # le_bytes 4 (of_nat (length vs) :: u32) @ concat (map wire vs)"
| "wire (XDict kvs) = 9 # le_bytes 4 (of_nat (length kvs) :: u32)
     @ concat (map (\<lambda>(k, v). le_bytes 4 (of_nat (length k) :: u32)
         @ take (unat (of_nat (length k) :: u32)) k @ wire v) kvs)"
| "wire (XConnection c) = []"
| "wire (XError e s) = []"

fun serializable :: "xval \<Rightarrow> bool" where
  "serializable (XArray vs) = (\<forall>v\<in>set vs. serializable v)"
| "serializable (XDict kvs) = (\<forall>(k, v)\<in>set kvs. serializable v)"
| "serializable (XConnection c) = False"
| "serializable (XError e s) = False"
| "serializable v = True"

text \<open>The writer after a run: it fails exactly when something did not fit.\<close>

definition wrote :: "writer \<Rightarrow> bool \<Rightarrow> u8 list \<Rightarrow> writer \<Rightarrow> bool" where
  "wrote w ok bs w' \<longleftrightarrow> w_cap w' = w_cap w
     \<and> (\<not> w_overflow w' \<longrightarrow> length (w_buf w') \<le> w_cap w)
     \<and> (w_overflow w' \<longleftrightarrow> w_overflow w \<or> \<not> ok \<or> w_cap w < length (w_buf w) + length bs)
     \<and> (\<not> w_overflow w' \<longrightarrow> w_buf w' = w_buf w @ bs)"

definition w_ok :: "writer \<Rightarrow> bool" where
  "w_ok w \<longleftrightarrow> w_overflow w \<or> length (w_buf w) \<le> w_cap w"

lemma wrote_ok: "wrote w ok bs w' \<Longrightarrow> w_ok w'"
  by (auto simp: wrote_def w_ok_def)

lemma wrote_w_bytes: "w_ok w \<Longrightarrow> wrote w True bs (w_bytes w bs)"
  by (auto simp: wrote_def w_ok_def w_bytes_def)

lemma wrote_refl: "w_ok w \<Longrightarrow> wrote w True [] w"
  by (auto simp: wrote_def w_ok_def)

lemma wrote_trans:
  "wrote w ok bs w1 \<Longrightarrow> wrote w1 ok' bs' w2 \<Longrightarrow> wrote w (ok \<and> ok') (bs @ bs') w2"
  by (auto simp: wrote_def)

lemmas w_defs = w_u8_def w_u32_def w_u64_def

lemma wrote_two:
  "w_ok w \<Longrightarrow> wrote w True (bs @ cs) (w_bytes (w_bytes w bs) cs)"
  using wrote_trans [OF wrote_w_bytes wrote_w_bytes] wrote_ok [OF wrote_w_bytes] by force

lemma wrote_three:
  "w_ok w \<Longrightarrow> wrote w True (bs @ cs @ ds) (w_bytes (w_bytes (w_bytes w bs) cs) ds)"
  using wrote_trans [OF wrote_two wrote_w_bytes] wrote_ok [OF wrote_two] by force

lemma encode_wrote:
  "w_ok w \<Longrightarrow> wrote w (serializable v) (wire v) (encode w v)"
  "w_ok w \<Longrightarrow> wrote w (\<forall>v\<in>set vs. serializable v) (concat (map wire vs)) (encode_items w vs)"
  "w_ok w \<Longrightarrow> wrote w (\<forall>(k, v)\<in>set kvs. serializable v)
     (concat (map (\<lambda>(k, v). le_bytes 4 (of_nat (length k) :: u32)
         @ take (unat (of_nat (length k) :: u32)) k @ wire v) kvs)) (encode_kvs w kvs)"
proof (induction w v and w vs and w kvs rule: encode_encode_items_encode_kvs.induct)
  case (1 w)
  then show ?case using wrote_w_bytes [of w "[1]"] by (simp add: w_defs)
next
  case (2 w b)
  then show ?case using wrote_two [of w "[2]" "[if b then 1 else 0]"] by (simp add: w_defs)
next
  case (3 w i)
  then show ?case using wrote_two [of w "[3]" "le_bytes 8 i"] by (simp add: w_defs)
next
  case (4 w i)
  then show ?case using wrote_two [of w "[4]" "le_bytes 8 i"] by (simp add: w_defs)
next
  case (5 w i)
  then show ?case using wrote_two [of w "[5]" "le_bytes 8 i"] by (simp add: w_defs)
next
  case (6 w s)
  then show ?case
    using wrote_three [of w "[6]" "le_bytes 4 (of_nat (length s) :: u32)" s] by (simp add: w_defs)
next
  case (7 w s)
  then show ?case
    using wrote_three [of w "[7]" "le_bytes 4 (of_nat (length s) :: u32)" s] by (simp add: w_defs)
next
  case (8 w vs)
  note two = wrote_two [OF 8(2), of "[8]" "le_bytes 4 (of_nat (length vs) :: u32)", folded w_defs]
  from wrote_trans [OF two 8(1) [OF wrote_ok [OF two]]] show ?case by simp
next
  case (9 w kvs)
  note two = wrote_two [OF 9(2), of "[9]" "le_bytes 4 (of_nat (length kvs) :: u32)", folded w_defs]
  from wrote_trans [OF two 9(1) [OF wrote_ok [OF two]]] show ?case by simp
next
  case (13 w v vs)
  note one = 13(1) [OF 13(3)]
  from wrote_trans [OF one 13(2) [OF wrote_ok [OF one]]] show ?case by simp
next
  case (15 w k v kvs)
  note two = wrote_two [OF 15(3), of "le_bytes 4 (of_nat (length k) :: u32)"
      "take (unat (of_nat (length k) :: u32)) k", folded w_u32_def]
  note three = 15(1) [OF wrote_ok [OF two]]
  from wrote_trans [OF wrote_trans [OF two three] 15(2) [OF wrote_ok [OF three]]]
  show ?case by simp
qed (simp_all add: wrote_refl, simp_all add: wrote_def w_ok_def)

lemma xpc_serialize_wire:
  "xpc_serialize v cap =
     (if serializable v \<and> length (wire v) \<le> cap then Some (wire v) else None)"
  using encode_wrote(1) [of "\<lparr>w_buf = [], w_cap = cap, w_overflow = False\<rparr>" v]
  by (auto simp: xpc_serialize_def wrote_def w_ok_def Let_def)

section \<open>Decoding is total and stays inside the input\<close>

definition r_in :: "reader \<Rightarrow> bool" where
  "r_in r \<longleftrightarrow> r_pos r \<le> length (r_buf r)"

definition r_left :: "reader \<Rightarrow> nat" where
  "r_left r = length (r_buf r) - r_pos r"

text \<open>\<open>r'\<close> is \<open>r\<close> after at least \<open>n\<close> more bytes were read.\<close>

definition r_after :: "nat \<Rightarrow> reader \<Rightarrow> reader \<Rightarrow> bool" where
  "r_after n r r' \<longleftrightarrow> r_buf r' = r_buf r \<and> r_in r' \<and> r_pos r + n \<le> r_pos r'"

lemma r_after_left: "r_after n r r' \<Longrightarrow> r_left r' + n \<le> r_left r"
  by (auto simp: r_after_def r_left_def r_in_def)

lemma r_after_trans: "r_after n r r1 \<Longrightarrow> r_after k r1 r2 \<Longrightarrow> r_after (n + k) r r2"
  by (auto simp: r_after_def)

lemma r_after_weaken: "r_after n r r' \<Longrightarrow> k \<le> n \<Longrightarrow> r_after k r r'"
  by (auto simp: r_after_def)

lemma r_after_refl: "r_in r \<Longrightarrow> r_after 0 r r"
  by (simp add: r_after_def)

definition r_step :: "nat \<Rightarrow> reader \<Rightarrow> 'b option \<times> reader \<Rightarrow> bool" where
  "r_step n r x \<longleftrightarrow> r_after (if fst x = None then 0 else n) r (snd x)"

lemma r_step_bytes: "r_in r \<Longrightarrow> r_step n r (r_bytes r n)"
  by (auto simp: r_bytes_def r_step_def r_after_def r_in_def)

lemma r_step_map: "r_step n r x \<Longrightarrow> r_step n r (map_option f (fst x), snd x)"
  by (simp add: r_step_def)

lemma r_step_words:
  assumes "r_in r"
  shows "r_step 1 r (r_u8 r)" "r_step 4 r (r_u32 r)" "r_step 8 r (r_u64 r)"
  using r_step_bytes [OF assms, of 1] r_step_bytes [OF assms, of 4] r_step_bytes [OF assms, of 8]
  by (auto simp: r_u8_def r_u32_def r_u64_def r_step_def split: prod.splits)

lemma r_step_block:
  assumes "r_in r"
  shows "r_step 4 r (r_block r)" "r_step 4 r (r_key r)"
  using r_step_words(2) [OF assms]
  by (auto simp: r_block_def r_key_def r_step_def r_after_def r_in_def split: prod.splits option.splits)

text \<open>A decoding step: it answers, and what it answers is well-formed.\<close>

definition d_step :: "nat \<Rightarrow> reader \<Rightarrow> (xval option \<times> reader) option \<Rightarrow> bool" where
  "d_step n r res \<longleftrightarrow> (\<exists>x. res = Some x \<and> r_step n r x \<and> (\<forall>v. fst x = Some v \<longrightarrow> xval_wf v))"

lemma d_step_opt_val:
  "r_step n r1 x \<Longrightarrow> r_after 1 r r1 \<Longrightarrow> (\<And>b. xval_wf (f b)) \<Longrightarrow> d_step 1 r (opt_val f x)"
  by (auto simp: d_step_def opt_val_def r_step_def r_after_def)

lemma d_step_after:
  "d_step n r1 res \<Longrightarrow> r_after k r r1 \<Longrightarrow> j \<le> k \<Longrightarrow> d_step j r res"
  by (auto simp: d_step_def r_step_def r_after_def split: if_splits)

lemma d_step_fail: "r_after 0 r r1 \<Longrightarrow> d_step k r (Some (None, r1))"
  by (auto simp: d_step_def r_step_def)

lemma decode_total:
  "r_in r \<Longrightarrow> r_left r < f \<Longrightarrow> d_step 1 r (decode f r)"
  "r_in r \<Longrightarrow> r_left r < f \<Longrightarrow> \<forall>v\<in>set a. xval_wf v \<Longrightarrow> d_step 0 r (decode_items f n a r)"
  "r_in r \<Longrightarrow> r_left r < f \<Longrightarrow> dict_inv d \<Longrightarrow> \<forall>(k, v)\<in>set d. is_cstr k \<and> xval_wf v \<Longrightarrow>
   d_step 0 r (decode_kvs f n d r)"
proof (induction f r and f n a r and f n d r rule: decode_decode_items_decode_kvs.induct)
  case (2 f r)
  obtain t r1 where t: "r_u8 r = (t, r1)" by (cases "r_u8 r")
  show ?case
  proof (cases t)
    case None
    then show ?thesis using t r_step_words(1) [OF 2(3)] by (simp add: r_step_def d_step_fail)
  next
    case (Some tag)
    have r1: "r_after 1 r r1" "r_in r1"
      using t r_step_words(1) [OF 2(3)] Some by (simp_all add: r_step_def r_after_def)
    have fail: "d_step 1 r (Some (None, r1\<lparr>r_error := True\<rparr>))"
      using r1 by (intro d_step_fail) (simp add: r_after_def r_in_def)
    have null: "d_step 1 r (Some (Some XNull, r1))"
      using r1 by (auto simp: d_step_def r_step_def)
    have words: "d_step 1 r (opt_val (\<lambda>v. XBool (v \<noteq> 0)) (r_u8 r1))"
        "d_step 1 r (opt_val XInt64 (r_u64 r1))" "d_step 1 r (opt_val XUInt64 (r_u64 r1))"
        "d_step 1 r (opt_val (\<lambda>bs. XDouble (le_word bs)) (r_bytes r1 8))"
        "d_step 1 r (opt_val XString (r_block r1))" "d_step 1 r (opt_val XData (r_block r1))"
      by (rule d_step_opt_val [OF _ r1(1)],
          rule r_step_words [OF r1(2)] r_step_bytes [OF r1(2)] r_step_block [OF r1(2)], simp)+
    obtain c r2 where c: "r_u32 r1 = (c, r2)" by (cases "r_u32 r1")
    have items: "d_step 1 r (case r_u32 r1 of (None, r2) \<Rightarrow> Some (None, r2)
        | (Some count, r2) \<Rightarrow> decode_items f (unat count) [] r2)" if "tag = 8"
    proof (cases c)
      case None
      then show ?thesis using c r_step_words(2) [OF r1(2)] r1
        by (auto simp: r_step_def intro!: d_step_fail dest: r_after_trans r_after_weaken)
    next
      case (Some n)
      then have r2: "r_after 4 r1 r2" "r_in r2" using c r_step_words(2) [OF r1(2)]
        by (auto simp: r_step_def r_after_def)
      then have "d_step 0 r2 (decode_items f (unat n) [] r2)"
        using 2(1) [OF t [symmetric] \<open>t = Some tag\<close>] that c Some 2(4)
          r_after_left [OF r1(1)] r_after_left [OF r2(1)] by simp
      then show ?thesis using c Some r_after_trans [OF r1(1) r2(1)]
        by (auto intro: d_step_after)
    qed
    have kvs: "d_step 1 r (case r_u32 r1 of (None, r2) \<Rightarrow> Some (None, r2)
        | (Some count, r2) \<Rightarrow> decode_kvs f (unat count) [] r2)" if "tag = 9"
    proof (cases c)
      case None
      then show ?thesis using c r_step_words(2) [OF r1(2)] r1
        by (auto simp: r_step_def intro!: d_step_fail dest: r_after_trans r_after_weaken)
    next
      case (Some n)
      then have r2: "r_after 4 r1 r2" "r_in r2" using c r_step_words(2) [OF r1(2)]
        by (auto simp: r_step_def r_after_def)
      then have "d_step 0 r2 (decode_kvs f (unat n) [] r2)"
        using 2(2) [OF t [symmetric] \<open>t = Some tag\<close>] that c Some 2(4)
          r_after_left [OF r1(1)] r_after_left [OF r2(1)] by (simp add: dict_inv_def)
      then show ?thesis using c Some r_after_trans [OF r1(1) r2(1)]
        by (auto intro: d_step_after)
    qed
    show ?thesis using t Some fail null words items kvs by simp
  qed
next
  case (4 f n a r)
  from 4(1) [OF 4(3,4)] obtain x r1 where
    x: "decode f r = Some (x, r1)" "r_step 1 r (x, r1)" "\<forall>v. x = Some v \<longrightarrow> xval_wf v"
    by (auto simp: d_step_def)
  show ?case
  proof (cases x)
    case None
    then show ?thesis using x by (simp add: r_step_def d_step_fail)
  next
    case (Some v)
    with x have r1: "r_after 1 r r1" by (simp add: r_step_def)
    then have "r_in r1" "r_left r1 < f" using 4(4) r_after_left [OF r1] by (auto simp: r_after_def)
    then have "d_step 0 r1 (decode_items f n (xpc_array_append_value a v) r1)"
      using 4(2) [OF x(1) refl Some] 4(5) x(3) Some by (simp add: xpc_array_append_value_def)
    then show ?thesis using x Some r1 by (auto intro: d_step_after)
  qed
next
  case (6 f n d r)
  obtain k r1 where k: "r_key r = (k, r1)" by (cases "r_key r")
  note ks = r_step_block(2) [OF 6(3)]
  show ?case
  proof (cases k)
    case None
    then show ?thesis using k ks by (simp add: r_step_def d_step_fail)
  next
    case (Some key)
    then have r1: "r_after 4 r r1" "r_in r1" using k ks by (auto simp: r_step_def r_after_def)
    have left: "r_left r1 < f" using 6(4) r_after_left [OF r1(1)] by simp
    from 6(1) [OF k [symmetric] Some r1(2) left] obtain x r2 where
      x: "decode f r1 = Some (x, r2)" "r_step 1 r1 (x, r2)" "\<forall>v. x = Some v \<longrightarrow> xval_wf v"
      by (auto simp: d_step_def)
    show ?thesis
    proof (cases x)
      case None
      then show ?thesis using x k Some r1 r_after_trans [OF r1(1), of 0 r2]
        by (auto simp: r_step_def intro!: d_step_fail elim: r_after_weaken)
    next
      case v: (Some v)
      with x have r2: "r_after 5 r r2" using r_after_trans [OF r1(1), of 1 r2] by (simp add: r_step_def)
      then have "r_in r2" "r_left r2 < f" using 6(4) r_after_left [OF r2] by (auto simp: r_after_def)
      moreover have "\<forall>(k, v)\<in>set (xpc_dictionary_set_value d (c_str key) v). is_cstr k \<and> xval_wf v"
        using 6(6) x(3) v by (auto dest!: set_value_members)
      ultimately have "d_step 0 r2 (decode_kvs f n (xpc_dictionary_set_value d (c_str key) v) r2)"
        using 6(2) [OF k [symmetric] Some x(1) refl v] 6(5) by (simp add: set_value_inv)
      then show ?thesis using x k Some v r2 by (auto intro: d_step_after)
    qed
  qed
qed (auto simp: d_step_def r_step_def r_after_refl)

section \<open>Decoding what was encoded\<close>

definition adv :: "reader \<Rightarrow> nat \<Rightarrow> reader" where
  "adv r n = r\<lparr>r_pos := r_pos r + n\<rparr>"

definition ahead :: "reader \<Rightarrow> u8 list \<Rightarrow> bool" where
  "ahead r bs \<longleftrightarrow> \<not> r_error r \<and> length bs \<le> length (r_buf r) - r_pos r
     \<and> take (length bs) (drop (r_pos r) (r_buf r)) = bs"

lemma adv_adv [simp]: "adv (adv r m) n = adv r (m + n)"
  by (simp add: adv_def add.assoc)

lemma adv_0 [simp]: "adv r 0 = r"
  by (simp add: adv_def)

lemma ahead_append: "ahead r (xs @ ys) \<longleftrightarrow> ahead r xs \<and> ahead (adv r (length xs)) ys"
proof -
  have "take (length xs + length ys) zs = xs @ ys \<longleftrightarrow>
      take (length xs) zs = xs \<and> take (length ys) (drop (length xs) zs) = ys"
    if "length xs + length ys \<le> length zs" for zs :: "u8 list"
    using that by (simp add: take_add append_eq_append_conv)
  from this [of "drop (r_pos r) (r_buf r)"] show ?thesis
    by (auto simp: ahead_def adv_def add.commute)
qed

lemma ahead_Cons: "ahead r (b # bs) \<longleftrightarrow> ahead r [b] \<and> ahead (adv r 1) bs"
  using ahead_append [of r "[b]" bs] by simp

lemma r_bytes_ahead: "ahead r bs \<Longrightarrow> n = length bs \<Longrightarrow> r_bytes r n = (Some bs, adv r n)"
  by (simp add: ahead_def r_bytes_def adv_def)

lemma r_words_ahead:
  "ahead r [b] \<Longrightarrow> r_u8 r = (Some b, adv r 1)"
  "ahead r (le_bytes 4 w) \<Longrightarrow> r_u32 r = (Some w, adv r 4)"
  "ahead r (le_bytes 8 x) \<Longrightarrow> r_u64 r = (Some x, adv r 8)"
  by (simp_all add: r_u8_def r_u32_def r_u64_def r_bytes_ahead le_word_le_bytes)

lemma ahead_tag:
  assumes "ahead r (b # bs)"
  shows "r_u8 r = (Some b, adv r 1)" "ahead (adv r 1) bs"
  using assms ahead_Cons [of r b bs] r_words_ahead(1) by auto

lemma of_nat_u32: "n < 2 ^ 32 \<Longrightarrow> unat (of_nat n :: u32) = n"
  by (simp add: unat_of_nat)

lemma r_block_ahead:
  assumes "ahead r (le_bytes 4 (of_nat (length s) :: u32) @ s)" "length s < 2 ^ 32"
  shows "r_block r = (Some s, adv r (4 + length s))" "r_key r = (Some s, adv r (4 + length s))"
proof -
  from assms have "r_u32 r = (Some (of_nat (length s)), adv r 4)"
    by (simp add: ahead_append r_words_ahead)
  moreover have "ahead (adv r 4) s" using assms(1) by (simp add: ahead_append)
  ultimately show "r_block r = (Some s, adv r (4 + length s))" "r_key r = (Some s, adv r (4 + length s))"
    using assms(2) by (simp_all add: r_block_def r_key_def of_nat_u32 ahead_def adv_def add.assoc)
qed

text \<open>All lengths fit their 32-bit fields; a short encoding makes them fit.\<close>

fun fits :: "xval \<Rightarrow> bool" where
  "fits (XString s) = (length s < 2 ^ 32)"
| "fits (XData s) = (length s < 2 ^ 32)"
| "fits (XArray vs) = (length vs < 2 ^ 32 \<and> (\<forall>v\<in>set vs. fits v))"
| "fits (XDict kvs) = (length kvs < 2 ^ 32 \<and> (\<forall>(k, v)\<in>set kvs. length k < 2 ^ 32 \<and> fits v))"
| "fits v = True"

lemma wire_pos: "serializable v \<Longrightarrow> 0 < length (wire v)"
  by (cases v) simp_all

definition sized :: "xval \<Rightarrow> bool" where
  "sized v \<longleftrightarrow> serializable v \<and> fits v \<and> xval_wf v"

lemma decode_items_wire:
  assumes "\<And>v r. v \<in> set vs \<Longrightarrow> ahead r (wire v) \<Longrightarrow> decode f r = Some (Some (rev_dicts v), adv r (length (wire v)))"
  shows "ahead r (concat (map wire vs)) \<Longrightarrow>
    decode_items f (length vs) a r =
      Some (Some (XArray (a @ map rev_dicts vs)), adv r (length (concat (map wire vs))))"
  using assms
proof (induction vs arbitrary: a r)
  case (Cons v vs)
  then have "decode f r = Some (Some (rev_dicts v), adv r (length (wire v)))"
    by (simp add: ahead_append)
  moreover have "decode_items f (length vs) (a @ [rev_dicts v]) (adv r (length (wire v))) =
      Some (Some (XArray ((a @ [rev_dicts v]) @ map rev_dicts vs)),
        adv (adv r (length (wire v))) (length (concat (map wire vs))))"
    by (rule Cons.IH) (use Cons.prems in \<open>auto simp: ahead_append\<close>)
  ultimately show ?case by (simp add: xpc_array_append_value_def)
qed simp

abbreviation wire_kv :: "cstr \<times> xval \<Rightarrow> u8 list" where
  "wire_kv \<equiv> \<lambda>(k, v). le_bytes 4 (of_nat (length k) :: u32)
     @ take (unat (of_nat (length k) :: u32)) k @ wire v"

lemma decode_kvs_wire:
  assumes "\<And>k v r. (k, v) \<in> set kvs \<Longrightarrow> ahead r (wire v) \<Longrightarrow>
      decode f r = Some (Some (rev_dicts v), adv r (length (wire v)))"
    and "\<forall>(k, v)\<in>set kvs. length k < 2 ^ 32 \<and> is_cstr k"
  shows "ahead r (concat (map wire_kv kvs)) \<Longrightarrow> distinct (map fst kvs) \<Longrightarrow>
    fst ` set kvs \<inter> fst ` set d = {} \<Longrightarrow>
    decode_kvs f (length kvs) d r =
      Some (Some (XDict (rev (map (\<lambda>(k, v). (k, rev_dicts v)) kvs) @ d)),
        adv r (length (concat (map wire_kv kvs))))"
  using assms
proof (induction kvs arbitrary: d r)
  case (Cons kv kvs)
  obtain k v where kv: "kv = (k, v)" by (cases kv)
  have k: "length k < 2 ^ 32" "is_cstr k" using Cons.prems(5) by (auto simp: kv)
  have at: "ahead r (le_bytes 4 (of_nat (length k) :: u32) @ k)"
      "ahead (adv r (4 + length k)) (wire v)"
      "ahead (adv r (4 + length k + length (wire v))) (concat (map wire_kv kvs))"
    using Cons.prems(1) k(1) by (simp_all add: kv ahead_append of_nat_u32)
  have dec: "decode f (adv r (4 + length k)) =
      Some (Some (rev_dicts v), adv r (4 + length k + length (wire v)))"
    using Cons.prems(4) [of k v, OF _ at(2)] by (simp add: kv)
  have "k \<notin> fst ` set d" using Cons.prems(3) by (auto simp: kv)
  then have "xpc_dictionary_set_value d (c_str k) (rev_dicts v) = (k, rev_dicts v) # d"
    using k(2) by (simp add: set_value_fresh)
  moreover have "decode_kvs f (length kvs) ((k, rev_dicts v) # d) (adv r (4 + length k + length (wire v)))
    = Some (Some (XDict (rev (map (\<lambda>(k, v). (k, rev_dicts v)) kvs) @ (k, rev_dicts v) # d)),
        adv r (4 + length k + length (wire v) + length (concat (map wire_kv kvs))))"
    using Cons.IH [OF at(3), of "(k, rev_dicts v) # d"] Cons.prems by (auto simp: kv)
  ultimately show ?case
    using r_block_ahead(2) [OF at(1) k(1)] dec k(1) by (simp add: kv of_nat_u32 add_ac)
qed simp

lemma length_wire_member:
  "v \<in> set vs \<Longrightarrow> length (wire v) \<le> length (concat (map wire vs))"
  "(k, v) \<in> set kvs \<Longrightarrow> length (wire v) \<le> length (concat (map wire_kv kvs))"
  by (induction vs, auto, induction kvs, auto)

lemma decode_wire:
  "sized v \<Longrightarrow> ahead r (wire v) \<Longrightarrow> length (wire v) \<le> f \<Longrightarrow>
   decode f r = Some (Some (rev_dicts v), adv r (length (wire v)))"
proof (induction v arbitrary: r f rule: wire.induct)
  case (8 vs)
  then obtain g where f: "f = Suc g" by (cases f) auto
  note tag = ahead_tag [OF 8(3) [unfolded wire.simps]]
  then have at: "ahead (adv r 1) (le_bytes 4 (of_nat (length vs) :: u32))"
      "ahead (adv r 5) (concat (map wire vs))"
    by (simp_all add: ahead_append)
  have "decode g q = Some (Some (rev_dicts v), adv q (length (wire v)))"
    if "v \<in> set vs" "ahead q (wire v)" for v q
    using 8(1) [OF that(1) _ that(2), of g] 8(2,4) that length_wire_member(1) [OF that(1)]
    by (simp add: sized_def f)
  from decode_items_wire [OF this at(2), of "[]"] show ?case
    using tag(1) r_words_ahead(2) [OF at(1)] 8(2)
    by (simp add: f sized_def of_nat_u32)
next
  case (9 kvs)
  then obtain g where f: "f = Suc g" by (cases f) auto
  note tag = ahead_tag [OF 9(3) [unfolded wire.simps]]
  then have at: "ahead (adv r 1) (le_bytes 4 (of_nat (length kvs) :: u32))"
      "ahead (adv r 5) (concat (map wire_kv kvs))"
    by (simp_all add: ahead_append)
  have dec: "decode g q = Some (Some (rev_dicts v), adv q (length (wire v)))"
    if "(k, v) \<in> set kvs" "ahead q (wire v)" for k v q
  proof (rule 9(1) [OF that(1) refl _ that(2)])
    show "sized v" using 9(2) that(1) unfolding sized_def by fastforce
    show "length (wire v) \<le> g" using 9(4) length_wire_member(2) [OF that(1)] by (simp add: f)
  qed
  have "\<forall>(k, v)\<in>set kvs. length k < 2 ^ 32 \<and> is_cstr k" "distinct (map fst kvs)"
    using 9(2) by (auto simp: sized_def dict_inv_def)
  from decode_kvs_wire [where d = "[]", OF dec this(1) at(2) this(2)] show ?case
    using tag(1) r_words_ahead(2) [OF at(1)] 9(2)
    by (simp add: f sized_def of_nat_u32)
next
  case (6 s)
  then obtain g where f: "f = Suc g" by (cases f) auto
  note tag = ahead_tag [OF 6(2) [unfolded wire.simps]]
  from tag(1) r_block_ahead(1) [OF tag(2)] 6(1) show ?case
    by (simp add: f opt_val_def sized_def)
next
  case (7 s)
  then obtain g where f: "f = Suc g" by (cases f) auto
  note tag = ahead_tag [OF 7(2) [unfolded wire.simps]]
  from tag(1) r_block_ahead(1) [OF tag(2)] 7(1) show ?case
    by (simp add: f opt_val_def sized_def)
next
  case (2 b)
  then obtain g where f: "f = Suc g" by (cases f) auto
  note tag = ahead_tag [OF 2(2) [unfolded wire.simps]]
  from tag(1) r_words_ahead(1) [OF tag(2)] show ?case
    by (simp add: f opt_val_def)
next
  case (3 i)
  then obtain g where f: "f = Suc g" by (cases f) auto
  note tag = ahead_tag [OF 3(2) [unfolded wire.simps]]
  from tag(1) r_words_ahead(3) [OF tag(2)] show ?case by (simp add: f opt_val_def)
next
  case (4 i)
  then obtain g where f: "f = Suc g" by (cases f) auto
  note tag = ahead_tag [OF 4(2) [unfolded wire.simps]]
  from tag(1) r_words_ahead(3) [OF tag(2)] show ?case by (simp add: f opt_val_def)
next
  case (5 i)
  then obtain g where f: "f = Suc g" by (cases f) auto
  note tag = ahead_tag [OF 5(2) [unfolded wire.simps]]
  from tag(1) r_bytes_ahead [OF tag(2), of 8] show ?case
    by (simp add: f opt_val_def le_word_le_bytes)
next
  case 1
  then obtain g where f: "f = Suc g" by (cases f) auto
  from 1 r_words_ahead(1) [of r 1] show ?case by (simp add: f)
qed (simp_all add: sized_def)

text \<open>An encoding below 4 GiB has only lengths that fit.\<close>

lemma concat_pos_length:
  "(\<And>x. x \<in> set xs \<Longrightarrow> 0 < length (f x)) \<Longrightarrow> length xs \<le> length (concat (map f xs))"
proof (induction xs)
  case (Cons x xs)
  then have "0 < length (f x)" "length xs \<le> length (concat (map f xs))" by auto
  then show ?case by (simp del: length_greater_0_conv)
qed simp

lemma length_wire_kv:
  "(k, v) \<in> set kvs \<Longrightarrow> length (wire_kv (k, v)) \<le> length (concat (map wire_kv kvs))"
  by (induction kvs) auto

text \<open>Keys are shorter than 4 GiB, at every depth.\<close>

fun keys_fit :: "xval \<Rightarrow> bool" where
  "keys_fit (XArray vs) = (\<forall>v\<in>set vs. keys_fit v)"
| "keys_fit (XDict kvs) = (\<forall>(k, v)\<in>set kvs. length k < 2 ^ 32 \<and> keys_fit v)"
| "keys_fit v = True"

lemma wire_fits:
  "serializable v \<Longrightarrow> keys_fit v \<Longrightarrow> length (wire v) < 2 ^ 32 \<Longrightarrow> fits v"
proof (induction v rule: wire.induct)
  case (8 vs)
  then have "length vs \<le> length (concat (map wire vs))"
    by (intro concat_pos_length wire_pos) auto
  with 8(4) have "length vs < 2 ^ 32" by simp
  moreover have "fits v" if "v \<in> set vs" for v
    using 8 that length_wire_member(1) [OF that] by simp
  ultimately show ?case by simp
next
  case (9 kvs)
  have "length kvs \<le> length (concat (map wire_kv kvs))"
    by (rule concat_pos_length) (auto simp: case_prod_beta)
  with 9(4) have "length kvs < 2 ^ 32" by simp
  moreover have "length k < 2 ^ 32 \<and> fits v" if "(k, v) \<in> set kvs" for k v
  proof -
    have "serializable v" "keys_fit v" "length k < 2 ^ 32" using 9(2,3) that by auto
    moreover have "length (wire v) < 2 ^ 32" using 9(4) length_wire_member(2) [OF that] by simp
    ultimately show ?thesis using 9(1) [OF that refl] by simp
  qed
  ultimately show ?case by auto
qed simp_all

section \<open>Properties\<close>

text \<open>C6 a message survives the wire: what \<open>xpc_serialize\<close> wrote within the payload limit,
  \<open>xpc_deserialize\<close> reads back as the copy \<open>xpc_copy\<close> would make of it, and bytes after the
  value are ignored.\<close>

theorem xpc_wire_roundtrip:
  assumes "xpc_serialize v cap = Some bs" and "cap < 2 ^ 32" and "xval_wf v" and "keys_fit v"
  shows "\<exists>r. xpc_deserialize (bs @ rest) = Some (Some (xpc_copy v), r) \<and> r_pos r = length bs"
proof -
  from assms(1) have v: "serializable v" "length (wire v) \<le> cap" "bs = wire v"
    by (auto simp: xpc_serialize_wire split: if_splits)
  then have "sized v" using assms(2-4) wire_fits [of v] by (simp add: sized_def)
  moreover have "ahead \<lparr>r_buf = bs @ rest, r_pos = 0, r_error = False\<rparr> (wire v)"
    by (simp add: ahead_def v(3))
  ultimately have "decode (length (bs @ rest) + 1) \<lparr>r_buf = bs @ rest, r_pos = 0, r_error = False\<rparr> =
      Some (Some (rev_dicts v), adv \<lparr>r_buf = bs @ rest, r_pos = 0, r_error = False\<rparr> (length (wire v)))"
    by (rule decode_wire) (simp add: v(3))
  then show ?thesis
    using v assms(3) by (simp only: xpc_deserialize_def copy_rev_dicts) (simp add: adv_def)
qed

theorem xpc_wire_roundtrip_witness:
  "\<exists>r. xpc_deserialize (9 # le_bytes 4 (1 :: u32) @ le_bytes 4 (1 :: u32) @ [107, 2, 1] @ [7])
     = Some (Some (xpc_copy (XDict [([107], XBool True)])), r) \<and> r_pos r = 12"
  using xpc_wire_roundtrip [of "XDict [([107], XBool True)]" 8192
      "9 # le_bytes 4 (1 :: u32) @ le_bytes 4 (1 :: u32) @ [107, 2, 1]" "[7]"]
  by (simp add: xpc_serialize_wire dict_inv_def is_cstr_def)

text \<open>a message is encoded exactly when it holds no connection and no error and its
  encoding fits the buffer, and then the encoding is its wire image: the writer never leaves
  a truncated message.\<close>

theorem xpc_serialize_complete:
  "xpc_serialize v cap =
     (if serializable v \<and> length (wire v) \<le> cap then Some (wire v) else None)"
  by (rule xpc_serialize_wire)


end
