(* ===== verification/Refcount.thy ===== *)
theory Refcount
  imports Prelude "HOL-Library.Multiset"
begin

text \<open>
  The contract of reference-counted heaps, as \<open>libxpc\<close>, \<open>CoreFoundation\<close> and \<open>libdispatch\<close> use
  them.  An object has a count and holds references to other objects (\<open>kids\<close>).  Releasing
  decrements the count; at zero the object's own references are released, then the object is
  freed.  Static objects are never counted.  The interface \<open>refcounted\<close> lists the equations a
  release function has to satisfy; the lemmas, proved once for every provider, show that the
  counts always equal the references in existence, so that releasing a reference one owns
  never touches freed memory, frees exactly what became unreachable by counting, and needs no
  more depth than there are objects.
\<close>

type_synonym 'o heap = "nat \<Rightarrow> 'o option"

lemma set_mset_remove_many: "1 < count M x \<Longrightarrow> set_mset (M - {#x#}) = set_mset M"
  by (auto simp: in_diff_count dest: in_diffD)

lemma set_mset_remove_one: "count M x = 1 \<Longrightarrow> set_mset (M - {#x#}) = set_mset M - {x}"
  by (auto simp: in_diff_count split: if_splits)

locale refcounted =
  fixes rc :: "'o \<Rightarrow> u32"
    and set_rc :: "u32 \<Rightarrow> 'o \<Rightarrow> 'o"
    and kids :: "'o \<Rightarrow> nat list"
    and stat :: "nat \<Rightarrow> bool"
    and release :: "nat \<Rightarrow> 'o heap \<Rightarrow> nat \<Rightarrow> 'o heap outcome option"
    and release_list :: "nat \<Rightarrow> 'o heap \<Rightarrow> nat list \<Rightarrow> 'o heap outcome option"
  assumes rc_set_rc: "rc (set_rc n ob) = n"
    and kids_set_rc: "kids (set_rc n ob) = kids ob"
    and release_stat: "stat x \<Longrightarrow> release (Suc f) h x = Some (Ret h)"
    and release_live: "\<not> stat x \<Longrightarrow> h x = Some ob \<Longrightarrow> rc ob - 1 \<noteq> 0 \<Longrightarrow>
      release (Suc f) h x = Some (Ret (h(x \<mapsto> set_rc (rc ob - 1) ob)))"
    and release_last: "\<not> stat x \<Longrightarrow> h x = Some ob \<Longrightarrow> rc ob - 1 = 0 \<Longrightarrow>
      release (Suc f) h x =
        rbind (release_list f (h(x \<mapsto> set_rc 0 ob)) (kids ob)) (\<lambda>h'. Some (Ret (h'(x := None))))"
    and release_dead: "\<not> stat x \<Longrightarrow> h x = None \<Longrightarrow> release (Suc f) h x = Some Fault"
    and release_nofuel: "release 0 h x = None"
    and release_list_Nil: "release_list f h [] = Some (Ret h)"
    and release_list_Cons:
      "release_list f h (x # xs) = rbind (release f h x) (\<lambda>h'. release_list f h' xs)"
begin

definition counted :: "nat list \<Rightarrow> nat multiset" where
  "counted xs = filter_mset (\<lambda>x. \<not> stat x) (mset xs)"

text \<open>The references held by live objects, those under destruction (\<open>D\<close>) excepted.\<close>

definition refs :: "'o heap \<Rightarrow> nat set \<Rightarrow> nat multiset" where
  "refs h D = (\<Sum>x\<in>dom h - D. counted (kids (the (h x))))"

text \<open>
  \<open>ext\<close> are the references held outside the heap.  Every reference points to a live object,
  every live object is referenced, and its count is the number of its references.
\<close>

definition rc_inv :: "'o heap \<Rightarrow> nat multiset \<Rightarrow> nat set \<Rightarrow> bool" where
  "rc_inv h ext D \<longleftrightarrow> finite (dom h) \<and> D \<subseteq> dom h
     \<and> set_mset (ext + refs h D) = dom h - D
     \<and> (\<forall>x ob. x \<notin> D \<longrightarrow> h x = Some ob \<longrightarrow> unat (rc ob) = count (ext + refs h D) x)"

lemma refs_insert:
  assumes "finite (dom h)" "h x = Some ob" "x \<notin> D"
  shows "refs h D = counted (kids ob) + refs h (insert x D)"
proof -
  have eq: "dom h - D = insert x (dom h - insert x D)" using assms by auto
  show ?thesis
    unfolding refs_def eq by (subst sum.insert) (use assms in simp_all)
qed

lemma refs_cong:
  "dom h - D = dom h' - D' \<Longrightarrow> (\<And>x. x \<in> dom h - D \<Longrightarrow> h x = h' x) \<Longrightarrow> refs h D = refs h' D'"
  unfolding refs_def by (intro sum.cong) auto


lemma rc_inv_update:
  assumes "rc_inv h ext D" "h x = Some ob" "x \<notin> D" "rc ob' = rc ob"
    and "ext' + counted (kids ob') = ext + counted (kids ob)"
  shows "rc_inv (h(x \<mapsto> ob')) ext' D"
proof -
  have "finite (dom h)" using assms(1) by (simp add: rc_inv_def)
  moreover have "refs (h(x \<mapsto> ob')) (insert x D) = refs h (insert x D)"
    using assms(2) by (intro refs_cong) auto
  ultimately have "refs (h(x \<mapsto> ob')) D = counted (kids ob') + refs h (insert x D)"
    "refs h D = counted (kids ob) + refs h (insert x D)"
    using refs_insert [of "h(x \<mapsto> ob')" x ob' D] refs_insert [of h x ob D] assms(2,3) by simp_all
  then have "ext' + refs (h(x \<mapsto> ob')) D = ext + refs h D"
    using assms(5) by (metis union_assoc)
  moreover have "dom (h(x \<mapsto> ob')) = dom h" using assms(2) by auto
  ultimately show ?thesis using assms(1-4) by (auto simp: rc_inv_def)
qed

lemma rc_inv_live:
  "rc_inv h ext D \<Longrightarrow> x \<in># ext + refs h D \<Longrightarrow> \<exists>ob. h x = Some ob \<and> x \<notin> D"
  unfolding rc_inv_def by (metis DiffE domD)

lemma rc_inv_retain:
  assumes "rc_inv h ext D" "h x = Some ob" "x \<notin> D" "unat (rc ob) + 1 < 2 ^ 32"
  shows "rc_inv (h(x \<mapsto> set_rc (rc ob + 1) ob)) (add_mset x ext) D"
proof -
  let ?h = "h(x \<mapsto> set_rc (rc ob + 1) ob)"
  have fin: "finite (dom h)" using assms(1) by (simp add: rc_inv_def)
  have "refs ?h (insert x D) = refs h (insert x D)" using assms(2) by (intro refs_cong) auto
  then have refs: "refs ?h D = refs h D"
    using refs_insert [of ?h x _ D] refs_insert [of h x ob D] assms(2,3) fin by (simp add: kids_set_rc)
  have "unat (rc ob + 1) = Suc (unat (rc ob))"
    using assms(4) by (simp add: unat_plus_if')
  moreover have "dom ?h = dom h" using assms(2) by auto
  moreover have "x \<in> dom h - D" using assms(2,3) by auto
  ultimately show ?thesis
    using assms(1,2) unfolding rc_inv_def refs by (auto simp: rc_set_rc)
qed

lemma rc_inv_alloc:
  assumes "rc_inv h ext D" "h x = None" "rc ob = 1" "counted (kids ob) = {#}"
  shows "rc_inv (h(x \<mapsto> ob)) (add_mset x ext) D"
proof -
  have fin: "finite (dom h)" and xD: "x \<notin> D" using assms(1,2) by (auto simp: rc_inv_def)
  have "refs (h(x \<mapsto> ob)) (insert x D) = refs h D"
    using assms(2) by (intro refs_cong) auto
  then have refs: "refs (h(x \<mapsto> ob)) D = refs h D"
    using refs_insert [of "h(x \<mapsto> ob)" x ob D] assms(4) fin xD by simp
  have "x \<notin># ext + refs h D" using assms(1,2) rc_inv_live by (metis option.distinct(1))
  then have "count (add_mset x ext + refs h D) x = 1" by (simp add: not_in_iff)
  moreover have "set_mset (add_mset x ext + refs h D) = dom (h(x \<mapsto> ob)) - D"
    using assms(1) xD by (auto simp: rc_inv_def)
  ultimately show ?thesis
    using assms(1,3) fin unfolding rc_inv_def refs by auto
qed

lemma rc_inv_drop:
  assumes "rc_inv h ext D" "h x = Some ob" "x \<in># ext" "x \<notin> D" "rc ob - 1 \<noteq> 0"
  shows "rc_inv (h(x \<mapsto> set_rc (rc ob - 1) ob)) (ext - {#x#}) D"
proof -
  let ?h = "h(x \<mapsto> set_rc (rc ob - 1) ob)"
  have fin: "finite (dom h)" using assms(1) by (simp add: rc_inv_def)
  have "refs ?h (insert x D) = refs h (insert x D)" using assms(2) by (intro refs_cong) auto
  then have refs: "refs ?h D = refs h D"
    using refs_insert [of ?h x _ D] refs_insert [of h x ob D] assms(2,4) fin by (simp add: kids_set_rc)
  have cnt: "unat (rc ob) = count (ext + refs h D) x"
    using assms(1,2,4) by (simp add: rc_inv_def)
  have "rc ob \<noteq> 0" using cnt assms(3) by (metis count_greater_zero_iff less_numeral_extra(3) unat_0 union_iff)
  then have un: "unat (rc ob - 1) = unat (rc ob) - 1" by (simp add: unat_minus_one)
  have two: "1 < unat (rc ob)"
  proof (rule ccontr)
    assume "\<not> 1 < unat (rc ob)"
    then have "unat (rc ob - 1) = 0" using un by simp
    then show False using assms(5) by (simp add: unat_eq_zero)
  qed
  have tot: "ext - {#x#} + refs h D = ext + refs h D - {#x#}" using assms(3) by simp
  have "set_mset (ext + refs h D - {#x#}) = set_mset (ext + refs h D)"
    using two cnt by (intro set_mset_remove_many) simp
  moreover have "dom ?h = dom h" using assms(2) by auto
  ultimately show ?thesis
    using assms(1,2,3) un cnt two unfolding rc_inv_def refs tot by (auto simp: rc_set_rc)
qed


text \<open>The last reference: the object moves to the objects under destruction.\<close>

lemma rc_inv_dying:
  assumes "rc_inv h ext D" "h x = Some ob" "x \<in># ext" "x \<notin> D" "rc ob - 1 = 0"
  shows "rc_inv (h(x \<mapsto> set_rc 0 ob)) (ext - {#x#} + counted (kids ob)) (insert x D)"
proof -
  let ?h = "h(x \<mapsto> set_rc 0 ob)"
  have fin: "finite (dom h)" using assms(1) by (simp add: rc_inv_def)
  have new: "refs ?h (insert x D) = refs h (insert x D)" using assms(2) by (intro refs_cong) auto
  have old: "refs h D = counted (kids ob) + refs h (insert x D)"
    using refs_insert [of h x ob D] assms(2,4) fin by simp
  have tot: "ext - {#x#} + counted (kids ob) + refs ?h (insert x D) = ext + refs h D - {#x#}"
    using assms(3) by (simp add: new old add.assoc)
  have "rc ob = 1" using assms(5) by simp
  then have "count (ext + refs h D) x = 1" using assms(1,2,4) by (auto simp: rc_inv_def)
  then have "set_mset (ext + refs h D - {#x#}) = dom h - D - {x}"
    using assms(1) by (subst set_mset_remove_one) (simp_all add: rc_inv_def)
  moreover have "dom ?h = dom h" using assms(2) by auto
  ultimately show ?thesis
    using assms(1,2) unfolding rc_inv_def tot by auto
qed

lemma rc_inv_free:
  assumes "rc_inv h ext (insert x D)" "x \<notin> D"
  shows "rc_inv (h(x := None)) ext D"
proof -
  have "dom (h(x := None)) - D = dom h - insert x D" by auto
  moreover have "refs (h(x := None)) D = refs h (insert x D)" by (intro refs_cong) auto
  ultimately show ?thesis using assms by (auto simp: rc_inv_def)
qed

definition releases :: "'o heap \<Rightarrow> nat multiset \<Rightarrow> nat set \<Rightarrow> 'o heap outcome option \<Rightarrow> bool" where
  "releases h ext D res \<longleftrightarrow>
     (\<exists>h'. res = Some (Ret h') \<and> rc_inv h' ext D \<and> dom h' \<subseteq> dom h \<and> (\<forall>y\<in>D. h' y = h y))"

lemma releases_list:
  assumes one: "\<And>h ext x. rc_inv h ext D \<Longrightarrow> counted [x] \<subseteq># ext \<Longrightarrow> card (dom h - D) < f \<Longrightarrow>
      releases h (ext - counted [x]) D (release f h x)"
  shows "rc_inv h ext D \<Longrightarrow> counted xs \<subseteq># ext \<Longrightarrow> card (dom h - D) < f \<Longrightarrow>
    releases h (ext - counted xs) D (release_list f h xs)"
proof (induction xs arbitrary: h ext)
  case Nil
  then show ?case by (simp add: release_list_Nil releases_def counted_def)
next
  case (Cons x xs)
  have split: "counted (x # xs) = counted [x] + counted xs" by (simp add: counted_def)
  then have "counted [x] \<subseteq># ext" using Cons.prems(2) by (metis mset_subset_eq_add_left subset_mset.order_trans)
  from one [OF Cons.prems(1) this Cons.prems(3)] obtain h1 where
    h1: "release f h x = Some (Ret h1)" "rc_inv h1 (ext - counted [x]) D" "dom h1 \<subseteq> dom h"
      "\<forall>y\<in>D. h1 y = h y" by (auto simp: releases_def)
  have "counted xs \<subseteq># ext - counted [x]"
    using Cons.prems(2) split by (metis subset_eq_diff_conv add.commute \<open>counted [x] \<subseteq># ext\<close> subset_mset.le_diff_conv2)
  moreover have "card (dom h1 - D) < f"
  proof -
    have "finite (dom h - D)" using Cons.prems(1) by (simp add: rc_inv_def)
    then have "card (dom h1 - D) \<le> card (dom h - D)" using h1(3) by (intro card_mono) auto
    then show ?thesis using Cons.prems(3) by simp
  qed
  ultimately obtain h2 where
    "release_list f h1 xs = Some (Ret h2)" "rc_inv h2 (ext - counted [x] - counted xs) D"
    "dom h2 \<subseteq> dom h1" "\<forall>y\<in>D. h2 y = h1 y"
    using Cons.IH [OF h1(2)] by (auto simp: releases_def)
  with h1 show ?case by (auto simp: releases_def release_list_Cons split)
qed

lemma releases_one:
  "rc_inv h ext D \<Longrightarrow> counted [x] \<subseteq># ext \<Longrightarrow> card (dom h - D) < f \<Longrightarrow>
   releases h (ext - counted [x]) D (release f h x)"
proof (induction f arbitrary: h ext D x)
  case (Suc f)
  show ?case
  proof (cases "stat x")
    case True
    with Suc.prems show ?thesis by (simp add: release_stat releases_def counted_def)
  next
    case False
    then have cx: "counted [x] = {#x#}" by (simp add: counted_def)
    then have xe: "x \<in># ext" using Suc.prems(2) by simp
    then obtain ob where ob: "h x = Some ob" "x \<notin> D" using rc_inv_live [OF Suc.prems(1), of x] by auto
    show ?thesis
    proof (cases "rc ob - 1 = 0")
      case False
      have "release (Suc f) h x = Some (Ret (h(x \<mapsto> set_rc (rc ob - 1) ob)))"
        using release_live [of x h ob f] \<open>\<not> stat x\<close> False ob(1) by simp
      moreover have "rc_inv (h(x \<mapsto> set_rc (rc ob - 1) ob)) (ext - {#x#}) D"
        by (rule rc_inv_drop [OF Suc.prems(1) ob(1) xe ob(2) False])
      moreover have "dom (h(x \<mapsto> set_rc (rc ob - 1) ob)) \<subseteq> dom h" using ob(1) by auto
      moreover have "\<forall>y\<in>D. (h(x \<mapsto> set_rc (rc ob - 1) ob)) y = h y" using ob(2) by auto
      ultimately show ?thesis unfolding releases_def cx by blast
    next
      case True
      let ?h = "h(x \<mapsto> set_rc 0 ob)" and ?ext = "ext - {#x#} + counted (kids ob)"
      note inv = rc_inv_dying [OF Suc.prems(1) ob(1) xe ob(2) True]
      have "card (dom ?h - insert x D) < f"
      proof -
        have "finite (dom h - D)" using Suc.prems(1) by (simp add: rc_inv_def)
        moreover have x: "x \<in> dom h - D" using ob by auto
        moreover have "dom ?h - insert x D = dom h - D - {x}" using ob by auto
        ultimately have "card (dom ?h - insert x D) < card (dom h - D)"
          by (simp only: card_Diff1_less)
        then show ?thesis using Suc.prems(3) by simp
      qed
      with inv have "releases ?h (?ext - counted (kids ob)) (insert x D) (release_list f ?h (kids ob))"
        by (intro releases_list Suc.IH) simp_all
      then obtain h2 where
        h2: "release_list f ?h (kids ob) = Some (Ret h2)" "rc_inv h2 (ext - {#x#}) (insert x D)"
          "dom h2 \<subseteq> dom ?h" "\<forall>y\<in>insert x D. h2 y = ?h y"
        unfolding releases_def add_diff_cancel_right' by blast
      have "release (Suc f) h x = Some (Ret (h2(x := None)))"
        using release_last [of x h ob f] \<open>\<not> stat x\<close> True ob(1) h2(1) by simp
      moreover have "rc_inv (h2(x := None)) (ext - {#x#}) D"
        by (rule rc_inv_free [OF h2(2) ob(2)])
      moreover have "dom (h2(x := None)) \<subseteq> dom h" using h2(3) ob(1) by auto
      moreover have "\<forall>y\<in>D. (h2(x := None)) y = h y" using h2(4) ob(2) by auto
      ultimately show ?thesis unfolding releases_def cx by blast
    qed
  qed
qed simp

text \<open>Releasing a reference one owns.\<close>

lemma release_owned:
  assumes "rc_inv h ext {}" "x \<in># ext \<or> stat x" "card (dom h) < f"
  shows "\<exists>h'. release f h x = Some (Ret h') \<and> rc_inv h' (ext - counted [x]) {} \<and> dom h' \<subseteq> dom h"
proof -
  have "counted [x] \<subseteq># ext" using assms(2) by (auto simp: counted_def)
  from releases_one [OF assms(1) this] assms(3) show ?thesis by (auto simp: releases_def)
qed

text \<open>
  A container may be written after a release without having been emptied first: the release
  does not look at the contents of an object that stays alive.  \<open>g\<close> changes the contents.
\<close>

lemma release_list_shrinks:
  assumes "\<And>h x h'. release f h x = Some (Ret h') \<Longrightarrow> dom h' \<subseteq> dom h"
  shows "release_list f h xs = Some (Ret h') \<Longrightarrow> dom h' \<subseteq> dom h"
proof (induction xs arbitrary: h)
  case (Cons x xs)
  then obtain h1 where "release f h x = Some (Ret h1)" "release_list f h1 xs = Some (Ret h')"
    by (auto simp: release_list_Cons)
  with assms Cons.IH have "dom h1 \<subseteq> dom h" "dom h' \<subseteq> dom h1" by blast+
  then show ?case by (rule subset_trans [rotated])
qed (simp add: release_list_Nil)

lemma release_shrinks:
  "release f h x = Some (Ret h') \<Longrightarrow> dom h' \<subseteq> dom h"
proof (induction f arbitrary: h x h')
  case 0
  then show ?case using release_nofuel by simp
next
  case (Suc f)
  consider "stat x" | "\<not> stat x" "h x = None" | ob where "\<not> stat x" "h x = Some ob" "rc ob - 1 = 0"
    | ob where "\<not> stat x" "h x = Some ob" "rc ob - 1 \<noteq> 0"
    by (cases "h x") auto
  then show ?case
  proof cases
    case 1
    then show ?thesis using Suc.prems by (simp add: release_stat)
  next
    case 2
    then show ?thesis using Suc.prems by (simp add: release_dead)
  next
    case (3 ob)
    then obtain h1 where h1: "release_list f (h(x \<mapsto> set_rc 0 ob)) (kids ob) = Some (Ret h1)"
      "h' = h1(x := None)" using Suc.prems release_last [of x h ob f] by auto
    from release_list_shrinks [OF Suc.IH h1(1)] have "dom h1 \<subseteq> insert x (dom h)" by simp
    moreover have "x \<in> dom h" using 3 by auto
    ultimately have "dom h1 \<subseteq> dom h" by blast
    moreover have "dom h' \<subseteq> dom h1" unfolding h1(2) by (rule subsetI) (simp add: dom_def split: if_splits)
    ultimately show ?thesis by blast
  next
    case (4 ob)
    then show ?thesis using Suc.prems release_live [of x h ob f] by (auto split: if_splits)
  qed
qed

definition contents_map :: "('o \<Rightarrow> 'o) \<Rightarrow> bool" where
  "contents_map g \<longleftrightarrow> (\<forall>ob. rc (g ob) = rc ob) \<and> (\<forall>n ob. g (set_rc n ob) = set_rc n (g ob))"

lemma release_contents:
  assumes g: "contents_map g"
  shows "release f h x = Some (Ret h') \<Longrightarrow> h' a \<noteq> None \<Longrightarrow>
    release f (h(a := map_option g (h a))) x = Some (Ret (h'(a := map_option g (h' a))))"
proof (induction f arbitrary: h x h')
  case 0
  then show ?case using release_nofuel by simp
next
  case (Suc f)
  let ?G = "\<lambda>h. h(a := map_option g (h a))"
  have list: "release_list f h xs = Some (Ret h') \<Longrightarrow> h' a \<noteq> None \<Longrightarrow>
      release_list f (?G h) xs = Some (Ret (?G h'))" for h xs h'
  proof (induction xs arbitrary: h)
    case (Cons x xs)
    then obtain h1 where h1: "release f h x = Some (Ret h1)" "release_list f h1 xs = Some (Ret h')"
      by (auto simp: release_list_Cons)
    have "dom h' \<subseteq> dom h1"
      by (rule release_list_shrinks [OF _ h1(2)]) (rule release_shrinks)
    then have "h1 a \<noteq> None" using Cons.prems(2) by auto
    from Suc.IH [OF h1(1) this] Cons.IH [OF h1(2) Cons.prems(2)] show ?case
      by (simp add: release_list_Cons)
  qed (simp add: release_list_Nil)
  consider "stat x" | "\<not> stat x" "h x = None" | ob where "\<not> stat x" "h x = Some ob" "rc ob - 1 = 0"
    | ob where "\<not> stat x" "h x = Some ob" "rc ob - 1 \<noteq> 0"
    by (cases "h x") auto
  then show ?case
  proof cases
    case 1
    then show ?thesis using Suc.prems by (simp add: release_stat)
  next
    case 2
    then show ?thesis using Suc.prems by (simp add: release_dead)
  next
    case (3 ob)
    then obtain h1 where h1: "release_list f (h(x \<mapsto> set_rc 0 ob)) (kids ob) = Some (Ret h1)"
      "h' = h1(x := None)" using Suc.prems(1) release_last [of x h ob f] by auto
    then have xa: "x \<noteq> a" "h1 a \<noteq> None" using Suc.prems(2) by (auto split: if_splits)
    have G: "?G (h(x \<mapsto> set_rc 0 ob)) = (?G h)(x \<mapsto> set_rc 0 ob)" "?G h' = (?G h1)(x := None)"
      using xa(1) h1(2) by (simp_all add: fun_upd_twist)
    have "release (Suc f) (?G h) x = rbind (release_list f ((?G h)(x \<mapsto> set_rc 0 ob)) (kids ob))
        (\<lambda>h'. Some (Ret (h'(x := None))))"
      by (rule release_last) (use 3 xa(1) in simp_all)
    then show ?thesis
      unfolding G by (simp only: list [OF h1(1) xa(2), unfolded G(1)] rbind.simps)
  next
    case (4 ob)
    define ob' where "ob' = (if x = a then g ob else ob)"
    have ob': "?G h x = Some ob'" "rc ob' = rc ob" using 4 g by (auto simp: ob'_def contents_map_def)
    have "h' = h(x \<mapsto> set_rc (rc ob - 1) ob)"
      using Suc.prems(1) release_live [of x h ob f] 4 by simp
    then have G: "?G h' = (?G h)(x \<mapsto> set_rc (rc ob' - 1) ob')"
      using g 4 ob'(2) by (auto simp: ob'_def contents_map_def fun_upd_twist)
    have "release (Suc f) (?G h) x = Some (Ret ((?G h)(x \<mapsto> set_rc (rc ob' - 1) ob')))"
      by (rule release_live) (use ob' 4 in simp_all)
    then show ?thesis unfolding G .
  qed
qed

text \<open>
  Replacing one reference of a live container: the old reference is released while the
  container still lists it, then the contents change.
\<close>

lemma release_then_write:
  assumes inv: "rc_inv h ext {}" and a: "a \<in># ext" "h a = Some ob"
    and g: "contents_map g" "contents_map g'" "g (g' ob) = ob"
    and kids: "counted (kids (g' ob)) + counted [x] = counted (kids ob)"
    and f: "card (dom h) < f"
  obtains h' where "release f h x = Some (Ret (h'(a := map_option g (h' a))))" "rc_inv h' ext {}"
    "dom h' \<subseteq> dom h"
proof -
  let ?h0 = "h(a \<mapsto> g' ob)"
  have inv0: "rc_inv ?h0 (ext + counted [x]) {}"
  proof (rule rc_inv_update [OF inv a(2)])
    show "rc (g' ob) = rc ob" using g(2) by (simp add: contents_map_def)
    show "ext + counted [x] + counted (kids (g' ob)) = ext + counted (kids ob)"
      using kids by (metis add.assoc add.commute)
  qed simp
  have "x \<in># ext + counted [x] \<or> stat x" by (simp add: counted_def)
  moreover have "card (dom ?h0) < f" using f a(2) by (simp add: insert_absorb domI)
  ultimately obtain h' where h': "release f ?h0 x = Some (Ret h')" "rc_inv h' ext {}" "dom h' \<subseteq> dom ?h0"
    using release_owned [OF inv0] by fastforce
  have "h' a \<noteq> None" using rc_inv_live [OF h'(2), of a] a(1) by auto
  from release_contents [OF g(1) h'(1) this]
  have "release f (?h0(a := map_option g (?h0 a))) x = Some (Ret (h'(a := map_option g (h' a))))" .
  moreover have "?h0(a := map_option g (?h0 a)) = h" using a(2) g(3) by (simp add: fun_upd_idem)
  moreover have "dom ?h0 = dom h" using a(2) by auto
  ultimately show thesis using that h' by simp
qed

end

end
