(* ===== verification/XpcHeap.thy ===== *)
theory XpcHeap
  imports XpcValue Refcount
begin

text \<open>
  The object level of \<open>userland/libxpc\<close>: \<open>xpc_object.c\<close>, \<open>xpc_array.c\<close> and
  \<open>xpc_dictionary.c\<close> on a heap of reference-counted objects, with their sharing.  An
  \<open>xpc_object_t\<close> is a number; \<open>calloc\<close> hands out \<open>xs_next\<close>.  The three static error objects are
  the numbers 1 to 3; they are never counted and not in the heap.  A use of a freed object is a
  \<open>Fault\<close>.  The depth bound of a release is the number of addresses handed out, which is
  enough for a well-formed heap.

  The lemmas interpret the interface \<open>refcounted\<close> and show that the containers neither leak
  nor free too early, and where they do.
\<close>

section \<open>Objects\<close>

datatype xbody =
    HNull
  | HBool bool
  | HInt64 u64
  | HUInt64 u64
  | HDouble u64
  | HString "u8 list"
  | HData "u8 list"
  | HArray "nat list"
  | HDict "(cstr \<times> nat) list" "nat option" u64
  | HConnection nat

record xobj =
  x_refcnt :: u32
  x_body :: xbody

record xstate =
  xs_heap :: "xobj heap"
  xs_next :: nat

definition is_static_singleton :: "nat \<Rightarrow> bool" where
  "is_static_singleton x \<longleftrightarrow> x = 1 \<or> x = 2 \<or> x = 3"

text \<open>The references an object holds, in the order its destructor releases them.\<close>

fun body_kids :: "xbody \<Rightarrow> nat list" where
  "body_kids (HArray items) = items"
| "body_kids (HDict kvs assoc msgid) = map snd kvs @ (case assoc of None \<Rightarrow> [] | Some c \<Rightarrow> [c])"
| "body_kids _ = []"

definition xpc_object_alloc :: "xstate \<Rightarrow> xbody \<Rightarrow> nat \<times> xstate" where
  "xpc_object_alloc st body =
     (xs_next st, st\<lparr>xs_heap := (xs_heap st)(xs_next st \<mapsto> \<lparr>x_refcnt = 1, x_body = body\<rparr>),
                     xs_next := xs_next st + 1\<rparr>)"

definition xpc_retain :: "xstate \<Rightarrow> nat \<Rightarrow> xstate outcome" where
  "xpc_retain st x =
     (if is_static_singleton x then Ret st
      else case xs_heap st x of
        None \<Rightarrow> Fault
      | Some ob \<Rightarrow> Ret (st\<lparr>xs_heap := (xs_heap st)(x \<mapsto> ob\<lparr>x_refcnt := x_refcnt ob + 1\<rparr>)\<rparr>))"

fun release_at :: "nat \<Rightarrow> xobj heap \<Rightarrow> nat \<Rightarrow> xobj heap outcome option"
  and release_all :: "nat \<Rightarrow> xobj heap \<Rightarrow> nat list \<Rightarrow> xobj heap outcome option" where
  "release_at 0 h x = None"
| "release_at (Suc f) h x =
     (if is_static_singleton x then Some (Ret h)
      else case h x of
        None \<Rightarrow> Some Fault
      | Some ob \<Rightarrow>
          if x_refcnt ob - 1 \<noteq> 0 then Some (Ret (h(x \<mapsto> ob\<lparr>x_refcnt := x_refcnt ob - 1\<rparr>)))
          else rbind (release_all f (h(x \<mapsto> ob\<lparr>x_refcnt := 0\<rparr>)) (body_kids (x_body ob)))
                 (\<lambda>h'. Some (Ret (h'(x := None)))))"
| "release_all f h [] = Some (Ret h)"
| "release_all f h (x # xs) = rbind (release_at f h x) (\<lambda>h'. release_all f h' xs)"

definition xpc_release :: "xstate \<Rightarrow> nat \<Rightarrow> xstate outcome option" where
  "xpc_release st x =
     rbind (release_at (Suc (xs_next st)) (xs_heap st) x)
       (\<lambda>h'. Some (Ret (st\<lparr>xs_heap := h'\<rparr>)))"

definition set_body :: "xstate \<Rightarrow> nat \<Rightarrow> xbody \<Rightarrow> xstate outcome" where
  "set_body st x body =
     (case xs_heap st x of
        None \<Rightarrow> Fault
      | Some ob \<Rightarrow> Ret (st\<lparr>xs_heap := (xs_heap st)(x \<mapsto> ob\<lparr>x_body := body\<rparr>)\<rparr>))"

section \<open>Arrays\<close>

definition arr_items :: "xstate \<Rightarrow> nat \<Rightarrow> nat list outcome" where
  "arr_items st a =
     (case xs_heap st a of
        None \<Rightarrow> Fault
      | Some ob \<Rightarrow> (case x_body ob of HArray items \<Rightarrow> Ret items | _ \<Rightarrow> Undef))"

definition array_append :: "xstate \<Rightarrow> nat \<Rightarrow> nat \<Rightarrow> xstate outcome" where
  "array_append st a v =
     obind (arr_items st a) (\<lambda>items.
     obind (xpc_retain st v) (\<lambda>st1. set_body st1 a (HArray (items @ [v]))))"

fun null_fill :: "nat \<Rightarrow> xstate \<Rightarrow> nat list \<times> xstate" where
  "null_fill 0 st = ([], st)"
| "null_fill (Suc n) st =
     (let (x, st1) = xpc_object_alloc st HNull; (xs, st2) = null_fill n st1 in (x # xs, st2))"

definition array_set :: "xstate \<Rightarrow> nat \<Rightarrow> nat \<Rightarrow> nat \<Rightarrow> xstate outcome option" where
  "array_set st a index v =
     (if index = array_append_index then Some (array_append st a v)
      else rbind (Some (arr_items st a)) (\<lambda>items.
        if index \<ge> length items then
          (let (nulls, st1) = null_fill (index - length items) st in
           rbind (Some (xpc_retain st1 v)) (\<lambda>st2. Some (set_body st2 a (HArray (items @ nulls @ [v])))))
        else
          rbind (xpc_release st (items ! index)) (\<lambda>st1.
          rbind (Some (xpc_retain st1 v)) (\<lambda>st2. Some (set_body st2 a (HArray (items[index := v])))))))"

section \<open>Dictionaries\<close>

definition dict_parts :: "xstate \<Rightarrow> nat \<Rightarrow> ((cstr \<times> nat) list \<times> nat option \<times> u64) outcome" where
  "dict_parts st d =
     (case xs_heap st d of
        None \<Rightarrow> Fault
      | Some ob \<Rightarrow> (case x_body ob of HDict kvs c m \<Rightarrow> Ret (kvs, c, m) | _ \<Rightarrow> Undef))"

definition dict_create_empty :: "xstate \<Rightarrow> nat \<times> xstate" where
  "dict_create_empty st = xpc_object_alloc st (HDict [] None 0)"

definition dict_create_reply :: "xstate \<Rightarrow> nat \<Rightarrow> (nat \<times> xstate) outcome" where
  "dict_create_reply st original =
     (let (reply, st1) = dict_create_empty st in
      obind (dict_parts st1 original) (\<lambda>(kvs, assoc, msgid).
        case assoc of
          None \<Rightarrow> Ret (reply, st1)
        | Some c \<Rightarrow> obind (xpc_retain st1 c) (\<lambda>st2.
            obind (set_body st2 reply (HDict [] (Some c) msgid)) (\<lambda>st3. Ret (reply, st3)))))"

fun kv_index :: "(cstr \<times> nat) list \<Rightarrow> cstr \<Rightarrow> nat option" where
  "kv_index [] key = None"
| "kv_index ((k, x) # kvs) key = (if k = key then Some 0 else map_option Suc (kv_index kvs key))"

definition dict_set :: "xstate \<Rightarrow> nat \<Rightarrow> cstr \<Rightarrow> nat \<Rightarrow> xstate outcome option" where
  "dict_set st d key v =
     rbind (Some (dict_parts st d)) (\<lambda>(kvs, assoc, msgid).
       case kv_index kvs key of
         Some i \<Rightarrow>
           rbind (xpc_release st (snd (kvs ! i))) (\<lambda>st1.
           rbind (Some (xpc_retain st1 v)) (\<lambda>st2.
             Some (set_body st2 d (HDict (kvs[i := (key, v)]) assoc msgid))))
       | None \<Rightarrow>
           rbind (Some (xpc_retain st v)) (\<lambda>st1.
             Some (set_body st1 d (HDict ((key, v) # kvs) assoc msgid))))"

definition dict_get :: "xstate \<Rightarrow> nat \<Rightarrow> cstr \<Rightarrow> nat option outcome" where
  "dict_get st d key = obind (dict_parts st d) (\<lambda>(kvs, assoc, msgid). Ret (map_of kvs key))"

text \<open>The typed setters: make the value, store it, give up one's own reference.\<close>

definition dict_set_new :: "xstate \<Rightarrow> nat \<Rightarrow> cstr \<Rightarrow> xbody \<Rightarrow> xstate outcome option" where
  "dict_set_new st d key body =
     (let (v, st1) = xpc_object_alloc st body in
      rbind (dict_set st1 d key v) (\<lambda>st2. xpc_release st2 v))"

section \<open>The counting contract\<close>

interpretation xrc: refcounted x_refcnt "\<lambda>n ob. ob\<lparr>x_refcnt := n\<rparr>" "\<lambda>ob. body_kids (x_body ob)"
  is_static_singleton release_at release_all
  by unfold_locales (simp_all del: One_nat_def)

text \<open>\<open>ext\<close>: the references the program holds, besides those held by containers.\<close>

definition xinv :: "xstate \<Rightarrow> nat multiset \<Rightarrow> bool" where
  "xinv st ext \<longleftrightarrow> xrc.rc_inv (xs_heap st) ext {}
     \<and> (\<forall>x\<in>dom (xs_heap st). 3 < x \<and> x < xs_next st) \<and> 3 < xs_next st"

lemma xinv_fuel: "xinv st ext \<Longrightarrow> card (dom (xs_heap st)) < Suc (xs_next st)"
proof -
  assume "xinv st ext"
  then have "dom (xs_heap st) \<subseteq> {..<xs_next st}" by (auto simp: xinv_def)
  then have "card (dom (xs_heap st)) \<le> card {..<xs_next st}" by (intro card_mono) auto
  then show ?thesis by simp
qed

lemma counted_static [simp]: "is_static_singleton x \<Longrightarrow> xrc.counted [x] = {#}"
  by (simp add: xrc.counted_def)

lemma counted_live [simp]: "\<not> is_static_singleton x \<Longrightarrow> xrc.counted [x] = {#x#}"
  by (simp add: xrc.counted_def)

lemma counted_append [simp]: "xrc.counted (xs @ ys) = xrc.counted xs + xrc.counted ys"
  by (simp add: xrc.counted_def)

lemma counted_Cons: "xrc.counted (x # xs) = xrc.counted [x] + xrc.counted xs"
  by (simp add: xrc.counted_def)

lemma counted_Nil [simp]: "xrc.counted [] = {#}"
  by (simp add: xrc.counted_def)

text \<open>A reference that may be used: a static object, or one that is counted somewhere.\<close>

definition usable :: "xstate \<Rightarrow> nat \<Rightarrow> bool" where
  "usable st x \<longleftrightarrow> is_static_singleton x
     \<or> (\<exists>ob. xs_heap st x = Some ob \<and> unat (x_refcnt ob) + 1 < 2 ^ 32)"

lemma xpc_retain_ok:
  assumes "xinv st ext" "usable st x"
  obtains st' where "xpc_retain st x = Ret st'" "xinv st' (ext + xrc.counted [x])"
    "xs_next st' = xs_next st"
    "\<And>y. map_option x_body (xs_heap st' y) = map_option x_body (xs_heap st y)"
proof (cases "is_static_singleton x")
  case True
  with that [of st] assms show thesis by (simp add: xpc_retain_def)
next
  case False
  with assms(2) obtain ob where ob: "xs_heap st x = Some ob" "unat (x_refcnt ob) + 1 < 2 ^ 32"
    by (auto simp: usable_def)
  let ?st = "st\<lparr>xs_heap := (xs_heap st)(x \<mapsto> ob\<lparr>x_refcnt := x_refcnt ob + 1\<rparr>)\<rparr>"
  have "xrc.rc_inv (xs_heap ?st) (add_mset x ext) {}"
    using xrc.rc_inv_retain [of "xs_heap st" ext "{}" x ob] assms(1) ob by (simp add: xinv_def)
  then have "xinv ?st (ext + xrc.counted [x])" using assms(1) ob(1) False by (auto simp: xinv_def)
  with that [of ?st] ob False show thesis by (simp add: xpc_retain_def)
qed

lemma xpc_release_ok:
  assumes "xinv st ext" "x \<in># ext \<or> is_static_singleton x"
  shows "\<exists>st'. xpc_release st x = Some (Ret st') \<and> xinv st' (ext - xrc.counted [x])
    \<and> xs_next st' = xs_next st \<and> dom (xs_heap st') \<subseteq> dom (xs_heap st)"
proof -
  from xrc.release_owned [OF _ assms(2) xinv_fuel [OF assms(1)]] assms(1)
  obtain h' where "release_at (Suc (xs_next st)) (xs_heap st) x = Some (Ret h')"
    "xrc.rc_inv h' (ext - xrc.counted [x]) {}" "dom h' \<subseteq> dom (xs_heap st)"
    by (auto simp: xinv_def)
  then show ?thesis using assms(1)
    by (intro exI [of _ "st\<lparr>xs_heap := h'\<rparr>"]) (auto simp: xpc_release_def xinv_def simp del: release_at.simps)
qed

lemma release_at_body:
  "release_at f h x = Some (Ret h') \<Longrightarrow> h' a = Some ob' \<Longrightarrow> \<exists>ob. h a = Some ob \<and> x_body ob = x_body ob'"
  "release_all f h xs = Some (Ret h') \<Longrightarrow> h' a = Some ob' \<Longrightarrow> \<exists>ob. h a = Some ob \<and> x_body ob = x_body ob'"
proof (induction f h x and f h xs arbitrary: h' ob' and h' ob' rule: release_at_release_all.induct)
  case (2 f h x)
  show ?case
  proof (cases "is_static_singleton x \<or> h x = None")
    case True
    then show ?thesis using 2(2,3) by (auto split: if_splits)
  next
    case False
    then obtain ob where ob: "\<not> is_static_singleton x" "h x = Some ob" by auto
    show ?thesis
    proof (cases "x_refcnt ob - 1 = 0")
      case True
      with 2(2) ob obtain h1 where h1: "release_all f (h(x \<mapsto> ob\<lparr>x_refcnt := 0\<rparr>)) (body_kids (x_body ob)) = Some (Ret h1)"
        "h' = h1(x := None)" by auto
      then have "a \<noteq> x" "h1 a = Some ob'" using 2(3) by (auto split: if_splits)
      then show ?thesis using 2(1) [OF ob(1) ob(2) _ h1(1)] True by auto
    next
      case False
      with 2(2,3) ob show ?thesis by (auto split: if_splits)
    qed
  qed
next
  case (4 f h x xs)
  then show ?case by fastforce
qed auto

lemma refs_fewer:
  assumes "release_at f h x = Some (Ret h')" "finite (dom h)"
  shows "count (xrc.refs h' {}) y \<le> count (xrc.refs h {}) y"
proof -
  have sub: "dom h' \<subseteq> dom h" by (rule xrc.release_shrinks [OF assms(1)])
  have "xrc.refs h' {} = (\<Sum>z\<in>dom h'. xrc.counted (body_kids (x_body (the (h z)))))"
    unfolding xrc.refs_def
    by (rule sum.cong) (use release_at_body(1) [OF assms(1)] in \<open>fastforce simp: dom_def\<close>)+
  then show ?thesis
    unfolding xrc.refs_def using sub assms(2) by (simp add: count_sum sum_mono2)
qed

lemma set_body_ok:
  assumes "xinv st ext" "xs_heap st a = Some ob"
    and "ext' + xrc.counted (body_kids body) = ext + xrc.counted (body_kids (x_body ob))"
  shows "\<exists>st'. set_body st a body = Ret st' \<and> xinv st' ext'"
proof -
  have "xrc.rc_inv ((xs_heap st)(a \<mapsto> ob\<lparr>x_body := body\<rparr>)) ext' {}"
    using xrc.rc_inv_update [of "xs_heap st" ext "{}" a ob "ob\<lparr>x_body := body\<rparr>" ext'] assms
    by (simp add: xinv_def)
  with assms show ?thesis by (auto simp: set_body_def xinv_def)
qed

lemma alloc_ok:
  assumes "xinv st ext" "body_kids body = []"
  shows "fst (xpc_object_alloc st body) = xs_next st"
    "xinv (snd (xpc_object_alloc st body)) (add_mset (xs_next st) ext)"
proof -
  have "xs_heap st (xs_next st) = None" using assms(1) by (auto simp: xinv_def)
  with xrc.rc_inv_alloc [of "xs_heap st" ext "{}" "xs_next st" "\<lparr>x_refcnt = 1, x_body = body\<rparr>"] assms
  show "xinv (snd (xpc_object_alloc st body)) (add_mset (xs_next st) ext)"
    by (auto simp: xinv_def xpc_object_alloc_def intro: less_SucI)
qed (simp add: xpc_object_alloc_def)

section \<open>Containers keep the counts\<close>

lemma kv_index_map_of:
  "kv_index kvs key = None \<longleftrightarrow> key \<notin> fst ` set kvs"
  "kv_index kvs key = Some i \<Longrightarrow> i < length kvs \<and> fst (kvs ! i) = key \<and> map_of kvs key = Some (snd (kvs ! i))"
  by (induction kvs arbitrary: i) (auto split: if_splits)

lemma counted_update:
  "i < length xs \<Longrightarrow> xrc.counted (xs[i := y]) + xrc.counted [xs ! i] = xrc.counted xs + xrc.counted [y]"
proof (induction xs arbitrary: i)
  case (Cons x xs)
  show ?case
  proof (cases i)
    case (Suc j)
    then show ?thesis using Cons counted_Cons [of x "xs[j := y]"] counted_Cons [of x xs]
      by (simp add: add.assoc)
  qed (use counted_Cons [of y xs] counted_Cons [of x xs] in \<open>simp add: ac_simps\<close>)
qed simp

lemma contents_map_body: "xrc.contents_map (\<lambda>ob. ob\<lparr>x_body := f (x_body ob)\<rparr>)"
  by (simp add: xrc.contents_map_def)

text \<open>
  Writing a container over one of its references: \<open>old\<close> is released while the container
  \<open>a\<close> still lists it.  \<open>body'\<close> is the container without \<open>old\<close>.
\<close>

lemma xpc_release_from:
  assumes inv: "xinv st ext" and a: "a \<in># ext" "xs_heap st a = Some ob"
    and kids: "xrc.counted (body_kids body') + xrc.counted [old] = xrc.counted (body_kids (x_body ob))"
  obtains st1 st0 where "xpc_release st old = Some (Ret st1)" "xinv st0 ext"
    "xs_next st0 = xs_next st" "xs_next st1 = xs_next st"
    "\<And>y. count (xrc.refs (xs_heap st0) {}) y \<le> count (xrc.refs (xs_heap st) {}) y"
    "\<exists>n. xs_heap st0 a = Some \<lparr>x_refcnt = n, x_body = body'\<rparr>
       \<and> xs_heap st1 = (xs_heap st0)(a \<mapsto> \<lparr>x_refcnt = n, x_body = x_body ob\<rparr>)"
proof -
  let ?g = "\<lambda>o'. o'\<lparr>x_body := x_body ob\<rparr>" and ?g' = "\<lambda>o'. o'\<lparr>x_body := body'\<rparr>"
  have fin: "card (dom (xs_heap st)) < Suc (xs_next st)" by (rule xinv_fuel [OF inv])
  have rcinv: "xrc.rc_inv (xs_heap st) ext {}" using inv by (simp add: xinv_def)
  let ?h0 = "(xs_heap st)(a \<mapsto> ?g' ob)"
  have inv0: "xrc.rc_inv ?h0 (ext + xrc.counted [old]) {}"
    using xrc.rc_inv_update [OF rcinv a(2), of "?g' ob" "ext + xrc.counted [old]"] kids
    by (simp add: add.assoc add.commute [of "xrc.counted [old]"])
  have own: "old \<in># ext + xrc.counted [old] \<or> is_static_singleton old"
    by (cases "is_static_singleton old") simp_all
  have "card (dom ?h0) < Suc (xs_next st)" using fin a(2) by (simp add: insert_absorb domI)
  from xrc.release_owned [OF inv0 own this] obtain h' where
    h': "release_at (Suc (xs_next st)) ?h0 old = Some (Ret h')"
    "xrc.rc_inv h' ext {}" "dom h' \<subseteq> dom ?h0"
    unfolding add_diff_cancel_right' by blast
  obtain ob1 where ob1: "h' a = Some ob1" using xrc.rc_inv_live [OF h'(2), of a] a(1) by auto
  have "?h0(a := map_option ?g (?h0 a)) = xs_heap st" using a(2) by (auto simp: fun_eq_iff)
  moreover have "h'(a := map_option ?g (h' a)) = h'(a \<mapsto> ?g ob1)" using ob1 by simp
  moreover have "h' a \<noteq> None" using ob1 by simp
  note xrc.release_contents [OF contents_map_body [of "\<lambda>_. x_body ob"] h'(1) this]
  ultimately have rel: "release_at (Suc (xs_next st)) (xs_heap st) old = Some (Ret (h'(a \<mapsto> ?g ob1)))"
    by (simp only:)
  have body: "x_body ob1 = body'"
    using release_at_body(1) [OF h'(1) ob1] by auto
  have "dom ?h0 = dom (xs_heap st)" using a(2) by auto
  then have "\<forall>x\<in>dom h'. 3 < x \<and> x < xs_next st" using inv h'(3) by (auto simp: xinv_def)
  then have inv': "xinv (st\<lparr>xs_heap := h'\<rparr>) ext" using inv h'(2) by (simp add: xinv_def)
  have fewer: "count (xrc.refs h' {}) y \<le> count (xrc.refs (xs_heap st) {}) y" for y
  proof -
    have finh: "finite (dom (xs_heap st))" using rcinv by (simp add: xrc.rc_inv_def)
    have "count (xrc.refs h' {}) y \<le> count (xrc.refs ?h0 {}) y"
      by (rule refs_fewer [OF h'(1)]) (use finh in simp)
    moreover have "xrc.refs ?h0 {} + xrc.counted [old] = xrc.refs (xs_heap st) {}"
    proof -
      have "xrc.refs ?h0 {a} = xrc.refs (xs_heap st) {a}" using a(2) by (intro xrc.refs_cong) auto
      then have e0: "xrc.refs ?h0 {} = xrc.counted (body_kids body') + xrc.refs (xs_heap st) {a}"
        using xrc.refs_insert [of ?h0 a "?g' ob" "{}"] finh by simp
      have e1: "xrc.refs (xs_heap st) {} = xrc.counted (body_kids (x_body ob)) + xrc.refs (xs_heap st) {a}"
        using xrc.refs_insert [of "xs_heap st" a ob "{}"] finh a(2) by simp
      show ?thesis unfolding e0 e1 kids [symmetric] by (simp only: ac_simps)
    qed
    then have "count (xrc.refs (xs_heap st) {}) y = count (xrc.refs ?h0 {}) y + count (xrc.counted [old]) y"
      by (metis plus_multiset.rep_eq)
    ultimately show ?thesis by linarith
  qed
  show thesis
  proof (rule that [OF _ inv'])
    show "\<And>y. count (xrc.refs (xs_heap (st\<lparr>xs_heap := h'\<rparr>)) {}) y \<le> count (xrc.refs (xs_heap st) {}) y"
      using fewer by simp
    show "xpc_release st old = Some (Ret (st\<lparr>xs_heap := h'(a \<mapsto> ?g ob1)\<rparr>))"
      unfolding xpc_release_def rel by simp
    obtain n where "ob1 = \<lparr>x_refcnt = n, x_body = body'\<rparr>" using body by (cases ob1) simp
    then show "\<exists>n. xs_heap (st\<lparr>xs_heap := h'\<rparr>) a = Some \<lparr>x_refcnt = n, x_body = body'\<rparr>
       \<and> xs_heap (st\<lparr>xs_heap := h'(a \<mapsto> ?g ob1)\<rparr>) =
           (xs_heap (st\<lparr>xs_heap := h'\<rparr>))(a \<mapsto> \<lparr>x_refcnt = n, x_body = x_body ob\<rparr>)"
      using ob1 by (intro exI [of _ n]) simp
  qed simp_all
qed

lemma retain_then_write:
  assumes "xs_heap st a = Some \<lparr>x_refcnt = n, x_body = body'\<rparr>"
  shows "obind (xpc_retain (st\<lparr>xs_heap := (xs_heap st)(a \<mapsto> \<lparr>x_refcnt = n, x_body = b\<rparr>)\<rparr>) v)
      (\<lambda>s. set_body s a body) = obind (xpc_retain st v) (\<lambda>s. set_body s a body)"
proof (cases "v = a")
  case True
  with assms show ?thesis by (simp add: xpc_retain_def set_body_def)
next
  case False
  with assms show ?thesis
    by (simp add: xpc_retain_def set_body_def fun_upd_twist split: option.split)
qed

lemma overwrite_ok:
  assumes inv: "xinv st ext" and a: "a \<in># ext" "xs_heap st a = Some ob"
    and old: "xrc.counted (body_kids body') + xrc.counted [old] = xrc.counted (body_kids (x_body ob))"
    and new: "xrc.counted (body_kids body) = xrc.counted (body_kids body') + xrc.counted [v]"
    and v: "v \<in># ext \<or> is_static_singleton v" "usable st v"
  shows "\<exists>st'. rbind (xpc_release st old) (\<lambda>st1. rbind (Some (xpc_retain st1 v))
      (\<lambda>st2. Some (set_body st2 a body))) = Some (Ret st') \<and> xinv st' ext"
proof -
  obtain st1 st0 n where rel: "xpc_release st old = Some (Ret st1)" and inv0: "xinv st0 ext"
    and nx: "xs_next st0 = xs_next st" "xs_next st1 = xs_next st"
    and fewer: "\<And>y. count (xrc.refs (xs_heap st0) {}) y \<le> count (xrc.refs (xs_heap st) {}) y"
    and h0: "xs_heap st0 a = Some \<lparr>x_refcnt = n, x_body = body'\<rparr>"
    and h1: "xs_heap st1 = (xs_heap st0)(a \<mapsto> \<lparr>x_refcnt = n, x_body = x_body ob\<rparr>)"
    by (rule xpc_release_from [OF inv a old]) blast
  have "usable st0 v"
  proof (cases "is_static_singleton v")
    case False
    then obtain ob0 where ob0: "xs_heap st0 v = Some ob0"
      using v(1) inv0 xrc.rc_inv_live [of "xs_heap st0" ext "{}" v] by (auto simp: xinv_def)
    obtain ob1 where ob1: "xs_heap st v = Some ob1" "unat (x_refcnt ob1) + 1 < 2 ^ 32"
      using v(2) False by (auto simp: usable_def)
    have "unat (x_refcnt ob0) \<le> unat (x_refcnt ob1)"
      using inv inv0 ob0 ob1(1) fewer [of v] by (simp add: xinv_def xrc.rc_inv_def)
    with ob0 ob1(2) show ?thesis by (auto simp: usable_def)
  qed (simp add: usable_def)
  then obtain st2 where st2: "xpc_retain st0 v = Ret st2"
    "xinv st2 (ext + xrc.counted [v])"
    "map_option x_body (xs_heap st2 a) = map_option x_body (xs_heap st0 a)"
    by (rule xpc_retain_ok [OF inv0]) simp
  then obtain ob2 where ob2: "xs_heap st2 a = Some ob2" "x_body ob2 = body'" using h0 by auto
  from set_body_ok [OF st2(2) ob2(1), of ext body] ob2(2) new obtain st' where
    st': "set_body st2 a body = Ret st'" "xinv st' ext" by (auto simp: ac_simps)
  have "st1 = st0\<lparr>xs_heap := (xs_heap st0)(a \<mapsto> \<lparr>x_refcnt = n, x_body = x_body ob\<rparr>)\<rparr>"
    using h1 nx by (cases st0, cases st1) simp
  then have "obind (xpc_retain st1 v) (\<lambda>s. set_body s a body) = obind (xpc_retain st0 v) (\<lambda>s. set_body s a body)"
    using h0 by (simp add: retain_then_write)
  with st2(1) st'(1) have "obind (xpc_retain st1 v) (\<lambda>s. set_body s a body) = Ret st'" by simp
  then obtain s where "xpc_retain st1 v = Ret s" "set_body s a body = Ret st'" by auto
  with rel st'(2) show ?thesis by simp
qed

section \<open>Container operations\<close>

lemma array_append_ok:
  assumes "xinv st ext" and "arr_items st a = Ret items" and "usable st v"
  shows "\<exists>st'. array_append st a v = Ret st' \<and> xinv st' ext \<and> arr_items st' a = Ret (items @ [v])"
proof -
  obtain ob where ob: "xs_heap st a = Some ob" "x_body ob = HArray items"
    using assms(2) by (auto simp: arr_items_def split: option.splits xbody.splits)
  obtain st1 where st1: "xpc_retain st v = Ret st1" "xinv st1 (ext + xrc.counted [v])"
    "map_option x_body (xs_heap st1 a) = map_option x_body (xs_heap st a)"
    using xpc_retain_ok [OF assms(1,3)] by metis
  then obtain ob1 where ob1: "xs_heap st1 a = Some ob1" "x_body ob1 = HArray items" using ob by auto
  from set_body_ok [OF st1(2) ob1(1), of ext "HArray (items @ [v])"] ob1(2) obtain st' where
    st': "set_body st1 a (HArray (items @ [v])) = Ret st'" "xinv st' ext" by (auto simp: ac_simps)
  then have "arr_items st' a = Ret (items @ [v])"
    using ob1 by (auto simp: set_body_def arr_items_def)
  with st1(1) st' assms(2) show ?thesis by (auto simp: array_append_def)
qed

lemma container_set_ok:
  assumes "xinv st ext" and "c \<in># ext" and "v \<in># ext \<or> is_static_singleton v" and "usable st v"
  shows "(\<forall>items index. arr_items st c = Ret items \<longrightarrow> index < length items \<longrightarrow>
      length items < array_append_index \<longrightarrow>
      (\<exists>st'. array_set st c index v = Some (Ret st') \<and> xinv st' ext))
    \<and> (\<forall>parts key. dict_parts st c = Ret parts \<longrightarrow>
      (\<exists>st'. dict_set st c key v = Some (Ret st') \<and> xinv st' ext))"
proof (intro conjI allI impI)
  fix items index assume arr: "arr_items st c = Ret items" "index < length items" "length items < array_append_index"
  then obtain ob where ob: "xs_heap st c = Some ob" "x_body ob = HArray items"
    by (auto simp: arr_items_def split: option.splits xbody.splits)
  have one: "is_static_singleton 1" by (simp add: is_static_singleton_def)
  note cu = counted_update [OF arr(2)]
  have "\<exists>st'. rbind (xpc_release st (items ! index)) (\<lambda>st1. rbind (Some (xpc_retain st1 v))
      (\<lambda>st2. Some (set_body st2 c (HArray (items[index := v]))))) = Some (Ret st') \<and> xinv st' ext"
  proof (rule overwrite_ok [OF assms(1,2) ob(1) _ _ assms(3,4)])
    show "xrc.counted (body_kids (HArray (items[index := 1]))) + xrc.counted [items ! index] =
        xrc.counted (body_kids (x_body ob))"
      using cu [of 1] one ob(2) by simp
    have "xrc.counted (items[index := v]) + xrc.counted [items ! index]
        = xrc.counted (items[index := 1]) + xrc.counted [v] + xrc.counted [items ! index]"
      using cu [of 1] cu [of v] one by (simp add: ac_simps)
    then show "xrc.counted (body_kids (HArray (items[index := v]))) =
        xrc.counted (body_kids (HArray (items[index := 1]))) + xrc.counted [v]" by simp
  qed
  moreover have "index \<noteq> array_append_index" using arr by simp
  ultimately show "\<exists>st'. array_set st c index v = Some (Ret st') \<and> xinv st' ext"
    using arr by (simp add: array_set_def)
next
  fix parts key assume "dict_parts st c = Ret parts"
  moreover obtain kvs assoc msgid where parts: "parts = (kvs, assoc, msgid)" by (cases parts)
  ultimately obtain ob where ob: "xs_heap st c = Some ob" "x_body ob = HDict kvs assoc msgid"
    by (auto simp: dict_parts_def split: option.splits xbody.splits)
  let ?as = "xrc.counted (case assoc of None \<Rightarrow> [] | Some c \<Rightarrow> [c])"
  show "\<exists>st'. dict_set st c key v = Some (Ret st') \<and> xinv st' ext"
  proof (cases "kv_index kvs key")
    case None
    obtain st1 where st1: "xpc_retain st v = Ret st1" "xinv st1 (ext + xrc.counted [v])"
      "map_option x_body (xs_heap st1 c) = map_option x_body (xs_heap st c)"
      using xpc_retain_ok [OF assms(1,4)] by metis
    then obtain ob1 where ob1: "xs_heap st1 c = Some ob1" "x_body ob1 = HDict kvs assoc msgid"
      using ob by auto
    have "ext + xrc.counted (body_kids (HDict ((key, v) # kvs) assoc msgid)) =
        ext + xrc.counted [v] + xrc.counted (body_kids (x_body ob1))"
      using ob1(2) counted_Cons [of v "map snd kvs @ (case assoc of None \<Rightarrow> [] | Some c \<Rightarrow> [c])"]
      by (simp add: ac_simps)
    from set_body_ok [OF st1(2) ob1(1) this] obtain st' where
      "set_body st1 c (HDict ((key, v) # kvs) assoc msgid) = Ret st'" "xinv st' ext" by auto
    with st1(1) None \<open>dict_parts st c = Ret parts\<close> parts show ?thesis by (simp add: dict_set_def)
  next
    case (Some i)
    then have i: "i < length kvs" "i < length (map snd kvs)" by (simp_all add: kv_index_map_of)
    have upd: "map snd (kvs[i := (key, x)]) = (map snd kvs)[i := x]" for x by (simp add: map_update)
    have one: "is_static_singleton 1" by (simp add: is_static_singleton_def)
    note cu = counted_update [OF i(2)]
    have nth: "map snd kvs ! i = snd (kvs ! i)" using i by simp
    have "\<exists>st'. rbind (xpc_release st (snd (kvs ! i))) (\<lambda>st1. rbind (Some (xpc_retain st1 v))
      (\<lambda>st2. Some (set_body st2 c (HDict (kvs[i := (key, v)]) assoc msgid)))) = Some (Ret st')
        \<and> xinv st' ext"
    proof (rule overwrite_ok [OF assms(1,2) ob(1) _ _ assms(3,4)])
      show "xrc.counted (body_kids (HDict (kvs[i := (key, 1)]) assoc msgid)) + xrc.counted [snd (kvs ! i)] =
          xrc.counted (body_kids (x_body ob))"
        using cu [of 1] one ob(2) nth by (simp add: upd ac_simps)
      have "xrc.counted ((map snd kvs)[i := v]) + xrc.counted [snd (kvs ! i)]
          = xrc.counted ((map snd kvs)[i := 1]) + xrc.counted [v] + xrc.counted [snd (kvs ! i)]"
        using cu [of 1] cu [of v] one nth by (simp add: ac_simps)
      then have "xrc.counted ((map snd kvs)[i := v]) = xrc.counted ((map snd kvs)[i := 1]) + xrc.counted [v]"
        by simp
      then show "xrc.counted (body_kids (HDict (kvs[i := (key, v)]) assoc msgid)) =
          xrc.counted (body_kids (HDict (kvs[i := (key, 1)]) assoc msgid)) + xrc.counted [v]"
        by (simp add: upd ac_simps)
    qed
    with Some \<open>dict_parts st c = Ret parts\<close> parts show ?thesis by (simp add: dict_set_def)
  qed
qed

lemma dict_set_new_ok:
  assumes "xinv st ext" and "d \<in># ext" and "dict_parts st d = Ret parts" and "body_kids body = []"
  shows "\<exists>st'. dict_set_new st d key body = Some (Ret st') \<and> xinv st' ext"
proof -
  let ?v = "xs_next st" and ?st1 = "snd (xpc_object_alloc st body)"
  note alloc = alloc_ok [OF assms(1,4)]
  have ob: "xs_heap st d \<noteq> None" using assms(3) by (auto simp: dict_parts_def split: option.splits)
  then have "d \<noteq> ?v" using assms(1) by (auto simp: xinv_def)
  then have parts: "dict_parts ?st1 d = Ret parts"
    using assms(3) by (simp add: dict_parts_def xpc_object_alloc_def)
  have use: "usable ?st1 ?v" by (simp add: usable_def xpc_object_alloc_def)
  have "\<exists>st'. dict_set ?st1 d key ?v = Some (Ret st') \<and> xinv st' (add_mset ?v ext)"
    using container_set_ok [THEN conjunct2, OF alloc(2) _ _ use, of d, rule_format, OF _ _ parts]
      assms(2) by simp
  then obtain st2 where st2: "dict_set ?st1 d key ?v = Some (Ret st2)" "xinv st2 (add_mset ?v ext)"
    by blast
  have "\<not> is_static_singleton ?v"
    using assms(1) by (auto simp: xinv_def is_static_singleton_def)
  then obtain st3 where "xpc_release st2 ?v = Some (Ret st3)" "xinv st3 ext"
    using xpc_release_ok [OF st2(2), of ?v] by auto
  with st2(1) alloc(1) show ?thesis
    by (simp add: dict_set_new_def split_beta)
qed

section \<open>Properties\<close>

text \<open>C7 releasing a reference the program owns never touches a freed object and stays within
  the depth bound; afterwards every live object's count is again the number of its
  references, and every object without references is gone.\<close>

theorem xpc_release_safe:
  assumes "xinv st ext" and "x \<in># ext \<or> is_static_singleton x"
  shows "\<exists>st'. xpc_release st x = Some (Ret st') \<and> xinv st' (ext - xrc.counted [x])
    \<and> dom (xs_heap st') \<subseteq> dom (xs_heap st)"
  using xpc_release_ok [OF assms] by blast

text \<open>appending to an array keeps the reference counts exact: the array owns one more
  reference, the caller's references are untouched.\<close>

theorem array_append_counts:
  assumes "xinv st ext" and "arr_items st a = Ret items" and "usable st v"
  shows "\<exists>st'. array_append st a v = Ret st' \<and> xinv st' ext \<and> arr_items st' a = Ret (items @ [v])"
  by (rule array_append_ok [OF assms])

text \<open>storing at an index of an array and setting a key of a dictionary release the old
  value and keep every count exact, provided the caller itself holds the container and the
  new value.\<close>

theorem container_set_counts:
  assumes "xinv st ext" and "c \<in># ext" and "v \<in># ext \<or> is_static_singleton v" and "usable st v"
  shows "(\<forall>items index. arr_items st c = Ret items \<longrightarrow> index < length items \<longrightarrow>
      length items < array_append_index \<longrightarrow>
      (\<exists>st'. array_set st c index v = Some (Ret st') \<and> xinv st' ext))
    \<and> (\<forall>parts key. dict_parts st c = Ret parts \<longrightarrow>
      (\<exists>st'. dict_set st c key v = Some (Ret st') \<and> xinv st' ext))"
  by (rule container_set_ok [OF assms])

text \<open>the typed setters, which make a value, store it and drop their own reference, leak
  nothing: the program's references are the same before and after.\<close>

theorem dict_set_new_counts:
  assumes "xinv st ext" and "d \<in># ext" and "dict_parts st d = Ret parts" and "body_kids body = []"
  shows "\<exists>st'. dict_set_new st d key body = Some (Ret st') \<and> xinv st' ext"
  by (rule dict_set_new_ok [OF assms])

text \<open>A program with an array at 4 that holds the null object at 5; \<open>n\<close> counts the latter.\<close>

definition sample_state :: "u32 \<Rightarrow> xstate" where
  "sample_state n = \<lparr>xs_heap = [4 \<mapsto> \<lparr>x_refcnt = 1, x_body = HArray [5]\<rparr>,
     5 \<mapsto> \<lparr>x_refcnt = n, x_body = HNull\<rparr>], xs_next = 6\<rparr>"

lemma sample_state_inv: "xinv (sample_state 2) {#4, 5#}"
proof -
  have ne: "\<not> is_static_singleton 5" by (simp add: is_static_singleton_def)
  have "xrc.refs (xs_heap (sample_state 2)) {} = {#5#}"
    by (simp add: xrc.refs_def sample_state_def ne)
  then show ?thesis
    by (auto simp: xinv_def xrc.rc_inv_def sample_state_def)
qed

theorem xpc_release_witness:
  "\<exists>st'. xpc_release (sample_state 2) 4 = Some (Ret st') \<and> xinv st' {#5#}"
  using xpc_release_safe [OF sample_state_inv, of 4] by (auto simp: is_static_singleton_def)

theorem array_append_witness:
  "\<exists>st'. array_append (sample_state 2) 4 5 = Ret st' \<and> arr_items st' 4 = Ret [5, 5]"
proof -
  have "arr_items (sample_state 2) 4 = Ret [5]" by (simp add: arr_items_def sample_state_def)
  moreover have "usable (sample_state 2) 5" by (simp add: usable_def sample_state_def)
  ultimately show ?thesis using array_append_counts [OF sample_state_inv] by fastforce
qed

theorem container_set_witness:
  "\<exists>st'. array_set (sample_state 2) 4 0 5 = Some (Ret st') \<and> xinv st' {#4, 5#}"
proof -
  have "arr_items (sample_state 2) 4 = Ret [5]" by (simp add: arr_items_def sample_state_def)
  moreover have "usable (sample_state 2) 5" by (simp add: usable_def sample_state_def)
  ultimately show ?thesis
    using container_set_counts [OF sample_state_inv, of 4 5] by (simp add: array_append_index_def)
qed

definition dict_state :: xstate where
  "dict_state = \<lparr>xs_heap = [4 \<mapsto> \<lparr>x_refcnt = 1, x_body = HDict [] None 0\<rparr>], xs_next = 5\<rparr>"

theorem dict_set_new_witness:
  "\<exists>st'. dict_set_new dict_state 4 [107] (HInt64 7) = Some (Ret st') \<and> xinv st' {#4#}"
proof -
  have "xrc.refs (xs_heap dict_state) {} = {#}" by (simp add: xrc.refs_def dict_state_def)
  then have "xinv dict_state {#4#}" by (auto simp: xinv_def xrc.rc_inv_def dict_state_def)
  moreover have "dict_parts dict_state 4 = Ret ([], None, 0)" by (simp add: dict_parts_def dict_state_def)
  ultimately show ?thesis using dict_set_new_counts by fastforce
qed

text \<open>storing a value over itself when the container holds its only reference is a use
  after free: the setter releases the old value before it retains the new one.\<close>

theorem array_set_use_after_free:
  "array_set (sample_state 1) 4 0 5 = Some Fault"
proof -
  have "release_at (Suc 6) (xs_heap (sample_state 1)) 5 = Some (Ret ((xs_heap (sample_state 1))(5 := None)))"
    unfolding release_at.simps by (simp add: sample_state_def is_static_singleton_def)
  then show ?thesis
    by (simp add: array_set_def arr_items_def xpc_release_def xpc_retain_def
        is_static_singleton_def array_append_index_def sample_state_def del: release_at.simps)
qed

end
