(* ===== verification/CString.thy ===== *)
theory CString
  imports Prelude
begin

text \<open>
  \<open>userland/libc/src/string.c\<close>.  A string argument that is only read is the list of its bytes
  before the terminator; a buffer that is written is the list of all its bytes, and a store
  outside it is a \<open>Fault\<close>.  A pointer into a string is the rest of the string from there.

  The lemmas show that \<open>strcmp\<close> is a total order that decides equality, that \<open>memmove\<close> copies
  overlapping ranges, that the bounded copies stay inside their buffers and terminate them,
  and that \<open>strtok_r\<close> and \<open>strsep\<close>, called until they answer null, split a string into its
  tokens.
\<close>

section \<open>Comparison\<close>

definition cs :: "string \<Rightarrow> cstr" where
  "cs s = map (\<lambda>c. of_nat (of_char c)) s"

definition hd0 :: "cstr \<Rightarrow> u8" where
  \<comment> \<open>\<open>*s\<close>: the terminator at the end\<close>
  "hd0 s = (case s of [] \<Rightarrow> 0 | c # _ \<Rightarrow> c)"

fun strcmp :: "cstr \<Rightarrow> cstr \<Rightarrow> int" where
  "strcmp (a # as) (b # bs) = (if a = b then strcmp as bs else uint a - uint b)"
| "strcmp as bs = uint (hd0 as) - uint (hd0 bs)"

fun strncmp :: "cstr \<Rightarrow> cstr \<Rightarrow> nat \<Rightarrow> int" where
  "strncmp as bs 0 = 0"
| "strncmp (a # as) (b # bs) (Suc n) = (if a = b then strncmp as bs n else uint a - uint b)"
| "strncmp as bs (Suc n) = uint (hd0 as) - uint (hd0 bs)"

definition lower :: "u8 \<Rightarrow> u8" where
  "lower c = (if 65 \<le> c \<and> c \<le> 90 then c - 65 + 97 else c)"

fun strcasecmp :: "cstr \<Rightarrow> cstr \<Rightarrow> int" where
  "strcasecmp (a # as) (b # bs) =
     (if lower a = lower b then strcasecmp as bs else uint (lower a) - uint (lower b))"
| "strcasecmp as bs = uint (lower (hd0 as)) - uint (lower (hd0 bs))"

fun strncasecmp :: "cstr \<Rightarrow> cstr \<Rightarrow> nat \<Rightarrow> int" where
  "strncasecmp as bs 0 = 0"
| "strncasecmp (a # as) (b # bs) (Suc n) =
     (if lower a = lower b then strncasecmp as bs n else uint (lower a) - uint (lower b))"
| "strncasecmp as bs (Suc n) = uint (lower (hd0 as)) - uint (lower (hd0 bs))"

fun memcmp :: "u8 list \<Rightarrow> u8 list \<Rightarrow> nat \<Rightarrow> int outcome" where
  "memcmp as bs 0 = Ret 0"
| "memcmp (a # as) (b # bs) (Suc n) =
     (if a \<noteq> b then Ret (uint a - uint b) else memcmp as bs n)"
| "memcmp as bs (Suc n) = Fault"

lemma uint_le_0_iff [simp]: "uint (c :: 'a::len word) \<le> 0 \<longleftrightarrow> c = 0"
  by (metis uint_0_iff uint_nonnegative order_antisym_conv)

lemma uint_eq_iff [simp]: "uint (c :: 'a::len word) = uint d \<longleftrightarrow> c = d"
  by (simp add: word_uint_eq_iff)

lemma strcmp_0_iff: "is_cstr a \<Longrightarrow> is_cstr b \<Longrightarrow> strcmp a b = 0 \<longleftrightarrow> a = b"
  by (induction a b rule: strcmp.induct)
    (auto simp: is_cstr_def hd0_def uint_0_iff split: list.splits)

lemma strcmp_antisym: "strcmp b a = - strcmp a b"
  by (induction a b rule: strcmp.induct) (auto simp: hd0_def split: list.splits)

lemma strcmp_Nil_le: "strcmp [] b \<le> 0"
  by (cases b) (auto simp: hd0_def)

lemma strcmp_Nil_right: "is_cstr b \<Longrightarrow> strcmp b [] \<le> 0 \<longleftrightarrow> b = []"
  by (cases b) (simp_all add: hd0_def is_cstr_def uint_0_iff)

lemma strcmp_Cons:
  "strcmp (x # xs) (y # ys) \<le> 0 \<longleftrightarrow> uint x < uint y \<or> x = y \<and> strcmp xs ys \<le> 0"
proof (cases "x = y")
  case False
  then have "uint x \<noteq> uint y" by simp
  with False show ?thesis by (simp del: uint_eq_iff) linarith
qed simp

lemma strcmp_trans:
  "is_cstr a \<Longrightarrow> is_cstr b \<Longrightarrow> is_cstr c \<Longrightarrow> strcmp a b \<le> 0 \<Longrightarrow> strcmp b c \<le> 0 \<Longrightarrow> strcmp a c \<le> 0"
proof (induction a arbitrary: b c)
  case Nil
  then show ?case by (simp add: hd0_def)
next
  case (Cons x xs)
  from Cons.prems obtain y ys where b: "b = y # ys"
    using strcmp_Nil_right [of "x # xs"] by (cases b) auto
  with Cons.prems obtain z zs where c: "c = z # zs"
    using strcmp_Nil_right [of b] by (cases c) auto
  from Cons.prems b c have le: "uint x < uint y \<or> x = y \<and> strcmp xs ys \<le> 0"
    "uint y < uint z \<or> y = z \<and> strcmp ys zs \<le> 0" by (simp_all only: strcmp_Cons)
  have "is_cstr xs" "is_cstr ys" "is_cstr zs"
    using Cons.prems b c by (simp_all add: is_cstr_def)
  then have "strcmp xs ys \<le> 0 \<Longrightarrow> strcmp ys zs \<le> 0 \<Longrightarrow> strcmp xs zs \<le> 0" by (rule Cons.IH)
  with le have "uint x < uint z \<or> x = z \<and> strcmp xs zs \<le> 0" by auto
  then show ?case by (simp only: c strcmp_Cons)
qed

lemma strncmp_0_iff:
  "is_cstr a \<Longrightarrow> is_cstr b \<Longrightarrow> strncmp a b n = 0 \<longleftrightarrow> take n a = take n b"
  by (induction a b n rule: strncmp.induct)
    (auto simp: is_cstr_def hd0_def uint_0_iff split: list.splits)

text \<open>Comparing up to the length of the second string is a test for a prefix.\<close>

definition starts :: "cstr \<Rightarrow> cstr \<Rightarrow> bool" where
  "starts lit s \<longleftrightarrow> take (length lit) s = lit"

lemma strncmp_prefix: "is_cstr lit \<Longrightarrow> strncmp s lit (length lit) = 0 \<longleftrightarrow> starts lit s"
proof (induction lit arbitrary: s)
  case (Cons c lit)
  then show ?case by (cases s) (auto simp: is_cstr_def starts_def hd0_def uint_0_iff)
qed (simp add: starts_def)

lemma memcmp_0_iff:
  "n \<le> length as \<Longrightarrow> n \<le> length bs \<Longrightarrow>
     \<exists>r. memcmp as bs n = Ret r \<and> (r = 0 \<longleftrightarrow> take n as = take n bs)"
  by (induction as bs n rule: memcmp.induct) auto

section \<open>Searching\<close>

text \<open>The answers are rests of the string; \<open>None\<close> is a null pointer.\<close>

fun strchr :: "cstr \<Rightarrow> u8 \<Rightarrow> cstr option" where
  "strchr [] c = (if c = 0 then Some [] else None)"
| "strchr (x # s) c = (if x = c then Some (x # s) else strchr s c)"

fun strrchr_loop :: "cstr \<Rightarrow> u8 \<Rightarrow> cstr option \<Rightarrow> cstr option" where
  "strrchr_loop [] c found = found"
| "strrchr_loop (x # s) c found = strrchr_loop s c (if x = c then Some (x # s) else found)"

definition strrchr :: "cstr \<Rightarrow> u8 \<Rightarrow> cstr option" where
  "strrchr s c = strrchr_loop s c (if c = 0 then Some [] else None)"

fun memchr :: "u8 list \<Rightarrow> u8 \<Rightarrow> nat \<Rightarrow> nat option outcome" where
  "memchr s c 0 = Ret None"
| "memchr [] c (Suc n) = Fault"
| "memchr (x # s) c (Suc n) =
     (if x = c then Ret (Some 0) else obind (memchr s c n) (\<lambda>r. Ret (map_option Suc r)))"

text \<open>\<open>strstr\<close>: the text before the first occurrence and the text from it on.\<close>

fun strstr :: "cstr \<Rightarrow> cstr \<Rightarrow> (cstr \<times> cstr) option" where
  "strstr [] lit = (if lit = [] then Some ([], []) else None)"
| "strstr (c # s) lit =
     (if lit = [] \<or> strncmp (c # s) lit (length lit) = 0 then Some ([], c # s)
      else map_option (\<lambda>(pre, post). (c # pre, post)) (strstr s lit))"

definition in_set :: "cstr \<Rightarrow> u8 \<Rightarrow> bool" where
  "in_set accept c \<longleftrightarrow> strchr accept c \<noteq> None"

definition strspn :: "cstr \<Rightarrow> cstr \<Rightarrow> nat" where
  "strspn s accept = length (takeWhile (in_set accept) s)"

definition strcspn :: "cstr \<Rightarrow> cstr \<Rightarrow> nat" where
  "strcspn s reject = length (takeWhile (\<lambda>c. \<not> in_set reject c) s)"

fun strpbrk :: "cstr \<Rightarrow> cstr \<Rightarrow> cstr option" where
  "strpbrk [] accept = None"
| "strpbrk (c # s) accept = (if in_set accept c then Some (c # s) else strpbrk s accept)"

lemma strchr_None_iff: "c \<noteq> 0 \<Longrightarrow> strchr s c = None \<longleftrightarrow> c \<notin> set s"
  by (induction s) auto

lemma strchr_Some: "strchr s c = Some t \<Longrightarrow> \<exists>pre. s = pre @ t \<and> c \<notin> set pre \<and> hd0 t = c"
proof (induction s)
  case (Cons x s)
  show ?case
  proof (cases "x = c")
    case True
    with Cons.prems show ?thesis by (auto simp: hd0_def intro: exI [of _ "[]"])
  next
    case False
    with Cons obtain pre where "s = pre @ t" "c \<notin> set pre" "hd0 t = c" by auto
    with False show ?thesis by (intro exI [of _ "x # pre"]) simp
  qed
qed (auto simp: hd0_def split: if_splits)

lemma strrchr_loop_absent: "c \<notin> set s \<Longrightarrow> strrchr_loop s c found = found"
  by (induction s arbitrary: found) auto

lemma strrchr_loop_last:
  "c \<notin> set post \<Longrightarrow> strrchr_loop (pre @ c # post) c found = Some (c # post)"
  by (induction pre arbitrary: found) (auto simp: strrchr_loop_absent)

lemma in_set_iff: "c \<noteq> 0 \<Longrightarrow> in_set accept c \<longleftrightarrow> c \<in> set accept"
  by (simp add: in_set_def strchr_None_iff)

lemma strncmp_Cons_0: "strncmp (a # as) (b # bs) (Suc n) = 0 \<longleftrightarrow> a = b \<and> strncmp as bs n = 0"
  by simp

lemma strncmp_append [simp]: "strncmp (lit @ r) lit (length lit) = 0"
  by (induction lit) auto

lemma strstr_append: "strstr s lit = Some (pre, post) \<Longrightarrow> s = pre @ post"
  by (induction s arbitrary: pre) (auto split: if_splits)

lemma strstr_split:
  "is_cstr lit \<Longrightarrow> strstr s lit = Some (pre, post) \<Longrightarrow> s = pre @ post \<and> starts lit post"
  by (induction s arbitrary: pre) (auto split: if_splits simp: strncmp_prefix, auto simp: starts_def)

lemma strstr_None: "is_cstr lit \<Longrightarrow> strstr s lit = None \<Longrightarrow> s \<noteq> a @ lit @ b"
proof (induction s arbitrary: a)
  case (Cons c s)
  then have no: "\<not> starts lit (c # s)" "strstr s lit = None"
    by (auto split: if_splits simp: strncmp_prefix)
  then have "s \<noteq> a' @ lit @ b" for a' using Cons by blast
  then show ?case using no(1) by (cases a) (auto simp: starts_def)
qed (auto split: if_splits)

lemma strstr_first:
  "is_cstr lit \<Longrightarrow> strstr s lit = Some (pre, post) \<Longrightarrow> n < length pre \<Longrightarrow> \<not> starts lit (drop n s)"
proof (induction s arbitrary: pre n)
  case (Cons c s)
  show ?case
  proof (cases "lit = [] \<or> strncmp (c # s) lit (length lit) = 0")
    case True
    with Cons.prems show ?thesis by auto
  next
    case False
    with Cons.prems obtain pre' where "strstr s lit = Some (pre', post)" "pre = c # pre'" by auto
    with Cons False show ?thesis by (cases n) (auto simp: strncmp_prefix)
  qed
qed (auto split: if_splits)

section \<open>Buffers\<close>

definition get :: "u8 list \<Rightarrow> nat \<Rightarrow> u8 outcome" where
  "get b i = (if i < length b then Ret (b ! i) else Fault)"

definition put :: "u8 list \<Rightarrow> nat \<Rightarrow> u8 \<Rightarrow> u8 list outcome" where
  "put b i c = (if i < length b then Ret (b[i := c]) else Fault)"

text \<open>\<open>memcpy\<close> and \<open>memmove\<close> between the offsets \<open>s\<close> and \<open>d\<close> of one object.\<close>

fun copy_up :: "u8 list \<Rightarrow> nat \<Rightarrow> nat \<Rightarrow> nat \<Rightarrow> u8 list outcome" where
  "copy_up b d s 0 = Ret b"
| "copy_up b d s (Suc n) =
     obind (get b s) (\<lambda>c. obind (put b d c) (\<lambda>b'. copy_up b' (Suc d) (Suc s) n))"

fun copy_down :: "u8 list \<Rightarrow> nat \<Rightarrow> nat \<Rightarrow> nat \<Rightarrow> u8 list outcome" where
  "copy_down b d s 0 = Ret b"
| "copy_down b d s (Suc i) =
     obind (get b (s + i)) (\<lambda>c. obind (put b (d + i) c) (\<lambda>b'. copy_down b' d s i))"

definition memmove :: "u8 list \<Rightarrow> nat \<Rightarrow> nat \<Rightarrow> nat \<Rightarrow> u8 list outcome" where
  "memmove b d s n =
     (if d = s \<or> n = 0 then Ret b
      else if d < s then copy_up b d s n
      else copy_down b d s n)"

text \<open>\<open>memcpy\<close> from another object.\<close>

fun memcpy :: "u8 list \<Rightarrow> nat \<Rightarrow> u8 list \<Rightarrow> nat \<Rightarrow> u8 list outcome" where
  "memcpy b d src 0 = Ret b"
| "memcpy b d [] (Suc n) = Fault"
| "memcpy b d (c # src) (Suc n) = obind (put b d c) (\<lambda>b'. memcpy b' (Suc d) src n)"

fun memset :: "u8 list \<Rightarrow> nat \<Rightarrow> u8 \<Rightarrow> nat \<Rightarrow> u8 list outcome" where
  "memset b d c 0 = Ret b"
| "memset b d c (Suc n) = obind (put b d c) (\<lambda>b'. memset b' (Suc d) c n)"

fun memset_pattern16_loop :: "u8 list \<Rightarrow> nat \<Rightarrow> u8 list \<Rightarrow> nat \<Rightarrow> nat \<Rightarrow> u8 list outcome" where
  "memset_pattern16_loop b d p i 0 = Ret b"
| "memset_pattern16_loop b d p i (Suc n) =
     obind (get p (i mod 16)) (\<lambda>c. obind (put b (d + i) c)
       (\<lambda>b'. memset_pattern16_loop b' d p (Suc i) n))"

definition memset_pattern16 :: "u8 list \<Rightarrow> nat \<Rightarrow> u8 list \<Rightarrow> nat \<Rightarrow> u8 list outcome" where
  "memset_pattern16 b d p n = memset_pattern16_loop b d p 0 n"

text \<open>The length of the string in a buffer; an unterminated buffer is read past its end.\<close>

fun strlen :: "u8 list \<Rightarrow> nat outcome" where
  "strlen [] = Fault"
| "strlen (c # b) = (if c = 0 then Ret 0 else obind (strlen b) (\<lambda>n. Ret (Suc n)))"

fun strnlen :: "u8 list \<Rightarrow> nat \<Rightarrow> nat outcome" where
  "strnlen b 0 = Ret 0"
| "strnlen [] (Suc n) = Fault"
| "strnlen (c # b) (Suc n) = (if c = 0 then Ret 0 else obind (strnlen b n) (\<lambda>k. Ret (Suc k)))"

fun strcpy :: "u8 list \<Rightarrow> nat \<Rightarrow> cstr \<Rightarrow> u8 list outcome" where
  "strcpy b d [] = put b d 0"
| "strcpy b d (c # src) = obind (put b d c) (\<lambda>b'. strcpy b' (Suc d) src)"

fun strncpy :: "u8 list \<Rightarrow> nat \<Rightarrow> cstr \<Rightarrow> nat \<Rightarrow> u8 list outcome" where
  "strncpy b d src 0 = Ret b"
| "strncpy b d (c # src) (Suc n) = obind (put b d c) (\<lambda>b'. strncpy b' (Suc d) src n)"
| "strncpy b d [] (Suc n) = obind (put b d 0) (\<lambda>b'. strncpy b' (Suc d) [] n)"

definition strcat :: "u8 list \<Rightarrow> cstr \<Rightarrow> u8 list outcome" where
  "strcat b src = obind (strlen b) (\<lambda>n. strcpy b n src)"

fun strncat_loop :: "u8 list \<Rightarrow> nat \<Rightarrow> cstr \<Rightarrow> nat \<Rightarrow> u8 list outcome" where
  "strncat_loop b d (c # src) (Suc n) = obind (put b d c) (\<lambda>b'. strncat_loop b' (Suc d) src n)"
| "strncat_loop b d src n = put b d 0"

definition strncat :: "u8 list \<Rightarrow> cstr \<Rightarrow> nat \<Rightarrow> u8 list outcome" where
  "strncat b src n = obind (strlen b) (\<lambda>k. strncat_loop b k src n)"

definition strlcpy :: "u8 list \<Rightarrow> nat \<Rightarrow> cstr \<Rightarrow> nat \<Rightarrow> (u8 list \<times> nat) outcome" where
  "strlcpy b d src sz =
     (let srclen = length src in
      if sz = 0 then Ret (b, srclen)
      else let n = (if srclen < sz - 1 then srclen else sz - 1) in
        obind (memcpy b d src n) (\<lambda>b1. obind (put b1 (d + n) 0) (\<lambda>b2. Ret (b2, srclen))))"

definition strlcat :: "u8 list \<Rightarrow> cstr \<Rightarrow> nat \<Rightarrow> (u8 list \<times> nat) outcome" where
  "strlcat b src sz =
     obind (strlen b) (\<lambda>dl.
       if sz \<le> dl then Ret (b, dl + length src)
       else obind (strlcpy b dl src (sz - dl)) (\<lambda>(b', n). Ret (b', dl + n)))"

definition strndup :: "cstr \<Rightarrow> nat \<Rightarrow> cstr" where
  "strndup s n = take n s"

text \<open>\<open>splice b d xs\<close>: the bytes \<open>xs\<close> over \<open>b\<close> from \<open>d\<close> on.\<close>

definition splice :: "u8 list \<Rightarrow> nat \<Rightarrow> u8 list \<Rightarrow> u8 list" where
  "splice b d xs = take d b @ xs @ drop (d + length xs) b"

lemma splice_Nil [simp]: "splice b d [] = b"
  by (simp add: splice_def)

lemma length_splice: "d + length xs \<le> length b \<Longrightarrow> length (splice b d xs) = length b"
  by (simp add: splice_def)

lemma splice_put:
  "d + Suc (length xs) \<le> length b \<Longrightarrow> splice (b[d := c]) (Suc d) xs = splice b d (c # xs)"
  by (simp add: splice_def take_Suc_conv_app_nth)

lemma nth_splice:
  "d + length xs \<le> length b \<Longrightarrow> i < length b \<Longrightarrow>
     splice b d xs ! i = (if d \<le> i \<and> i < d + length xs then xs ! (i - d) else b ! i)"
  by (auto simp: splice_def nth_append)

lemma splice_append:
  "d + length xs + length ys \<le> length b \<Longrightarrow>
     splice (splice b d xs) (d + length xs) ys = splice b d (xs @ ys)"
  by (rule nth_equalityI) (auto simp: nth_splice length_splice nth_append)

lemma memcpy_eq:
  "n \<le> length src \<Longrightarrow> d + n \<le> length b \<Longrightarrow> memcpy b d src n = Ret (splice b d (take n src))"
proof (induction b d src n rule: memcpy.induct)
  case (3 b d c src n)
  then show ?case by (simp add: put_def splice_put min_def)
qed auto

lemma memset_eq: "d + n \<le> length b \<Longrightarrow> memset b d c n = Ret (splice b d (replicate n c))"
  by (induction b d c n rule: memset.induct) (auto simp: put_def splice_put)

lemma strcpy_eq: "d + length src < length b \<Longrightarrow> strcpy b d src = Ret (splice b d (src @ [0]))"
  by (induction b d src rule: strcpy.induct)
    (auto simp: put_def splice_put, simp add: splice_def upd_conv_take_nth_drop)

lemma strncpy_eq:
  "d + n \<le> length b \<Longrightarrow>
     strncpy b d src n = Ret (splice b d (take n src @ replicate (n - length src) 0))"
  by (induction b d src n rule: strncpy.induct) (auto simp: put_def splice_put min_def)

lemma strlen_terminated:
  "is_cstr s \<Longrightarrow> strlen (s @ 0 # r) = Ret (length s)"
  by (induction s) (auto simp: is_cstr_def)

lemma strlen_Ret: "strlen b = Ret n \<longleftrightarrow> (\<exists>s r. is_cstr s \<and> b = s @ 0 # r \<and> n = length s)"
proof
  assume "strlen b = Ret n"
  then show "\<exists>s r. is_cstr s \<and> b = s @ 0 # r \<and> n = length s"
  proof (induction b arbitrary: n)
    case (Cons c b)
    show ?case
    proof (cases "c = 0")
      case True
      with Cons.prems show ?thesis
        by (intro exI [of _ "[]"] exI [of _ b]) (auto simp: is_cstr_def)
    next
      case False
      with Cons obtain s r where "is_cstr s" "b = s @ 0 # r" "n = Suc (length s)" by auto
      with False show ?thesis
        by (intro exI [of _ "c # s"] exI [of _ r]) (auto simp: is_cstr_def)
    qed
  qed simp
qed (auto simp: strlen_terminated)

lemma copy_up_nth:
  assumes "d < s" "s + n \<le> length b"
  shows "\<exists>r. copy_up b d s n = Ret r \<and> length r = length b \<and>
    (\<forall>k<length b. r ! k = (if d \<le> k \<and> k < d + n then b ! (s + (k - d)) else b ! k))"
  using assms
proof (induction n arbitrary: b d s)
  case (Suc n)
  let ?b = "b[d := b ! s]"
  have "\<exists>r. copy_up ?b (Suc d) (Suc s) n = Ret r \<and> length r = length ?b \<and>
    (\<forall>k<length ?b. r ! k = (if Suc d \<le> k \<and> k < Suc d + n then ?b ! (Suc s + (k - Suc d)) else ?b ! k))"
    using Suc.prems by (intro Suc.IH) auto
  then obtain r where r: "copy_up ?b (Suc d) (Suc s) n = Ret r" "length r = length b"
    "\<And>k. k < length b \<Longrightarrow>
      r ! k = (if Suc d \<le> k \<and> k < Suc d + n then ?b ! (Suc s + (k - Suc d)) else ?b ! k)"
    by auto
  have "r ! k = (if d \<le> k \<and> k < d + Suc n then b ! (s + (k - d)) else b ! k)"
    if "k < length b" for k
  proof (cases "Suc d \<le> k \<and> k < Suc d + n")
    case True
    then have "r ! k = ?b ! (Suc s + (k - Suc d))" using r(3) [OF that] by simp
    also have "Suc s + (k - Suc d) = s + (k - d)" using True by arith
    also have "?b ! (s + (k - d)) = b ! (s + (k - d))"
      using Suc.prems by (intro nth_list_update_neq) simp
    finally show ?thesis using True by simp
  next
    case False
    then show ?thesis using r(3) [OF that] Suc.prems by (auto simp: nth_list_update)
  qed
  with r Suc.prems show ?case by (auto simp: get_def put_def)
qed auto

lemma copy_down_nth:
  assumes "s < d" "d + n \<le> length b"
  shows "\<exists>r. copy_down b d s n = Ret r \<and> length r = length b \<and>
    (\<forall>k<length b. r ! k = (if d \<le> k \<and> k < d + n then b ! (s + (k - d)) else b ! k))"
  using assms
proof (induction n arbitrary: b)
  case (Suc n)
  let ?b = "b[d + n := b ! (s + n)]"
  have "\<exists>r. copy_down ?b d s n = Ret r \<and> length r = length ?b \<and>
    (\<forall>k<length ?b. r ! k = (if d \<le> k \<and> k < d + n then ?b ! (s + (k - d)) else ?b ! k))"
    using Suc.prems by (intro Suc.IH) auto
  then obtain r where r: "copy_down ?b d s n = Ret r" "length r = length b"
    "\<And>k. k < length b \<Longrightarrow>
      r ! k = (if d \<le> k \<and> k < d + n then ?b ! (s + (k - d)) else ?b ! k)"
    by auto
  have "r ! k = (if d \<le> k \<and> k < d + Suc n then b ! (s + (k - d)) else b ! k)"
    if "k < length b" for k
    using r(3) [OF that] Suc.prems by (auto simp: nth_list_update)
  with r Suc.prems show ?case by (auto simp: get_def put_def)
qed auto

section \<open>Tokens\<close>

text \<open>Both functions answer the token and the saved pointer.\<close>

definition strtok_r :: "cstr \<Rightarrow> cstr \<Rightarrow> cstr option \<times> cstr" where
  "strtok_r s delim =
     (let s1 = drop (strspn s delim) s in
      if s1 = [] then (None, s1)
      else let k = strcspn s1 delim in (Some (take k s1), drop (Suc k) s1))"

definition strsep :: "cstr option \<Rightarrow> cstr \<Rightarrow> cstr option \<times> cstr option" where
  "strsep stringp delim =
     (case stringp of
        None \<Rightarrow> (None, None)
      | Some s \<Rightarrow>
          let k = strcspn s delim in
          (Some (take k s), if drop k s \<noteq> [] then Some (drop (Suc k) s) else None))"

text \<open>A caller's loop: take tokens until the answer is null.\<close>

function strtok_all :: "cstr \<Rightarrow> cstr \<Rightarrow> cstr list" where
  "strtok_all delim s =
     (case strtok_r s delim of (None, _) \<Rightarrow> [] | (Some t, r) \<Rightarrow> t # strtok_all delim r)"
  by pat_completeness auto

termination
  by (relation "measure (length \<circ> snd)")
    (auto simp: strtok_r_def Let_def split: if_splits)

declare strtok_all.simps [simp del]

function strsep_all :: "cstr \<Rightarrow> cstr option \<Rightarrow> cstr list" where
  "strsep_all delim p =
     (case strsep p delim of (None, _) \<Rightarrow> [] | (Some t, q) \<Rightarrow> t # strsep_all delim q)"
  by pat_completeness auto

termination
  by (relation "measure (\<lambda>(_, p). case p of None \<Rightarrow> 0 | Some s \<Rightarrow> Suc (length s))")
    (auto simp: strsep_def Let_def split: if_splits option.splits)

declare strsep_all.simps [simp del]

text \<open>The specification: the parts of a string between its delimiters.\<close>

fun split_on :: "('a \<Rightarrow> bool) \<Rightarrow> 'a list \<Rightarrow> 'a list list" where
  "split_on P [] = [[]]"
| "split_on P (c # s) =
     (if P c then [] # split_on P s
      else (c # hd (split_on P s)) # tl (split_on P s))"

lemma split_on_takeWhile:
  "split_on P s = takeWhile (\<lambda>c. \<not> P c) s #
     (case dropWhile (\<lambda>c. \<not> P c) s of [] \<Rightarrow> [] | _ # r \<Rightarrow> split_on P r)"
  by (induction s) auto

lemma split_on_skip:
  "filter (\<lambda>t. t \<noteq> []) (split_on P (dropWhile P s)) = filter (\<lambda>t. t \<noteq> []) (split_on P s)"
  by (induction s) auto

lemma drop_takeWhile: "drop (length (takeWhile P s)) s = dropWhile P s"
  by (induction s) auto

lemma take_takeWhile: "take (length (takeWhile P s)) s = takeWhile P s"
  by (induction s) auto

lemma drop_Suc_tl: "drop (Suc k) s = tl (drop k s)"
  by (simp add: drop_Suc tl_drop)

lemma strtok_all_eq: "strtok_all delim s = filter (\<lambda>t. t \<noteq> []) (split_on (in_set delim) s)"
proof (induction "length s" arbitrary: s rule: less_induct)
  case less
  let ?s = "dropWhile (in_set delim) s"
  show ?case
  proof (cases ?s)
    case Nil
    have "filter (\<lambda>t. t \<noteq> []) (split_on (in_set delim) s) = []"
      using split_on_skip [of "in_set delim" s] unfolding Nil by simp
    with Nil show ?thesis
      by (subst strtok_all.simps) (simp add: strtok_r_def strspn_def drop_takeWhile)
  next
    case (Cons c t)
    then have c: "\<not> (in_set delim) c" by (metis hd_dropWhile list.distinct(1) list.sel(1))
    let ?r = "tl (dropWhile (\<lambda>c. \<not> (in_set delim) c) ?s)"
    have "length ?r < length s"
      using Cons length_dropWhile_le [of "in_set delim" s] length_dropWhile_le [of "\<lambda>c. \<not> (in_set delim) c" ?s]
      by (simp add: less_le_trans)
    then have "strtok_all delim ?r = filter (\<lambda>t. t \<noteq> []) (split_on (in_set delim) ?r)" by (rule less)
    moreover have k: "drop (strspn s delim) s = ?s"
      "take (strcspn ?s delim) ?s = takeWhile (\<lambda>c. \<not> (in_set delim) c) ?s"
      "drop (Suc (strcspn ?s delim)) ?s = ?r"
      by (simp_all add: strspn_def strcspn_def drop_takeWhile take_takeWhile drop_Suc_tl)
    have "strtok_r s delim = (Some (takeWhile (\<lambda>c. \<not> (in_set delim) c) ?s), ?r)"
      unfolding strtok_r_def Let_def k using Cons by simp
    ultimately have "strtok_all delim s =
        takeWhile (\<lambda>c. \<not> (in_set delim) c) ?s # filter (\<lambda>t. t \<noteq> []) (split_on (in_set delim) ?r)"
      by (subst strtok_all.simps) simp
    moreover have tw: "takeWhile (\<lambda>c. \<not> (in_set delim) c) ?s \<noteq> []" using Cons c by simp
    then have "takeWhile (\<lambda>c. \<not> (in_set delim) c) ?s # filter (\<lambda>t. t \<noteq> []) (split_on (in_set delim) ?r) = filter (\<lambda>t. t \<noteq> []) (split_on (in_set delim) ?s)"
      using tw by (subst (2) split_on_takeWhile)
        (simp del: dropWhile_eq_Nil_conv split: list.split)
    ultimately show ?thesis by (simp only: split_on_skip)
  qed
qed

lemma strsep_all_eq: "strsep_all delim (Some s) = split_on (in_set delim) s"
proof (induction "length s" arbitrary: s rule: less_induct)
  case less
  have k: "drop (strcspn s delim) s = dropWhile (\<lambda>c. \<not> (in_set delim) c) s"
    "take (strcspn s delim) s = takeWhile (\<lambda>c. \<not> (in_set delim) c) s"
    "drop (Suc (strcspn s delim)) s = tl (dropWhile (\<lambda>c. \<not> (in_set delim) c) s)"
    by (simp_all add: strcspn_def drop_takeWhile take_takeWhile drop_Suc_tl)
  show ?case
  proof (cases "dropWhile (\<lambda>c. \<not> (in_set delim) c) s")
    case Nil
    moreover have "strsep_all delim None = []"
      by (subst strsep_all.simps) (simp add: strsep_def)
    ultimately show ?thesis
      by (subst strsep_all.simps, subst split_on_takeWhile)
        (simp add: strsep_def k Let_def del: dropWhile_eq_Nil_conv drop_eq_Nil drop_eq_Nil2)
  next
    case (Cons c t)
    then have "length t < length s" using length_dropWhile_le [of "\<lambda>c. \<not> (in_set delim) c" s] by simp
    from less [OF this] Cons show ?thesis
      by (subst strsep_all.simps, subst split_on_takeWhile)
        (simp add: strsep_def k Let_def del: dropWhile_eq_Nil_conv drop_eq_Nil drop_eq_Nil2)
  qed
qed

section \<open>Properties\<close>

text \<open>\<open>memmove\<close> copies \<open>n\<close> bytes inside one object as they were before the call, in
  whichever way the two ranges overlap, and changes nothing else.\<close>

theorem memmove_correct:
  assumes "s + n \<le> length b" "d + n \<le> length b"
  shows "memmove b d s n = Ret (splice b d (take n (drop s b)))"
proof -
  have eq: "r = splice b d (take n (drop s b))"
    if "length r = length b"
      "\<forall>k<length b. r ! k = (if d \<le> k \<and> k < d + n then b ! (s + (k - d)) else b ! k)" for r
    using that assms by (intro nth_equalityI) (auto simp: length_splice nth_splice)
  consider "d = s \<or> n = 0" | "d < s" "n \<noteq> 0" | "s < d" "n \<noteq> 0" by linarith
  then show ?thesis
  proof cases
    case 1
    then have "b = splice b d (take n (drop s b))" by (intro eq) auto
    with 1 show ?thesis by (simp add: memmove_def)
  next
    case 2
    with copy_up_nth [of d s n b] eq assms show ?thesis by (auto simp: memmove_def)
  next
    case 3
    with copy_down_nth [of s d n b] eq assms show ?thesis by (auto simp: memmove_def)
  qed
qed

theorem memmove_correct_witness:
  "memmove [1, 2, 3, 4, 5] 1 0 4 = Ret (splice [1, 2, 3, 4, 5] 1 (take 4 (drop 0 [1, 2, 3, 4, 5])))"
  by (rule memmove_correct) simp_all

text \<open>\<open>strlcat\<close> with the size of its buffer never stores outside it: it leaves as much of
  the concatenation as fits, terminated, and answers the length the caller needed.\<close>

theorem strlcat_correct:
  assumes "is_cstr s" "length s < sz" "sz \<le> length b" "b = s @ 0 # r"
  shows "\<exists>b'. strlcat b src sz = Ret (b', length s + length src) \<and> length b' = length b \<and>
    take (min (sz - 1) (length (s @ src)) + 1) b' = take (sz - 1) (s @ src) @ [0] \<and>
    drop sz b' = drop sz b"
proof -
  define n where "n = min (length src) (sz - Suc (length s))"
  let ?b1 = "splice b (length s) (take n src)" and ?b2 = "splice b (length s) (take n src @ [0])"
  have n: "(if length src < sz - Suc (length s) then length src else sz - Suc (length s)) = n"
    "length (take n src) = n" by (simp_all add: n_def)
  have len: "length s + n < sz" using assms by (simp add: n_def)
  have m: "memcpy b (length s) src n = Ret ?b1" using assms(3) len n by (intro memcpy_eq) auto
  have l: "length ?b1 = length b" "length ?b2 = length b"
    using len assms(3) by (auto intro!: length_splice)
  have "?b2 = splice ?b1 (length s + n) [0]"
    using splice_append [of "length s" "take n src" "[0]" b] len assms(3) n by simp
  then have p: "put ?b1 (length s + n) 0 = Ret ?b2"
    using len assms(3) by (simp add: put_def l splice_def [of ?b1] upd_conv_take_nth_drop)
  have t: "take (length xs) (xs @ ys) = xs" for xs ys :: "u8 list" by simp
  have b2: "?b2 = (s @ take n src @ [0]) @ drop (length s + n + 1) b"
    using n assms(4) by (simp add: splice_def)
  have "min (sz - 1) (length (s @ src)) + 1 = length (s @ take n src @ [0])"
    using assms(2) n by (simp add: n_def)
  moreover have "take (sz - 1) (s @ src) = s @ take n src"
    using assms(2) by (simp add: n_def min_def)
  ultimately have fin: "take (min (sz - 1) (length (s @ src)) + 1) ?b2 = take (sz - 1) (s @ src) @ [0]"
    using t [of "s @ take n src @ [0]"] by (simp only: b2) (simp only: append_assoc)
  have "drop sz ?b2 = drop sz b"
    using len assms(3) n(2) by (intro nth_equalityI) (simp_all add: l nth_splice)
  moreover have "strlen b = Ret (length s)" using assms by (simp add: strlen_terminated)
  moreover have "strlcpy b (length s) src (sz - length s) = Ret (?b2, length src)"
  proof -
    have z: "(sz - length s = 0) = False" "sz - length s - 1 = sz - Suc (length s)"
      using assms(2) by simp_all
    show ?thesis by (simp only: strlcpy_def Let_def z n(1) if_False m p obind.simps)
  qed
  ultimately show ?thesis using fin assms(2) l by (simp add: strlcat_def)
qed

theorem strlcat_correct_witness:
  "\<exists>b'. strlcat [97, 0, 7, 8] [98, 99] 3 = Ret (b', length [97::u8] + length [98::u8, 99]) \<and>
    length b' = length [97::u8, 0, 7, 8] \<and>
    take (min (3 - 1) (length ([97::u8] @ [98, 99])) + 1) b' = take (3 - 1) ([97] @ [98, 99]) @ [0] \<and>
    drop 3 b' = drop 3 [97, 0, 7, 8]"
  by (rule strlcat_correct [where r = "[7, 8]"]) (simp_all add: is_cstr_def)

text \<open>calling \<open>strtok_r\<close> until it answers null gives the non-empty parts between the
  delimiters, in order; \<open>strsep\<close> gives all the parts.\<close>

theorem tokens_correct:
  "strtok_all delim s = filter (\<lambda>t. t \<noteq> []) (split_on (in_set delim) s) \<and>
   strsep_all delim (Some s) = split_on (in_set delim) s"
  by (simp only: strtok_all_eq strsep_all_eq)

end
