(* ===== verification/Sort.thy ===== *)
theory Sort
  imports CString "HOL-Library.Multiset"
begin

text \<open>
  \<open>qsort\<close>, \<open>qsort_r\<close> and \<open>bsearch\<close> of \<open>userland/libc/src/stdlib_misc.c\<close>, and the one other
  sort of the userland, \<open>CFArraySortValues\<close> of \<open>userland/CoreFoundation/CFArray.c\<close>.  \<open>qsort\<close>
  is an insertion sort that swaps neighbours byte by byte; it is modelled on the bytes of its
  array and refined to the array of its elements.

  The locale \<open>comparison\<close> is the contract of a comparison function.  Inside it both insertion
  steps are shown to put one element in its place and to keep elements that compare equal in
  their order, so that both sorts are stable sorts.
\<close>

section \<open>The sorts of the source\<close>

text \<open>Element \<open>j\<close> of an array of elements of \<open>sz\<close> bytes, and the swap of two elements.\<close>

definition elem :: "u8 list \<Rightarrow> nat \<Rightarrow> nat \<Rightarrow> u8 list" where
  "elem b sz j = take sz (drop (j * sz) b)"

fun swap_bytes :: "u8 list \<Rightarrow> nat \<Rightarrow> nat \<Rightarrow> nat \<Rightarrow> u8 list" where
  "swap_bytes b p q 0 = b"
| "swap_bytes b p q (Suc n) = swap_bytes (b[p := b ! q, q := b ! p]) (Suc p) (Suc q) n"

fun qsort_sift :: "(u8 list \<Rightarrow> u8 list \<Rightarrow> int) \<Rightarrow> nat \<Rightarrow> u8 list \<Rightarrow> nat \<Rightarrow> u8 list" where
  "qsort_sift cmp sz b 0 = b"
| "qsort_sift cmp sz b (Suc j) =
     (if 0 < cmp (elem b sz j) (elem b sz (Suc j))
      then qsort_sift cmp sz (swap_bytes b (j * sz) (Suc j * sz) sz) j else b)"

definition qsort :: "(u8 list \<Rightarrow> u8 list \<Rightarrow> int) \<Rightarrow> nat \<Rightarrow> nat \<Rightarrow> u8 list \<Rightarrow> u8 list" where
  "qsort cmp nmemb sz b = foldl (qsort_sift cmp sz) b [1..<nmemb]"

text \<open>\<open>qsort_r\<close> hands its \<open>thunk\<close> to the comparison.\<close>

definition qsort_r ::
  "('t \<Rightarrow> u8 list \<Rightarrow> u8 list \<Rightarrow> int) \<Rightarrow> 't \<Rightarrow> nat \<Rightarrow> nat \<Rightarrow> u8 list \<Rightarrow> u8 list" where
  "qsort_r cmp thunk nmemb sz b = foldl (qsort_sift (cmp thunk) sz) b [1..<nmemb]"

text \<open>The same sort on the elements.\<close>

fun sift :: "('a \<Rightarrow> 'a \<Rightarrow> int) \<Rightarrow> 'a list \<Rightarrow> nat \<Rightarrow> 'a list" where
  "sift cmp xs 0 = xs"
| "sift cmp xs (Suc j) =
     (if 0 < cmp (xs ! j) (xs ! Suc j)
      then sift cmp (xs[j := xs ! Suc j, Suc j := xs ! j]) j else xs)"

definition sort_elems :: "('a \<Rightarrow> 'a \<Rightarrow> int) \<Rightarrow> 'a list \<Rightarrow> 'a list" where
  "sort_elems cmp xs = foldl (sift cmp) xs [1..<length xs]"

text \<open>\<open>CFArraySortValues\<close> shifts the greater elements up and stores the key once; \<open>j\<close> is one
  more than the source's index, which is signed and may run below the range.\<close>

fun shift_up :: "('a \<Rightarrow> 'a \<Rightarrow> int) \<Rightarrow> nat \<Rightarrow> 'a \<Rightarrow> 'a list \<Rightarrow> nat \<Rightarrow> 'a list" where
  "shift_up cmp lo key xs 0 = xs[0 := key]"
| "shift_up cmp lo key xs (Suc j) =
     (if lo \<le> j \<and> cmp (xs ! j) key = 1
      then shift_up cmp lo key (xs[Suc j := xs ! j]) j else xs[Suc j := key])"

definition CFArraySortValues :: "'a list \<Rightarrow> nat \<Rightarrow> nat \<Rightarrow> ('a \<Rightarrow> 'a \<Rightarrow> int) \<Rightarrow> 'a list" where
  "CFArraySortValues xs location len cmp =
     foldl (\<lambda>xs i. shift_up cmp location (xs ! i) xs i) xs [location + 1..<location + len]"

section \<open>Binary search\<close>

function bsearch_loop :: "('k \<Rightarrow> 'a \<Rightarrow> int) \<Rightarrow> 'k \<Rightarrow> 'a list \<Rightarrow> nat \<Rightarrow> nat \<Rightarrow> nat option" where
  "bsearch_loop cmp key xs lo hi =
     (if lo < hi then
        let mid = lo + (hi - lo) div 2; c = cmp key (xs ! mid) in
        if c = 0 then Some mid
        else if c < 0 then bsearch_loop cmp key xs lo mid
        else bsearch_loop cmp key xs (mid + 1) hi
      else None)"
  by pat_completeness auto

termination
  by (relation "measure (\<lambda>(cmp, key, xs, lo, hi). hi - lo)") auto

declare bsearch_loop.simps [simp del]

definition bsearch :: "('k \<Rightarrow> 'a \<Rightarrow> int) \<Rightarrow> 'k \<Rightarrow> 'a list \<Rightarrow> nat option" where
  "bsearch cmp key xs = bsearch_loop cmp key xs 0 (length xs)"

section \<open>From bytes to elements\<close>

lemma length_swap_bytes [simp]: "length (swap_bytes b p q n) = length b"
  by (induction b p q n rule: swap_bytes.induct) auto

lemma swap_bytes_append:
  "length x = length y \<Longrightarrow>
   swap_bytes (as @ x @ m @ y @ bs) (length as) (length as + length x + length m) (length x) =
     as @ y @ m @ x @ bs"
proof (induction x y arbitrary: as m rule: list_induct2)
  case (Cons a x c y)
  have "(as @ (a # x) @ m @ (c # y) @ bs)
      [length as := c, length as + length (a # x) + length m := a] =
      (as @ [c]) @ x @ (m @ [a]) @ y @ bs"
    by (simp add: list_update_append)
  moreover have "(as @ (a # x) @ m @ (c # y) @ bs) ! (length as + length (a # x) + length m) = c"
    "(as @ (a # x) @ m @ (c # y) @ bs) ! length as = a" by (simp_all add: nth_append)
  ultimately show ?case using Cons.IH [of "as @ [c]" "m @ [a]"] by simp
qed simp

definition blocks :: "nat \<Rightarrow> u8 list list \<Rightarrow> bool" where
  "blocks sz xs \<longleftrightarrow> (\<forall>x\<in>set xs. length x = sz)"

lemma length_concat_blocks: "blocks sz xs \<Longrightarrow> length (concat xs) = length xs * sz"
  by (induction xs) (auto simp: blocks_def)

lemma drop_concat_blocks: "blocks sz xs \<Longrightarrow> drop (j * sz) (concat xs) = concat (drop j xs)"
proof (induction xs arbitrary: j)
  case (Cons x xs)
  then show ?case by (cases j) (auto simp: blocks_def)
qed simp

lemma elem_concat: "blocks sz xs \<Longrightarrow> j < length xs \<Longrightarrow> elem (concat xs) sz j = xs ! j"
  by (simp add: elem_def drop_concat_blocks Cons_nth_drop_Suc [symmetric])
    (simp add: blocks_def)

lemma blocks_split:
  assumes "Suc j < length xs"
  obtains as x y bs where "xs = as @ x # y # bs" "length as = j"
  using assms by (metis Cons_nth_drop_Suc Suc_lessD append_take_drop_id length_take min.absorb4)

lemma swap_bytes_concat:
  assumes "blocks sz xs" "Suc j < length xs"
  shows "swap_bytes (concat xs) (j * sz) (Suc j * sz) sz =
    concat (xs[j := xs ! Suc j, Suc j := xs ! j])"
proof -
  obtain as x y bs where xs: "xs = as @ x # y # bs" "length as = j"
    using assms(2) by (rule blocks_split)
  have l: "length x = sz" "length y = sz" "length (concat as) = j * sz"
    using assms(1) xs length_concat_blocks [of sz as] by (auto simp: blocks_def)
  have "swap_bytes (concat as @ x @ y @ concat bs) (j * sz) (Suc j * sz) sz =
      concat as @ y @ x @ concat bs"
    using swap_bytes_append [of x y "concat as" "[]" "concat bs"] l by (simp add: add.commute)
  then show ?thesis using xs by (simp add: nth_append list_update_append)
qed

lemma sift_concat:
  "blocks sz xs \<Longrightarrow> j < length xs \<Longrightarrow> qsort_sift cmp sz (concat xs) j = concat (sift cmp xs j)"
proof (induction j arbitrary: xs)
  case (Suc j)
  have "blocks sz (xs[j := xs ! Suc j, Suc j := xs ! j])"
    using Suc.prems by (auto simp: blocks_def in_set_conv_nth nth_list_update)
  with Suc show ?case
    by (simp add: elem_concat swap_bytes_concat [simplified] del: swap_bytes.simps)
qed simp

lemma length_sift [simp]: "length (sift cmp xs j) = length xs"
  by (induction cmp xs j rule: sift.induct) auto

lemma mset_sift: "j < length xs \<Longrightarrow> mset (sift cmp xs j) = mset xs"
  by (induction cmp xs j rule: sift.induct) (auto simp: mset_swap)

lemma mset_eq_blocks: "mset xs = mset ys \<Longrightarrow> blocks sz xs = blocks sz ys"
  by (metis blocks_def mset_eq_setD)

lemma qsort_eq_sort_elems:
  assumes "blocks sz xs"
  shows "qsort cmp (length xs) sz (concat xs) = concat (sort_elems cmp xs)"
proof -
  have "foldl (qsort_sift cmp sz) (concat xs) is = concat (foldl (sift cmp) xs is)"
    if "\<forall>i\<in>set is. i < length xs" for "is"
    using that assms
  proof (induction "is" arbitrary: xs)
    case (Cons i "is")
    then have "blocks sz (sift cmp xs i)" using mset_sift mset_eq_blocks by (metis list.set_intros(1))
    with Cons show ?case by (simp add: sift_concat)
  qed simp
  then show ?thesis by (simp add: qsort_def sort_elems_def)
qed

section \<open>Insertion\<close>

text \<open>\<open>place g as x\<close> puts \<open>x\<close> before the greatest suffix of \<open>as\<close> whose elements satisfy \<open>g\<close>.\<close>

definition place :: "('a \<Rightarrow> bool) \<Rightarrow> 'a list \<Rightarrow> 'a \<Rightarrow> 'a list" where
  "place g as x = rev (dropWhile g (rev as)) @ x # rev (takeWhile g (rev as))"

definition insertion_sort :: "('a \<Rightarrow> 'a \<Rightarrow> bool) \<Rightarrow> 'a list \<Rightarrow> 'a list" where
  "insertion_sort gt xs = foldl (\<lambda>as x. place (\<lambda>y. gt y x) as x) [] xs"

lemma length_place [simp]: "length (place g as x) = Suc (length as)"
proof -
  have "length (takeWhile g (rev as)) + length (dropWhile g (rev as)) = length as"
    by (metis length_append length_rev takeWhile_dropWhile_id)
  then show ?thesis by (simp add: place_def)
qed

lemma place_snoc: "place g (as @ [y]) x = (if g y then place g as x @ [y] else as @ [y, x])"
  by (simp add: place_def)

lemma place_split:
  obtains P Q where "as = P @ Q" "place g as x = P @ x # Q" "\<forall>y\<in>set Q. g y"
    "P = [] \<or> \<not> g (last P)"
proof
  let ?P = "rev (dropWhile g (rev as))" and ?Q = "rev (takeWhile g (rev as))"
  show "as = ?P @ ?Q" by (metis rev_append rev_rev_ident takeWhile_dropWhile_id)
  show "\<forall>y\<in>set ?Q. g y" by (auto dest: set_takeWhileD)
  show "?P = [] \<or> \<not> g (last ?P)" 
    using hd_dropWhile [of g "rev as"] by (auto simp: last_rev simp del: dropWhile_eq_Nil_conv)
qed (simp add: place_def)

lemma sift_place:
  "sift cmp (as @ x # rest) (length as) = place (\<lambda>y. 0 < cmp y x) as x @ rest"
proof (induction as arbitrary: rest rule: rev_induct)
  case (snoc y as)
  then show ?case by (simp add: place_snoc nth_append list_update_append)
qed (simp add: place_def)

lemma shift_up_place:
  "shift_up cmp (length lows) key (lows @ as @ s # rest) (length lows + length as) =
     lows @ place (\<lambda>y. cmp y key = 1) as key @ rest"
proof (induction as arbitrary: s rest rule: rev_induct)
  case Nil
  then show ?case by (cases "length lows") (simp_all add: place_def list_update_append)
next
  case (snoc y as)
  then show ?case by (simp add: place_snoc nth_append list_update_append)
qed

lemma length_insertion_sort [simp]: "length (insertion_sort gt xs) = length xs"
  by (induction xs rule: rev_induct) (simp_all add: insertion_sort_def)

lemma sort_elems_insertion: "sort_elems cmp xs = insertion_sort (\<lambda>y x. 0 < cmp y x) xs"
proof -
  have "foldl (sift cmp) xs [1..<Suc k] =
      insertion_sort (\<lambda>y x. 0 < cmp y x) (take (Suc k) xs) @ drop (Suc k) xs"
    if "k < length xs" for k
    using that
  proof (induction k)
    case 0
    then show ?case by (cases xs) (simp_all add: insertion_sort_def place_def)
  next
    case (Suc k)
    let ?s = "insertion_sort (\<lambda>y x. 0 < cmp y x) (take (Suc k) xs)"
    have "foldl (sift cmp) xs [1..<Suc (Suc k)] =
        sift cmp (?s @ xs ! Suc k # drop (Suc (Suc k)) xs) (length ?s)"
      using Suc by (simp add: Cons_nth_drop_Suc)
    then show ?case using Suc.prems
      by (simp only: sift_place take_Suc_conv_app_nth) (simp add: insertion_sort_def)
  qed
  from this [of "length xs - 1"] show ?thesis
    by (cases xs) (simp_all add: sort_elems_def insertion_sort_def)
qed

lemma CFArraySortValues_insertion:
  assumes "location + len \<le> length xs"
  shows "CFArraySortValues xs location len cmp = take location xs @
    insertion_sort (\<lambda>y x. cmp y x = 1) (take len (drop location xs)) @ drop (location + len) xs"
proof (cases "len = 0")
  case True
  then show ?thesis by (simp add: CFArraySortValues_def insertion_sort_def)
next
  case False
  let ?ins = "insertion_sort (\<lambda>y x. cmp y x = 1)" and ?lows = "take location xs"
  have l: "length ?lows = location" using assms by simp
  have "foldl (\<lambda>xs i. shift_up cmp location (xs ! i) xs i) xs [location + 1..<location + Suc k] =
      ?lows @ ?ins (take (Suc k) (drop location xs)) @ drop (location + Suc k) xs"
    if "k < len" for k
    using that
  proof (induction k)
    case 0
    then have "take (Suc 0) (drop location xs) = [xs ! location]"
      using assms by (simp add: take_Suc_conv_app_nth)
    then show ?case using 0 assms by (simp add: insertion_sort_def place_def id_take_nth_drop [symmetric])
  next
    case (Suc k)
    let ?s = "?ins (take (Suc k) (drop location xs))" and ?i = "location + Suc k"
    have ls: "length ?s = Suc k" using Suc.prems assms by simp
    have x: "drop ?i xs = xs ! ?i # drop (Suc ?i) xs"
      using Suc.prems assms by (intro Cons_nth_drop_Suc [symmetric]) simp
    have st: "shift_up cmp location (xs ! ?i) (?lows @ ?s @ xs ! ?i # drop (Suc ?i) xs) ?i =
        ?lows @ place (\<lambda>y. cmp y (xs ! ?i) = 1) ?s (xs ! ?i) @ drop (Suc ?i) xs"
      using shift_up_place [of cmp ?lows "xs ! ?i" ?s "xs ! ?i" "drop (Suc ?i) xs"]
      by (simp only: l ls)
    have n: "(?lows @ ?s @ xs ! ?i # drop (Suc ?i) xs) ! ?i = xs ! ?i"
      using l ls by (simp add: nth_append)
    have t: "take (Suc (Suc k)) (drop location xs) = take (Suc k) (drop location xs) @ [xs ! ?i]"
      using Suc.prems assms by (simp add: take_Suc_conv_app_nth)
    have u: "[location + 1..<location + Suc (Suc k)] = [location + 1..<?i] @ [?i]" by simp
    have "foldl (\<lambda>xs i. shift_up cmp location (xs ! i) xs i) xs [location + 1..<?i] =
        ?lows @ ?s @ xs ! ?i # drop (Suc ?i) xs"
      using Suc.IH Suc.prems x by simp
    then show ?case
      by (simp only: u foldl_append foldl.simps n st t) (simp add: insertion_sort_def)
  qed
  from this [of "len - 1"] False show ?thesis by (simp add: CFArraySortValues_def)
qed

section \<open>Comparison functions\<close>

locale comparison =
  fixes A :: "'a set" and cmp :: "'a \<Rightarrow> 'a \<Rightarrow> int"
  assumes swap: "x \<in> A \<Longrightarrow> y \<in> A \<Longrightarrow> 0 < cmp x y \<longleftrightarrow> cmp y x < 0"
    and trans: "x \<in> A \<Longrightarrow> y \<in> A \<Longrightarrow> z \<in> A \<Longrightarrow> cmp x y \<le> 0 \<Longrightarrow> cmp y z \<le> 0 \<Longrightarrow> cmp x z \<le> 0"
begin

lemma equal_swap: "x \<in> A \<Longrightarrow> y \<in> A \<Longrightarrow> cmp x y = 0 \<Longrightarrow> cmp y x = 0"
  using swap [of x y] swap [of y x] by linarith

lemma refl: "x \<in> A \<Longrightarrow> cmp x x = 0"
  using swap [of x x] by linarith

lemma place_sorted:
  assumes "set as \<subseteq> A" "x \<in> A" "sorted_wrt (\<lambda>a b. cmp a b \<le> 0) as"
  shows "sorted_wrt (\<lambda>a b. cmp a b \<le> 0) (place (\<lambda>y. 0 < cmp y x) as x)"
proof -
  obtain P Q where pq: "as = P @ Q" "place (\<lambda>y. 0 < cmp y x) as x = P @ x # Q"
    "\<forall>y\<in>set Q. 0 < cmp y x" "P = [] \<or> \<not> 0 < cmp (last P) x"
    by (rule place_split)
  have "cmp y x \<le> 0" if "y \<in> set P" for y
  proof -
    from that have P: "P = butlast P @ [last P]" by (cases P) auto
    have "sorted_wrt (\<lambda>a b. cmp a b \<le> 0) (butlast P @ [last P])"
      using assms(3) pq(1) P by (metis sorted_wrt_append)
    then have "\<forall>v\<in>set (butlast P). cmp v (last P) \<le> 0" by (simp add: sorted_wrt_append)
    moreover from that have "y \<in> set (butlast P) \<or> y = last P"
      by (subst (asm) P) auto
    ultimately have "y = last P \<or> cmp y (last P) \<le> 0" by auto
    moreover have "last P \<in> A" "y \<in> A" "cmp (last P) x \<le> 0"
      using that pq assms(1) P by (auto intro: last_in_set)
    ultimately show ?thesis using trans assms(2) by blast
  qed
  moreover have "cmp x y \<le> 0" if "y \<in> set Q" for y
    using that pq(1,3) assms(1,2) swap [of y x] by auto
  ultimately show ?thesis using assms(3) pq(1,2) by (auto simp: sorted_wrt_append)
qed

lemma place_stable:
  assumes "set as \<subseteq> A" "x \<in> A" "z \<in> A"
  shows "filter (\<lambda>y. cmp z y = 0) (place (\<lambda>y. 0 < cmp y x) as x) =
    filter (\<lambda>y. cmp z y = 0) (as @ [x])"
proof -
  obtain P Q where pq: "as = P @ Q" "place (\<lambda>y. 0 < cmp y x) as x = P @ x # Q"
    "\<forall>y\<in>set Q. 0 < cmp y x" by (rule place_split)
  have "filter (\<lambda>y. cmp z y = 0) Q = []" if "cmp z x = 0"
  proof -
    have "cmp y x \<le> 0" if "y \<in> set Q" "cmp z y = 0" for y
      using that \<open>cmp z x = 0\<close> trans [of y z x] equal_swap [of z y] assms pq(1) by auto
    with pq(3) show ?thesis by (fastforce simp: filter_empty_conv)
  qed
  then show ?thesis using pq by auto
qed

lemma place_mset: "mset (place g as x) = mset as + {#x#}"
proof -
  obtain P Q where "as = P @ Q" "place g as x = P @ x # Q" by (rule place_split)
  then show ?thesis by simp
qed

lemma insertion_sort_correct:
  assumes "set xs \<subseteq> A"
  defines "ys \<equiv> insertion_sort (\<lambda>y x. 0 < cmp y x) xs"
  shows "mset ys = mset xs" "sorted_wrt (\<lambda>a b. cmp a b \<le> 0) ys"
    "filter (\<lambda>y. z \<in> A \<and> cmp z y = 0) ys = filter (\<lambda>y. z \<in> A \<and> cmp z y = 0) xs"
proof -
  have "mset ys = mset xs \<and> sorted_wrt (\<lambda>a b. cmp a b \<le> 0) ys \<and>
    (z \<in> A \<longrightarrow> filter (\<lambda>y. cmp z y = 0) ys = filter (\<lambda>y. cmp z y = 0) xs)"
    using assms(1) unfolding ys_def
  proof (induction xs rule: rev_induct)
    case (snoc x xs)
    let ?s = "insertion_sort (\<lambda>y x. 0 < cmp y x) xs"
    have e: "insertion_sort (\<lambda>y x. 0 < cmp y x) (xs @ [x]) = place (\<lambda>y. 0 < cmp y x) ?s x"
      by (simp add: insertion_sort_def)
    from snoc have IH: "mset ?s = mset xs" "sorted_wrt (\<lambda>a b. cmp a b \<le> 0) ?s"
      "z \<in> A \<longrightarrow> filter (\<lambda>y. cmp z y = 0) ?s = filter (\<lambda>y. cmp z y = 0) xs" by auto
    then have "set ?s \<subseteq> A" "x \<in> A" using snoc.prems mset_eq_setD [OF IH(1)] by auto
    with IH show ?case by (simp add: e place_mset place_sorted place_stable)
  qed (simp add: insertion_sort_def)
  then show "mset ys = mset xs" "sorted_wrt (\<lambda>a b. cmp a b \<le> 0) ys"
    "filter (\<lambda>y. z \<in> A \<and> cmp z y = 0) ys = filter (\<lambda>y. z \<in> A \<and> cmp z y = 0) xs"
    by (cases "z \<in> A"; auto)+
qed

end

text \<open>\<open>strcmp\<close> keeps the contract.\<close>

interpretation str: comparison "{s. is_cstr s}" strcmp
proof
  fix x y :: cstr
  show "0 < strcmp x y \<longleftrightarrow> strcmp y x < 0" using strcmp_antisym [of y x] by linarith
next
  fix x y z :: cstr
  assume "x \<in> {s. is_cstr s}" "y \<in> {s. is_cstr s}" "z \<in> {s. is_cstr s}"
    "strcmp x y \<le> 0" "strcmp y z \<le> 0"
  then show "strcmp x z \<le> 0" using strcmp_trans [of x y z] by simp
qed

lemma bsearch_loop_correct:
  assumes "\<And>i j. i < j \<Longrightarrow> j < length xs \<Longrightarrow>
    (cmp key (xs ! i) < 0 \<longrightarrow> cmp key (xs ! j) < 0) \<and> (0 < cmp key (xs ! j) \<longrightarrow> 0 < cmp key (xs ! i))"
  shows "hi \<le> length xs \<Longrightarrow> \<forall>i<lo. 0 < cmp key (xs ! i) \<Longrightarrow>
    \<forall>i<length xs. hi \<le> i \<longrightarrow> cmp key (xs ! i) < 0 \<Longrightarrow>
    (case bsearch_loop cmp key xs lo hi of
       Some i \<Rightarrow> i < length xs \<and> cmp key (xs ! i) = 0
     | None \<Rightarrow> \<forall>i<length xs. cmp key (xs ! i) \<noteq> 0)"
proof (induction "hi - lo" arbitrary: lo hi rule: less_induct)
  case less
  show ?case
  proof (cases "lo < hi")
    case False
    then have "\<forall>i<length xs. cmp key (xs ! i) \<noteq> 0"
      using less.prems by (metis less_irrefl not_le order_less_le_trans)
    with False show ?thesis by (subst bsearch_loop.simps) simp
  next
    case True
    let ?mid = "lo + (hi - lo) div 2"
    have mid: "lo \<le> ?mid" "?mid < hi" using True by auto
    consider "cmp key (xs ! ?mid) = 0" | "cmp key (xs ! ?mid) < 0" | "0 < cmp key (xs ! ?mid)"
      by linarith
    then show ?thesis
    proof cases
      case 1
      with True mid less.prems show ?thesis by (subst bsearch_loop.simps) (simp add: Let_def)
    next
      case 2
      then have "\<forall>i<length xs. ?mid \<le> i \<longrightarrow> cmp key (xs ! i) < 0"
        using assms mid by (metis le_neq_implies_less)
      with less.hyps [of ?mid lo] less.prems mid True 2 show ?thesis
        by (subst bsearch_loop.simps) (simp add: Let_def)
    next
      case 3
      then have "\<forall>i<?mid + 1. 0 < cmp key (xs ! i)"
        using assms [of _ ?mid] mid less.prems(1) by (metis add.commute less_antisym order_less_le_trans plus_1_eq_Suc)
      then have "case bsearch_loop cmp key xs (?mid + 1) hi of
          Some i \<Rightarrow> i < length xs \<and> cmp key (xs ! i) = 0
        | None \<Rightarrow> \<forall>i<length xs. cmp key (xs ! i) \<noteq> 0"
        using less.prems mid True by (intro less.hyps) auto
      with True 3 show ?thesis
        by (subst bsearch_loop.simps) (simp add: Let_def)
    qed
  qed
qed

section \<open>Properties\<close>

text \<open>C13 \<open>qsort\<close> is a stable sort: with a comparison function that keeps its contract it
  rearranges the elements of the array in ascending order, and elements that compare equal
  stay in their order.\<close>

theorem qsort_correct:
  assumes "comparison A cmp" "blocks sz xs" "set xs \<subseteq> A"
  shows "\<exists>ys. qsort cmp (length xs) sz (concat xs) = concat ys \<and> mset ys = mset xs \<and>
    sorted_wrt (\<lambda>a b. cmp a b \<le> 0) ys \<and>
    (\<forall>z. filter (\<lambda>y. z \<in> A \<and> cmp z y = 0) ys = filter (\<lambda>y. z \<in> A \<and> cmp z y = 0) xs)"
  using comparison.insertion_sort_correct [OF assms(1,3)]
  by (auto simp: qsort_eq_sort_elems [OF assms(2)] sort_elems_insertion)

definition by_first :: "u8 list \<Rightarrow> u8 list \<Rightarrow> int" where
  "by_first a b = uint (hd0 a) - uint (hd0 b)"

lemma comparison_by_first: "comparison UNIV by_first"
  by unfold_locales (auto simp: by_first_def)

theorem qsort_correct_witness:
  "\<exists>ys. qsort by_first (length [[3 :: u8, 0], [1, 0], [3, 1]]) 2 (concat [[3, 0], [1, 0], [3, 1]]) =
     concat ys \<and> mset ys = mset [[3, 0], [1, 0], [3, 1]] \<and>
    sorted_wrt (\<lambda>a b. by_first a b \<le> 0) ys \<and>
    (\<forall>z. filter (\<lambda>y. z \<in> UNIV \<and> by_first z y = 0) ys =
       filter (\<lambda>y. z \<in> UNIV \<and> by_first z y = 0) [[3, 0], [1, 0], [3, 1]])"
  by (rule qsort_correct [OF comparison_by_first]) (simp_all add: blocks_def)

text \<open>\<open>CFArraySortValues\<close> is a stable sort of the given range and leaves the values outside
  it alone.\<close>

theorem CFArraySortValues_correct:
  assumes "comparison A cmp" "\<forall>x y. cmp x y \<in> {-1, 0, 1}" "location + len \<le> length xs"
    "set xs \<subseteq> A"
  shows "\<exists>ys. CFArraySortValues xs location len cmp = take location xs @ ys @ drop (location + len) xs \<and>
    mset ys = mset (take len (drop location xs)) \<and> sorted_wrt (\<lambda>a b. cmp a b \<le> 0) ys \<and>
    (\<forall>z. filter (\<lambda>y. z \<in> A \<and> cmp z y = 0) ys =
       filter (\<lambda>y. z \<in> A \<and> cmp z y = 0) (take len (drop location xs)))"
proof -
  have "(\<lambda>y x. cmp y x = 1) = (\<lambda>y x. 0 < cmp y x)"
  proof (intro ext)
    fix y x show "(cmp y x = 1) = (0 < cmp y x)" using assms(2) [rule_format, of y x] by auto
  qed
  moreover have "set (take len (drop location xs)) \<subseteq> A"
    using assms(4) set_take_subset set_drop_subset by fast
  ultimately show ?thesis
    using comparison.insertion_sort_correct [OF assms(1)] CFArraySortValues_insertion [OF assms(3), of cmp]
    by auto
qed

definition compare_int :: "int \<Rightarrow> int \<Rightarrow> int" where
  "compare_int a b = (if a < b then -1 else if b < a then 1 else 0)"

theorem CFArraySortValues_witness:
  "\<exists>ys. CFArraySortValues [9, 3, 1, 2, 0] 1 3 compare_int =
      take 1 [9, 3, 1, 2, 0] @ ys @ drop (1 + 3) [9, 3, 1, 2, 0] \<and>
    mset ys = mset (take 3 (drop 1 [9, 3, 1, 2, 0])) \<and>
    sorted_wrt (\<lambda>a b. compare_int a b \<le> 0) ys \<and>
    (\<forall>z. filter (\<lambda>y. z \<in> UNIV \<and> compare_int z y = 0) ys =
       filter (\<lambda>y. z \<in> UNIV \<and> compare_int z y = 0) (take 3 (drop 1 [9, 3, 1, 2, 0])))"
proof (rule CFArraySortValues_correct)
  show "comparison UNIV compare_int" by unfold_locales (auto simp: compare_int_def split: if_splits)
qed (auto simp: compare_int_def)

text \<open>\<open>bsearch\<close> finds an element that compares equal to the key exactly when there is one,
  in an array that is ordered around the key.\<close>

theorem bsearch_correct:
  assumes "\<And>i j. i < j \<Longrightarrow> j < length xs \<Longrightarrow>
    (cmp key (xs ! i) < 0 \<longrightarrow> cmp key (xs ! j) < 0) \<and> (0 < cmp key (xs ! j) \<longrightarrow> 0 < cmp key (xs ! i))"
  shows "case bsearch cmp key xs of
      Some i \<Rightarrow> i < length xs \<and> cmp key (xs ! i) = 0
    | None \<Rightarrow> 0 \<notin> cmp key ` set xs"
proof -
  have "case bsearch_loop cmp key xs 0 (length xs) of
      Some i \<Rightarrow> i < length xs \<and> cmp key (xs ! i) = 0
    | None \<Rightarrow> \<forall>i<length xs. cmp key (xs ! i) \<noteq> 0"
    using assms by (intro bsearch_loop_correct) auto
  then show ?thesis
    by (auto simp: bsearch_def in_set_conv_nth image_iff split: option.splits)
qed

theorem bsearch_correct_witness:
  "case bsearch compare_int 3 [1, 3, 5] of
      Some i \<Rightarrow> i < length [1, 3, 5 :: int] \<and> compare_int 3 ([1, 3, 5] ! i) = 0
    | None \<Rightarrow> 0 \<notin> compare_int 3 ` set [1, 3, 5]"
  by (rule bsearch_correct) (auto simp: compare_int_def less_Suc_eq numeral_eq_Suc)

end
