(* ===== verification/Launchd.thy ===== *)
theory Launchd
  imports Plist Sort
begin

text \<open>
  \<open>userland/launchd/launchd.c\<close>: process 1.  The state is the table of daemons, together with
  what the kernel contributes: the monotonic clock, the results that the next calls of \<open>fork\<close>
  will have (each with the milliseconds that pass until the clock is read again), and the log
  of the system calls made so far, newest first.  A call that holds the lock of the table for
  its whole body is one step; the functions of the control interface and one round of the
  reaping loop are the steps of \<open>launchd_step\<close>.

  The invariants show that the table and the kernel agree on which processes run, that an
  unloaded entry never changes again, and that no daemon is started twice within the throttle
  interval.
\<close>

section \<open>The state\<close>

record daemon =
  d_cfg :: daemon_config
  d_pid :: int
  d_last_spawn_ms :: int
  d_unloaded :: bool

text \<open>\<open>Forked i t p\<close>: entry \<open>i\<close> was started as process \<open>p\<close> at time \<open>t\<close>.\<close>

datatype action = Forked nat int int | Reaped int | Killed int | RevealConsole | Halted

record launchd =
  daemons :: "daemon list"
  clock :: int
  forks :: "(int \<times> nat) list"
  acts :: "action list"

definition max_daemons :: nat where "max_daemons = 64"

definition respawn_throttle_ms :: int where "respawn_throttle_ms = 500"

definition act :: "action \<Rightarrow> launchd \<Rightarrow> launchd" where
  "act a s = s\<lparr>acts := a # acts s\<rparr>"

definition set_daemon :: "nat \<Rightarrow> daemon \<Rightarrow> launchd \<Rightarrow> launchd" where
  "set_daemon i d s = s\<lparr>daemons := (daemons s)[i := d]\<rparr>"

section \<open>The operations\<close>

text \<open>The index of the first entry that is not unloaded and satisfies \<open>P\<close>.\<close>

fun find_loaded_from :: "nat \<Rightarrow> (daemon \<Rightarrow> bool) \<Rightarrow> daemon list \<Rightarrow> nat option" where
  "find_loaded_from i P [] = None"
| "find_loaded_from i P (d # ds) =
     (if \<not> d_unloaded d \<and> P d then Some i else find_loaded_from (Suc i) P ds)"

definition find_by_pid :: "launchd \<Rightarrow> int \<Rightarrow> nat option" where
  "find_by_pid s pid = find_loaded_from 0 (\<lambda>d. d_pid d = pid) (daemons s)"

definition find_by_label :: "launchd \<Rightarrow> cstr \<Rightarrow> nat option" where
  "find_by_label s label = find_loaded_from 0 (\<lambda>d. strcmp (dc_label (d_cfg d)) label = 0) (daemons s)"

definition running_count :: "launchd \<Rightarrow> nat" where
  "running_count s = length (filter (\<lambda>d. \<not> d_unloaded d \<and> 0 < d_pid d) (daemons s))"

text \<open>A script of \<open>fork\<close> results that has run out stands for a \<open>fork\<close> that fails.\<close>

definition spawn_daemon :: "nat \<Rightarrow> launchd \<Rightarrow> launchd" where
  "spawn_daemon i s =
     (let d = daemons s ! i;
          t = (if d_last_spawn_ms d \<noteq> 0
               then max (clock s) (d_last_spawn_ms d + respawn_throttle_ms) else clock s) in
      case forks s of
        [] \<Rightarrow> s\<lparr>clock := t\<rparr>
      | (pid, dt) # fs \<Rightarrow>
          if pid < 0 then s\<lparr>clock := t, forks := fs\<rparr>
          else s\<lparr>daemons := (daemons s)[i := d\<lparr>d_pid := pid, d_last_spawn_ms := t + int dt\<rparr>],
                 clock := t + int dt, forks := fs, acts := Forked i t pid # acts s\<rparr>)"

text \<open>The file system is an argument: the text of each file that can be opened.\<close>

definition read_plist :: "(cstr \<Rightarrow> cstr option) \<Rightarrow> cstr \<Rightarrow> daemon_config option" where
  "read_plist files path =
     (case files path of
        None \<Rightarrow> None
      | Some text \<Rightarrow> (case plist_parse_daemon text of None \<Rightarrow> None | Some r \<Rightarrow> r))"

definition is_plist_name :: "cstr \<Rightarrow> bool" where
  "is_plist_name name \<longleftrightarrow>
     7 \<le> length name \<and> strcmp (drop (length name - 6) name) (cs ''.plist'') = 0"

definition daemon_path :: "cstr \<Rightarrow> cstr" where
  "daemon_path name = take 255 (cs ''/etc/launchd/daemons/'' @ name)"

fun load_names :: "(cstr \<Rightarrow> cstr option) \<Rightarrow> cstr list \<Rightarrow> launchd \<Rightarrow> launchd" where
  "load_names files [] s = s"
| "load_names files (name # names) s =
     (if max_daemons \<le> length (daemons s) then load_names files names s
      else case read_plist files (daemon_path name) of
             None \<Rightarrow> load_names files names s
           | Some cfg \<Rightarrow> load_names files names
               (s\<lparr>daemons := daemons s @
                  [\<lparr>d_cfg = cfg, d_pid = 0, d_last_spawn_ms = 0, d_unloaded = False\<rparr>]\<rparr>))"

definition load_all_daemons :: "(cstr \<Rightarrow> cstr option) \<Rightarrow> cstr list option \<Rightarrow> launchd \<Rightarrow> launchd" where
  "load_all_daemons files dir s =
     (case dir of
        None \<Rightarrow> s
      | Some entries \<Rightarrow>
          load_names files (sort_elems strcmp (take max_daemons (filter is_plist_name entries))) s)"

definition start_one :: "launchd \<Rightarrow> nat \<Rightarrow> launchd" where
  "start_one s i =
     (let cfg = d_cfg (daemons s ! i) in
      if dc_run_at_load cfg then
        spawn_daemon i
          (if strcmp (dc_label cfg) (cs ''com.asteros.shell'') = 0 then act RevealConsole s else s)
      else s)"

definition start_runatload_daemons :: "launchd \<Rightarrow> launchd" where
  "start_runatload_daemons s = foldl start_one s [0..<length (daemons s)]"

definition boot :: "(cstr \<Rightarrow> cstr option) \<Rightarrow> cstr list option \<Rightarrow> launchd \<Rightarrow> launchd" where
  "boot files dir s = start_runatload_daemons (load_all_daemons files dir s)"

subsection \<open>The control interface\<close>

record lc_job_info =
  ji_label :: cstr
  ji_pid :: int
  ji_keep_alive :: bool
  ji_run_at_load :: bool

definition lc_max_list :: nat where "lc_max_list = 64"

definition lc_list :: "launchd \<Rightarrow> nat \<Rightarrow> lc_job_info list" where
  "lc_list s mx =
     take (min mx lc_max_list)
       (map (\<lambda>d. \<lparr>ji_label = take 127 (dc_label (d_cfg d)), ji_pid = d_pid d,
                   ji_keep_alive = dc_keep_alive (d_cfg d),
                   ji_run_at_load = dc_run_at_load (d_cfg d)\<rparr>)
         (filter (\<lambda>d. \<not> d_unloaded d) (daemons s)))"

definition lc_start :: "cstr \<Rightarrow> launchd \<Rightarrow> int \<times> launchd" where
  "lc_start label s =
     (case find_by_label s label of
        None \<Rightarrow> (-1, s)
      | Some i \<Rightarrow> if 0 < d_pid (daemons s ! i) then (-2, s) else (0, spawn_daemon i s))"

definition lc_stop :: "cstr \<Rightarrow> launchd \<Rightarrow> int \<times> launchd" where
  "lc_stop label s =
     (case find_by_label s label of
        None \<Rightarrow> (-1, s)
      | Some i \<Rightarrow>
          if d_pid (daemons s ! i) \<le> 0 then (-2, s)
          else (0, act (Killed (d_pid (daemons s ! i))) s))"

text \<open>The label is written to the caller's buffer of \<open>label_sz\<close> bytes.\<close>

definition lc_load ::
  "(cstr \<Rightarrow> cstr option) \<Rightarrow> cstr \<Rightarrow> nat \<Rightarrow> launchd \<Rightarrow> int \<times> cstr option \<times> launchd" where
  "lc_load files path label_sz s =
     (case read_plist files path of
        None \<Rightarrow> (-1, None, s)
      | Some cfg \<Rightarrow>
          if find_by_label s (dc_label cfg) \<noteq> None then (-2, None, s)
          else if max_daemons \<le> length (daemons s) then (-3, None, s)
          else
            let i = length (daemons s);
                s1 = s\<lparr>daemons := daemons s @
                  [\<lparr>d_cfg = cfg, d_pid = 0, d_last_spawn_ms = 0, d_unloaded = False\<rparr>]\<rparr> in
            (0, Some (take (label_sz - 1) (dc_label cfg)),
             if dc_run_at_load cfg then spawn_daemon i s1 else s1))"

definition lc_unload :: "cstr \<Rightarrow> launchd \<Rightarrow> int \<times> launchd" where
  "lc_unload label s =
     (case find_by_label s label of
        None \<Rightarrow> (-1, s)
      | Some i \<Rightarrow>
          let d = daemons s ! i; s1 = set_daemon i (d\<lparr>d_unloaded := True\<rparr>) s in
          (0, if 0 < d_pid d then act (Killed (d_pid d)) s1 else s1))"

subsection \<open>The reaping loop and the shutdown\<close>

text \<open>Both reaping loops look the process up and clear its entry.\<close>

definition clear_pid :: "int \<Rightarrow> launchd \<Rightarrow> launchd" where
  "clear_pid pid s =
     (case find_by_pid s pid of
        None \<Rightarrow> s
      | Some i \<Rightarrow> set_daemon i ((daemons s ! i)\<lparr>d_pid := 0\<rparr>) s)"

text \<open>The round of the main loop in which \<open>wait4\<close> answered \<open>pid\<close>.\<close>

definition main_reap :: "int \<Rightarrow> launchd \<Rightarrow> launchd" where
  "main_reap pid s =
     (let s1 = act (Reaped pid) s; s2 = clear_pid pid s1 in
      case find_by_pid s1 pid of
        None \<Rightarrow> s2
      | Some i \<Rightarrow> if dc_keep_alive (d_cfg (daemons s2 ! i)) then spawn_daemon i s2 else s2)"

text \<open>\<open>waits\<close> are the answers of \<open>wait4\<close> until the alarm; the list ends where it fires.\<close>

fun drain :: "int list \<Rightarrow> launchd \<Rightarrow> launchd" where
  "drain [] s = s"
| "drain (pid # waits) s =
     (if 0 < running_count s then
        if pid \<le> 0 then s
        else drain waits (clear_pid pid (act (Reaped pid) s))
      else s)"

definition signal_all :: "launchd \<Rightarrow> launchd" where
  "signal_all s =
     foldl (\<lambda>s d. if 0 < d_pid d then act (Killed (d_pid d)) s else s) s (daemons s)"

definition do_shutdown :: "int list \<Rightarrow> launchd \<Rightarrow> launchd" where
  "do_shutdown waits s = act Halted (drain waits (signal_all s))"

section \<open>The processes the kernel knows\<close>

text \<open>The children that were started and not yet reaped, each with its entry.\<close>

primrec children :: "action list \<Rightarrow> int \<Rightarrow> nat option" where
  "children [] = (\<lambda>_. None)"
| "children (a # as) =
     (case a of
        Forked i t p \<Rightarrow> (children as)(p := Some i)
      | Reaped p \<Rightarrow> (children as)(p := None)
      | _ \<Rightarrow> children as)"

text \<open>The kernel never gives a child the number of another child that was not reaped.\<close>

definition forks_ok :: "action list \<Rightarrow> (int \<times> nat) list \<Rightarrow> bool" where
  "forks_ok as fs \<longleftrightarrow>
     (\<forall>(p, dt)\<in>set fs. p < 0 \<or> 0 < p \<and> children as p = None) \<and>
     distinct (filter (\<lambda>p. 0 < p) (map fst fs))"

inductive launchd_step :: "(cstr \<Rightarrow> cstr option) \<Rightarrow> launchd \<Rightarrow> launchd \<Rightarrow> bool"
  for files :: "cstr \<Rightarrow> cstr option" where
  time: "launchd_step files s (s\<lparr>clock := clock s + int n\<rparr>)"
| kernel: "forks_ok (acts s) fs \<Longrightarrow> launchd_step files s (s\<lparr>forks := fs\<rparr>)"
| reap: "0 < pid \<Longrightarrow> launchd_step files s (main_reap pid s)"
| start: "launchd_step files s (snd (lc_start label s))"
| stop: "launchd_step files s (snd (lc_stop label s))"
| load: "launchd_step files s (snd (snd (lc_load files path n s)))"
| unload: "launchd_step files s (snd (lc_unload label s))"

inductive_cases launchd_stepE: "launchd_step files s s'"

abbreviation launchd_steps :: "(cstr \<Rightarrow> cstr option) \<Rightarrow> launchd \<Rightarrow> launchd \<Rightarrow> bool" where
  "launchd_steps files \<equiv> rtranclp (launchd_step files)"

section \<open>The table and the kernel agree\<close>

definition table_ok :: "launchd \<Rightarrow> bool" where
  "table_ok s \<longleftrightarrow>
     length (daemons s) \<le> max_daemons \<and>
     (\<forall>i<length (daemons s). 0 \<le> d_pid (daemons s ! i)) \<and>
     (\<forall>i<length (daemons s). \<not> d_unloaded (daemons s ! i) \<longrightarrow> 0 < d_pid (daemons s ! i) \<longrightarrow>
        children (acts s) (d_pid (daemons s ! i)) = Some i) \<and>
     (\<forall>p i. children (acts s) p = Some i \<longrightarrow>
        i < length (daemons s) \<and> 0 < p \<and>
        (\<not> d_unloaded (daemons s ! i) \<longrightarrow> d_pid (daemons s ! i) = p)) \<and>
     forks_ok (acts s) (forks s)"

lemma forks_ok_Nil [simp]: "forks_ok as []"
  by (simp add: forks_ok_def)

lemma forks_ok_Cons:
  "forks_ok as ((p, dt) # fs) \<Longrightarrow> forks_ok as fs \<and> (p < 0 \<or> 0 < p \<and> children as p = None)"
  by (auto simp: forks_ok_def)

lemma forks_ok_Forked:
  "forks_ok as ((p, dt) # fs) \<Longrightarrow> 0 < p \<Longrightarrow> forks_ok (Forked i t p # as) fs"
  by (force simp: forks_ok_def)

lemma forks_ok_Reaped: "forks_ok as fs \<Longrightarrow> forks_ok (Reaped p # as) fs"
  by (auto simp: forks_ok_def)

lemma find_loaded_from_Some:
  "find_loaded_from i P ds = Some k \<Longrightarrow>
     i \<le> k \<and> k < i + length ds \<and> \<not> d_unloaded (ds ! (k - i)) \<and> P (ds ! (k - i))"
proof (induction ds arbitrary: i)
  case (Cons d ds)
  show ?case
  proof (cases "\<not> d_unloaded d \<and> P d")
    case False
    with Cons have "Suc i \<le> k \<and> k < Suc i + length ds \<and> \<not> d_unloaded (ds ! (k - Suc i)) \<and>
      P (ds ! (k - Suc i))" by (intro Cons.IH) simp
    moreover from this have "k - i = Suc (k - Suc i)" by arith
    ultimately show ?thesis by auto
  qed (use Cons.prems in auto)
qed simp

lemma find_loaded_from_None:
  "find_loaded_from i P ds = None \<longleftrightarrow> (\<forall>d\<in>set ds. d_unloaded d \<or> \<not> P d)"
  by (induction ds arbitrary: i) auto

lemma find_by_pid_Some:
  "find_by_pid s pid = Some i \<Longrightarrow>
     i < length (daemons s) \<and> \<not> d_unloaded (daemons s ! i) \<and> d_pid (daemons s ! i) = pid"
  by (auto simp: find_by_pid_def dest: find_loaded_from_Some)

lemma find_by_pid_None:
  "find_by_pid s pid = None \<Longrightarrow> i < length (daemons s) \<Longrightarrow> \<not> d_unloaded (daemons s ! i) \<Longrightarrow>
     d_pid (daemons s ! i) \<noteq> pid"
  by (auto simp: find_by_pid_def find_loaded_from_None)

lemma find_by_label_Some:
  "find_by_label s l = Some i \<Longrightarrow>
     i < length (daemons s) \<and> \<not> d_unloaded (daemons s ! i) \<and>
     strcmp (dc_label (d_cfg (daemons s ! i))) l = 0"
  by (auto simp: find_by_label_def dest: find_loaded_from_Some)

lemma find_by_label_None:
  "find_by_label s l = None \<longleftrightarrow>
     (\<forall>d\<in>set (daemons s). d_unloaded d \<or> strcmp (dc_label (d_cfg d)) l \<noteq> 0)"
  by (auto simp: find_by_label_def find_loaded_from_None)

lemma spawn_cases:
  obtains (failed) c fs where "spawn_daemon i s = s\<lparr>clock := c, forks := fs\<rparr>"
      "clock s \<le> c" "forks s = fs \<or> (\<exists>x. forks s = x # fs)"
  | (started) t p dt fs where "forks s = (p, dt) # fs" "0 \<le> p" "clock s \<le> t"
      "d_last_spawn_ms (daemons s ! i) \<noteq> 0 \<Longrightarrow>
         d_last_spawn_ms (daemons s ! i) + respawn_throttle_ms \<le> t"
      "spawn_daemon i s = s\<lparr>daemons := (daemons s)[i := (daemons s ! i)\<lparr>d_pid := p,
         d_last_spawn_ms := t + int dt\<rparr>], clock := t + int dt, forks := fs,
         acts := Forked i t p # acts s\<rparr>"
proof (cases "forks s")
  case Nil
  then show ?thesis
    by (intro failed [where fs = "[]" and c = "if d_last_spawn_ms (daemons s ! i) \<noteq> 0 then
          max (clock s) (d_last_spawn_ms (daemons s ! i) + respawn_throttle_ms) else clock s"])
      (cases s, simp_all add: spawn_daemon_def Let_def)
next
  case (Cons x fs)
  then obtain p dt where f: "forks s = (p, dt) # fs" by (cases x) auto
  show ?thesis
  proof (cases "p < 0")
    case True
    with f show ?thesis
      by (intro failed [where fs = fs and c = "if d_last_spawn_ms (daemons s ! i) \<noteq> 0 then
            max (clock s) (d_last_spawn_ms (daemons s ! i) + respawn_throttle_ms) else clock s"])
        (simp_all add: spawn_daemon_def Let_def)
  next
    case False
    with f show ?thesis by (intro started [where p = p and dt = dt and fs = fs]) (simp_all add: spawn_daemon_def Let_def)
  qed
qed

text \<open>The invariant without the arrays: what a change of one entry has to show.\<close>

lemma table_okI:
  assumes "length ds \<le> max_daemons"
    and "\<And>i. i < length ds \<Longrightarrow> 0 \<le> d_pid (ds ! i)"
    and "\<And>i. i < length ds \<Longrightarrow> \<not> d_unloaded (ds ! i) \<Longrightarrow> 0 < d_pid (ds ! i) \<Longrightarrow>
      children as (d_pid (ds ! i)) = Some i"
    and "\<And>p i. children as p = Some i \<Longrightarrow> i < length ds \<and> 0 < p"
    and "\<And>p i. children as p = Some i \<Longrightarrow> \<not> d_unloaded (ds ! i) \<Longrightarrow> d_pid (ds ! i) = p"
    and "forks_ok as fs"
  shows "table_ok (s\<lparr>daemons := ds, clock := c, forks := fs, acts := as\<rparr>)"
  using assms by (simp add: table_ok_def)

lemma table_okD:
  assumes "table_ok s"
  shows "length (daemons s) \<le> max_daemons"
    and "i < length (daemons s) \<Longrightarrow> 0 \<le> d_pid (daemons s ! i)"
    and "i < length (daemons s) \<Longrightarrow> \<not> d_unloaded (daemons s ! i) \<Longrightarrow> 0 < d_pid (daemons s ! i) \<Longrightarrow>
      children (acts s) (d_pid (daemons s ! i)) = Some i"
    and "children (acts s) p = Some i \<Longrightarrow> i < length (daemons s) \<and> 0 < p"
    and "children (acts s) p = Some i \<Longrightarrow> \<not> d_unloaded (daemons s ! i) \<Longrightarrow> d_pid (daemons s ! i) = p"
    and "forks_ok (acts s) (forks s)"
  using assms by (auto simp: table_ok_def)

lemma spawn_table_ok:
  assumes ok: "table_ok s" and i: "i < length (daemons s)" and z: "d_pid (daemons s ! i) = 0"
  shows "table_ok (spawn_daemon i s)"
proof (cases rule: spawn_cases [of i s])
  case (failed c fs)
  then have "forks_ok (acts s) fs" using ok forks_ok_Cons by (fastforce simp: table_ok_def)
  with failed ok show ?thesis by (simp add: table_ok_def)
next
  case (started t p dt fs)
  note D = table_okD [OF ok]
  have f: "forks_ok (acts s) ((p, dt) # fs)" using D(6) started by simp
  then have p: "0 < p" "children (acts s) p = None" using forks_ok_Cons started(2) by fastforce+
  show ?thesis unfolding started(5)
  proof (rule table_okI)
    fix k
    assume "k < length ((daemons s)[i := (daemons s ! i)\<lparr>d_pid := p, d_last_spawn_ms := t + int dt\<rparr>])"
      "\<not> d_unloaded ((daemons s)[i := (daemons s ! i)\<lparr>d_pid := p, d_last_spawn_ms := t + int dt\<rparr>] ! k)"
      "0 < d_pid ((daemons s)[i := (daemons s ! i)\<lparr>d_pid := p, d_last_spawn_ms := t + int dt\<rparr>] ! k)"
    then show "children (Forked i t p # acts s) (d_pid ((daemons s)
        [i := (daemons s ! i)\<lparr>d_pid := p, d_last_spawn_ms := t + int dt\<rparr>] ! k)) = Some k"
      using D(3) [of k] p(2) i by (cases "k = i") auto
  next
    fix q k
    assume "children (Forked i t p # acts s) q = Some k"
      "\<not> d_unloaded ((daemons s)[i := (daemons s ! i)\<lparr>d_pid := p, d_last_spawn_ms := t + int dt\<rparr>] ! k)"
    then show "d_pid ((daemons s)[i := (daemons s ! i)\<lparr>d_pid := p, d_last_spawn_ms := t + int dt\<rparr>] ! k) = q"
      using D(4) [of q k] D(5) [of q k] z i by (cases "k = i"; cases "q = p") auto
  qed (use D i p forks_ok_Forked [OF f p(1)] started in
      \<open>auto simp: nth_list_update split: if_splits\<close>)
qed

lemma reaped_table_ok:
  assumes ok: "table_ok s"
    and n: "\<And>i. i < length (daemons s) \<Longrightarrow> \<not> d_unloaded (daemons s ! i) \<Longrightarrow>
      d_pid (daemons s ! i) \<noteq> pid"
  shows "table_ok (act (Reaped pid) s)"
proof -
  note D = table_okD [OF ok]
  have "table_ok (s\<lparr>daemons := daemons s, clock := clock s, forks := forks s,
    acts := Reaped pid # acts s\<rparr>)"
  proof (rule table_okI)
    fix k assume "k < length (daemons s)" "\<not> d_unloaded (daemons s ! k)" "0 < d_pid (daemons s ! k)"
    then show "children (Reaped pid # acts s) (d_pid (daemons s ! k)) = Some k"
      using D(3) [of k] n [of k] by simp
  next
    fix q k assume "children (Reaped pid # acts s) q = Some k" "\<not> d_unloaded (daemons s ! k)"
    then show "d_pid (daemons s ! k) = q" using D(5) [of q k] by (simp split: if_splits)
  next
    fix q k assume "children (Reaped pid # acts s) q = Some k"
    then show "k < length (daemons s) \<and> 0 < q" using D(4) [of q k] by (simp split: if_splits)
  next
    show "forks_ok (Reaped pid # acts s) (forks s)" using D(6) by (rule forks_ok_Reaped)
  qed (rule D(1), rule D(2))
  then show ?thesis by (simp add: act_def)
qed

lemma cleared_table_ok:
  assumes ok: "table_ok s" and p: "0 < pid"
    and i: "i < length (daemons s)" "\<not> d_unloaded (daemons s ! i)" "d_pid (daemons s ! i) = pid"
  shows "table_ok (set_daemon i ((daemons s ! i)\<lparr>d_pid := 0\<rparr>) (act (Reaped pid) s))"
proof -
  note D = table_okD [OF ok]
  have u: "children (acts s) pid = Some i" using D(3) [of i] i p by simp
  have u2: "q = pid" if "children (acts s) q = Some i" for q using D(5) [OF that i(2)] i(3) by simp
  let ?ds = "(daemons s)[i := (daemons s ! i)\<lparr>d_pid := 0\<rparr>]"
  have "table_ok (s\<lparr>daemons := ?ds, clock := clock s, forks := forks s, acts := Reaped pid # acts s\<rparr>)"
  proof (rule table_okI)
    fix k assume k: "k < length ?ds" "\<not> d_unloaded (?ds ! k)" "0 < d_pid (?ds ! k)"
    then have "k \<noteq> i" using i(1) by auto
    then show "children (Reaped pid # acts s) (d_pid (?ds ! k)) = Some k"
      using D(3) [of k] u k by auto
  next
    fix q k assume k: "children (Reaped pid # acts s) q = Some k" "\<not> d_unloaded (?ds ! k)"
    then have "q \<noteq> pid" "children (acts s) q = Some k" by (simp_all split: if_splits)
    moreover from this have "k \<noteq> i" using u2 by blast
    ultimately show "d_pid (?ds ! k) = q" using k(2) D(5) [of q k] by simp
  next
    fix q k assume "children (Reaped pid # acts s) q = Some k"
    then show "k < length ?ds \<and> 0 < q" using D(4) [of q k] by (simp split: if_splits)
  next
    fix k assume "k < length ?ds"
    then show "0 \<le> d_pid (?ds ! k)" using D(2) [of k] by (cases "k = i") simp_all
  next
    show "forks_ok (Reaped pid # acts s) (forks s)" using D(6) by (rule forks_ok_Reaped)
  next
    show "length ?ds \<le> max_daemons" using D(1) by simp
  qed
  moreover have "set_daemon i ((daemons s ! i)\<lparr>d_pid := 0\<rparr>) (act (Reaped pid) s) =
      s\<lparr>daemons := ?ds, clock := clock s, forks := forks s, acts := Reaped pid # acts s\<rparr>"
    by (cases s) (simp add: set_daemon_def act_def)
  ultimately show ?thesis by simp
qed

lemma clear_pid_table_ok:
  assumes "table_ok s" "0 < pid"
  shows "table_ok (clear_pid pid (act (Reaped pid) s))"
proof (cases "find_by_pid (act (Reaped pid) s) pid")
  case None
  have "d_pid (daemons s ! i) \<noteq> pid"
    if "i < length (daemons s)" "\<not> d_unloaded (daemons s ! i)" for i
    using find_by_pid_None [OF None, of i] that by (simp add: act_def)
  then have "table_ok (act (Reaped pid) s)" by (rule reaped_table_ok [OF assms(1)])
  with None show ?thesis by (simp add: clear_pid_def)
next
  case (Some i)
  from find_by_pid_Some [OF Some] have "i < length (daemons s)" "\<not> d_unloaded (daemons s ! i)"
    "d_pid (daemons s ! i) = pid" by (simp_all add: act_def)
  from cleared_table_ok [OF assms this] Some show ?thesis by (simp add: clear_pid_def act_def)
qed

lemma reap_table_ok:
  assumes "table_ok s" "0 < pid"
  shows "table_ok (main_reap pid s)"
proof (cases "find_by_pid (act (Reaped pid) s) pid")
  case None
  with clear_pid_table_ok [OF assms] show ?thesis by (simp add: main_reap_def Let_def)
next
  case (Some i)
  let ?s2 = "clear_pid pid (act (Reaped pid) s)"
  have "i < length (daemons ?s2)" "d_pid (daemons ?s2 ! i) = 0"
    using find_by_pid_Some [OF Some] Some by (simp_all add: clear_pid_def set_daemon_def)
  with Some clear_pid_table_ok [OF assms] show ?thesis
    by (simp add: main_reap_def Let_def spawn_table_ok)
qed

lemma unload_table_ok:
  assumes "table_ok s"
  shows "table_ok (snd (lc_unload l s))"
proof (cases "find_by_label s l")
  case (Some i)
  note i = find_by_label_Some [OF Some]
  have "forks_ok (a # acts s) (forks s) \<and> children (a # acts s) = children (acts s)"
    if "a = Killed q" for a q
    using assms that by (auto simp: table_ok_def forks_ok_def)
  with assms i Some show ?thesis
    by (auto simp: lc_unload_def Let_def table_ok_def act_def set_daemon_def nth_list_update
        split: if_splits)
qed (use assms in \<open>simp add: lc_unload_def\<close>)

text \<open>A new entry at the end of the table.\<close>

definition fresh_daemon :: "daemon_config \<Rightarrow> daemon" where
  "fresh_daemon cfg = \<lparr>d_cfg = cfg, d_pid = 0, d_last_spawn_ms = 0, d_unloaded = False\<rparr>"

lemma append_table_ok:
  assumes "table_ok s" "length (daemons s) < max_daemons"
  shows "table_ok (s\<lparr>daemons := daemons s @ [fresh_daemon cfg]\<rparr>)"
proof -
  note D = table_okD [OF assms(1)]
  let ?ds = "daemons s @ [fresh_daemon cfg]"
  have "table_ok (s\<lparr>daemons := ?ds, clock := clock s, forks := forks s, acts := acts s\<rparr>)"
  proof (rule table_okI)
    fix k assume "k < length ?ds"
    then show "0 \<le> d_pid (?ds ! k)" using D(2) [of k]
      by (cases "k < length (daemons s)") (simp_all add: nth_append fresh_daemon_def)
  next
    fix k assume "k < length ?ds" "\<not> d_unloaded (?ds ! k)" "0 < d_pid (?ds ! k)"
    then show "children (acts s) (d_pid (?ds ! k)) = Some k" using D(3) [of k]
      by (cases "k < length (daemons s)") (simp_all add: nth_append fresh_daemon_def)
  next
    fix q k assume "children (acts s) q = Some k" "\<not> d_unloaded (?ds ! k)"
    then show "d_pid (?ds ! k) = q" using D(4,5) [of q k] by (simp add: nth_append)
  next
    fix q k assume "children (acts s) q = Some k"
    then show "k < length ?ds \<and> 0 < q" using D(4) [of q k] by simp
  qed (use D(6) assms(2) in simp_all)
  then show ?thesis by simp
qed

lemma lc_load_cases:
  obtains (same) "snd (snd (lc_load files path n s)) = s"
  | (idle) cfg where "read_plist files path = Some cfg" "find_by_label s (dc_label cfg) = None"
      "length (daemons s) < max_daemons"
      "snd (snd (lc_load files path n s)) = s\<lparr>daemons := daemons s @ [fresh_daemon cfg]\<rparr>"
  | (run) cfg where "read_plist files path = Some cfg" "find_by_label s (dc_label cfg) = None"
      "length (daemons s) < max_daemons"
      "snd (snd (lc_load files path n s)) =
         spawn_daemon (length (daemons s)) (s\<lparr>daemons := daemons s @ [fresh_daemon cfg]\<rparr>)"
proof (cases "read_plist files path")
  case None
  then show ?thesis by (intro same) (simp add: lc_load_def)
next
  case (Some cfg)
  consider "find_by_label s (dc_label cfg) \<noteq> None \<or> max_daemons \<le> length (daemons s)"
    | "find_by_label s (dc_label cfg) = None" "length (daemons s) < max_daemons" "dc_run_at_load cfg"
    | "find_by_label s (dc_label cfg) = None" "length (daemons s) < max_daemons" "\<not> dc_run_at_load cfg"
    by (metis not_le)
  then show ?thesis
  proof cases
    case 1
    with Some show ?thesis by (intro same) (auto simp: lc_load_def)
  next
    case 2
    with Some show ?thesis by (intro run [of cfg]) (simp_all add: lc_load_def Let_def fresh_daemon_def)
  next
    case 3
    with Some show ?thesis by (intro idle [of cfg]) (simp_all add: lc_load_def Let_def fresh_daemon_def)
  qed
qed

lemma load_table_ok:
  assumes "table_ok s"
  shows "table_ok (snd (snd (lc_load files path n s)))"
proof (cases rule: lc_load_cases [of files path n s])
  case (run cfg)
  then show ?thesis using append_table_ok [OF assms run(3), of cfg]
    by (simp add: spawn_table_ok fresh_daemon_def)
qed (use assms append_table_ok in simp_all)

lemma start_table_ok: "table_ok s \<Longrightarrow> table_ok (snd (lc_start l s))"
  by (auto simp: lc_start_def intro!: spawn_table_ok split: option.splits dest!: find_by_label_Some)
    (auto simp: table_ok_def)

lemma step_table_ok: "launchd_step files s s' \<Longrightarrow> table_ok s \<Longrightarrow> table_ok s'"
proof (induction rule: launchd_step.induct)
  case (stop s label)
  then show ?case
    by (auto simp: lc_stop_def table_ok_def act_def forks_ok_def split: option.splits)
qed (auto simp: reap_table_ok unload_table_ok load_table_ok start_table_ok, auto simp: table_ok_def)

lemma steps_table_ok: "launchd_steps files s s' \<Longrightarrow> table_ok s \<Longrightarrow> table_ok s'"
  by (induction rule: rtranclp_induct) (auto dest: step_table_ok)

text \<open>What starting, clearing and loading leave alone.\<close>

lemma spawn_frame [simp]:
  "length (daemons (spawn_daemon i s)) = length (daemons s)"
  "k \<noteq> i \<Longrightarrow> daemons (spawn_daemon i s) ! k = daemons s ! k"
  "d_cfg (daemons (spawn_daemon i s) ! k) = d_cfg (daemons s ! k)"
  "d_unloaded (daemons (spawn_daemon i s) ! k) = d_unloaded (daemons s ! k)"
  by (cases "i < length (daemons s)"; cases "k = i";
      cases rule: spawn_cases [of i s]; simp add: list_update_beyond)+

lemma clear_frame [simp]:
  "length (daemons (clear_pid pid s)) = length (daemons s)"
  "d_cfg (daemons (clear_pid pid s) ! k) = d_cfg (daemons s ! k)"
  "d_unloaded (daemons (clear_pid pid s) ! k) = d_unloaded (daemons s ! k)"
  "d_last_spawn_ms (daemons (clear_pid pid s) ! k) = d_last_spawn_ms (daemons s ! k)"
  "d_unloaded (daemons s ! k) \<Longrightarrow> daemons (clear_pid pid s) ! k = daemons s ! k"
  "acts (clear_pid pid s) = acts s" "clock (clear_pid pid s) = clock s"
proof -
  have "length (daemons (clear_pid pid s)) = length (daemons s) \<and>
    d_cfg (daemons (clear_pid pid s) ! k) = d_cfg (daemons s ! k) \<and>
    d_unloaded (daemons (clear_pid pid s) ! k) = d_unloaded (daemons s ! k) \<and>
    d_last_spawn_ms (daemons (clear_pid pid s) ! k) = d_last_spawn_ms (daemons s ! k) \<and>
    (d_unloaded (daemons s ! k) \<longrightarrow> daemons (clear_pid pid s) ! k = daemons s ! k) \<and>
    acts (clear_pid pid s) = acts s \<and> clock (clear_pid pid s) = clock s"
  proof (cases "find_by_pid s pid")
    case (Some i)
    with find_by_pid_Some [OF Some] show ?thesis
      by (cases "k = i") (simp_all add: clear_pid_def set_daemon_def)
  qed (simp add: clear_pid_def)
  then show "length (daemons (clear_pid pid s)) = length (daemons s)"
    "d_cfg (daemons (clear_pid pid s) ! k) = d_cfg (daemons s ! k)"
    "d_unloaded (daemons (clear_pid pid s) ! k) = d_unloaded (daemons s ! k)"
    "d_last_spawn_ms (daemons (clear_pid pid s) ! k) = d_last_spawn_ms (daemons s ! k)"
    "d_unloaded (daemons s ! k) \<Longrightarrow> daemons (clear_pid pid s) ! k = daemons s ! k"
    "acts (clear_pid pid s) = acts s" "clock (clear_pid pid s) = clock s" by simp_all
qed

lemma act_frame [simp]: "daemons (act a s) = daemons s" "clock (act a s) = clock s"
  "acts (act a s) = a # acts s" "forks (act a s) = forks s"
  by (simp_all add: act_def)

section \<open>Unloaded entries\<close>

text \<open>The entries that were started, newest first, with their times.\<close>

primrec starts_of :: "action list \<Rightarrow> (nat \<times> int) list" where
  "starts_of [] = []"
| "starts_of (a # as) =
     (case a of Forked i t p \<Rightarrow> (i, t) # starts_of as | _ \<Rightarrow> starts_of as)"

definition extends :: "launchd \<Rightarrow> launchd \<Rightarrow> bool" where
  "extends s s' \<longleftrightarrow> length (daemons s) \<le> length (daemons s') \<and>
     (\<forall>i<length (daemons s). d_cfg (daemons s' ! i) = d_cfg (daemons s ! i) \<and>
        (d_unloaded (daemons s ! i) \<longrightarrow> daemons s' ! i = daemons s ! i \<and>
           filter (\<lambda>x. fst x = i) (starts_of (acts s')) = filter (\<lambda>x. fst x = i) (starts_of (acts s))))"

lemma extends_refl [simp]: "extends s s"
  by (simp add: extends_def)

lemma extends_trans: "extends s s' \<Longrightarrow> extends s' s'' \<Longrightarrow> extends s s''"
  unfolding extends_def by (metis order_less_le_trans order_trans)

lemma extends_act:
  "(\<And>i t p. a \<noteq> Forked i t p) \<Longrightarrow> extends s (act a s)"
  by (cases a) (auto simp: extends_def)

lemma extends_spawn:
  assumes "i < length (daemons s) \<Longrightarrow> \<not> d_unloaded (daemons s ! i)"
  shows "extends s (spawn_daemon i s)"
proof -
  have "filter (\<lambda>x. fst x = k) (starts_of (acts (spawn_daemon i s))) =
      filter (\<lambda>x. fst x = k) (starts_of (acts s))" if "k \<noteq> i" for k
    by (cases rule: spawn_cases [of i s]) (use that in simp_all)
  moreover have "k \<noteq> i" if "k < length (daemons s)" "d_unloaded (daemons s ! k)" for k
    using assms that by auto
  ultimately show ?thesis by (simp add: extends_def)
qed

lemma extends_append: "extends s (s\<lparr>daemons := daemons s @ ds\<rparr>)"
  by (simp add: extends_def nth_append)

lemma extends_step: "launchd_step files s s' \<Longrightarrow> extends s s'"
proof (induction rule: launchd_step.induct)
  case (reap pid s)
  let ?s = "clear_pid pid (act (Reaped pid) s)"
  have "extends s ?s" by (simp add: extends_def)
  moreover have "extends ?s (spawn_daemon i ?s)" if "find_by_pid (act (Reaped pid) s) pid = Some i" for i
    using find_by_pid_Some [OF that] by (intro extends_spawn) simp
  ultimately show ?case using extends_trans
    by (fastforce simp: main_reap_def Let_def split: option.split)
next
  case (start s label)
  then show ?case by (auto simp: lc_start_def split: option.split dest!: find_by_label_Some
      intro!: extends_spawn)
next
  case (stop s label)
  then show ?case by (auto simp: lc_stop_def split: option.split intro!: extends_act)
next
  case (load s path n)
  then show ?case
  proof (cases rule: lc_load_cases [of files path n s])
    case (run cfg)
    have "extends (s\<lparr>daemons := daemons s @ [fresh_daemon cfg]\<rparr>) (spawn_daemon (length (daemons s))
      (s\<lparr>daemons := daemons s @ [fresh_daemon cfg]\<rparr>))"
      by (rule extends_spawn) (simp add: fresh_daemon_def)
    then show ?thesis unfolding run(4) by (rule extends_trans [OF extends_append])
  qed (simp_all add: extends_append)
next
  case (unload s label)
  show ?case
  proof (cases "find_by_label s label")
    case (Some i)
    note i = find_by_label_Some [OF Some]
    let ?s = "set_daemon i ((daemons s ! i)\<lparr>d_unloaded := True\<rparr>) s"
    have "extends s ?s" using i by (auto simp: extends_def set_daemon_def nth_list_update)
    moreover have "extends ?s (act (Killed q) ?s)" for q by (rule extends_act) simp
    ultimately show ?thesis using Some extends_trans
      by (fastforce simp: lc_unload_def Let_def)
  qed (simp add: lc_unload_def)
qed (simp_all add: extends_def)

lemma extends_steps: "launchd_steps files s s' \<Longrightarrow> extends s s'"
  by (induction rule: rtranclp_induct) (auto dest: extends_step intro: extends_trans)

section \<open>The throttle\<close>

definition spaced_starts :: "(nat \<times> int) list \<Rightarrow> bool" where
  "spaced_starts =
     sorted_wrt (\<lambda>x y. fst x = fst y \<longrightarrow> snd y + respawn_throttle_ms \<le> snd x)"

definition throttle_ok :: "launchd \<Rightarrow> bool" where
  "throttle_ok s \<longleftrightarrow> 0 < clock s \<and>
     spaced_starts (starts_of (acts s)) \<and>
     (\<forall>x\<in>set (starts_of (acts s)). fst x < length (daemons s) \<and>
        snd x \<le> d_last_spawn_ms (daemons s ! fst x) \<and> 0 < d_last_spawn_ms (daemons s ! fst x))"

lemma throttle_frame:
  assumes "throttle_ok s" "clock s \<le> clock s'" "starts_of (acts s') = starts_of (acts s)"
    "length (daemons s) \<le> length (daemons s')"
    "\<And>i. i < length (daemons s) \<Longrightarrow>
       d_last_spawn_ms (daemons s' ! i) = d_last_spawn_ms (daemons s ! i)"
  shows "throttle_ok s'"
  using assms by (fastforce simp: throttle_ok_def)

lemma throttle_act: "throttle_ok s \<Longrightarrow> (\<And>i t p. a \<noteq> Forked i t p) \<Longrightarrow> throttle_ok (act a s)"
  by (cases a) (auto intro: throttle_frame)

lemma throttle_spawn:
  assumes ok: "throttle_ok s" and i: "i < length (daemons s)"
  shows "throttle_ok (spawn_daemon i s)"
proof (cases rule: spawn_cases [of i s])
  case (failed c fs)
  with ok show ?thesis by (simp add: throttle_ok_def)
next
  case (started t p dt fs)
  have "snd x + respawn_throttle_ms \<le> t" if "x \<in> set (starts_of (acts s))" "fst x = i" for x
  proof -
    from that ok have "snd x \<le> d_last_spawn_ms (daemons s ! i)" "0 < d_last_spawn_ms (daemons s ! i)"
      by (auto simp: throttle_ok_def)
    with started(4) show ?thesis by linarith
  qed
  moreover have "snd x \<le> d_last_spawn_ms ((daemons (spawn_daemon i s)) ! fst x) \<and>
      0 < d_last_spawn_ms ((daemons (spawn_daemon i s)) ! fst x)"
    if "x \<in> set (starts_of (acts s))" for x
  proof (cases "fst x = i")
    case True
    with that ok have "snd x \<le> d_last_spawn_ms (daemons s ! i)" "0 < d_last_spawn_ms (daemons s ! i)"
      by (auto simp: throttle_ok_def)
    with True started(3,4) i ok show ?thesis
      by (simp add: started(5) throttle_ok_def respawn_throttle_ms_def)
  next
    case False
    with that ok show ?thesis by (simp add: throttle_ok_def)
  qed
  ultimately show ?thesis using ok i started(3)
    by (auto simp: throttle_ok_def spaced_starts_def started(5))
qed

lemma throttle_step: "launchd_step files s s' \<Longrightarrow> throttle_ok s \<Longrightarrow> throttle_ok s'"
proof (induction rule: launchd_step.induct)
  case (reap pid s)
  let ?s = "clear_pid pid (act (Reaped pid) s)"
  have t: "throttle_ok ?s" using reap.prems by (rule throttle_frame) simp_all
  show ?case
  proof (cases "find_by_pid (act (Reaped pid) s) pid")
    case (Some i)
    then have "throttle_ok (spawn_daemon i ?s)"
      using find_by_pid_Some [OF Some] by (intro throttle_spawn t) simp
    with Some t show ?thesis by (simp add: main_reap_def Let_def)
  qed (use t in \<open>simp add: main_reap_def Let_def\<close>)
next
  case (start s label)
  then show ?case
    by (auto simp: lc_start_def split: option.split dest!: find_by_label_Some intro!: throttle_spawn)
next
  case (stop s label)
  then show ?case by (auto simp: lc_stop_def split: option.split intro!: throttle_act)
next
  case (load s path n)
  then have a: "throttle_ok (s\<lparr>daemons := daemons s @ [fresh_daemon cfg]\<rparr>)" for cfg
    by (rule throttle_frame) (simp_all add: nth_append)
  show ?case
  proof (cases rule: lc_load_cases [of files path n s])
    case (run cfg)
    show ?thesis unfolding run(4) by (rule throttle_spawn [OF a]) simp
  qed (simp_all add: a load)
next
  case (unload s label)
  show ?case
  proof (cases "find_by_label s label")
    case (Some i)
    note i = find_by_label_Some [OF Some]
    let ?s = "set_daemon i ((daemons s ! i)\<lparr>d_unloaded := True\<rparr>) s"
    have t: "throttle_ok ?s"
      using unload by (rule throttle_frame) (use i in \<open>auto simp: set_daemon_def nth_list_update\<close>)
    moreover from t have "throttle_ok (act (Killed q) ?s)" for q by (rule throttle_act) simp
    ultimately show ?thesis using Some by (simp add: lc_unload_def Let_def)
  qed (use unload in \<open>simp add: lc_unload_def\<close>)
qed (auto simp: throttle_ok_def)

lemma throttle_steps: "launchd_steps files s s' \<Longrightarrow> throttle_ok s \<Longrightarrow> throttle_ok s'"
  by (induction rule: rtranclp_induct) (auto dest: throttle_step)

section \<open>Labels\<close>

definition labels_ok :: "launchd \<Rightarrow> bool" where
  "labels_ok s \<longleftrightarrow>
     (\<forall>j<length (daemons s). \<forall>i<j. \<not> d_unloaded (daemons s ! i) \<longrightarrow> \<not> d_unloaded (daemons s ! j) \<longrightarrow>
        strcmp (dc_label (d_cfg (daemons s ! i))) (dc_label (d_cfg (daemons s ! j))) \<noteq> 0)"

lemma labels_frame:
  assumes ok: "labels_ok s" and e: "extends s s'" and l: "length (daemons s') = length (daemons s)"
  shows "labels_ok s'"
proof -
  have "d_cfg (daemons s' ! i) = d_cfg (daemons s ! i) \<and>
      (\<not> d_unloaded (daemons s' ! i) \<longrightarrow> \<not> d_unloaded (daemons s ! i))"
    if "i < length (daemons s)" for i using e that by (auto simp: extends_def)
  then show ?thesis using ok by (simp add: labels_ok_def l)
qed

lemma labels_append:
  assumes "labels_ok s" "find_by_label s (dc_label cfg) = None"
  shows "labels_ok (s\<lparr>daemons := daemons s @ [fresh_daemon cfg]\<rparr>)"
  using assms
  by (auto simp: labels_ok_def nth_append less_Suc_eq find_by_label_None fresh_daemon_def)

lemma length_step_ops [simp]:
  "length (daemons (main_reap pid s)) = length (daemons s)"
  "length (daemons (snd (lc_start l s))) = length (daemons s)"
  "length (daemons (snd (lc_stop l s))) = length (daemons s)"
  "length (daemons (snd (lc_unload l s))) = length (daemons s)"
  by (simp_all add: main_reap_def lc_start_def lc_stop_def lc_unload_def set_daemon_def Let_def
      split: option.split)

lemma labels_step:
  assumes "launchd_step files s s'" "labels_ok s"
  shows "labels_ok s'"
  using assms(1)
proof cases
  case (load path n)
  show ?thesis
  proof (cases rule: lc_load_cases [of files path n s])
    case same
    with load assms show ?thesis by simp
  next
    case (idle cfg)
    with load assms labels_append show ?thesis by simp
  next
    case (run cfg)
    let ?s = "s\<lparr>daemons := daemons s @ [fresh_daemon cfg]\<rparr>"
    have "labels_ok ?s" using labels_append assms(2) run(2) by simp
    then show ?thesis unfolding load run(4)
      by (rule labels_frame) (simp_all add: extends_spawn fresh_daemon_def)
  qed
qed (use assms extends_step [OF assms(1)] in \<open>auto intro: labels_frame\<close>)

section \<open>The boot\<close>

lemma load_names_fresh:
  "\<exists>cfgs. load_names files names s = s\<lparr>daemons := daemons s @ map fresh_daemon cfgs\<rparr> \<and>
     length cfgs \<le> max_daemons - length (daemons s)"
proof (induction names arbitrary: s)
  case Nil
  show ?case by (intro exI [of _ "[]"]) simp
next
  case (Cons name names)
  show ?case
  proof (cases "max_daemons \<le> length (daemons s) \<or> read_plist files (daemon_path name) = None")
    case True
    then have "load_names files (name # names) s = load_names files names s" by auto
    with Cons [of s] show ?thesis by simp
  next
    case False
    then obtain cfg where c: "read_plist files (daemon_path name) = Some cfg" by auto
    let ?s = "s\<lparr>daemons := daemons s @ [fresh_daemon cfg]\<rparr>"
    from Cons [of ?s] obtain cfgs where
      "load_names files names ?s = ?s\<lparr>daemons := daemons ?s @ map fresh_daemon cfgs\<rparr>"
      "length cfgs \<le> max_daemons - length (daemons ?s)" by blast
    with False c show ?thesis
      by (intro exI [of _ "cfg # cfgs"]) (simp add: fresh_daemon_def)
  qed
qed

lemma load_all_fresh:
  assumes "daemons s = []"
  obtains cfgs where "load_all_daemons files dir s = s\<lparr>daemons := map fresh_daemon cfgs\<rparr>"
    "length cfgs \<le> max_daemons"
proof (cases dir)
  case None
  with assms show ?thesis by (intro that [of "[]"]) (cases s, simp_all add: load_all_daemons_def)
next
  case (Some entries)
  let ?names = "sort_elems strcmp (take max_daemons (filter is_plist_name entries))"
  from load_names_fresh [of files ?names s] assms obtain cfgs where
    "load_names files ?names s = s\<lparr>daemons := map fresh_daemon cfgs\<rparr>" "length cfgs \<le> max_daemons"
    by auto
  with Some show ?thesis by (intro that [of cfgs]) (simp_all add: load_all_daemons_def)
qed

lemma start_one_frame:
  "length (daemons (start_one s i)) = length (daemons s)"
  "k \<noteq> i \<Longrightarrow> daemons (start_one s i) ! k = daemons s ! k"
  by (simp_all add: start_one_def Let_def)

lemma start_list_ok:
  assumes "table_ok s" "throttle_ok s" "distinct is"
    "\<forall>i\<in>set is. i < length (daemons s) \<and> d_pid (daemons s ! i) = 0"
  shows "table_ok (foldl start_one s is) \<and> throttle_ok (foldl start_one s is)"
  using assms
proof (induction "is" arbitrary: s)
  case (Cons i "is")
  have reveal: "table_ok (act RevealConsole s)" "throttle_ok (act RevealConsole s)"
    using Cons.prems(1) throttle_act [OF Cons.prems(2)] by (simp_all add: table_ok_def forks_ok_def)
  then have "table_ok (start_one s i)" "throttle_ok (start_one s i)"
    using Cons.prems by (simp_all add: start_one_def Let_def spawn_table_ok throttle_spawn)
  moreover have "\<forall>k\<in>set is. k < length (daemons (start_one s i)) \<and>
      d_pid (daemons (start_one s i) ! k) = 0"
  proof
    fix k assume k: "k \<in> set is"
    then have "k \<noteq> i" using Cons.prems(3) by auto
    then show "k < length (daemons (start_one s i)) \<and> d_pid (daemons (start_one s i) ! k) = 0"
      using k Cons.prems(4) by (simp add: start_one_frame)
  qed
  ultimately show ?case using Cons.IH [of "start_one s i"] Cons.prems(3) by simp
qed simp

definition first_state :: "launchd \<Rightarrow> bool" where
  "first_state s \<longleftrightarrow> daemons s = [] \<and> acts s = [] \<and> 0 < clock s \<and> forks_ok [] (forks s)"

lemma boot_ok:
  assumes "first_state s"
  shows "table_ok (boot files dir s)" "throttle_ok (boot files dir s)"
proof -
  from assms obtain cfgs where c: "load_all_daemons files dir s = s\<lparr>daemons := map fresh_daemon cfgs\<rparr>"
    "length cfgs \<le> max_daemons" by (auto simp: first_state_def elim: load_all_fresh)
  let ?s = "s\<lparr>daemons := map fresh_daemon cfgs\<rparr>"
  have "table_ok ?s" "throttle_ok ?s"
    using assms c(2) by (simp_all add: first_state_def table_ok_def throttle_ok_def spaced_starts_def fresh_daemon_def)
  then have "table_ok (foldl start_one ?s [0..<length (daemons ?s)]) \<and>
      throttle_ok (foldl start_one ?s [0..<length (daemons ?s)])"
    by (rule start_list_ok) (simp_all add: fresh_daemon_def)
  then show "table_ok (boot files dir s)" "throttle_ok (boot files dir s)"
    by (simp_all add: boot_def start_runatload_daemons_def c(1))
qed

section \<open>The shutdown\<close>

lemma find_by_pid_running:
  assumes "table_ok s" "i < length (daemons s)" "\<not> d_unloaded (daemons s ! i)"
    "0 < d_pid (daemons s ! i)"
  shows "find_by_pid s (d_pid (daemons s ! i)) = Some i"
proof (cases "find_by_pid s (d_pid (daemons s ! i))")
  case None
  from find_by_pid_None [OF None assms(2,3)] show ?thesis by simp
next
  case (Some k)
  from find_by_pid_Some [OF Some] have k: "k < length (daemons s)" "\<not> d_unloaded (daemons s ! k)"
    and e: "d_pid (daemons s ! k) = d_pid (daemons s ! i)" by blast+
  have "children (acts s) (d_pid (daemons s ! k)) = Some k"
    using table_okD(3) [OF assms(1) k] assms(4) by (simp only: e)
  moreover have "children (acts s) (d_pid (daemons s ! i)) = Some i"
    using table_okD(3) [OF assms(1,2,3,4)] .
  ultimately have "k = i" by (simp only: e) simp
  with Some show ?thesis by simp
qed

definition running_pids :: "launchd \<Rightarrow> int set" where
  "running_pids s = {p. \<exists>d\<in>set (daemons s). \<not> d_unloaded d \<and> d_pid d = p \<and> 0 < p}"

lemma running_count_0: "running_count s = 0 \<longleftrightarrow> running_pids s = {}"
  by (auto simp: running_count_def running_pids_def filter_empty_conv)

lemma running_pids_clear:
  assumes "table_ok s" "0 < pid"
  shows "running_pids (clear_pid pid (act a s)) \<subseteq> running_pids s - {pid}"
proof
  fix q assume "q \<in> running_pids (clear_pid pid (act a s))"
  then obtain k where k: "k < length (daemons s)"
    "\<not> d_unloaded (daemons (clear_pid pid (act a s)) ! k)"
    "d_pid (daemons (clear_pid pid (act a s)) ! k) = q" "0 < q"
    by (auto simp: running_pids_def in_set_conv_nth)
  have f: "find_by_pid (act a s) p = find_by_pid s p" for p by (simp add: find_by_pid_def)
  show "q \<in> running_pids s - {pid}"
  proof (cases "find_by_pid s pid")
    case None
    with k find_by_pid_None [OF None k(1)] show ?thesis
      by (auto simp: running_pids_def clear_pid_def f)
  next
    case (Some i)
    note i = find_by_pid_Some [OF Some]
    with Some k have ki: "k \<noteq> i" by (auto simp: clear_pid_def f set_daemon_def)
    then have kq: "d_pid (daemons s ! k) = q" "\<not> d_unloaded (daemons s ! k)"
      using Some k by (simp_all add: clear_pid_def f set_daemon_def)
    moreover from this have "q \<noteq> pid"
      using find_by_pid_running [OF assms(1) k(1)] k(4) Some ki by auto
    ultimately show ?thesis using k(1,4)
      by (auto simp: running_pids_def intro: bexI [OF _ nth_mem])
  qed
qed

lemma drain_empties:
  "table_ok s \<Longrightarrow> \<forall>p\<in>set waits. 0 < p \<Longrightarrow> running_pids s \<subseteq> set waits \<Longrightarrow>
     running_pids (drain waits s) = {}"
proof (induction waits arbitrary: s)
  case (Cons pid waits)
  show ?case
  proof (cases "running_count s")
    case 0
    then have "running_pids s = {}" by (simp add: running_count_0)
    with 0 show ?thesis by simp
  next
    case (Suc n)
    let ?s = "clear_pid pid (act (Reaped pid) s)"
    have "running_pids ?s \<subseteq> running_pids s - {pid}" "table_ok ?s"
      using Cons.prems running_pids_clear clear_pid_table_ok by auto
    with Cons.prems have "running_pids (drain waits ?s) = {}" by (intro Cons.IH) auto
    with Suc Cons.prems show ?thesis by simp
  qed
qed simp

lemma signal_all_eq:
  "signal_all s = s\<lparr>acts := rev (map (Killed \<circ> d_pid) (filter (\<lambda>d. 0 < d_pid d) (daemons s))) @ acts s\<rparr>"
proof -
  have "foldl (\<lambda>s d. if 0 < d_pid d then act (Killed (d_pid d)) s else s) s ds =
      s\<lparr>acts := rev (map (Killed \<circ> d_pid) (filter (\<lambda>d. 0 < d_pid d) ds)) @ acts s\<rparr>" for ds
    by (induction ds arbitrary: s) (simp_all add: act_def)
  then show ?thesis by (simp add: signal_all_def)
qed

lemma children_kills:
  "children (map (Killed \<circ> d_pid) ds @ as) = children as"
  by (induction ds) simp_all

lemma signal_all_table_ok: "table_ok s \<Longrightarrow> table_ok (signal_all s)"
  by (simp add: signal_all_eq table_ok_def rev_map forks_ok_def children_kills)

section \<open>An example\<close>

text \<open>A machine with one daemon file, whose daemon runs at load and is kept alive.\<close>

definition demo_text :: cstr where
  "demo_text = cs ''<dict><key>Label</key><string>a</string><key>ProgramArguments</key><array><string>b</string></array><key>RunAtLoad</key><true/><key>KeepAlive</key><true/></dict>''"

definition demo_cfg :: daemon_config where
  "demo_cfg = \<lparr>dc_label = [97], dc_argv = [[98]], dc_run_at_load = True, dc_keep_alive = True,
     dc_envp = [], dc_stdout_path = [], dc_stderr_path = []\<rparr>"

definition demo_files :: "cstr \<Rightarrow> cstr option" where
  "demo_files path = Some demo_text"

definition demo_first :: launchd where
  "demo_first = \<lparr>daemons = [], clock = 1, forks = [(7, 2), (8, 1)], acts = []\<rparr>"

definition demo_booted :: launchd where
  "demo_booted = \<lparr>daemons = [\<lparr>d_cfg = demo_cfg, d_pid = 7, d_last_spawn_ms = 3, d_unloaded = False\<rparr>],
     clock = 3, forks = [(8, 1)], acts = [Forked 0 1 7]\<rparr>"

lemma demo_parse: "plist_parse_daemon demo_text = Some (Some demo_cfg)"
  by code_simp

lemma demo_boot: "boot demo_files (Some [cs ''a.plist'']) demo_first = demo_booted"
proof -
  have "read_plist demo_files path = Some demo_cfg" for path
    by (simp add: read_plist_def demo_files_def demo_parse)
  moreover have "sort_elems strcmp (take max_daemons (filter is_plist_name [cs ''a.plist''])) = [cs ''a.plist'']"
    by code_simp
  moreover have "strcmp (dc_label demo_cfg) (cs ''com.asteros.shell'') = 0 \<longleftrightarrow> False" by code_simp
  ultimately show ?thesis
    by (simp add: boot_def load_all_daemons_def start_runatload_daemons_def start_one_def Let_def
        demo_first_def demo_booted_def max_daemons_def spawn_daemon_def)
      (simp add: demo_cfg_def)
qed

lemma demo_first_state: "first_state demo_first"
  by (simp add: first_state_def demo_first_def forks_ok_def)

lemma demo_steps: "launchd_steps demo_files (boot demo_files (Some [cs ''a.plist'']) demo_first)
    (main_reap 7 demo_booted)"
  unfolding demo_boot by (intro r_into_rtranclp launchd_step.reap) simp

section \<open>Properties\<close>



text \<open>an entry that was unloaded keeps its record for ever, and its daemon is never started
  again, although KeepAlive is set and its process exits later.\<close>

theorem unloaded_stays_down:
  assumes "launchd_steps files s s'" "i < length (daemons s)" "d_unloaded (daemons s ! i)"
  shows "daemons s' ! i = daemons s ! i \<and>
    filter (\<lambda>x. fst x = i) (starts_of (acts s')) = filter (\<lambda>x. fst x = i) (starts_of (acts s))"
  using extends_steps [OF assms(1)] assms(2,3) by (simp add: extends_def)

definition demo_unloaded :: launchd where
  "demo_unloaded = snd (lc_unload [97] demo_booted)"

theorem unloaded_stays_down_witness:
  "daemons (main_reap 7 demo_unloaded) ! 0 = daemons demo_unloaded ! 0 \<and>
   filter (\<lambda>x. fst x = 0) (starts_of (acts (main_reap 7 demo_unloaded))) =
     filter (\<lambda>x. fst x = 0) (starts_of (acts demo_unloaded))"
proof (rule unloaded_stays_down)
  show "launchd_steps demo_files demo_unloaded (main_reap 7 demo_unloaded)"
    by (intro r_into_rtranclp launchd_step.reap) simp
  show "0 < length (daemons demo_unloaded)" "d_unloaded (daemons demo_unloaded ! 0)"
    by code_simp+
qed

text \<open>from the boot on, two starts of the same entry are at least the throttle interval
  apart.\<close>

theorem respawn_throttled:
  assumes "first_state s0" "launchd_steps files (boot files dir s0) s"
  shows "spaced_starts (starts_of (acts s))"
  using throttle_steps [OF assms(2) boot_ok(2) [OF assms(1)]] by (simp add: throttle_ok_def)

theorem respawn_throttled_witness:
  "spaced_starts (starts_of (acts (main_reap 7 demo_booted)))"
  using respawn_throttled [OF demo_first_state demo_steps] .

text \<open>C10 when the process of a loaded entry exits, launchd starts a KeepAlive daemon again with
  the next process the kernel gives it and marks any other daemon as not running; no other
  entry changes.\<close>

theorem reap_restarts:
  assumes "table_ok s" "i < length (daemons s)" "\<not> d_unloaded (daemons s ! i)"
    "d_pid (daemons s ! i) = pid" "0 < pid" "forks s = (p, dt) # fs" "0 < p"
  shows "d_pid (daemons (main_reap pid s) ! i) =
      (if dc_keep_alive (d_cfg (daemons s ! i)) then p else 0) \<and>
    daemons (main_reap pid s) = (daemons s)[i := daemons (main_reap pid s) ! i]"
proof -
  let ?s1 = "act (Reaped pid) s"
  have "find_by_pid s pid = Some i" using find_by_pid_running [OF assms(1-3)] assms(4,5) by simp
  then have f: "find_by_pid ?s1 pid = Some i" by (simp add: find_by_pid_def)
  then have c: "clear_pid pid ?s1 = set_daemon i ((daemons s ! i)\<lparr>d_pid := 0\<rparr>) ?s1"
    by (simp add: clear_pid_def)
  have "d_pid (daemons (clear_pid pid ?s1) ! i) = 0" "forks (clear_pid pid ?s1) = (p, dt) # fs"
    "i < length (daemons (clear_pid pid ?s1))"
    "k \<noteq> i \<Longrightarrow> daemons (clear_pid pid ?s1) ! k = daemons s ! k" for k
    using assms(2,6) by (simp_all add: c set_daemon_def)
  moreover from this have "d_pid (daemons (spawn_daemon i (clear_pid pid ?s1)) ! i) = p"
    using assms(7) by (simp add: spawn_daemon_def Let_def)
  ultimately have "d_pid (daemons (main_reap pid s) ! i) =
      (if dc_keep_alive (d_cfg (daemons s ! i)) then p else 0)"
    "k \<noteq> i \<Longrightarrow> daemons (main_reap pid s) ! k = daemons s ! k" for k
    by (simp_all add: main_reap_def Let_def f)
  moreover from this(2) have "daemons (main_reap pid s) ! k =
      (daemons s)[i := daemons (main_reap pid s) ! i] ! k" if "k < length (daemons s)" for k
    using that by (cases "k = i") simp_all
  then have "daemons (main_reap pid s) = (daemons s)[i := daemons (main_reap pid s) ! i]"
    by (intro nth_equalityI) simp_all
  ultimately show ?thesis by blast
qed

theorem reap_restarts_witness:
  "d_pid (daemons (main_reap 7 demo_booted) ! 0) =
      (if dc_keep_alive (d_cfg (daemons demo_booted ! 0)) then 8 else 0) \<and>
    daemons (main_reap 7 demo_booted) = (daemons demo_booted)[0 := daemons (main_reap 7 demo_booted) ! 0]"
proof (rule reap_restarts [where dt = 1 and fs = "[]"])
  show "table_ok demo_booted"
    using boot_ok(1) [OF demo_first_state, of demo_files "Some [cs ''a.plist'']"]
    by (simp only: demo_boot)
qed (simp_all add: demo_booted_def)



text \<open>unloading a label makes it loadable again: no loaded entry keeps it.\<close>

theorem unload_frees_label:
  assumes "labels_ok s" "is_cstr l" "\<forall>d\<in>set (daemons s). is_cstr (dc_label (d_cfg d))"
  shows "find_by_label (snd (lc_unload l s)) l = None"
proof (cases "find_by_label s l")
  case None
  then show ?thesis by (simp add: lc_unload_def)
next
  case (Some i)
  note i = find_by_label_Some [OF Some]
  let ?ds = "(daemons s)[i := (daemons s ! i)\<lparr>d_unloaded := True\<rparr>]"
  have eq: "dc_label (d_cfg (daemons s ! k)) = l \<longleftrightarrow> strcmp (dc_label (d_cfg (daemons s ! k))) l = 0"
    if "k < length (daemons s)" for k using assms(2,3) that strcmp_0_iff by simp
  have "d_unloaded (?ds ! k) \<or> strcmp (dc_label (d_cfg (?ds ! k))) l \<noteq> 0" if k: "k < length ?ds" for k
  proof (cases "k = i")
    case False
    have "dc_label (d_cfg (daemons s ! k)) \<noteq> dc_label (d_cfg (daemons s ! i))"
      if "\<not> d_unloaded (daemons s ! k)"
    proof -
      have "strcmp x x = 0" for x by (induction x) (simp_all add: hd0_def)
      moreover have "k < i \<or> i < k" using False by linarith
      ultimately show ?thesis using assms(1) that i k unfolding labels_ok_def by fastforce
    qed
    with False i k eq show ?thesis by auto
  qed (use i in simp)
  then have "\<forall>d\<in>set ?ds. d_unloaded d \<or> strcmp (dc_label (d_cfg d)) l \<noteq> 0"
    by (simp only: all_set_conv_all_nth) blast
  then have "find_by_label (s\<lparr>daemons := ?ds\<rparr>) l = None" by (simp add: find_by_label_None)
  then show ?thesis using Some
    by (simp add: lc_unload_def Let_def set_daemon_def) (simp add: find_by_label_def)
qed

theorem unload_frees_label_witness: "find_by_label (snd (lc_unload [97] demo_booted)) [97] = None"
  by (rule unload_frees_label)
    (simp_all add: demo_booted_def labels_ok_def is_cstr_def demo_cfg_def)

text \<open>loading never puts a second loaded entry with the same label into the table, and no
  other operation does.\<close>

theorem labels_stay_distinct:
  assumes "launchd_steps files s s'" "labels_ok s"
  shows "labels_ok s'"
  using assms by (induction rule: rtranclp_induct) (auto dest: labels_step)

theorem labels_stay_distinct_witness: "labels_ok (main_reap 7 demo_booted)"
  using labels_stay_distinct [OF demo_steps]
  by (simp only: demo_boot) (simp add: labels_ok_def demo_booted_def)

section \<open>What the code does not promise\<close>

text \<open>The record of an unloaded daemon keeps the number of its process after the process was
  reaped, and the shutdown signals that number, whoever has it then.\<close>

lemma shutdown_signals_reaped_process:
  "children (acts (main_reap 7 demo_unloaded)) 7 = None \<and>
   Killed 7 \<in> set (take 1 (acts (signal_all (main_reap 7 demo_unloaded))))"
  by code_simp

text \<open>The label of an unloaded daemon can be loaded while its process still runs, so that two
  processes of one label run at a time.\<close>

lemma reload_runs_twice:
  "let s = snd (snd (lc_load demo_files [] 128 demo_unloaded)) in
   children (acts s) 7 = Some 0 \<and> children (acts s) 8 = Some 1 \<and>
   dc_label (d_cfg (daemons s ! 0)) = dc_label (d_cfg (daemons s ! 1))"
proof -
  have "read_plist demo_files [] = Some demo_cfg"
    by (simp add: read_plist_def demo_files_def demo_parse)
  moreover have "find_by_label demo_unloaded (dc_label demo_cfg) = None"
    "length (daemons demo_unloaded) = 1" by code_simp+
  ultimately show ?thesis
    by (simp add: lc_load_def max_daemons_def) code_simp
qed

end
