(* ===== verification/Bootstrap.thy ===== *)
theory Bootstrap
  imports CString XpcValue "HOL-Library.Multiset"
begin

text \<open>
  The bootstrap namespace: the registry that launchd serves
  (\<open>userland/launchd/bootstrap_server.c\<close>) and its clients' half
  (\<open>userland/libc/src/mach_bootstrap.c\<close>).  A message is the record of the fields that the two
  sides read; the kernel carries it, so a port stands here for the right itself and not for
  the number it has in one task.  The transport between the two sides is an argument of the
  client functions.

  The locale \<open>keyed_store\<close> is the contract of the stores of the userland that map names to
  values: what a look-up finds after an insertion.  Inside it the effect of a whole sequence of
  insertions is proved once; the registry and libxpc's dictionaries are interpretations, and so
  is the environment of \<open>Environ.thy\<close>.
\<close>

section \<open>Stores of named values\<close>

locale keyed_store =
  fixes look :: "'k \<Rightarrow> 's \<Rightarrow> 'v option"
    and ins :: "'k \<Rightarrow> 'v \<Rightarrow> 's \<Rightarrow> 's"
    and inv :: "'s \<Rightarrow> bool"
    and key_ok :: "'k \<Rightarrow> bool"
  assumes look_ins: "inv s \<Longrightarrow> key_ok k \<Longrightarrow> key_ok k' \<Longrightarrow>
      look k' (ins k v s) = (if k' = k then Some v else look k' s)"
    and inv_ins: "inv s \<Longrightarrow> key_ok k \<Longrightarrow> inv (ins k v s)"
begin

definition ins_all :: "('k \<times> 'v) list \<Rightarrow> 's \<Rightarrow> 's" where
  "ins_all kvs s = foldl (\<lambda>s kv. ins (fst kv) (snd kv) s) s kvs"

lemma inv_ins_all: "inv s \<Longrightarrow> list_all (\<lambda>kv. key_ok (fst kv)) kvs \<Longrightarrow> inv (ins_all kvs s)"
  by (induction kvs arbitrary: s) (simp_all add: ins_all_def inv_ins)

lemma look_ins_all:
  "inv s \<Longrightarrow> list_all (\<lambda>kv. key_ok (fst kv)) kvs \<Longrightarrow> key_ok k \<Longrightarrow>
     look k (ins_all kvs s) = (case map_of (rev kvs) k of Some v \<Rightarrow> Some v | None \<Rightarrow> look k s)"
proof (induction kvs arbitrary: s)
  case (Cons kv kvs)
  then have "look k (ins_all kvs (ins (fst kv) (snd kv) s)) =
      (case map_of (rev kvs) k of Some v \<Rightarrow> Some v | None \<Rightarrow> look k (ins (fst kv) (snd kv) s))"
    by (intro Cons.IH) (simp_all add: inv_ins)
  with Cons.prems show ?case
    by (cases kv) (auto simp: ins_all_def look_ins map_add_def split: option.splits)
qed (simp add: ins_all_def)

lemma ins_twice:
  "inv s \<Longrightarrow> key_ok k \<Longrightarrow> key_ok k' \<Longrightarrow> look k' (ins k v (ins k w s)) = look k' (ins k v s)"
  by (simp add: look_ins inv_ins)

end

section \<open>The registry\<close>

record bs_service =
  bs_name :: cstr
  bs_port :: u32

text \<open>The list of services, newest first, the rights that were dropped, and the replies sent:
  the right to reply with, and the message.\<close>

record bs_request =
  rq_id :: nat
  rq_name :: "u8 list"
  rq_port :: u32
  rq_reply_to :: u32

record bs_reply =
  rp_id :: nat
  rp_complex :: bool
  rp_ret :: int
  rp_port :: u32

record bs_state =
  g_services :: "bs_service list"
  deallocated :: "u32 list"
  replies :: "(u32 \<times> bs_reply) list"

definition bootstrap_max_name_len :: nat where "bootstrap_max_name_len = 128"
definition bootstrap_register_msgh_id :: nat where "bootstrap_register_msgh_id = 9000"
definition bootstrap_look_up_msgh_id :: nat where "bootstrap_look_up_msgh_id = 9001"
definition kern_success :: int where "kern_success = 0"
definition kern_failure :: int where "kern_failure = 5"
definition kern_invalid_name :: int where "kern_invalid_name = 15"

text \<open>The name in a fixed field, cut to the last byte but one and terminated.\<close>

definition name_field :: "u8 list \<Rightarrow> cstr" where
  "name_field b = takeWhile (\<lambda>c. c \<noteq> 0) (take (bootstrap_max_name_len - 1) b)"

fun find_locked :: "cstr \<Rightarrow> bs_service list \<Rightarrow> bs_service option" where
  "find_locked name [] = None"
| "find_locked name (s # ss) =
     (if strncmp (bs_name s) name bootstrap_max_name_len = 0 then Some s else find_locked name ss)"

fun set_port :: "cstr \<Rightarrow> u32 \<Rightarrow> bs_service list \<Rightarrow> bs_service list" where
  "set_port name port [] = []"
| "set_port name port (s # ss) =
     (if strncmp (bs_name s) name bootstrap_max_name_len = 0 then s\<lparr>bs_port := port\<rparr> # ss
      else s # set_port name port ss)"

definition handle_register :: "bs_request \<Rightarrow> bs_state \<Rightarrow> bs_state" where
  "handle_register req s =
     (let name = name_field (rq_name req); port = rq_port req;
          s1 = (case find_locked name (g_services s) of
                  Some old \<Rightarrow> s\<lparr>deallocated := bs_port old # deallocated s,
                                g_services := set_port name port (g_services s)\<rparr>
                | None \<Rightarrow> s\<lparr>g_services := \<lparr>bs_name = name, bs_port = port\<rparr> # g_services s\<rparr>);
          reply = \<lparr>rp_id = bootstrap_register_msgh_id + 100, rp_complex = False,
                   rp_ret = kern_success, rp_port = 0\<rparr> in
      s1\<lparr>replies := (rq_reply_to req, reply) # replies s1\<rparr>)"

definition handle_look_up :: "bs_request \<Rightarrow> bs_state \<Rightarrow> bs_state" where
  "handle_look_up req s =
     (let name = name_field (rq_name req);
          reply = (case find_locked name (g_services s) of
                     Some e \<Rightarrow> \<lparr>rp_id = bootstrap_look_up_msgh_id + 100, rp_complex = True,
                                rp_ret = 0, rp_port = bs_port e\<rparr>
                   | None \<Rightarrow> \<lparr>rp_id = bootstrap_look_up_msgh_id + 100, rp_complex = False,
                              rp_ret = kern_invalid_name, rp_port = 0\<rparr>) in
      s\<lparr>replies := (rq_reply_to req, reply) # replies s\<rparr>)"

text \<open>One round of the server's loop, for a message that was received.\<close>

definition server_round :: "bs_request \<Rightarrow> bs_state \<Rightarrow> bs_state" where
  "server_round req s =
     (if rq_id req = bootstrap_register_msgh_id then handle_register req s
      else if rq_id req = bootstrap_look_up_msgh_id then handle_look_up req s
      else s)"

section \<open>The clients\<close>

text \<open>\<open>rpc\<close> sends a request and waits for the reply, or fails with a code of \<open>mach_msg\<close>.\<close>

definition put_name :: "cstr \<Rightarrow> u8 list" where
  "put_name name = take (bootstrap_max_name_len - 1) name @
     replicate (bootstrap_max_name_len - length (take (bootstrap_max_name_len - 1) name)) 0"

definition bootstrap_register ::
  "(bs_request \<Rightarrow> 's \<Rightarrow> (int + bs_reply) \<times> 's) \<Rightarrow> u32 \<Rightarrow> cstr \<Rightarrow> u32 \<Rightarrow> 's \<Rightarrow> int \<times> 's" where
  "bootstrap_register rpc reply_port name service_port s =
     (case rpc \<lparr>rq_id = bootstrap_register_msgh_id, rq_name = put_name name,
                rq_port = service_port, rq_reply_to = reply_port\<rparr> s of
        (Inl mr, s') \<Rightarrow> (mr, s')
      | (Inr reply, s') \<Rightarrow>
          if rp_id reply \<noteq> bootstrap_register_msgh_id + 100 then (kern_failure, s')
          else (rp_ret reply, s'))"

definition bootstrap_look_up ::
  "(bs_request \<Rightarrow> 's \<Rightarrow> (int + bs_reply) \<times> 's) \<Rightarrow> u32 \<Rightarrow> cstr \<Rightarrow> 's \<Rightarrow> (int \<times> u32 option) \<times> 's" where
  "bootstrap_look_up rpc reply_port name s =
     (case rpc \<lparr>rq_id = bootstrap_look_up_msgh_id, rq_name = put_name name,
                rq_port = 0, rq_reply_to = reply_port\<rparr> s of
        (Inl mr, s') \<Rightarrow> ((mr, None), s')
      | (Inr reply, s') \<Rightarrow>
          if rp_id reply \<noteq> bootstrap_look_up_msgh_id + 100 then ((kern_failure, None), s')
          else if \<not> rp_complex reply then ((rp_ret reply, None), s')
          else ((kern_success, Some (rp_port reply)), s'))"

text \<open>A kernel that carries every message, and a server that is up: the reply is the last one
  that the round sent to the right of the request.\<close>

definition carried :: "bs_request \<Rightarrow> bs_state \<Rightarrow> (int + bs_reply) \<times> bs_state" where
  "carried req s =
     (let s' = server_round req s in (Inr (snd (hd (replies s'))), s'))"

section \<open>The registry as a store\<close>

definition registry_ok :: "bs_state \<Rightarrow> bool" where
  "registry_ok s \<longleftrightarrow> distinct (map bs_name (g_services s)) \<and>
     (\<forall>e\<in>set (g_services s). is_cstr (bs_name e) \<and> length (bs_name e) < bootstrap_max_name_len)"

definition name_ok :: "cstr \<Rightarrow> bool" where
  "name_ok name \<longleftrightarrow> is_cstr name \<and> length name < bootstrap_max_name_len"

lemma name_field_ok: "name_ok (name_field b)"
proof -
  have "length (name_field b) \<le> bootstrap_max_name_len - 1"
    by (simp add: name_field_def) (metis length_takeWhile_le length_take min.cobounded2 le_trans)
  then show ?thesis
    by (auto simp: name_ok_def name_field_def is_cstr_def bootstrap_max_name_len_def dest: set_takeWhileD)
qed

lemma name_field_put_name: "is_cstr name \<Longrightarrow> name_field (put_name name) = take (bootstrap_max_name_len - 1) name"
proof -
  assume c: "is_cstr name"
  let ?n = "take (bootstrap_max_name_len - 1) name"
  have "\<forall>c\<in>set ?n. c \<noteq> 0" using c by (auto simp: is_cstr_def dest: in_set_takeD)
  moreover have "take (bootstrap_max_name_len - 1) (put_name name) =
      ?n @ replicate (bootstrap_max_name_len - 1 - length ?n) 0"
    by (simp add: put_name_def bootstrap_max_name_len_def)
  ultimately show ?thesis
    by (simp add: name_field_def takeWhile_append)
qed

lemma strncmp_names:
  "name_ok a \<Longrightarrow> name_ok b \<Longrightarrow> strncmp a b bootstrap_max_name_len = 0 \<longleftrightarrow> a = b"
  by (auto simp: name_ok_def strncmp_0_iff)

lemma find_locked_eq:
  "\<forall>e\<in>set ss. name_ok (bs_name e) \<Longrightarrow> name_ok name \<Longrightarrow>
     find_locked name ss = List.find (\<lambda>e. bs_name e = name) ss"
  by (induction ss) (simp_all add: strncmp_names)

lemma set_port_eq:
  "\<forall>e\<in>set ss. name_ok (bs_name e) \<Longrightarrow> name_ok name \<Longrightarrow> distinct (map bs_name ss) \<Longrightarrow>
     set_port name port ss = map (\<lambda>e. if bs_name e = name then e\<lparr>bs_port := port\<rparr> else e) ss"
proof (induction ss)
  case (Cons e ss)
  show ?case
  proof (cases "bs_name e = name")
    case True
    have "map (\<lambda>x. if bs_name x = name then x\<lparr>bs_port := port\<rparr> else x) ss = ss"
      using Cons.prems(3) True by (intro map_idI) (auto simp: image_iff)
    with True Cons.prems show ?thesis by (simp add: strncmp_names)
  next
    case False
    with Cons show ?thesis by (simp add: strncmp_names)
  qed
qed simp

definition registered :: "cstr \<Rightarrow> bs_state \<Rightarrow> u32 option" where
  "registered name s = map_option bs_port (find_locked name (g_services s))"

definition register :: "cstr \<Rightarrow> u32 \<Rightarrow> bs_state \<Rightarrow> bs_state" where
  "register name port s =
     handle_register \<lparr>rq_id = bootstrap_register_msgh_id, rq_name = put_name name,
       rq_port = port, rq_reply_to = 0\<rparr> s"

lemma registry_names: "registry_ok s \<Longrightarrow> \<forall>e\<in>set (g_services s). name_ok (bs_name e)"
  by (simp add: registry_ok_def name_ok_def)

lemma find_update:
  "List.find (\<lambda>e. bs_name e = n) (map (\<lambda>e. if bs_name e = name then e\<lparr>bs_port := port\<rparr> else e) ss) =
   map_option (\<lambda>e. if bs_name e = name then e\<lparr>bs_port := port\<rparr> else e)
     (List.find (\<lambda>e. bs_name e = n) ss)"
  by (induction ss) simp_all

lemma handle_register_eq:
  fixes req :: bs_request
  assumes "registry_ok s"
  defines "name \<equiv> name_field (rq_name req)"
  shows "g_services (handle_register req s) =
      (if name \<in> bs_name ` set (g_services s)
       then map (\<lambda>e. if bs_name e = name then e\<lparr>bs_port := rq_port req\<rparr> else e) (g_services s)
       else \<lparr>bs_name = name, bs_port = rq_port req\<rparr> # g_services s)"
proof -
  note n = registry_names [OF assms(1)] name_field_ok [of "rq_name req"]
  have "find_locked name (g_services s) = None \<longleftrightarrow> name \<notin> bs_name ` set (g_services s)"
    using n by (auto simp: name_def find_locked_eq find_None_iff image_iff)
  then show ?thesis using n assms
    by (auto simp: handle_register_def Let_def set_port_eq registry_ok_def split: option.split)
qed

lemma names_update:
  "map (bs_name \<circ> (\<lambda>e. if bs_name e = n then e\<lparr>bs_port := p\<rparr> else e)) ss = map bs_name ss"
  by (induction ss) simp_all

lemma handle_register_ok:
  assumes ok: "registry_ok s"
  shows "registry_ok (handle_register req s)"
proof -
  let ?n = "name_field (rq_name req)"
  have "distinct (map bs_name (g_services (handle_register req s)))"
    using ok by (simp add: registry_ok_def handle_register_eq [OF ok] names_update)
  moreover have "is_cstr ?n" "length ?n < bootstrap_max_name_len"
    using name_field_ok [of "rq_name req"] by (simp_all add: name_ok_def)
  ultimately show ?thesis
    using ok by (auto simp: registry_ok_def handle_register_eq [OF ok])
qed

lemma registered_handle:
  assumes "registry_ok s" "name_ok n"
  shows "registered n (handle_register req s) =
    (if n = name_field (rq_name req) then Some (rq_port req) else registered n s)"
proof -
  let ?name = "name_field (rq_name req)"
  have ok: "registry_ok (handle_register req s)" using assms(1) by (rule handle_register_ok)
  have f: "registered n (handle_register req s) =
      map_option bs_port (List.find (\<lambda>e. bs_name e = n) (g_services (handle_register req s)))"
    "registered n s = map_option bs_port (List.find (\<lambda>e. bs_name e = n) (g_services s))"
    using find_locked_eq [OF registry_names [OF ok] assms(2)]
      find_locked_eq [OF registry_names [OF assms(1)] assms(2)]
    by (simp_all only: registered_def)
  have found: "bs_name e = n" if "List.find (\<lambda>e. bs_name e = n) ss = Some e" for e ss
    using that by (auto simp: find_Some_iff)
  show ?thesis
  proof (cases "?name \<in> bs_name ` set (g_services s)")
    case False
    then show ?thesis unfolding f handle_register_eq [OF assms(1)] by simp
  next
    case True
    then have "List.find (\<lambda>e. bs_name e = ?name) (g_services s) \<noteq> None"
      by (auto simp: find_None_iff image_iff)
    with True found show ?thesis
      unfolding f handle_register_eq [OF assms(1)]
      by (cases "List.find (\<lambda>e. bs_name e = n) (g_services s)") (auto simp: find_update)
  qed
qed

interpretation reg: keyed_store registered register registry_ok name_ok
proof
  fix s k k' v
  assume "registry_ok s" "name_ok k" "name_ok k'"
  moreover from this have "name_field (put_name k) = k"
    by (simp add: name_field_put_name name_ok_def bootstrap_max_name_len_def)
  ultimately show "registered k' (register k v s) = (if k' = k then Some v else registered k' s)"
    by (simp add: register_def registered_handle)
qed (simp add: register_def handle_register_ok)

text \<open>libxpc's dictionaries keep the same contract.\<close>

interpretation dict: keyed_store "\<lambda>k kvs. xpc_dictionary_get_value kvs k"
  "\<lambda>k v kvs. xpc_dictionary_set_value kvs k v" dict_inv "\<lambda>_. True"
  by unfold_locales (simp_all add: get_value_map_of map_of_set_value set_value_inv)

lemma dictionary_create_lookup:
  "xpc_dictionary_get_value (xpc_dictionary_create kvs) k = map_of (rev kvs) k"
proof -
  have "xpc_dictionary_create kvs = dict.ins_all kvs []"
    by (simp add: xpc_dictionary_create_def dict.ins_all_def split_def)
  moreover have "dict_inv []" "xpc_dictionary_get_value [] k = None"
    by (simp_all add: dict_inv_def get_value_map_of)
  ultimately show ?thesis
    using dict.look_ins_all [of "[]" kvs k] by (simp add: list_all_iff split: option.split)
qed

section \<open>Clients and server together\<close>

definition short_name :: "cstr \<Rightarrow> cstr" where
  "short_name name = take (bootstrap_max_name_len - 1) name"

lemma short_name_ok: "is_cstr name \<Longrightarrow> name_ok (short_name name)"
  by (auto simp: short_name_def name_ok_def is_cstr_def bootstrap_max_name_len_def dest: in_set_takeD)

lemma put_name_short: "put_name (short_name name) = put_name name"
  by (simp add: put_name_def short_name_def)

lemma client_register:
  "bootstrap_register carried rp name port s =
     (kern_success, handle_register \<lparr>rq_id = bootstrap_register_msgh_id, rq_name = put_name name,
        rq_port = port, rq_reply_to = rp\<rparr> s)"
  by (simp add: bootstrap_register_def carried_def server_round_def handle_register_def Let_def)

lemma client_look_up:
  assumes "is_cstr name"
  shows "fst (bootstrap_look_up carried rp name s) =
     (case registered (short_name name) s of
        Some port \<Rightarrow> (kern_success, Some port) | None \<Rightarrow> (kern_invalid_name, None))"
  using assms
  by (simp add: bootstrap_look_up_def carried_def server_round_def handle_look_up_def Let_def
      registered_def name_field_put_name short_name_def bootstrap_register_msgh_id_def
      bootstrap_look_up_msgh_id_def split: option.split)

definition register_all :: "u32 \<Rightarrow> (cstr \<times> u32) list \<Rightarrow> bs_state \<Rightarrow> bs_state" where
  "register_all rp kvs s = foldl (\<lambda>s kv. snd (bootstrap_register carried rp (fst kv) (snd kv) s)) s kvs"

definition empty_registry :: bs_state where
  "empty_registry = \<lparr>g_services = [], deallocated = [], replies = []\<rparr>"

lemma register_all_registered:
  "registry_ok s \<Longrightarrow> \<forall>kv\<in>set kvs. is_cstr (fst kv) \<Longrightarrow> name_ok n \<Longrightarrow>
     registry_ok (register_all rp kvs s) \<and>
     registered n (register_all rp kvs s) =
       (case map_of (rev (map (\<lambda>kv. (short_name (fst kv), snd kv)) kvs)) n of
          Some p \<Rightarrow> Some p | None \<Rightarrow> registered n s)"
proof (induction kvs arbitrary: s)
  case (Cons kv kvs)
  let ?req = "\<lparr>rq_id = bootstrap_register_msgh_id, rq_name = put_name (fst kv),
        rq_port = snd kv, rq_reply_to = rp\<rparr>"
  have f: "name_field (put_name (fst kv)) = short_name (fst kv)"
    using Cons.prems by (simp add: name_field_put_name short_name_def)
  have "registry_ok (handle_register ?req s)" using Cons.prems by (simp add: handle_register_ok)
  from Cons.IH [OF this] Cons.prems show ?case
    by (simp add: register_all_def client_register registered_handle f map_add_def split: option.split)
qed (simp add: register_all_def)

lemma register_all_rights:
  "registry_ok s \<Longrightarrow>
     mset (map bs_port (g_services (register_all rp kvs s))) + mset (deallocated (register_all rp kvs s)) =
     mset (map snd kvs) + mset (map bs_port (g_services s)) + mset (deallocated s)"
proof (induction kvs arbitrary: s)
  case (Cons kv kvs)
  let ?req = "\<lparr>rq_id = bootstrap_register_msgh_id, rq_name = put_name (fst kv),
        rq_port = snd kv, rq_reply_to = rp\<rparr>"
  let ?s = "handle_register ?req s" and ?n = "name_field (put_name (fst kv))"
  have "find_locked n ss = Some e \<Longrightarrow>
      mset (map bs_port (set_port n p ss)) + {#bs_port e#} = mset (map bs_port ss) + {#p#}"
    for n p ss e by (induction ss) auto
  then have "mset (map bs_port (g_services ?s)) + mset (deallocated ?s) =
      {#snd kv#} + mset (map bs_port (g_services s)) + mset (deallocated s)"
    by (fastforce simp: handle_register_def Let_def split: option.split)
  with Cons.IH [OF handle_register_ok [OF Cons.prems], of ?req] show ?case
    by (simp add: register_all_def client_register)
qed (simp add: register_all_def)

section \<open>Properties\<close>

text \<open>clients and the registry together: after any registrations, a look-up answers the port
  registered last under the name, cut to the length of the name field on both sides, and the
  error code where there is none.\<close>

theorem registry_last_wins:
  assumes "\<forall>kv\<in>set kvs. is_cstr (fst kv)" "is_cstr name"
  shows "fst (bootstrap_look_up carried rp name (register_all rp kvs empty_registry)) =
    (case map_of (rev (map (\<lambda>kv. (short_name (fst kv), snd kv)) kvs)) (short_name name) of
       Some port \<Rightarrow> (kern_success, Some port) | None \<Rightarrow> (kern_invalid_name, None))"
proof -
  have "registry_ok empty_registry" "registered n empty_registry = None" for n
    by (simp_all add: registry_ok_def empty_registry_def registered_def)
  with register_all_registered [OF _ assms(1) short_name_ok [OF assms(2)], of empty_registry rp]
  have "registered (short_name name) (register_all rp kvs empty_registry) =
      map_of (rev (map (\<lambda>kv. (short_name (fst kv), snd kv)) kvs)) (short_name name)"
    by (simp split: option.split)
  then show ?thesis by (simp only: client_look_up [OF assms(2)])
qed

theorem registry_last_wins_witness:
  "fst (bootstrap_look_up carried 9 [97] (register_all 9 [([97], 5), ([97], 6)] empty_registry)) =
    (case map_of (rev (map (\<lambda>kv. (short_name (fst kv), snd kv)) [([97], 5 :: u32), ([97], 6)]))
        (short_name [97]) of
       Some port \<Rightarrow> (kern_success, Some port) | None \<Rightarrow> (kern_invalid_name, None))"
  by (rule registry_last_wins) (simp_all add: is_cstr_def)

text \<open>the registry loses no right and drops none twice: the rights it was given are the ones
  it holds and the ones it deallocated when a name was registered again.\<close>

theorem registry_keeps_rights:
  "mset (map bs_port (g_services (register_all rp kvs empty_registry))) +
     mset (deallocated (register_all rp kvs empty_registry)) = mset (map snd kvs)"
  using register_all_rights [of empty_registry rp kvs]
  by (simp add: empty_registry_def registry_ok_def)

end
