(* ===== verification/Control.thy ===== *)
theory Control
  imports Launchd
begin

text \<open>
  The control interface of launchd: the server thread (\<open>userland/launchd/control_server.c\<close>), the
  client stubs (\<open>userland/launchd/launchd_control_client.c\<close>) and the command
  (\<open>userland/launchctl/launchctl.c\<close>).  A message is the record of the fields the sides read;
  the transport is an argument of the client, which fails when \<open>mach_msg\<close> does, and whether the
  service can be looked up is another.

  The lemmas compose the three programs with the table of \<open>Launchd.thy\<close>: a command has exactly
  the effect of the table's operation on the label or path, cut to the size of its field.
\<close>

section \<open>Messages\<close>

definition lctl_label_len :: nat where "lctl_label_len = 128"
definition lctl_path_len :: nat where "lctl_path_len = 256"
definition lctl_max_jobs :: nat where "lctl_max_jobs = 64"
definition lctl_list_msgh_id :: nat where "lctl_list_msgh_id = 9200"
definition lctl_start_msgh_id :: nat where "lctl_start_msgh_id = 9201"
definition lctl_stop_msgh_id :: nat where "lctl_stop_msgh_id = 9202"
definition lctl_load_msgh_id :: nat where "lctl_load_msgh_id = 9203"
definition lctl_unload_msgh_id :: nat where "lctl_unload_msgh_id = 9204"

text \<open>\<open>cq_text\<close> is the label or path field of a request; \<open>cr_word\<close> is the word of a reply that
  holds the status or the number of jobs, whichever shape it has.\<close>

record ctl_request =
  cq_id :: nat
  cq_text :: "u8 list"

record ctl_reply =
  cr_id :: nat
  cr_word :: int
  cr_label :: cstr
  cr_jobs :: "lc_job_info list"

definition field_text :: "nat \<Rightarrow> u8 list \<Rightarrow> cstr" where
  "field_text n b = takeWhile (\<lambda>c. c \<noteq> 0) (take (n - 1) b)"

definition put_field :: "nat \<Rightarrow> cstr \<Rightarrow> u8 list" where
  "put_field n t = take (n - 1) t @ replicate (n - length (take (n - 1) t)) 0"

section \<open>The server\<close>

definition send_status_reply :: "nat \<Rightarrow> int \<Rightarrow> cstr option \<Rightarrow> ctl_reply" where
  "send_status_reply reply_id status label =
     \<lparr>cr_id = reply_id, cr_word = status,
      cr_label = (case label of None \<Rightarrow> [] | Some l \<Rightarrow> take (lctl_label_len - 1) l), cr_jobs = []\<rparr>"

definition handle_list :: "launchd \<Rightarrow> ctl_reply" where
  "handle_list s =
     (let jobs = lc_list s lctl_max_jobs in
      \<lparr>cr_id = lctl_list_msgh_id + 100, cr_word = int (length jobs), cr_label = [],
       cr_jobs = map (\<lambda>j. j\<lparr>ji_label := take (lctl_label_len - 1) (ji_label j)\<rparr>) jobs\<rparr>)"

definition handle_start :: "ctl_request \<Rightarrow> launchd \<Rightarrow> ctl_reply \<times> launchd" where
  "handle_start req s =
     (let (status, s') = lc_start (field_text lctl_label_len (cq_text req)) s in
      (send_status_reply (lctl_start_msgh_id + 100) status None, s'))"

definition handle_stop :: "ctl_request \<Rightarrow> launchd \<Rightarrow> ctl_reply \<times> launchd" where
  "handle_stop req s =
     (let (status, s') = lc_stop (field_text lctl_label_len (cq_text req)) s in
      (send_status_reply (lctl_stop_msgh_id + 100) status None, s'))"

definition handle_unload :: "ctl_request \<Rightarrow> launchd \<Rightarrow> ctl_reply \<times> launchd" where
  "handle_unload req s =
     (let (status, s') = lc_unload (field_text lctl_label_len (cq_text req)) s in
      (send_status_reply (lctl_unload_msgh_id + 100) status None, s'))"

definition handle_load :: "(cstr \<Rightarrow> cstr option) \<Rightarrow> ctl_request \<Rightarrow> launchd \<Rightarrow> ctl_reply \<times> launchd" where
  "handle_load files req s =
     (let (status, label, s') = lc_load files (field_text lctl_path_len (cq_text req)) lctl_label_len s in
      (send_status_reply (lctl_load_msgh_id + 100) status
         (Some (case label of None \<Rightarrow> [] | Some l \<Rightarrow> l)), s'))"

text \<open>One round of the thread; a message with an unknown number gets no reply.\<close>

definition control_round ::
  "(cstr \<Rightarrow> cstr option) \<Rightarrow> ctl_request \<Rightarrow> launchd \<Rightarrow> ctl_reply option \<times> launchd" where
  "control_round files req s =
     (if cq_id req = lctl_list_msgh_id then (Some (handle_list s), s)
      else if cq_id req = lctl_start_msgh_id then apfst Some (handle_start req s)
      else if cq_id req = lctl_stop_msgh_id then apfst Some (handle_stop req s)
      else if cq_id req = lctl_load_msgh_id then apfst Some (handle_load files req s)
      else if cq_id req = lctl_unload_msgh_id then apfst Some (handle_unload req s)
      else (None, s))"

section \<open>The client stubs\<close>

text \<open>\<open>reach\<close> says whether the service's port was found, \<open>rpc\<close> is the exchange of messages.\<close>

type_synonym 's exchange = "ctl_request \<Rightarrow> 's \<Rightarrow> ctl_reply option \<times> 's"

definition lctl_list ::
  "bool \<Rightarrow> 's exchange \<Rightarrow> int \<Rightarrow> 's \<Rightarrow> (int \<times> lc_job_info list) \<times> 's" where
  "lctl_list reach rpc mx s =
     (if \<not> reach then ((-1, []), s)
      else case rpc \<lparr>cq_id = lctl_list_msgh_id, cq_text = []\<rparr> s of
             (None, s') \<Rightarrow> ((-1, []), s')
           | (Some reply, s') \<Rightarrow>
               let n = (if cr_word reply > mx then mx else cr_word reply) in
               ((n, take (nat n) (cr_jobs reply)), s'))"

definition lctl_label_call :: "bool \<Rightarrow> 's exchange \<Rightarrow> nat \<Rightarrow> cstr \<Rightarrow> 's \<Rightarrow> int \<times> 's" where
  "lctl_label_call reach rpc msgh_id label s =
     (if \<not> reach then (-100, s)
      else case rpc \<lparr>cq_id = msgh_id, cq_text = put_field lctl_label_len label\<rparr> s of
             (None, s') \<Rightarrow> (-100, s')
           | (Some reply, s') \<Rightarrow> (cr_word reply, s'))"

definition lctl_start :: "bool \<Rightarrow> 's exchange \<Rightarrow> cstr \<Rightarrow> 's \<Rightarrow> int \<times> 's" where
  "lctl_start reach rpc label = lctl_label_call reach rpc lctl_start_msgh_id label"

definition lctl_stop :: "bool \<Rightarrow> 's exchange \<Rightarrow> cstr \<Rightarrow> 's \<Rightarrow> int \<times> 's" where
  "lctl_stop reach rpc label = lctl_label_call reach rpc lctl_stop_msgh_id label"

definition lctl_unload :: "bool \<Rightarrow> 's exchange \<Rightarrow> cstr \<Rightarrow> 's \<Rightarrow> int \<times> 's" where
  "lctl_unload reach rpc label = lctl_label_call reach rpc lctl_unload_msgh_id label"

definition lctl_load ::
  "bool \<Rightarrow> 's exchange \<Rightarrow> cstr \<Rightarrow> nat \<Rightarrow> 's \<Rightarrow> (int \<times> cstr option) \<times> 's" where
  "lctl_load reach rpc path label_out_sz s =
     (if \<not> reach then ((-100, None), s)
      else case rpc \<lparr>cq_id = lctl_load_msgh_id, cq_text = put_field lctl_path_len path\<rparr> s of
             (None, s') \<Rightarrow> ((-100, None), s')
           | (Some reply, s') \<Rightarrow>
               ((cr_word reply,
                 if cr_word reply = 0 then Some (take (label_out_sz - 1) (cr_label reply)) else None), s'))"

section \<open>The command\<close>

text \<open>What a command prints: the stream, and the pieces of the line; \<open>Quoted\<close> is a text in double
  quotes.\<close>

datatype piece = Lit string | Str cstr | Quoted cstr | Num int | Tab

type_synonym printed = "(nat \<times> piece list) list"

definition usage :: printed where
  "usage = [(2, [Lit ''usage: launchctl list [label]'']),
     (2, [Lit ''       launchctl start <label>'']), (2, [Lit ''       launchctl stop <label>'']),
     (2, [Lit ''       launchctl load <plist>'']), (2, [Lit ''       launchctl unload <label>''])]"

definition yes_no :: "bool \<Rightarrow> piece" where
  "yes_no b = Lit (if b then ''true'' else ''false'')"

definition cmd_list :: "bool \<Rightarrow> 's exchange \<Rightarrow> cstr list \<Rightarrow> 's \<Rightarrow> (int \<times> printed) \<times> 's" where
  "cmd_list reach rpc args s =
     (case lctl_list reach rpc (int lctl_max_jobs) s of
        ((n, jobs), s') \<Rightarrow>
          if n < 0 then ((1, [(2, [Lit ''launchctl: list: could not reach launchd''])]), s')
          else case args of
                 want # _ \<Rightarrow>
                   (case List.find (\<lambda>j. strcmp (ji_label j) want = 0) jobs of
                      Some j \<Rightarrow>
                        ((0, [(1, [Str (ji_label j)]),
                              (1, (if ji_pid j > 0 then [Tab, Lit ''pid = '', Num (ji_pid j)]
                                   else [Tab, Lit ''pid = (not running)''])),
                              (1, [Tab, Lit ''KeepAlive = '', yes_no (ji_keep_alive j)]),
                              (1, [Tab, Lit ''RunAtLoad = '', yes_no (ji_run_at_load j)])]), s')
                    | None \<Rightarrow>
                        ((1, [(2, [Lit ''launchctl: list: could not find service '', Quoted want])]), s'))
               | [] \<Rightarrow>
                   ((0, (1, [Lit ''PID'', Tab, Lit ''Label'']) #
                     map (\<lambda>j. (1, [if ji_pid j > 0 then Num (ji_pid j) else Lit ''-'', Tab,
                                   Str (ji_label j)])) jobs), s'))"

definition cmd_start :: "bool \<Rightarrow> 's exchange \<Rightarrow> cstr list \<Rightarrow> 's \<Rightarrow> (int \<times> printed) \<times> 's" where
  "cmd_start reach rpc args s =
     (case args of
        [] \<Rightarrow> ((1, usage), s)
      | a # _ \<Rightarrow>
          (case lctl_start reach rpc a s of
             (status, s') \<Rightarrow>
               if status = 0 then ((0, []), s')
               else if status = -1 then ((1, [(2, [Lit ''launchctl: start: could not find service '', Quoted a])]), s')
               else if status = -2 then ((1, [(2, [Lit ''launchctl: start: '', Quoted a, Lit '' is already running''])]), s')
               else ((1, [(2, [Lit ''launchctl: start: could not reach launchd''])]), s')))"

definition cmd_stop :: "bool \<Rightarrow> 's exchange \<Rightarrow> cstr list \<Rightarrow> 's \<Rightarrow> (int \<times> printed) \<times> 's" where
  "cmd_stop reach rpc args s =
     (case args of
        [] \<Rightarrow> ((1, usage), s)
      | a # _ \<Rightarrow>
          (case lctl_stop reach rpc a s of
             (status, s') \<Rightarrow>
               if status = 0 then ((0, []), s')
               else if status = -1 then ((1, [(2, [Lit ''launchctl: stop: could not find service '', Quoted a])]), s')
               else if status = -2 then ((1, [(2, [Lit ''launchctl: stop: '', Quoted a, Lit '' is not running''])]), s')
               else ((1, [(2, [Lit ''launchctl: stop: could not reach launchd''])]), s')))"

definition cmd_load :: "bool \<Rightarrow> 's exchange \<Rightarrow> cstr list \<Rightarrow> 's \<Rightarrow> (int \<times> printed) \<times> 's" where
  "cmd_load reach rpc args s =
     (case args of
        [] \<Rightarrow> ((1, usage), s)
      | a # _ \<Rightarrow>
          (case lctl_load reach rpc a lctl_label_len s of
             ((status, label), s') \<Rightarrow>
               if status = 0 then
                 ((0, [(1, [Lit ''launchctl: loaded '', Str (case label of None \<Rightarrow> [] | Some l \<Rightarrow> l)])]), s')
               else if status = -1 then ((1, [(2, [Lit ''launchctl: load: could not parse '', Quoted a])]), s')
               else if status = -2 then
                 ((1, [(2, [Lit ''launchctl: load: a service with that Label is already loaded''])]), s')
               else if status = -3 then ((1, [(2, [Lit ''launchctl: load: launchd's job table is full''])]), s')
               else ((1, [(2, [Lit ''launchctl: load: could not reach launchd''])]), s')))"

definition cmd_unload :: "bool \<Rightarrow> 's exchange \<Rightarrow> cstr list \<Rightarrow> 's \<Rightarrow> (int \<times> printed) \<times> 's" where
  "cmd_unload reach rpc args s =
     (case args of
        [] \<Rightarrow> ((1, usage), s)
      | a # _ \<Rightarrow>
          (case lctl_unload reach rpc a s of
             (status, s') \<Rightarrow>
               if status = 0 then ((0, []), s')
               else if status = -1 then ((1, [(2, [Lit ''launchctl: unload: could not find service '', Quoted a])]), s')
               else ((1, [(2, [Lit ''launchctl: unload: could not reach launchd''])]), s')))"

definition launchctl :: "bool \<Rightarrow> 's exchange \<Rightarrow> cstr list \<Rightarrow> 's \<Rightarrow> (int \<times> printed) \<times> 's" where
  "launchctl reach rpc argv s =
     (case argv of
        [] \<Rightarrow> ((1, usage), s)
      | [_] \<Rightarrow> ((1, usage), s)
      | _ # cmd # args \<Rightarrow>
          if strcmp cmd (cs ''list'') = 0 then cmd_list reach rpc args s
          else if strcmp cmd (cs ''start'') = 0 then cmd_start reach rpc args s
          else if strcmp cmd (cs ''stop'') = 0 then cmd_stop reach rpc args s
          else if strcmp cmd (cs ''load'') = 0 then cmd_load reach rpc args s
          else if strcmp cmd (cs ''unload'') = 0 then cmd_unload reach rpc args s
          else ((1, (2, [Lit ''launchctl: unknown subcommand '', Quoted cmd]) # usage), s))"

section \<open>The three programs together\<close>

lemma field_text_put: "is_cstr t \<Longrightarrow> 0 < n \<Longrightarrow> field_text n (put_field n t) = take (n - 1) t"
proof -
  assume "is_cstr t" "0 < n"
  then have "\<forall>c\<in>set (take (n - 1) t). c \<noteq> 0" by (auto simp: is_cstr_def dest: in_set_takeD)
  moreover have "take (n - 1) (put_field n t) =
      take (n - 1) t @ replicate (n - 1 - length (take (n - 1) t)) 0"
    using \<open>0 < n\<close> by (simp add: put_field_def)
  ultimately show ?thesis by (simp add: field_text_def takeWhile_append)
qed

lemmas msgh_ids = lctl_list_msgh_id_def lctl_start_msgh_id_def lctl_stop_msgh_id_def
  lctl_load_msgh_id_def lctl_unload_msgh_id_def

lemma lctl_calls:
  assumes "is_cstr label"
  shows "lctl_start True (control_round files) label s = lc_start (take 127 label) s"
    "lctl_stop True (control_round files) label s = lc_stop (take 127 label) s"
    "lctl_unload True (control_round files) label s = lc_unload (take 127 label) s"
proof -
  have f: "field_text lctl_label_len (put_field lctl_label_len label) = take 127 label"
    using assms by (simp add: field_text_put lctl_label_len_def)
  show "lctl_start True (control_round files) label s = lc_start (take 127 label) s"
    by (simp add: lctl_start_def lctl_label_call_def control_round_def handle_start_def f msgh_ids
        send_status_reply_def split: prod.split)
  show "lctl_stop True (control_round files) label s = lc_stop (take 127 label) s"
    by (simp add: lctl_stop_def lctl_label_call_def control_round_def handle_stop_def f msgh_ids
        send_status_reply_def split: prod.split)
  show "lctl_unload True (control_round files) label s = lc_unload (take 127 label) s"
    by (simp add: lctl_unload_def lctl_label_call_def control_round_def handle_unload_def f msgh_ids
        send_status_reply_def split: prod.split)
qed

lemma lctl_load_call:
  assumes "is_cstr path"
  shows "lctl_load True (control_round files) path 128 s =
    (case lc_load files (take 255 path) 128 s of
       (status, label, s') \<Rightarrow> ((status, if status = 0 then label else None), s'))"
proof -
  have f: "field_text lctl_path_len (put_field lctl_path_len path) = take 255 path"
    using assms by (simp add: field_text_put lctl_path_len_def)
  have "label = None \<longleftrightarrow> status \<noteq> 0" "label = Some l \<Longrightarrow> length l \<le> 127"
    if "lc_load files (take 255 path) 128 s = (status, label, s')" for status label s' l
    using that by (auto simp: lc_load_def Let_def split: option.splits if_splits)
  then show ?thesis
    by (cases "lc_load files (take 255 path) 128 s")
      (auto simp: lctl_load_def control_round_def handle_load_def f msgh_ids send_status_reply_def
        lctl_label_len_def split: option.splits)
qed

lemma lctl_list_call:
  "lctl_list True (control_round files) (int lctl_max_jobs) s =
     ((int (length (lc_list s 64)), lc_list s 64), s)"
proof -
  have "map (\<lambda>j. j\<lparr>ji_label := take (lctl_label_len - 1) (ji_label j)\<rparr>) (lc_list s 64) = lc_list s 64"
    by (auto simp: lc_list_def lctl_label_len_def dest!: in_set_takeD intro!: map_idI)
  moreover have "length (lc_list s 64) \<le> 64" by (simp add: lc_list_def lc_max_list_def)
  ultimately show ?thesis
    by (simp add: lctl_list_def control_round_def handle_list_def Let_def lctl_max_jobs_def)
qed

lemma subcommands:
  "strcmp (cs ''start'') (cs ''list'') = 0 \<longleftrightarrow> False" "strcmp (cs ''stop'') (cs ''list'') = 0 \<longleftrightarrow> False"
  "strcmp (cs ''stop'') (cs ''start'') = 0 \<longleftrightarrow> False" "strcmp (cs ''load'') (cs ''list'') = 0 \<longleftrightarrow> False"
  "strcmp (cs ''load'') (cs ''start'') = 0 \<longleftrightarrow> False" "strcmp (cs ''load'') (cs ''stop'') = 0 \<longleftrightarrow> False"
  "strcmp (cs ''unload'') (cs ''list'') = 0 \<longleftrightarrow> False" "strcmp (cs ''unload'') (cs ''start'') = 0 \<longleftrightarrow> False"
  "strcmp (cs ''unload'') (cs ''stop'') = 0 \<longleftrightarrow> False" "strcmp (cs ''unload'') (cs ''load'') = 0 \<longleftrightarrow> False"
  by code_simp+

lemma strcmp_refl [simp]: "strcmp x x = 0"
  by (induction x) (simp_all add: hd0_def)

text \<open>The exit status for a status of the table's operation.\<close>

definition exit_status :: "int \<Rightarrow> int" where
  "exit_status status = (if status = 0 then 0 else 1)"

lemma find_labels:
  "List.find (\<lambda>j. strcmp (ji_label j) want = 0) (map f ds) \<noteq> None \<longleftrightarrow>
     (\<exists>d\<in>set ds. strcmp (ji_label (f d)) want = 0)"
  by (auto simp: find_None_iff)

section \<open>Properties\<close>

text \<open>running launchctl against launchd has exactly the effect of the table's operation on the
  given label or path, cut to its field, and exits with 0 exactly when the operation succeeds.\<close>

theorem launchctl_correct:
  assumes "is_cstr a"
  shows "apfst fst (launchctl True (control_round files) [prog, cs ''start'', a] s) =
      apfst exit_status (lc_start (take 127 a) s) \<and>
    apfst fst (launchctl True (control_round files) [prog, cs ''stop'', a] s) =
      apfst exit_status (lc_stop (take 127 a) s) \<and>
    apfst fst (launchctl True (control_round files) [prog, cs ''unload'', a] s) =
      apfst exit_status (lc_unload (take 127 a) s) \<and>
    apfst fst (launchctl True (control_round files) [prog, cs ''load'', a] s) =
      apfst exit_status (apsnd snd (lc_load files (take 255 a) 128 s))"
proof (intro conjI)
  show "apfst fst (launchctl True (control_round files) [prog, cs ''start'', a] s) =
      apfst exit_status (lc_start (take 127 a) s)"
    using assms by (simp add: launchctl_def subcommands cmd_start_def lctl_calls exit_status_def
        split: prod.split)
  show "apfst fst (launchctl True (control_round files) [prog, cs ''stop'', a] s) =
      apfst exit_status (lc_stop (take 127 a) s)"
    using assms by (simp add: launchctl_def subcommands cmd_stop_def lctl_calls exit_status_def
        split: prod.split)
  show "apfst fst (launchctl True (control_round files) [prog, cs ''unload'', a] s) =
      apfst exit_status (lc_unload (take 127 a) s)"
    using assms by (simp add: launchctl_def subcommands cmd_unload_def lctl_calls exit_status_def
        split: prod.split)
  show "apfst fst (launchctl True (control_round files) [prog, cs ''load'', a] s) =
      apfst exit_status (apsnd snd (lc_load files (take 255 a) 128 s))"
    using assms by (simp add: launchctl_def subcommands cmd_load_def lctl_load_call
        lctl_label_len_def exit_status_def split: prod.split)
qed

theorem launchctl_correct_witness:
  "apfst fst (launchctl True (control_round demo_files) [[108], cs ''start'', [97]] demo_booted) =
      apfst exit_status (lc_start (take 127 [97]) demo_booted)"
  using launchctl_correct [of "[97]" demo_files "[108]" demo_booted] by (simp add: is_cstr_def)

text \<open>\<open>launchctl list\<close> with a label exits with 0 exactly when the table has a loaded entry with
  it: the fixed sizes of the reply never hide an entry.\<close>

theorem launchctl_list_finds:
  assumes "length (daemons s) \<le> max_daemons"
    and "\<forall>d\<in>set (daemons s). length (dc_label (d_cfg d)) \<le> 127"
  shows "fst (fst (launchctl True (control_round files) [prog, cs ''list'', want] s)) =
      (if find_by_label s want \<noteq> None then 0 else 1)"
proof -
  let ?f = "\<lambda>d. \<lparr>ji_label = take 127 (dc_label (d_cfg d)), ji_pid = d_pid d,
    ji_keep_alive = dc_keep_alive (d_cfg d), ji_run_at_load = dc_run_at_load (d_cfg d)\<rparr>"
  let ?ds = "filter (\<lambda>d. \<not> d_unloaded d) (daemons s)"
  have "length ?ds \<le> 64"
    using assms(1) le_trans [OF length_filter_le] by (simp add: max_daemons_def)
  then have l: "lc_list s 64 = map ?f ?ds" by (simp add: lc_list_def lc_max_list_def)
  have "List.find (\<lambda>j. strcmp (ji_label j) want = 0) (lc_list s 64) \<noteq> None \<longleftrightarrow>
      find_by_label s want \<noteq> None"
    using assms(2) unfolding l find_labels find_by_label_None by auto
  then show ?thesis
    by (auto simp: launchctl_def cmd_list_def lctl_list_call split: option.splits)
qed

theorem launchctl_list_finds_witness:
  "fst (fst (launchctl True (control_round demo_files) [[108], cs ''list'', [97]] demo_booted)) =
      (if find_by_label demo_booted [97] \<noteq> None then 0 else 1)"
  by (rule launchctl_list_finds) (simp_all add: demo_booted_def max_daemons_def demo_cfg_def)

end
