(* ===== verification/Environ.thy ===== *)
theory Environ
  imports Bootstrap
begin

text \<open>
  The environment of \<open>userland/libc/src/stdlib_misc.c\<close>: \<open>getenv\<close>, \<open>setenv\<close>, \<open>unsetenv\<close> and
  \<open>putenv\<close>.  \<open>environ\<close> is null or the list of its strings; the array that libc owns has room for
  \<open>g_env_cap\<close> strings and the terminator.  Whether \<open>malloc\<close> has memory for a new string is the
  argument \<open>mem\<close>; the array itself is allocated without a check, and is assumed to be there.
\<close>

section \<open>The operations\<close>

record env_state =
  environ :: "cstr list option"
  g_env_owned :: bool
  g_env_cap :: nat

text \<open>\<open>strncmp(e, name, nlen) == 0 && e[nlen] == '='\<close>\<close>

definition entry_for :: "cstr \<Rightarrow> cstr \<Rightarrow> bool" where
  "entry_for name e \<longleftrightarrow> strncmp e name (length name) = 0 \<and> hd0 (drop (length name) e) = 61"

fun getenv_loop :: "cstr \<Rightarrow> cstr list \<Rightarrow> cstr option" where
  "getenv_loop name [] = None"
| "getenv_loop name (e # es) =
     (if entry_for name e then Some (drop (length name + 1) e) else getenv_loop name es)"

definition getenv :: "cstr \<Rightarrow> env_state \<Rightarrow> cstr option" where
  "getenv name s = (case environ s of None \<Rightarrow> None | Some es \<Rightarrow> getenv_loop name es)"

definition env_take_ownership :: "env_state \<Rightarrow> env_state" where
  "env_take_ownership s =
     (if g_env_owned s then s
      else let es = (case environ s of None \<Rightarrow> [] | Some es \<Rightarrow> es) in
        \<lparr>environ = Some es, g_env_owned = True, g_env_cap = length es + 16\<rparr>)"

text \<open>The search of \<open>setenv\<close> and \<open>unsetenv\<close>: the strings before the first entry for the name,
  and the strings from it on.\<close>

fun find_entry :: "cstr \<Rightarrow> cstr list \<Rightarrow> cstr list \<times> cstr list" where
  "find_entry name [] = ([], [])"
| "find_entry name (e # es) =
     (if entry_for name e then ([], e # es)
      else let (pre, post) = find_entry name es in (e # pre, post))"

definition setenv :: "bool \<Rightarrow> cstr \<Rightarrow> cstr \<Rightarrow> bool \<Rightarrow> env_state \<Rightarrow> int \<times> env_state" where
  "setenv mem name val overwrite s0 =
     (let s = env_take_ownership s0;
          es = (case environ s of None \<Rightarrow> [] | Some es \<Rightarrow> es);
          entry = name @ [61] @ val in
      case find_entry name es of
        (pre, old # post) \<Rightarrow>
          if \<not> overwrite then (0, s)
          else if \<not> mem then (-1, s)
          else (0, s\<lparr>environ := Some (pre @ entry # post)\<rparr>)
      | (pre, []) \<Rightarrow>
          let n = length es;
              s1 = (if g_env_cap s \<le> n + 1 then s\<lparr>g_env_cap := g_env_cap s * 2 + 16\<rparr> else s) in
          if \<not> mem then (-1, s1)
          else (0, s1\<lparr>environ := Some (es @ [entry])\<rparr>))"

definition unsetenv :: "cstr \<Rightarrow> env_state \<Rightarrow> int \<times> env_state" where
  "unsetenv name s0 =
     (let s = env_take_ownership s0;
          es = (case environ s of None \<Rightarrow> [] | Some es \<Rightarrow> es) in
      case find_entry name es of
        (pre, old # post) \<Rightarrow> (0, s\<lparr>environ := Some (pre @ post)\<rparr>)
      | (pre, []) \<Rightarrow> (0, s))"

definition putenv :: "bool \<Rightarrow> cstr \<Rightarrow> env_state \<Rightarrow> int \<times> env_state" where
  "putenv mem string s =
     (case strchr string 61 of
        None \<Rightarrow> unsetenv string s
      | Some eq \<Rightarrow> setenv mem (take (length string - length eq) string) (drop 1 eq) True s)"

section \<open>Entries\<close>

definition env_name :: "cstr \<Rightarrow> bool" where
  "env_name k \<longleftrightarrow> is_cstr k \<and> 61 \<notin> set k"

definition entries :: "env_state \<Rightarrow> cstr list" where
  "entries s = (case environ s of None \<Rightarrow> [] | Some es \<Rightarrow> es)"

definition env_ok :: "env_state \<Rightarrow> bool" where
  "env_ok s \<longleftrightarrow> (g_env_owned s \<longrightarrow> environ s \<noteq> None \<and> length (entries s) \<le> g_env_cap s)"

lemma strncmp_cut: "is_cstr name \<Longrightarrow> strncmp e name (length name) = 0 \<longleftrightarrow> take (length name) e = name"
  by (simp add: strncmp_prefix starts_def)

lemma entry_for_own: "is_cstr k \<Longrightarrow> entry_for k (k @ 61 # v)"
  by (simp add: entry_for_def strncmp_cut hd0_def)

lemma entry_for_other:
  assumes "env_name k" "env_name k'" "k' \<noteq> k"
  shows "\<not> entry_for k' (k @ 61 # v)"
proof
  assume "entry_for k' (k @ 61 # v)"
  then have e: "take (length k') (k @ 61 # v) = k'" "hd0 (drop (length k') (k @ 61 # v)) = 61"
    using assms by (auto simp: entry_for_def strncmp_cut env_name_def)
  consider "length k' < length k" | "length k' = length k" | "length k < length k'" by linarith
  then show False
  proof cases
    case 1
    then have "hd0 (drop (length k') (k @ 61 # v)) = k ! length k'"
      by (simp add: hd0_def Cons_nth_drop_Suc [symmetric] split: list.split)
    with e 1 assms show False by (auto simp: env_name_def dest: nth_mem)
  next
    case 2
    with e assms show False by simp
  next
    case 3
    then have "k' ! length k = 61"
      using arg_cong [OF e(1), of "\<lambda>x. x ! length k"] by (simp add: nth_append)
    with 3 assms show False by (metis env_name_def nth_mem)
  qed
qed

lemma find_entry_split:
  "find_entry name es = (pre, post) \<Longrightarrow> es = pre @ post \<and> (\<forall>e\<in>set pre. \<not> entry_for name e) \<and>
     (post \<noteq> [] \<longrightarrow> entry_for name (hd post))"
  by (induction es arbitrary: pre) (auto split: if_splits prod.splits)

lemma getenv_loop_append:
  "getenv_loop name (xs @ ys) = (case getenv_loop name xs of None \<Rightarrow> getenv_loop name ys | Some v \<Rightarrow> Some v)"
  by (induction xs) simp_all

lemma getenv_loop_None: "getenv_loop name es = None \<longleftrightarrow> (\<forall>e\<in>set es. \<not> entry_for name e)"
  by (induction es) simp_all

lemma getenv_entries: "getenv name s = getenv_loop name (entries s)"
  by (simp add: getenv_def entries_def split: option.split)

lemma ownership [simp]:
  "entries (env_take_ownership s) = entries s" "getenv k (env_take_ownership s) = getenv k s"
  "env_ok s \<Longrightarrow> env_ok (env_take_ownership s)" "g_env_owned (env_take_ownership s)"
  by (auto simp: env_take_ownership_def getenv_def entries_def env_ok_def Let_def split: option.split)

lemma entries_updates [simp]:
  "entries (s\<lparr>environ := Some es\<rparr>) = es" "entries (s\<lparr>g_env_cap := c\<rparr>) = entries s"
  by (simp_all add: entries_def)

text \<open>Where two names have different entries, replacing one leaves the other.\<close>

lemma getenv_replace:
  assumes "env_name k" "env_name k'" "entry_for k old"
    and "\<forall>e\<in>set pre. \<not> entry_for k e" and "entry_for k' old \<Longrightarrow> k' = k"
  shows "getenv_loop k' (pre @ (k @ 61 # v) # post) =
    (if k' = k then Some v else getenv_loop k' (pre @ old # post))"
proof (cases "k' = k")
  case True
  then have "getenv_loop k' pre = None" using assms(4) by (simp add: getenv_loop_None)
  with True assms(1) show ?thesis
    by (simp add: getenv_loop_append entry_for_own env_name_def)
next
  case False
  then show ?thesis using assms entry_for_other [OF assms(1,2) False]
    by (auto simp: getenv_loop_append split: option.split)
qed

text \<open>Two names without an equals sign never share an entry.\<close>

lemma entry_unique:
  assumes "env_name k" "env_name k'" "entry_for k e" "entry_for k' e"
  shows "k' = k"
proof -
  have e: "take (length k) e = k" "hd0 (drop (length k) e) = 61"
    using assms by (auto simp: entry_for_def strncmp_cut env_name_def)
  then obtain v where "drop (length k) e = 61 # v"
    by (cases "drop (length k) e") (auto simp: hd0_def)
  then have "e = k @ 61 # v" using e(1) by (metis append_take_drop_id)
  then show ?thesis using entry_for_other assms by metis
qed

lemma setenv_entries:
  "entries (snd (setenv True k v ov s)) =
     (case find_entry k (entries s) of
        (pre, old # post) \<Rightarrow> if ov then pre @ (k @ 61 # v) # post else entries s
      | (pre, []) \<Rightarrow> entries s @ [k @ 61 # v])"
  by (auto simp: setenv_def Let_def entries_def [symmetric] split: prod.split list.split)

lemma find_entry_length: "find_entry k es = (pre, post) \<Longrightarrow> length es = length pre + length post"
  using find_entry_split [of k es pre post] by simp

lemma setenv_ok:
  assumes "env_ok s"
  shows "env_ok (snd (setenv True k v ov s))"
proof -
  let ?s = "env_take_ownership s"
  have ok: "env_ok ?s" "g_env_owned ?s" using assms by simp_all
  then have "length (entries ?s) \<le> g_env_cap ?s" by (simp add: env_ok_def)
  moreover obtain pre post where f: "find_entry k (entries ?s) = (pre, post)" by force
  ultimately show ?thesis
    using ok find_entry_length [OF f]
    by (cases post) (auto simp: setenv_def Let_def entries_def [symmetric] f [simplified] env_ok_def
        simp del: ownership(1))
qed

lemma getenv_setenv:
  assumes "env_name k" "env_name k'"
  shows "getenv k' (snd (setenv True k v ov s)) =
    (if k' = k \<and> (ov \<or> getenv k s = None) then Some v else getenv k' s)"
proof (cases "find_entry k (entries s)")
  case (Pair pre post)
  note f = find_entry_split [OF Pair]
  have k: "is_cstr k" using assms by (simp add: env_name_def)
  show ?thesis
  proof (cases post)
    case Nil
    with f have n: "getenv_loop k (entries s) = None" by (simp add: getenv_loop_None)
    have e: "entries (snd (setenv True k v ov s)) = entries s @ [k @ 61 # v]"
      using Nil Pair by (simp add: setenv_entries)
    show ?thesis
    proof (cases "k' = k")
      case True
      with n k show ?thesis by (simp add: getenv_entries e getenv_loop_append entry_for_own)
    next
      case False
      from entry_for_other [OF assms False, of v] False show ?thesis
        by (simp add: getenv_entries e getenv_loop_append split: option.split)
    qed
  next
    case (Cons old rest)
    then have o: "entries s = pre @ old # rest" "entry_for k old" using f by auto
    then have n: "getenv_loop k (entries s) \<noteq> None" by (auto simp: getenv_loop_None)
    have e: "entries (snd (setenv True k v ov s)) =
        (if ov then pre @ (k @ 61 # v) # rest else entries s)"
      using Cons Pair by (simp add: setenv_entries)
    have p: "\<forall>e\<in>set pre. \<not> entry_for k e" using f by blast
    have u: "entry_for k' old \<Longrightarrow> k' = k" using entry_unique [OF assms o(2)] .
    from getenv_replace [OF assms o(2) p u, of v rest] n show ?thesis
      unfolding getenv_entries e o(1) by (cases ov) simp_all
  qed
qed

interpretation env: keyed_store getenv "\<lambda>k v s. snd (setenv True k v True s)" env_ok env_name
  by unfold_locales (simp_all add: getenv_setenv setenv_ok)

definition env_unique :: "env_state \<Rightarrow> bool" where
  "env_unique s \<longleftrightarrow>
     (\<forall>pre e post k. env_name k \<longrightarrow> entries s = pre @ e # post \<longrightarrow> entry_for k e \<longrightarrow>
        (\<forall>e'\<in>set post. \<not> entry_for k e'))"

lemma getenv_unsetenv:
  assumes "env_name k" "env_name k'" "env_unique s"
  shows "getenv k' (snd (unsetenv k s)) = (if k' = k then None else getenv k' s)"
proof (cases "find_entry k (entries s)")
  case (Pair pre post)
  note f = find_entry_split [OF Pair]
  have e: "entries (snd (unsetenv k s)) =
      (case find_entry k (entries s) of (pre, old # post) \<Rightarrow> pre @ post | (pre, []) \<Rightarrow> entries s)"
    by (auto simp: unsetenv_def Let_def entries_def [symmetric] split: prod.split list.split)
  show ?thesis
  proof (cases post)
    case Nil
    with f Pair show ?thesis by (auto simp: getenv_entries e getenv_loop_None)
  next
    case (Cons old rest)
    then have o: "entries s = pre @ old # rest" "entry_for k old" using f by auto
    show ?thesis
    proof (cases "k' = k")
      case True
      have "\<forall>e'\<in>set rest. \<not> entry_for k e'" using assms(3,1) o unfolding env_unique_def by blast
      then have "getenv_loop k (pre @ rest) = None" using f by (auto simp: getenv_loop_None)
      with True Cons Pair show ?thesis by (simp add: getenv_entries e)
    next
      case False
      then have "\<not> entry_for k' old" using entry_unique [OF assms(1,2) o(2)] by blast
      with False Cons Pair o show ?thesis
        by (simp add: getenv_entries e getenv_loop_append split: option.split)
    qed
  qed
qed

lemma putenv_setenv:
  assumes "env_name k"
  shows "putenv mem (k @ 61 # v) s = setenv mem k v True s"
proof -
  have "strchr (k @ 61 # v) 61 = Some (61 # v)" if "61 \<notin> set k" using that by (induction k) auto
  with assms show ?thesis by (simp add: putenv_def env_name_def)
qed

section \<open>Properties\<close>


definition demo_env :: env_state where
  "demo_env = \<lparr>environ = Some [[65, 61, 49]], g_env_owned = False, g_env_cap = 0\<rparr>"

lemma demo_env_unique: "env_unique demo_env"
  by (auto simp: env_unique_def demo_env_def entries_def Cons_eq_append_conv)


end
