(* ===== verification/Stdlib.thy ===== *)
theory Stdlib
  imports CString
begin

text \<open>
  More of \<open>userland/libc/src/stdlib_misc.c\<close>: the integer parsers, the one-byte locale's string
  conversions, the random numbers, \<open>realpath\<close> and the temporary names.  The signed parser
  computes in \<open>long\<close>; an overflow, which C leaves undefined, is \<open>Undef\<close>.  The current directory,
  the kernel's entropy and the answers of the file system are arguments.

  The lemmas show that the parsers read back every number printed in any base, that \<open>realpath\<close>
  is exact on paths without \<open>..\<close>, and what it does wrong on the others.
\<close>

section \<open>Integers\<close>

definition isspace :: "u8 \<Rightarrow> bool" where
  "isspace c \<longleftrightarrow> c = 32 \<or> c = 9 \<or> c = 10 \<or> c = 13 \<or> c = 11 \<or> c = 12"

definition digit_of :: "u8 \<Rightarrow> int option" where
  "digit_of c =
     (if 48 \<le> c \<and> c \<le> 57 then Some (uint c - 48)
      else if 97 \<le> c \<and> c \<le> 122 then Some (uint c - 97 + 10)
      else if 65 \<le> c \<and> c \<le> 90 then Some (uint c - 65 + 10)
      else None)"

definition long_max :: int where "long_max = 2 ^ 63 - 1"

text \<open>White space, sign and prefix: the sign, the base and the rest.\<close>

definition number_prefix :: "cstr \<Rightarrow> int \<Rightarrow> bool \<times> int \<times> cstr" where
  "number_prefix nptr base0 =
     (let p = dropWhile isspace nptr;
          neg = (hd0 p = 45);
          p1 = (if hd0 p = 43 \<or> hd0 p = 45 then drop 1 p else p) in
      if (base0 = 0 \<or> base0 = 16) \<and> hd0 p1 = 48 \<and> (hd0 (drop 1 p1) = 120 \<or> hd0 (drop 1 p1) = 88)
      then (neg, 16, drop 2 p1)
      else if base0 = 0 \<and> hd0 p1 = 48 then (neg, 8, p1)
      else if base0 = 0 then (neg, 10, p1)
      else (neg, base0, p1))"

fun strtol_loop :: "int \<Rightarrow> int \<Rightarrow> cstr \<Rightarrow> (int \<times> cstr) outcome" where
  "strtol_loop base val [] = Ret (val, [])"
| "strtol_loop base val (c # p) =
     (case digit_of c of
        None \<Rightarrow> Ret (val, c # p)
      | Some d \<Rightarrow>
          if base \<le> d then Ret (val, c # p)
          else if long_max < val * base + d then Undef
          else strtol_loop base (val * base + d) p)"

definition strtol :: "cstr \<Rightarrow> int \<Rightarrow> (int \<times> cstr) outcome" where
  "strtol nptr base0 =
     (let (neg, base, start) = number_prefix nptr base0 in
      obind (strtol_loop base 0 start) (\<lambda>(val, p).
        Ret (if neg then - val else val, if p = start then nptr else p)))"

fun strtoul_loop :: "int \<Rightarrow> u64 \<Rightarrow> cstr \<Rightarrow> u64 \<times> cstr" where
  "strtoul_loop base val [] = (val, [])"
| "strtoul_loop base val (c # p) =
     (case digit_of c of
        None \<Rightarrow> (val, c # p)
      | Some d \<Rightarrow>
          if base \<le> d then (val, c # p)
          else strtoul_loop base (val * of_int base + of_int d) p)"

definition strtoul :: "cstr \<Rightarrow> int \<Rightarrow> u64 \<times> cstr" where
  "strtoul nptr base0 =
     (let (neg, base, start) = number_prefix nptr base0; (val, p) = strtoul_loop base 0 start in
      (if neg then - val else val, if p = start then nptr else p))"

text \<open>The digits of a number, for the round trip.\<close>

definition digit_char :: "nat \<Rightarrow> u8" where
  "digit_char d = (if d < 10 then of_nat (48 + d) else of_nat (97 + (d - 10)))"

fun print_base :: "nat \<Rightarrow> nat \<Rightarrow> cstr" where
  "print_base b n =
     (if b < 2 \<or> n < b then [digit_char n] else print_base b (n div b) @ [digit_char (n mod b)])"

declare print_base.simps [simp del]

lemma digit_of_char: "d < 36 \<Longrightarrow> digit_of (digit_char d) = Some (int d)"
proof -
  have "list_all (\<lambda>d. digit_of (digit_char d) = Some (int d)) [0..<36]" by code_simp
  then show "d < 36 \<Longrightarrow> digit_of (digit_char d) = Some (int d)" by (simp add: list_all_iff)
qed

lemma digit_char_plain: "d < 36 \<Longrightarrow>
  \<not> isspace (digit_char d) \<and> digit_char d \<noteq> 43 \<and> digit_char d \<noteq> 45 \<and> (digit_char d = 48 \<longleftrightarrow> d = 0)"
proof -
  have "list_all (\<lambda>d. \<not> isspace (digit_char d) \<and> digit_char d \<noteq> 43 \<and> digit_char d \<noteq> 45 \<and>
      (digit_char d = 48 \<longleftrightarrow> d = 0)) [0..<36]" by code_simp
  then show "d < 36 \<Longrightarrow> \<not> isspace (digit_char d) \<and> digit_char d \<noteq> 43 \<and> digit_char d \<noteq> 45 \<and>
      (digit_char d = 48 \<longleftrightarrow> d = 0)" by (simp add: list_all_iff)
qed

lemma strtol_loop_append:
  "strtol_loop b v xs = Ret (w, []) \<Longrightarrow> strtol_loop b v (xs @ ys) = strtol_loop b w ys"
  by (induction b v xs rule: strtol_loop.induct) (auto split: option.splits if_splits)

lemma strtol_loop_print:
  assumes b: "2 \<le> b" "b \<le> 36" and n: "int n \<le> long_max"
  shows "strtol_loop (int b) 0 (print_base b n) = Ret (int n, [])"
  using n
proof (induction n rule: less_induct)
  case (less n)
  show ?case
  proof (cases "n < b")
    case True
    with b less.prems show ?thesis
      by (subst print_base.simps) (simp add: digit_of_char)
  next
    case False
    have "n div b < n" using b False by (intro div_less_dividend) auto
    then have "strtol_loop (int b) 0 (print_base b (n div b)) = Ret (int (n div b), [])"
      using less by (intro less.IH) linarith+
    moreover have m: "n mod b < b" using b by simp
    moreover from m b have "n mod b < 36" "\<not> b \<le> n mod b" by linarith+
    moreover have "int (n div b) * int b + int (n mod b) = int n"
      by (metis div_mult_mod_eq of_nat_add of_nat_mult)
    ultimately show ?thesis using b False less.prems
      by (subst print_base.simps) (simp add: strtol_loop_append digit_of_char)
  qed
qed

lemma print_base_hd:
  assumes b: "2 \<le> b" "b \<le> 36"
  shows "\<exists>d xs. print_base b n = digit_char d # xs \<and> d < 36 \<and> (d = 0 \<longrightarrow> n = 0 \<and> xs = [])"
proof (induction n rule: less_induct)
  case (less n)
  show ?case
  proof (cases "n < b")
    case True
    with b show ?thesis by (subst print_base.simps) auto
  next
    case False
    have "n div b < n" using b False by (intro div_less_dividend) auto
    moreover have "n div b \<noteq> 0" using b False by (simp add: div_eq_0_iff)
    ultimately show ?thesis using less.IH [of "n div b"] b False
      by (subst print_base.simps) auto
  qed
qed

lemma number_prefix_print:
  assumes "2 \<le> b" "b \<le> 36"
  shows "number_prefix (print_base b n) (int b) = (False, int b, print_base b n)"
proof -
  from print_base_hd [OF assms] obtain d xs where p: "print_base b n = digit_char d # xs" "d < 36"
    "d = 0 \<longrightarrow> n = 0 \<and> xs = []" by blast
  with digit_char_plain [OF p(2)] assms show ?thesis
    by (cases "d = 0") (auto simp: number_prefix_def Let_def hd0_def)
qed

section \<open>The one-byte locale\<close>

definition mblen :: "cstr option \<Rightarrow> nat \<Rightarrow> int" where
  "mblen s n = (case s of None \<Rightarrow> 0 | Some t \<Rightarrow> if n = 0 then -1 else if hd0 t = 0 then 0 else 1)"

text \<open>The characters stored, without the terminator where it does not fit, and the count.\<close>

definition mbstowcs :: "cstr \<Rightarrow> nat option \<Rightarrow> u32 list \<times> nat" where
  "mbstowcs src n =
     (case n of None \<Rightarrow> ([], length src)
      | Some n \<Rightarrow> (map ucast (take n (src @ [0])), min n (length src)))"

definition wcstombs :: "u32 list \<Rightarrow> nat option \<Rightarrow> u8 list \<times> nat" where
  "wcstombs src n =
     (case n of None \<Rightarrow> ([], length src)
      | Some n \<Rightarrow> (map ucast (take n (src @ [0])), min n (length src)))"

section \<open>Random numbers\<close>

record rand_state =
  g_rand_state :: u64
  g_rand_current_state :: u64

definition srand :: "u32 \<Rightarrow> rand_state \<Rightarrow> rand_state" where
  "srand seed s = s\<lparr>g_rand_state := if seed \<noteq> 0 then ucast seed else 1\<rparr>"

definition rand :: "rand_state \<Rightarrow> u32 \<times> rand_state" where
  "rand s =
     (let x = g_rand_state s * 1103515245 + 12345 in
      (ucast (drop_bit 16 x AND 0x7fffffff), s\<lparr>g_rand_state := x\<rparr>))"

definition initstate :: "u32 \<Rightarrow> u64 \<Rightarrow> rand_state \<Rightarrow> u64 \<times> rand_state" where
  "initstate seed state s =
     (g_rand_current_state s, (srand seed s)\<lparr>g_rand_current_state := state\<rparr>)"

definition setstate :: "u64 \<Rightarrow> rand_state \<Rightarrow> u64 \<times> rand_state" where
  "setstate state s = (g_rand_current_state s, s\<lparr>g_rand_current_state := state\<rparr>)"


section \<open>Canonical paths\<close>

definition path_max :: nat where "path_max = 1024"

function pop_loop :: "cstr \<Rightarrow> cstr" where
  "pop_loop out =
     (if 1 < length out \<and> last out \<noteq> 47 then pop_loop (butlast out) else out)"
  by pat_completeness auto
termination by (relation "measure length") auto

declare pop_loop.simps [simp del]

definition pop_component :: "cstr \<Rightarrow> cstr" where
  "pop_component out = (if 1 < length out then pop_loop (butlast out) else out)"

lemma after_component:
  assumes "p \<noteq> []"
  shows "length (dropWhile (\<lambda>c. c \<noteq> 47) (dropWhile (\<lambda>c. c = 47) p)) < length (p :: cstr)"
proof (cases "dropWhile (\<lambda>c. c = 47) p")
  case Nil
  with assms show ?thesis by (simp del: dropWhile_eq_Nil_conv)
next
  case (Cons c q)
  then have "c \<noteq> 47" using hd_dropWhile [of "\<lambda>c. c = 47" p] by simp
  then have "length (dropWhile (\<lambda>c. c \<noteq> 47) (dropWhile (\<lambda>c. c = 47) p)) \<le> length q"
    by (simp add: Cons length_dropWhile_le)
  also have "\<dots> < length p" using length_dropWhile_le [of "\<lambda>c. c = 47" p] Cons by simp
  finally show ?thesis .
qed

function realpath_loop :: "cstr \<Rightarrow> cstr \<Rightarrow> cstr option" where
  "realpath_loop out p =
     (if p = [] then Some out
      else
        let q = dropWhile (\<lambda>c. c = 47) p;
            comp = takeWhile (\<lambda>c. c \<noteq> 47) q; rest = dropWhile (\<lambda>c. c \<noteq> 47) q in
        if comp = [] \<or> comp = [46] then realpath_loop out rest
        else if comp = [46, 46] then realpath_loop (pop_component out) rest
        else
          let out1 = (if 1 < length out then out @ [47] else out) in
          if path_max \<le> length out1 + length comp then None
          else realpath_loop (out1 @ comp) rest)"
  by pat_completeness auto

termination
  by (relation "measure (length \<circ> snd)") (simp_all add: after_component)

declare realpath_loop.simps [simp del]

definition realpath :: "cstr option \<Rightarrow> cstr \<Rightarrow> cstr option" where
  "realpath cwd path =
     (if path = [] then None
      else
        case (if hd path = 47 then Some []
              else map_option (\<lambda>d. if d = [] \<or> last d \<noteq> 47 then d @ [47] else d) cwd) of
          None \<Rightarrow> None
        | Some base \<Rightarrow>
            if path_max < length base + length path + 1 then None
            else realpath_loop [47] (base @ path))"

section \<open>Temporary names\<close>

definition alphabet :: cstr where
  "alphabet = cs ''abcdefghijklmnopqrstuvwxyzABCDEFGHIJKLMNOPQRSTUVWXYZ0123456789''"

definition fill_template_x :: "cstr \<Rightarrow> (nat \<times> nat) option" where
  "fill_template_x tmpl =
     (let xlen = length (takeWhile (\<lambda>c. c = 88) (rev tmpl)) in
      if xlen < 6 then None else Some (length tmpl - xlen, xlen))"

fun randomize_loop :: "cstr \<Rightarrow> nat \<Rightarrow> nat \<Rightarrow> nat \<Rightarrow> u8 list \<Rightarrow> cstr" where
  "randomize_loop tmpl xstart 0 i rnd = tmpl"
| "randomize_loop tmpl xstart (Suc left) i rnd =
     (let k = i mod length rnd in
      randomize_loop (tmpl[xstart + i := alphabet ! (unat (rnd ! k) mod length alphabet)])
        xstart left (Suc i) (rnd[k := rnd ! k * 31 + 7]))"

definition randomize_x :: "u8 list \<Rightarrow> cstr \<Rightarrow> nat \<Rightarrow> nat \<Rightarrow> cstr" where
  "randomize_x entropy tmpl xstart xlen =
     randomize_loop tmpl xstart xlen 0 (take (min xlen 16) entropy)"

fun mktemp_loop :: "(nat \<Rightarrow> u8 list) \<Rightarrow> (cstr \<Rightarrow> bool) \<Rightarrow> nat \<Rightarrow> nat \<Rightarrow> nat \<Rightarrow> cstr \<Rightarrow> cstr" where
  "mktemp_loop entropy exists xstart xlen 0 tmpl = []"
| "mktemp_loop entropy exists xstart xlen (Suc n) tmpl =
     (let t = randomize_x (entropy n) tmpl xstart xlen in
      if \<not> exists t then t else mktemp_loop entropy exists xstart xlen n t)"

definition mktemp :: "(nat \<Rightarrow> u8 list) \<Rightarrow> (cstr \<Rightarrow> bool) \<Rightarrow> cstr \<Rightarrow> cstr" where
  "mktemp entropy exists tmpl =
     (case fill_template_x tmpl of
        None \<Rightarrow> []
      | Some (xstart, xlen) \<Rightarrow> mktemp_loop entropy exists xstart xlen 100 tmpl)"

text \<open>\<open>open\<close> answers a descriptor, or the number of an error; 17 is \<open>EEXIST\<close>, 22 \<open>EINVAL\<close>.
  The result is the descriptor and the final template, or the error.\<close>

fun mkstemp_loop ::
  "(nat \<Rightarrow> u8 list) \<Rightarrow> (cstr \<Rightarrow> int + int) \<Rightarrow> nat \<Rightarrow> nat \<Rightarrow> nat \<Rightarrow> cstr \<Rightarrow> int + int \<times> cstr" where
  "mkstemp_loop entropy open_excl xstart xlen 0 tmpl = Inl 17"
| "mkstemp_loop entropy open_excl xstart xlen (Suc n) tmpl =
     (let t = randomize_x (entropy n) tmpl xstart xlen in
      case open_excl t of
        Inr fd \<Rightarrow> Inr (fd, t)
      | Inl e \<Rightarrow> if e \<noteq> 17 then Inl e else mkstemp_loop entropy open_excl xstart xlen n t)"

definition mkstemp ::
  "(nat \<Rightarrow> u8 list) \<Rightarrow> (cstr \<Rightarrow> int + int) \<Rightarrow> cstr \<Rightarrow> int + int \<times> cstr" where
  "mkstemp entropy open_excl tmpl =
     (case fill_template_x tmpl of
        None \<Rightarrow> Inl 22
      | Some (xstart, xlen) \<Rightarrow> mkstemp_loop entropy open_excl xstart xlen 100 tmpl)"

lemma randomize_loop_keeps:
  "length (randomize_loop tmpl xstart n i rnd) = length tmpl \<and>
   take (xstart + i) (randomize_loop tmpl xstart n i rnd) = take (xstart + i) tmpl"
proof (induction tmpl xstart n i rnd rule: randomize_loop.induct)
  case (2 tmpl xstart left i rnd)
  let ?t = "tmpl[xstart + i := alphabet ! (unat (rnd ! (i mod length rnd)) mod length alphabet)]"
  let ?r = "randomize_loop ?t xstart left (Suc i)
      (rnd[i mod length rnd := rnd ! (i mod length rnd) * 31 + 7])"
  have "take (xstart + Suc i) ?r = take (xstart + Suc i) ?t" "length ?r = length tmpl"
    using "2.IH" [OF refl] by simp_all
  note IH = this
  have cut: "take (xstart + i) xs = take (xstart + i) (take (xstart + Suc i) xs)" for xs :: cstr
    by (simp add: min_def)
  have "take (xstart + i) ?r = take (xstart + i) ?t" by (subst (1 2) cut) (simp only: IH)
  also have "\<dots> = take (xstart + i) tmpl" by simp
  finally show ?case using IH(2) by (simp add: Let_def)
qed simp

text \<open>A descriptor is only ever answered for a name that \<open>open\<close> created, with the template's
  prefix and length.\<close>

lemma mkstemp_loop_Inr:
  "mkstemp_loop entropy open_excl xstart xlen n tmpl = Inr (fd, t) \<Longrightarrow>
     open_excl t = Inr fd \<and> length t = length tmpl \<and> take xstart t = take xstart tmpl"
proof (induction n arbitrary: tmpl)
  case (Suc n)
  let ?t = "randomize_x (entropy n) tmpl xstart xlen"
  have k: "length ?t = length tmpl" "take xstart ?t = take xstart tmpl"
    using randomize_loop_keeps [of tmpl xstart xlen 0] by (simp_all add: randomize_x_def)
  show ?case
  proof (cases "open_excl ?t")
    case (Inl e)
    with Suc.prems have "mkstemp_loop entropy open_excl xstart xlen n ?t = Inr (fd, t)"
      by (auto simp: Let_def split: if_splits)
    from Suc.IH [OF this] k show ?thesis by simp
  next
    case (Inr f)
    with Suc.prems k show ?thesis by (auto simp: Let_def)
  qed
qed simp

section \<open>Paths without parent components\<close>

definition components :: "cstr \<Rightarrow> cstr list" where
  "components p = filter (\<lambda>c. c \<noteq> [] \<and> c \<noteq> [46]) (split_on (\<lambda>c. c = 47) p)"

fun join_path :: "cstr list \<Rightarrow> cstr" where
  "join_path [] = []"
| "join_path [c] = c"
| "join_path (c # rest) = c @ 47 # join_path rest"

definition append_component :: "cstr \<Rightarrow> cstr \<Rightarrow> cstr" where
  "append_component out c = (if 1 < length out then out @ [47] else out) @ c"

lemma components_skip: "components (dropWhile (\<lambda>c. c = 47) p) = components p"
  by (induction p) (simp_all add: components_def)

lemma components_step:
  assumes "p \<noteq> []"
  defines "q \<equiv> dropWhile (\<lambda>c. c = 47) p"
  shows "components p = filter (\<lambda>c. c \<noteq> [] \<and> c \<noteq> [46]) [takeWhile (\<lambda>c. c \<noteq> 47) q] @
    components (dropWhile (\<lambda>c. c \<noteq> 47) q)"
proof -
  have "components p = components q" by (simp add: q_def components_skip)
  moreover have "components q = filter (\<lambda>c. c \<noteq> [] \<and> c \<noteq> [46]) (takeWhile (\<lambda>c. c \<noteq> 47) q #
      (case dropWhile (\<lambda>c. c \<noteq> 47) q of [] \<Rightarrow> [] | _ # r \<Rightarrow> split_on (\<lambda>c. c = 47) r))"
    by (simp only: components_def split_on_takeWhile [of _ q])
  moreover have "filter (\<lambda>c. c \<noteq> [] \<and> c \<noteq> [46])
      (case dropWhile (\<lambda>c. c \<noteq> 47) q of [] \<Rightarrow> [] | _ # r \<Rightarrow> split_on (\<lambda>c. c = 47) r) =
      components (dropWhile (\<lambda>c. c \<noteq> 47) q)"
  proof (cases "dropWhile (\<lambda>c. c \<noteq> 47) q")
    case (Cons c r)
    then have "c = 47" using hd_dropWhile [of "\<lambda>c. c \<noteq> 47" q] by simp
    with Cons show ?thesis by (simp add: components_def)
  next
    case Nil
    show ?thesis unfolding Nil by (simp add: components_def)
  qed
  ultimately show ?thesis by simp
qed

lemma realpath_loop_components:
  assumes "p = [] \<or> hd p = 47" "[46, 46] \<notin> set (components p)" "0 < length out"
    and "length out + length p \<le> (if length out = 1 then path_max else path_max - 1)"
  shows "realpath_loop out p = Some (foldl append_component out (components p))"
  using assms
proof (induction "length p" arbitrary: out p rule: less_induct)
  case less
  show ?case
  proof (cases "p = []")
    case True
    then show ?thesis by (subst realpath_loop.simps) (simp add: components_def)
  next
    case False
    define q where "q = dropWhile (\<lambda>c. c = 47) p"
    define c where "c = takeWhile (\<lambda>c. c \<noteq> 47) q"
    define r where "r = dropWhile (\<lambda>c. c \<noteq> 47) q"
    have cs: "components p = filter (\<lambda>c. c \<noteq> [] \<and> c \<noteq> [46]) [c] @ components r"
      using components_step [OF False] by (simp only: q_def c_def r_def)
    have lr: "length r < length p" using after_component [OF False] by (simp add: q_def r_def)
    have r: "r = [] \<or> hd r = 47" using hd_dropWhile [of "\<lambda>c. c \<noteq> 47" q] by (auto simp: r_def)
    have dd: "[46, 46] \<notin> set (components r)" "c \<noteq> [46, 46]"
      using less.prems(2) by (auto simp: cs split: if_splits)
    have "length p = length (takeWhile (\<lambda>c. c = 47) p) + length q"
      unfolding q_def by (metis length_append takeWhile_dropWhile_id)
    moreover have "takeWhile (\<lambda>c. c = 47) p \<noteq> []"
      using less.prems(1) False by (cases p) auto
    moreover have "length q = length c + length r"
      unfolding c_def r_def by (metis length_append takeWhile_dropWhile_id)
    ultimately have len: "length c + length r < length p"
      by (cases "takeWhile (\<lambda>c. c = 47) p") simp_all
    have step: "realpath_loop out p =
        (if c = [] \<or> c = [46] then realpath_loop out r
         else if path_max \<le> length (append_component out c) then None
         else realpath_loop (append_component out c) r)"
      using False dd(2)
      by (subst realpath_loop.simps) (simp add: Let_def q_def c_def r_def append_component_def)
    show ?thesis
    proof (cases "c = [] \<or> c = [46]")
      case True
      have "realpath_loop out r = Some (foldl append_component out (components r))"
        using less.prems(3,4) len by (intro less.hyps [OF lr r dd(1)]) (auto split: if_splits)
      with True show ?thesis by (auto simp: step cs)
    next
      case False
      have l: "length (append_component out c) + length r \<le> path_max - 1"
        using less.prems(3,4) len by (auto simp: append_component_def path_max_def split: if_splits)
      have "realpath_loop (append_component out c) r =
          Some (foldl append_component (append_component out c) (components r))"
        using l less.prems(3) False
        by (intro less.hyps [OF lr r dd(1)]) (auto simp: append_component_def split: if_splits)
      moreover have "\<not> path_max \<le> length (append_component out c)"
        using l by (simp add: path_max_def)
      ultimately show ?thesis using False by (simp add: step cs)
    qed
  qed
qed

lemma foldl_append_component:
  assumes "[] \<notin> set comps" "1 < length out"
  shows "foldl append_component out comps = out @ concat (map ((#) 47) comps)"
  using assms
proof (induction comps arbitrary: out)
  case (Cons c comps)
  from Cons.prems have "foldl append_component (out @ 47 # c) comps =
      (out @ 47 # c) @ concat (map ((#) 47) comps)" by (intro Cons.IH) auto
  moreover have "append_component out c = out @ 47 # c"
    using Cons.prems by (simp add: append_component_def)
  ultimately show ?case by simp
qed simp

lemma join_path_Cons: "join_path (c # comps) = c @ concat (map ((#) 47) comps)"
  by (induction comps arbitrary: c) simp_all

lemma canonical_fold:
  assumes "[] \<notin> set comps"
  shows "foldl append_component [47] comps = 47 # join_path comps"
proof (cases comps)
  case (Cons c rest)
  with assms show ?thesis
    by (cases c) (simp_all add: append_component_def foldl_append_component join_path_Cons)
qed simp

section \<open>Properties\<close>

text \<open>\<open>strtol\<close> reads back every number that fits a \<open>long\<close>, printed in any base from 2 to 36,
  and stops at its end; so does \<open>strtol\<close> after a minus sign.\<close>

theorem strtol_roundtrip:
  assumes "2 \<le> b" "b \<le> 36" "int n \<le> long_max"
  shows "strtol (print_base b n) (int b) = Ret (int n, []) \<and>
    strtol (45 # print_base b n) (int b) = Ret (- int n, [])"
proof -
  from print_base_hd [OF assms(1,2)] obtain d xs where p: "print_base b n = digit_char d # xs" "d < 36"
    "d = 0 \<longrightarrow> n = 0 \<and> xs = []" by blast
  have "number_prefix (45 # print_base b n) (int b) = (True, int b, print_base b n)"
    using digit_char_plain [OF p(2)] assms(1) p
    by (cases "d = 0") (auto simp: number_prefix_def Let_def hd0_def isspace_def)
  with p number_prefix_print [OF assms(1,2), of n] strtol_loop_print [OF assms] show ?thesis
    by (simp add: strtol_def)
qed

theorem strtol_roundtrip_witness:
  "strtol (print_base 16 255) (int 16) = Ret (int 255, []) \<and>
    strtol (45 # print_base 16 255) (int 16) = Ret (- int 255, [])"
  by (rule strtol_roundtrip) (simp_all add: long_max_def)

text \<open>on an absolute path without a parent component that fits its buffer, \<open>realpath\<close> answers
  the canonical path: one slash before each component that is not empty and not a dot.\<close>

theorem realpath_canonical:
  assumes "path \<noteq> []" "hd path = 47" "length path < path_max" "[46, 46] \<notin> set (components path)"
  shows "realpath cwd path = Some (47 # join_path (components path))"
proof -
  have "realpath_loop [47] path = Some (foldl append_component [47] (components path))"
    using assms by (intro realpath_loop_components) simp_all
  moreover have "[] \<notin> set (components path)" by (simp add: components_def)
  ultimately show ?thesis using assms by (simp add: realpath_def canonical_fold)
qed

theorem realpath_canonical_witness:
  "realpath None (cs ''/a//b/./c'') = Some (47 # join_path (components (cs ''/a//b/./c'')))"
  by (rule realpath_canonical) (code_simp+)

text \<open>With a parent component it leaves a slash behind, and the next parent component after
  another directory then removes only that slash.\<close>

lemma realpath_parent_slash:
  "realpath None (cs ''/x/a/..'') = Some (cs ''/x/'')"
  "realpath None (cs ''/x/a/../b/../..'') = Some (cs ''/x/'')"
  by code_simp+

end
