(* ===== verification/Stdio.thy ===== *)
theory Stdio
  imports Stdlib
begin

text \<open>
  Formatted output and input and the streams of \<open>userland/libc/src/stdio.c\<close> and \<open>scanf.c\<close>.  An
  argument of \<open>printf\<close> is a 64-bit slot or a string; reading one of the wrong kind, or past the
  last, is \<open>Undef\<close>, and so are the overflows of signed arithmetic.  Output goes to a buffer or to
  a file descriptor, whose \<open>write\<close> answers are part of the sink: a missing answer is a complete
  write.  The floating-point conversions of \<open>scanf\<close> are left out.

  The lemmas show what a format denotes, that \<open>snprintf\<close> writes it, where it writes past its
  buffer, and that printed numbers are read back.
\<close>

section \<open>Sinks\<close>

datatype sink = Buffer nat "u8 list" | Descriptor "int list" "u8 list"

text \<open>The result says whether the answer is not -1.\<close>

fun out_str :: "u8 list \<Rightarrow> sink \<Rightarrow> bool \<times> sink" where
  "out_str s (Buffer rem w) = (True, Buffer (rem - length s) (w @ take rem s))"
| "out_str s (Descriptor [] w) = (True, Descriptor [] (w @ s))"
| "out_str s (Descriptor (a # as) w) = (a = int (length s), Descriptor as (w @ take (nat a) s))"

definition out_all :: "u8 list list \<Rightarrow> sink \<Rightarrow> sink" where
  "out_all pieces k = fold (\<lambda>s k. snd (out_str s k)) pieces k"

section \<open>Directives\<close>

datatype arg = Slot u64 | Text "cstr option"

fun next_slot :: "arg list \<Rightarrow> (u64 \<times> arg list) outcome" where
  "next_slot (Slot w # args) = Ret (w, args)"
| "next_slot _ = Undef"

fun next_text :: "arg list \<Rightarrow> (cstr option \<times> arg list) outcome" where
  "next_text (Text s # args) = Ret (s, args)"
| "next_text _ = Undef"

definition int_max :: nat where "int_max = 2 ^ 31 - 1"

fun format_flags :: "u8 list \<Rightarrow> bool \<Rightarrow> bool \<Rightarrow> bool \<times> bool \<times> u8 list" where
  "format_flags [] zero left = (zero, left, [])"
| "format_flags (c # f) zero left =
     (if c = 48 then format_flags f True left
      else if c = 45 then format_flags f zero True
      else (zero, left, c # f))"

fun width_digits :: "u8 list \<Rightarrow> nat \<Rightarrow> (nat \<times> u8 list) outcome" where
  "width_digits [] w = Ret (w, [])"
| "width_digits (c # f) w =
     (if 48 \<le> c \<and> c \<le> 57
      then if int_max < w * 10 + unat (c - 48) then Undef else width_digits f (w * 10 + unat (c - 48))
      else Ret (w, c # f))"

definition format_width :: "u8 list \<Rightarrow> bool \<Rightarrow> arg list \<Rightarrow> (bool \<times> nat \<times> u8 list \<times> arg list) outcome" where
  "format_width f left args =
     (if f \<noteq> [] \<and> hd f = 42
      then obind (next_slot args) (\<lambda>(w, args').
        let v = sint (ucast w :: u32) in
        if v = - (2 ^ 31) then Undef
        else Ret (left \<or> v < 0, nat \<bar>v\<bar>, tl f, args'))
      else obind (width_digits f 0) (\<lambda>(w, f'). Ret (left, w, f', args)))"

fun length_modifiers :: "u8 list \<Rightarrow> bool \<Rightarrow> bool \<times> u8 list" where
  "length_modifiers [] lng = (lng, [])"
| "length_modifiers (c # f) lng =
     (if c = 108 then length_modifiers f True
      else if c = 122 \<or> c = 104 then length_modifiers f lng
      else (lng, c # f))"

section \<open>Numbers\<close>

text \<open>The digits as the code puts them into its buffer, last digit first.\<close>

function digits_back :: "nat \<Rightarrow> (nat \<Rightarrow> u8) \<Rightarrow> nat \<Rightarrow> u8 list" where
  "digits_back base digit uv =
     (if uv = 0 \<or> base < 2 then [] else digit (uv mod base) # digits_back base digit (uv div base))"
  by pat_completeness auto
termination
  by (relation "measure (\<lambda>(base, digit, uv). uv)") auto

declare digits_back.simps [simp del]

definition numbuf :: "nat \<Rightarrow> (nat \<Rightarrow> u8) \<Rightarrow> nat \<Rightarrow> u8 list" where
  "numbuf base digit uv = (if uv = 0 then [48] else digits_back base digit uv)"

definition hex_upper :: "nat \<Rightarrow> u8" where
  "hex_upper d = (if d < 10 then of_nat (48 + d) else of_nat (65 + (d - 10)))"

definition singles :: "u8 list \<Rightarrow> u8 list list" where
  "singles s = map (\<lambda>c. [c]) s"

definition pad :: "bool \<Rightarrow> nat \<Rightarrow> nat \<Rightarrow> u8 list list" where
  "pad zero len width = replicate (width - len) [if zero then 48 else 32]"

text \<open>The argument of a signed conversion: \<open>long\<close> or \<open>int\<close>.\<close>

definition signed_value :: "bool \<Rightarrow> u64 \<Rightarrow> int" where
  "signed_value is_long w = (if is_long then sint w else sint (ucast w :: u32))"

definition unsigned_value :: "bool \<Rightarrow> u64 \<Rightarrow> nat" where
  "unsigned_value is_long w = (if is_long then unat w else unat (ucast w :: u32))"

definition convert_signed :: "bool \<Rightarrow> bool \<Rightarrow> nat \<Rightarrow> u64 \<Rightarrow> u8 list list outcome" where
  "convert_signed is_long zero width w =
     (let v = signed_value is_long w; digits = numbuf 10 digit_char (nat \<bar>v\<bar>);
          len = length digits + (if v < 0 then 1 else 0) in
      if v = - (2 ^ 63) then Undef
      else Ret (pad zero len width @ (if v < 0 then [[45]] else []) @ singles (rev digits)))"

definition convert_unsigned :: "u8 \<Rightarrow> bool \<Rightarrow> bool \<Rightarrow> nat \<Rightarrow> u64 \<Rightarrow> u8 list list" where
  "convert_unsigned conv is_long zero width w =
     (let base = (if conv = 111 then 8 else if conv = 117 then 10 else 16);
          digits = numbuf base (if conv = 88 then hex_upper else digit_char) (unsigned_value is_long w)
      in pad zero (length digits) width @ singles (rev digits))"

definition null_text :: cstr where "null_text = [40, 110, 117, 108, 108, 41]"

definition convert_text :: "bool \<Rightarrow> nat \<Rightarrow> cstr option \<Rightarrow> u8 list list" where
  "convert_text left width t =
     (let s = (case t of None \<Rightarrow> null_text | Some s \<Rightarrow> s); sp = pad False (length s) width
      in if left then [s] @ sp else sp @ [s])"

definition convert ::
  "u8 \<Rightarrow> bool \<Rightarrow> bool \<Rightarrow> bool \<Rightarrow> nat \<Rightarrow> arg list \<Rightarrow> (u8 list list \<times> arg list) outcome" where
  "convert conv is_long zero left width args =
     (if conv = 100 \<or> conv = 105 then
        obind (next_slot args) (\<lambda>(w, args').
          obind (convert_signed is_long zero width w) (\<lambda>ps. Ret (ps, args')))
      else if conv = 117 \<or> conv = 120 \<or> conv = 88 \<or> conv = 111 then
        obind (next_slot args) (\<lambda>(w, args'). Ret (convert_unsigned conv is_long zero width w, args'))
      else if conv = 99 then
        obind (next_slot args) (\<lambda>(w, args'). Ret ([[ucast w]], args'))
      else if conv = 115 then
        obind (next_text args) (\<lambda>(t, args'). Ret (convert_text left width t, args'))
      else if conv = 112 then
        obind (next_slot args) (\<lambda>(w, args'). Ret ([48, 120] # singles (rev (numbuf 16 digit_char (unat w))), args'))
      else Ret ([[conv]], args))"

section \<open>The format loop\<close>

lemma format_flags_length: "length (snd (snd (format_flags f z l))) \<le> length f"
  by (induction f z l rule: format_flags.induct) auto

lemma width_digits_length: "width_digits f w = Ret (w', f') \<Longrightarrow> length f' \<le> length f"
  by (induction f w rule: width_digits.induct) (auto split: if_splits)

lemma format_width_length: "format_width f l args = Ret (l', w, f', args') \<Longrightarrow> length f' \<le> length f"
  by (cases f) (auto simp: format_width_def Let_def dest: width_digits_length split: if_splits)

lemma length_modifiers_length: "length (snd (length_modifiers f l)) \<le> length f"
  by (induction f l rule: length_modifiers.induct) auto

text \<open>A directive: the pieces it puts out, and the rest of the format; \<open>None\<close> at the end of the format.\<close>

definition directive :: "u8 list \<Rightarrow> arg list \<Rightarrow> ((u8 list list \<times> u8 list \<times> arg list) option) outcome" where
  "directive f args =
     (let (zero, left, f1) = format_flags f False False in
      obind (format_width f1 left args) (\<lambda>(left', width, f2, args2).
      let (is_long, f3) = length_modifiers f2 False in
      case f3 of
        [] \<Rightarrow> Ret None
      | conv # f4 \<Rightarrow>
          obind (convert conv is_long zero left' width args2) (\<lambda>(ps, args3). Ret (Some (ps, f4, args3)))))"

lemma directive_length:
  assumes "directive f args = Ret (Some (ps, f', args'))"
  shows "length f' < length f"
proof -
  obtain z l f1 where 1: "format_flags f False False = (z, l, f1)" by (cases "format_flags f False False")
  with assms obtain l' w f2 args2 where 2: "format_width f1 l args = Ret (l', w, f2, args2)"
    by (auto simp: directive_def)
  obtain lng f3 where 3: "length_modifiers f2 False = (lng, f3)" by fastforce
  from assms 1 2 3 have "length f' < length f3" by (auto simp: directive_def split: list.splits)
  with format_flags_length [of f False False] format_width_length [OF 2] length_modifiers_length [of f2 False] 1 3
  show ?thesis by simp
qed

function vformat :: "u8 list \<Rightarrow> arg list \<Rightarrow> sink \<Rightarrow> nat \<Rightarrow> (nat option \<times> sink) outcome" where
  "vformat [] args k tot = Ret (Some tot, k)"
| "vformat (c # f) args k tot =
     (if c \<noteq> 37
      then let (ok, k') = out_str [c] k in
        if ok then vformat f args k' (tot + 1) else Ret (None, k')
      else case directive f args of
        Ret None \<Rightarrow> Ret (Some tot, k)
      | Ret (Some (ps, f', args')) \<Rightarrow>
          vformat f' args' (out_all ps k) (tot + sum_list (map length ps))
      | Panic e \<Rightarrow> Panic e | Fault \<Rightarrow> Fault | Undef \<Rightarrow> Undef)"
  by pat_completeness auto
termination
  by (relation "measure (\<lambda>(f, args, k, tot). length f)") (auto dest: directive_length)

text \<open>The bytes stored from the start of the buffer, the terminator included.\<close>

definition terminated :: "nat \<Rightarrow> sink \<Rightarrow> u8 list" where
  "terminated bufsize k =
     (case k of Buffer rem w \<Rightarrow> if 0 < bufsize then w @ [0] else w | Descriptor as w \<Rightarrow> [])"

definition vsnprintf :: "nat \<Rightarrow> u8 list \<Rightarrow> arg list \<Rightarrow> (nat option \<times> u8 list) outcome" where
  "vsnprintf bufsize fmt args =
     obind (vformat fmt args (Buffer bufsize []) 0) (\<lambda>(r, k). Ret (r, terminated bufsize k))"

definition vsprintf :: "u8 list \<Rightarrow> arg list \<Rightarrow> (nat option \<times> u8 list) outcome" where
  "vsprintf fmt args = vsnprintf (2 ^ 64 - 1) fmt args"

text \<open>\<open>vfprintf\<close> with the answers of \<open>write\<close>.\<close>

definition vfprintf :: "int list \<Rightarrow> u8 list \<Rightarrow> arg list \<Rightarrow> (nat option \<times> u8 list) outcome" where
  "vfprintf answers fmt args =
     obind (vformat fmt args (Descriptor answers []) 0) (\<lambda>(r, k).
       Ret (r, case k of Buffer rem w \<Rightarrow> [] | Descriptor as w \<Rightarrow> w))"

definition vasprintf :: "bool \<Rightarrow> u8 list \<Rightarrow> arg list \<Rightarrow> (nat option \<times> u8 list option) outcome" where
  "vasprintf malloc_ok fmt args =
     obind (vformat fmt args (Buffer 0 []) 0) (\<lambda>(n, _).
       case n of
         None \<Rightarrow> Ret (None, None)
       | Some n \<Rightarrow>
           if \<not> malloc_ok then Ret (None, None)
           else obind (vsnprintf (n + 1) fmt args) (\<lambda>(_, s). Ret (Some n, Some s)))"

section \<open>What a format denotes\<close>

function render :: "u8 list \<Rightarrow> arg list \<Rightarrow> u8 list outcome" where
  "render [] args = Ret []"
| "render (c # f) args =
     (if c \<noteq> 37 then obind (render f args) (\<lambda>r. Ret (c # r))
      else case directive f args of
        Ret None \<Rightarrow> Ret []
      | Ret (Some (ps, f', args')) \<Rightarrow> obind (render f' args') (\<lambda>r. Ret (concat ps @ r))
      | Panic e \<Rightarrow> Panic e | Fault \<Rightarrow> Fault | Undef \<Rightarrow> Undef)"
  by pat_completeness auto
termination
  by (relation "measure (\<lambda>(f, args). length f)") (auto dest: directive_length)

lemma out_all_buffer: "out_all ps (Buffer n w) = Buffer (n - length (concat ps)) (w @ take n (concat ps))"
  by (induction ps arbitrary: n w) (simp_all add: out_all_def take_append)

lemma out_all_descriptor: "out_all ps (Descriptor [] w) = Descriptor [] (w @ concat ps)"
  by (induction ps arbitrary: w) (simp_all add: out_all_def)

lemma vformat_buffer:
  "vformat f args (Buffer n w) t =
     obind (render f args) (\<lambda>r. Ret (Some (t + length r), Buffer (n - length r) (w @ take n r)))"
proof (induction f args arbitrary: n w t rule: render.induct)
  case (2 c f args)
  show ?case
  proof (cases "c = 37")
    case False
    with 2(1) show ?thesis
      by (cases "render f args") (simp_all add: take_Cons')
  next
    case True
    show ?thesis
    proof (cases "directive f args")
      case (Ret d)
      show ?thesis
      proof (cases d)
        case (Some p)
        obtain ps f' args' where p: "p = (ps, f', args')" by (cases p)
        note IH = 2(2) [of d p ps "(f', args')" f' args', simplified]
        have "vformat f' args' (out_all ps (Buffer n w)) (t + sum_list (map length ps)) =
          obind (render f' args') (\<lambda>r. Ret (Some (t + sum_list (map length ps) + length r),
            Buffer (n - length (concat ps) - length r) (w @ take n (concat ps) @ take (n - length (concat ps)) r)))"
          unfolding out_all_buffer using 2(2) True Ret Some p by simp
        with True Ret Some p show ?thesis
          by (cases "render f' args'") (simp_all add: take_append length_concat add.assoc)
      qed (use True Ret in simp)
    qed (use True in simp_all)
  qed
qed simp

lemma vformat_descriptor:
  "vformat f args (Descriptor [] w) t =
     obind (render f args) (\<lambda>r. Ret (Some (t + length r), Descriptor [] (w @ r)))"
proof (induction f args arbitrary: w t rule: render.induct)
  case (2 c f args)
  show ?case
  proof (cases "c = 37")
    case False
    with 2(1) show ?thesis by (cases "render f args") simp_all
  next
    case True
    show ?thesis
    proof (cases "directive f args")
      case (Ret d)
      show ?thesis
      proof (cases d)
        case (Some p)
        obtain ps f' args' where p: "p = (ps, f', args')" by (cases p)
        have "vformat f' args' (out_all ps (Descriptor [] w)) (t + sum_list (map length ps)) =
          obind (render f' args') (\<lambda>r. Ret (Some (t + sum_list (map length ps) + length r),
            Descriptor [] ((w @ concat ps) @ r)))"
          unfolding out_all_descriptor using 2(2) True Ret Some p by simp
        with True Ret Some p show ?thesis
          by (cases "render f' args'") (simp_all add: length_concat add.assoc)
      qed (use True Ret in simp)
    qed (use True in simp_all)
  qed
qed simp


text \<open>Whether all stores stay inside a buffer of the given size.\<close>

definition stores_within :: "nat \<Rightarrow> (nat option \<times> u8 list) outcome \<Rightarrow> bool" where
  "stores_within n r \<longleftrightarrow> (case r of Ret (_, out) \<Rightarrow> length out \<le> n | _ \<Rightarrow> True)"

text \<open>C32 \<open>snprintf\<close> stays inside its buffer exactly when the output fits with its terminator: cut
  output is terminated one byte behind the buffer.\<close>

theorem vsnprintf_overflow:
  assumes "render fmt args = Ret r" "0 < n"
  shows "stores_within n (vsnprintf n fmt args) \<longleftrightarrow> length r < n"
  using assms by (simp add: stores_within_def vsnprintf_def vformat_buffer terminated_def) linarith

theorem vsnprintf_overflow_witness:
  "stores_within 4 (vsnprintf 4 [97, 98, 99, 100] []) \<longleftrightarrow> length [97, 98, 99, 100 :: u8] < 4"
  by (rule vsnprintf_overflow) simp_all

lemma vfprintf_correct:
  "vfprintf [] fmt args = obind (render fmt args) (\<lambda>r. Ret (Some (length r), r))"
  by (cases "render fmt args") (simp_all add: vfprintf_def vformat_descriptor)

lemma vasprintf_correct:
  "vasprintf True fmt args = obind (render fmt args) (\<lambda>r. Ret (Some (length r), Some (r @ [0])))"
  by (cases "render fmt args") (simp_all add: vasprintf_def vsnprintf_def vformat_buffer terminated_def)

section \<open>Printed numbers\<close>

lemma digits_back_print: "0 < n \<Longrightarrow> 2 \<le> b \<Longrightarrow> rev (digits_back b digit_char n) = print_base b n"
proof (induction n rule: less_induct)
  case (less n)
  show ?case
  proof (cases "n < b")
    case True
    with less.prems show ?thesis
      by (simp add: digits_back.simps [of b digit_char n] digits_back.simps [of b digit_char 0] print_base.simps)
  next
    case False
    then have "n div b < n" "0 < n div b" using less.prems by (auto simp: div_greater_zero_iff)
    from less.IH [OF this less.prems(2)] less.prems False show ?thesis
      by (simp add: digits_back.simps [of b digit_char n] print_base.simps [of b n])
  qed
qed

lemma numbuf_print: "2 \<le> b \<Longrightarrow> rev (numbuf b digit_char n) = print_base b n"
  by (cases "n = 0") (simp_all add: numbuf_def digits_back_print print_base.simps [of b 0] digit_char_def)

text \<open>The digit buffer has 32 places; the longest number, in base 8, takes 22.\<close>

lemma digits_back_length: "2 \<le> b \<Longrightarrow> n < b ^ k \<Longrightarrow> length (digits_back b d n) \<le> k"
proof (induction k arbitrary: n)
  case 0
  then show ?case by (simp add: digits_back.simps)
next
  case (Suc k)
  then have "n div b < b ^ k" by (simp add: less_mult_imp_div_less mult.commute)
  with Suc show ?case by (simp add: digits_back.simps [of b d n])
qed

lemma numbuf_fits:
  assumes "b \<in> {8, 10, 16}" "n < 2 ^ 64"
  shows "length (numbuf b d n) \<le> 32"
proof -
  have "(2::nat) ^ 64 \<le> 8 ^ 22" "(8::nat) ^ 22 \<le> 10 ^ 22" "(8::nat) ^ 22 \<le> 16 ^ 22" by simp_all
  with assms have "n < b ^ 22" by auto
  with digits_back_length [of b n 22 d] assms(1) show ?thesis by (auto simp: numbuf_def)
qed

definition print_int :: "int \<Rightarrow> cstr" where
  "print_int v = (if v < 0 then [45] else []) @ print_base 10 (nat \<bar>v\<bar>)"

lemma concat_singles [simp]: "concat (singles s) = s"
  by (induction s) (simp_all add: singles_def)

lemma convert_signed_print:
  "signed_value l w \<noteq> - (2 ^ 63) \<Longrightarrow>
     obind (convert_signed l zero 0 w) (\<lambda>ps. Ret (concat ps)) = Ret (print_int (signed_value l w))"
  by (simp add: convert_signed_def Let_def pad_def print_int_def numbuf_print)

text \<open>\<open>%d\<close>, \<open>%ld\<close>, \<open>%lld\<close>.\<close>

lemma directive_signed:
  assumes "mods \<in> {[], [108], [108, 108]}" "signed_value (mods \<noteq> []) w \<noteq> - (2 ^ 63)"
  shows "\<exists>ps. directive (mods @ 100 # f) (Slot w # args) = Ret (Some (ps, f, args)) \<and>
    concat ps = print_int (signed_value (mods \<noteq> []) w)"
proof -
  let ?l = "mods \<noteq> []"
  obtain ps where ps: "convert_signed ?l False 0 w = Ret ps"
    using assms(2) by (cases "convert_signed ?l False 0 w") (auto simp: convert_signed_def Let_def)
  with convert_signed_print [OF assms(2), of False] have "concat ps = print_int (signed_value ?l w)" by simp
  moreover have "directive (mods @ 100 # f) (Slot w # args) = Ret (Some (ps, f, args))"
    using assms(1) ps by (auto simp: directive_def format_width_def convert_def)
  ultimately show ?thesis by blast
qed

lemma render_signed:
  assumes "mods \<in> {[], [108], [108, 108]}" "signed_value (mods \<noteq> []) w \<noteq> - (2 ^ 63)"
  shows "render (37 # mods @ 100 # f) (Slot w # args) =
    obind (render f args) (\<lambda>r. Ret (print_int (signed_value (mods \<noteq> []) w) @ r))"
  using directive_signed [OF assms, of f args] by auto

section \<open>scanf\<close>

datatype stored = Int_at u32 | Char_at u8 | Text_at cstr | Real_at bool u64

fun scan_modifiers :: "u8 list \<Rightarrow> bool \<Rightarrow> bool \<times> u8 list" where
  "scan_modifiers [] lng = (lng, [])"
| "scan_modifiers (c # f) lng =
     (if c = 108 then scan_modifiers f True else if c = 104 then scan_modifiers f lng else (lng, c # f))"

definition skip_space :: "cstr \<Rightarrow> cstr" where
  "skip_space s = dropWhile isspace s"

text \<open>The text a number is read from: the rest, or its first characters when there is a width.\<close>

definition field :: "nat \<Rightarrow> cstr \<Rightarrow> cstr" where
  "field width s = (if width = 0 then s else take (min width 31) s)"

text \<open>One conversion: \<open>None\<close> ends the scan; otherwise what is stored, if anything, and the rest.
  The reader of floating-point numbers is an argument.\<close>

definition scan_convert ::
  "(cstr \<Rightarrow> u64 \<times> cstr) \<Rightarrow> u8 \<Rightarrow> nat \<Rightarrow> bool \<Rightarrow> cstr \<Rightarrow> (stored option \<times> cstr) option outcome" where
  "scan_convert strtod conv width islong s0 =
     (let s = skip_space s0 in
      if conv = 100 \<or> conv = 105 \<or> conv = 117 then
        let src = field width s in
        obind (strtol src (if conv = 105 then 0 else 10)) (\<lambda>(v, rest).
          Ret (if rest = src then None
               else Some (Some (Int_at (of_int v)), drop (length src - length rest) s)))
      else if conv = 120 then
        obind (strtol s 16) (\<lambda>(v, rest).
          Ret (if rest = s then None else Some (Some (Int_at (of_int v)), rest)))
      else if conv = 102 \<or> conv = 103 \<or> conv = 101 then
        let (v, rest) = strtod s in
        Ret (if rest = s then None else Some (Some (Real_at islong v), rest))
      else if conv = 99 then
        Ret (case s0 of [] \<Rightarrow> None | c # rest \<Rightarrow> Some (Some (Char_at c), rest))
      else if conv = 115 then
        let word = takeWhile (\<lambda>c. \<not> isspace c) (if width = 0 then s else take width s) in
        Ret (if word = [] then None else Some (Some (Text_at word), drop (length word) s))
      else if conv = 37 then
        Ret (case s0 of [] \<Rightarrow> None | c # rest \<Rightarrow> if c \<noteq> 37 then None else Some (None, rest))
      else Ret None)"

lemma scan_modifiers_length: "length (snd (scan_modifiers f l)) \<le> length f"
  by (induction f l rule: scan_modifiers.induct) auto

text \<open>The directive after the percent sign: its width, suppression and length, and what follows.\<close>

definition scan_directive :: "u8 list \<Rightarrow> (nat \<times> bool \<times> bool \<times> u8 list) outcome" where
  "scan_directive f =
     obind (width_digits f 0) (\<lambda>(width, f1).
       let suppress = (hd0 f1 = 42); f2 = (if suppress then drop 1 f1 else f1); (lng, f3) = scan_modifiers f2 False
       in Ret (width, suppress, lng, f3))"

lemma scan_directive_length: "scan_directive f = Ret (w, su, lng, f') \<Longrightarrow> length f' \<le> length f"
proof -
  assume a: "scan_directive f = Ret (w, su, lng, f')"
  then obtain f1 where 1: "width_digits f 0 = Ret (w, f1)"
    "f' = snd (scan_modifiers (if hd0 f1 = 42 then drop 1 f1 else f1) False)"
    by (auto simp: scan_directive_def Let_def split: prod.splits if_splits)
  have "length f' \<le> length (if hd0 f1 = 42 then drop 1 f1 else f1)"
    unfolding 1(2) by (rule scan_modifiers_length)
  also have "\<dots> \<le> length f1" by simp
  finally show ?thesis using width_digits_length [OF 1(1)] by linarith
qed

function vsscanf :: "(cstr \<Rightarrow> u64 \<times> cstr) \<Rightarrow> cstr \<Rightarrow> u8 list \<Rightarrow> stored list outcome" where
  "vsscanf strtod s [] = Ret []"
| "vsscanf strtod s (p # f) =
     (if isspace p then vsscanf strtod (skip_space s) f
      else if p \<noteq> 37 then
        case s of [] \<Rightarrow> Ret [] | c # s' \<Rightarrow> if c \<noteq> p then Ret [] else vsscanf strtod s' f
      else case scan_directive f of
        Ret (width, suppress, lng, f3) \<Rightarrow>
          (case f3 of
             [] \<Rightarrow> Ret []
           | conv # f4 \<Rightarrow>
               (case scan_convert strtod conv width lng s of
                  Ret None \<Rightarrow> Ret []
                | Ret (Some (st, s')) \<Rightarrow>
                    obind (vsscanf strtod s' f4) (\<lambda>l.
                      Ret (if suppress then l else case st of None \<Rightarrow> l | Some x \<Rightarrow> x # l))
                | Panic e \<Rightarrow> Panic e | Fault \<Rightarrow> Fault | Undef \<Rightarrow> Undef))
      | Panic e \<Rightarrow> Panic e | Fault \<Rightarrow> Fault | Undef \<Rightarrow> Undef)"
  by pat_completeness auto
termination
  by (relation "measure (\<lambda>(strtod, s, f). length f)") (auto dest: scan_directive_length)

text \<open>The result of the call is the number of the stored values.\<close>

section \<open>Reading back printed numbers\<close>

definition decimal_fields :: "nat \<Rightarrow> u8 list" where
  "decimal_fields n = concat (replicate n [37, 100, 32])"

definition int_slot :: "u32 \<Rightarrow> arg" where
  "int_slot v = Slot (ucast v)"

lemma print_base_plain: "2 \<le> b \<Longrightarrow> b \<le> 36 \<Longrightarrow> c \<in> set (print_base b n) \<Longrightarrow> \<exists>d < 36. c = digit_char d"
proof (induction n rule: less_induct)
  case (less n)
  show ?case
  proof (cases "n < b")
    case True
    with less.prems show ?thesis by (intro exI [of _ n]) (simp add: print_base.simps)
  next
    case False
    then have "n div b < n" using less.prems by simp
    have "n mod b < 36" using less.prems mod_less_divisor [of b n] by linarith
    moreover have "c \<in> set (print_base b (n div b)) \<or> c = digit_char (n mod b)"
      using less.prems False by (auto simp: print_base.simps [of b n])
    ultimately show ?thesis using less.IH [OF \<open>n div b < n\<close> less.prems(1, 2)] by blast
  qed
qed

lemma strtol_print_int:
  assumes "\<bar>v\<bar> \<le> long_max" "digit_of (hd0 rest) = None"
  shows "strtol (print_int v @ rest) 10 = Ret (v, rest)" "rest \<noteq> print_int v @ rest"
proof -
  let ?n = "nat \<bar>v\<bar>"
  obtain d xs where p: "print_base 10 ?n = digit_char d # xs" "d < 36"
    using print_base_hd [of 10 ?n] by auto
  then show "rest \<noteq> print_int v @ rest" by (simp add: print_int_def)
  have "number_prefix (print_int v @ rest) 10 = (v < 0, 10, print_base 10 ?n @ rest)"
    using digit_char_plain [OF p(2)] p by (auto simp: print_int_def number_prefix_def Let_def hd0_def isspace_def)
  moreover have "strtol_loop 10 0 (print_base 10 ?n @ rest) = Ret (int ?n, rest)"
    using strtol_loop_append [of 10 0 "print_base 10 ?n" "int ?n" rest] strtol_loop_print [of 10 ?n] assms
    by (cases rest) (simp_all add: hd0_def)
  moreover have "rest \<noteq> print_base 10 ?n @ rest" using p by simp
  ultimately show "strtol (print_int v @ rest) 10 = Ret (v, rest)" by (simp add: strtol_def)
qed

lemma print_int_first: "\<not> isspace (hd0 (print_int v @ rest))"
proof -
  obtain d xs where "print_base 10 (nat \<bar>v\<bar>) = digit_char d # xs" "d < 36"
    using print_base_hd [of 10 "nat \<bar>v\<bar>"] by auto
  with digit_char_plain [of d] show ?thesis by (simp add: print_int_def hd0_def isspace_def)
qed

lemma skip_space_plain: "\<not> isspace (hd0 s) \<Longrightarrow> skip_space s = s"
  by (cases s) (simp_all add: skip_space_def hd0_def)

lemma skip_space_blank: "isspace c \<Longrightarrow> skip_space (c # s) = skip_space s"
  by (simp add: skip_space_def)

definition print_fields :: "u32 list \<Rightarrow> cstr" where
  "print_fields vs = concat (map (\<lambda>v. print_int (sint v) @ [32]) vs)"

lemma slot_value: "signed_value False (ucast v) = sint (v :: u32)"
proof -
  have "ucast (ucast v :: u64) = (v :: u32)" by (rule bit_word_eqI) (simp add: bit_simps)
  then show ?thesis by (simp add: signed_value_def)
qed

lemma sint_bound: "\<bar>sint (v :: u32)\<bar> \<le> long_max"
  using sint_range_size [of v] by (simp add: long_max_def word_size abs_le_iff)

lemma render_fields: "render (decimal_fields (length vs)) (map int_slot vs) = Ret (print_fields vs)"
proof (induction vs)
  case (Cons v vs)
  have "sint v \<noteq> - (2 ^ 63)" using sint_bound [of v] by (simp add: long_max_def)
  then have "render (37 # [] @ 100 # 32 # decimal_fields (length vs)) (Slot (ucast v) # map int_slot vs) =
      obind (render (32 # decimal_fields (length vs)) (map int_slot vs)) (\<lambda>r. Ret (print_int (sint v) @ r))"
    using render_signed [of "[]" "ucast v" "32 # decimal_fields (length vs)" "map int_slot vs"]
    by (simp add: slot_value)
  moreover have "decimal_fields (length (v # vs)) = 37 # [] @ 100 # 32 # decimal_fields (length vs)"
    "map int_slot (v # vs) = Slot (ucast v) # map int_slot vs"
    "print_fields (v # vs) = print_int (sint v) @ 32 # print_fields vs"
    by (simp_all add: decimal_fields_def int_slot_def print_fields_def)
  ultimately show ?case using Cons.IH by simp
qed (simp add: decimal_fields_def print_fields_def)

lemma print_fields_first: "skip_space (print_fields vs) = print_fields vs"
proof (cases vs)
  case (Cons v vs')
  have "print_fields vs = print_int (sint v) @ (32 # print_fields vs')" by (simp add: Cons print_fields_def)
  then show ?thesis using print_int_first [of "sint v" "32 # print_fields vs'"] by (simp add: skip_space_plain)
qed (simp add: print_fields_def skip_space_def)

lemma scan_fields: "vsscanf strtod (print_fields vs) (decimal_fields (length vs)) = Ret (map Int_at vs)"
proof (induction vs)
  case (Cons v vs)
  let ?rest = "32 # print_fields vs"
  have f: "print_fields (v # vs) = print_int (sint v) @ ?rest" by (simp add: print_fields_def)
  have "digit_of (hd0 ?rest) = None" by (simp add: hd0_def digit_of_def)
  note st = strtol_print_int [OF sint_bound this, of v]
  have sk: "skip_space (print_int (sint v) @ ?rest) = print_int (sint v) @ ?rest"
    by (rule skip_space_plain [OF print_int_first])
  have conv: "scan_convert strtod 100 0 False (print_int (sint v) @ ?rest) = Ret (Some (Some (Int_at v), ?rest))"
    using st by (simp add: scan_convert_def sk field_def Let_def)
  have fmt: "decimal_fields (length (v # vs)) = 37 # 100 # 32 # decimal_fields (length vs)"
    by (simp add: decimal_fields_def)
  have dir: "scan_directive (100 # 32 # decimal_fields (length vs))
      = Ret (0, False, False, 100 # 32 # decimal_fields (length vs))"
    by (simp add: scan_directive_def hd0_def)
  have "vsscanf strtod ?rest (32 # decimal_fields (length vs)) = Ret (map Int_at vs)"
    using Cons.IH by (simp add: isspace_def skip_space_blank print_fields_first)
  then show ?case unfolding f fmt using conv dir by (simp add: isspace_def)
qed (simp add: decimal_fields_def print_fields_def)


text \<open>What is printed wrong: a negative number padded with zeros has the zeros before its sign, and
  a \<open>size_t\<close> is cut to 32 bits.\<close>

lemma odd_formats:
  "cs ''%05d'' = [37, 48, 53, 100]" "cs ''00-42'' = [48, 48, 45, 52, 50]" "cs ''%zu'' = [37, 122, 117]"
  "cs ''1'' = [49]" "cs ''%.3s'' = [37, 46, 51, 115]" "cs ''.3s'' = [46, 51, 115]"
  by code_simp+

lemma replicate_2: "replicate 2 x = [x, x]"
  by (simp add: numeral_2_eq_2)

lemma zero_padded_negative: "render (cs ''%05d'') [Slot (- 42)] = Ret (cs ''00-42'')"
  by (simp add: odd_formats directive_def format_width_def convert_def convert_signed_def pad_def singles_def
      signed_value_def numbuf_def digits_back.simps digit_char_def int_max_def Let_def replicate_2)

lemma size_t_cut: "render (cs ''%zu'') [Slot 4294967297] = Ret (cs ''1'')"
  by (simp add: odd_formats directive_def format_width_def convert_def convert_unsigned_def pad_def singles_def
      unsigned_value_def numbuf_def digits_back.simps digit_char_def int_max_def Let_def)

lemma precision_literal: "render (cs ''%.3s'') [Text (Some t)] = Ret (cs ''.3s'')"
  by (simp add: odd_formats directive_def format_width_def convert_def)

section \<open>Streams\<close>

text \<open>A stream with what the coming calls of \<open>read\<close> for one byte answer: a byte, or nothing on an
  error; no answer is the end of the file.\<close>

record stream =
  s_eof :: bool
  s_error :: bool
  s_ungot :: "u8 option"
  s_input :: "u8 option list"

definition fgetc :: "stream \<Rightarrow> u8 option \<times> stream" where
  "fgetc st =
     (case s_ungot st of
        Some c \<Rightarrow> (Some c, st\<lparr>s_ungot := None\<rparr>)
      | None \<Rightarrow>
          (case s_input st of
             [] \<Rightarrow> (None, st\<lparr>s_eof := True\<rparr>)
           | None # rest \<Rightarrow> (None, st\<lparr>s_error := True, s_input := rest\<rparr>)
           | Some c # rest \<Rightarrow> (Some c, st\<lparr>s_input := rest\<rparr>)))"

definition ungetc :: "u8 option \<Rightarrow> stream \<Rightarrow> u8 option \<times> stream" where
  "ungetc c st = (case c of None \<Rightarrow> (None, st) | Some b \<Rightarrow> (Some b, st\<lparr>s_ungot := Some b, s_eof := False\<rparr>))"

fun fgets_loop :: "nat \<Rightarrow> stream \<Rightarrow> u8 list \<times> stream" where
  "fgets_loop 0 st = ([], st)"
| "fgets_loop (Suc n) st =
     (case fgetc st of
        (None, st') \<Rightarrow> ([], st')
      | (Some c, st') \<Rightarrow>
          if c = 10 then ([c], st')
          else let (l, st'') = fgets_loop n st' in (c # l, st''))"

text \<open>The string without its terminator; \<open>None\<close> is the null pointer.\<close>

definition fgets :: "int \<Rightarrow> stream \<Rightarrow> u8 list option \<times> stream" where
  "fgets sz st =
     (if sz \<le> 0 then (None, st)
      else let (l, st') = fgets_loop (nat (sz - 1)) st in
        (if l = [] \<and> 1 < sz then None else Some l, st'))"

fun fread_loop :: "nat \<Rightarrow> stream \<Rightarrow> u8 list \<times> stream" where
  "fread_loop 0 st = ([], st)"
| "fread_loop (Suc n) st =
     (case fgetc st of
        (None, st') \<Rightarrow> ([], st')
      | (Some c, st') \<Rightarrow> let (l, st'') = fread_loop n st' in (c # l, st''))"

definition fread :: "u64 \<Rightarrow> u64 \<Rightarrow> stream \<Rightarrow> nat \<times> u8 list \<times> stream" where
  "fread sz nmemb st =
     (let (l, st') = fread_loop (unat (sz * nmemb)) st
      in (if sz = 0 then 0 else length l div unat sz, l, st'))"

definition feof :: "stream \<Rightarrow> bool" where "feof st = s_eof st"
definition ferror :: "stream \<Rightarrow> bool" where "ferror st = s_error st"

definition clearerr :: "stream \<Rightarrow> stream" where
  "clearerr st = st\<lparr>s_eof := False, s_error := False\<rparr>"

text \<open>\<open>fseek\<close> with the answer of \<open>lseek\<close> and the input behind the new position.\<close>

definition fseek :: "int \<Rightarrow> u8 option list \<Rightarrow> stream \<Rightarrow> int \<times> stream" where
  "fseek answer input st =
     (if answer < 0 then - 1 else 0,
      st\<lparr>s_ungot := None, s_eof := False, s_input := (if answer < 0 then s_input st else input)\<rparr>)"

text \<open>Output, with the answer of \<open>write\<close>: what is written, what is returned (\<open>None\<close> is \<open>EOF\<close>).\<close>

definition fputc :: "u8 \<Rightarrow> int \<Rightarrow> stream \<Rightarrow> u8 option \<times> u8 list \<times> stream" where
  "fputc c answer st =
     (if answer \<noteq> 1 then (None, [], st\<lparr>s_error := True\<rparr>) else (Some c, [c], st))"

definition fputs :: "cstr \<Rightarrow> int \<Rightarrow> stream \<Rightarrow> bool \<times> u8 list \<times> stream" where
  "fputs s answer st =
     (if answer \<noteq> int (length s) then (False, take (nat answer) s, st\<lparr>s_error := True\<rparr>) else (True, s, st))"

definition puts :: "cstr \<Rightarrow> int \<Rightarrow> int \<Rightarrow> stream \<Rightarrow> bool \<times> u8 list \<times> stream" where
  "puts s answer1 answer2 st =
     (let (ok, w, st1) = fputs s answer1 st in
      if \<not> ok then (False, w, st1)
      else let (r, w', st2) = fputc 10 answer2 st1 in (r \<noteq> None, w @ w', st2))"

definition fwrite :: "u8 list \<Rightarrow> u64 \<Rightarrow> u64 \<Rightarrow> int \<Rightarrow> stream \<Rightarrow> nat \<times> u8 list \<times> stream" where
  "fwrite bytes sz nmemb answer st =
     (if answer < 0 then (0, [], st\<lparr>s_error := True\<rparr>)
      else (if sz = 0 then 0 else nat answer div unat sz, take (nat answer) bytes, st))"

text \<open>The bytes a stream still has before an error or its end.\<close>

definition remaining :: "stream \<Rightarrow> u8 list" where
  "remaining st = (case s_ungot st of None \<Rightarrow> [] | Some c \<Rightarrow> [c]) @
     map the (takeWhile (\<lambda>b. b \<noteq> None) (s_input st))"

lemma fgetc_remaining:
  "fgetc st = (Some c, st') \<Longrightarrow> remaining st = c # remaining st'"
  "fgetc st = (None, st') \<Longrightarrow> remaining st = []"
  by (auto simp: fgetc_def remaining_def split: option.splits list.splits)

text \<open>\<open>fgets\<close> gives the next bytes of the stream, up to a newline, the end or its limit.\<close>

lemma fgets_loop_prefix: "fgets_loop n st = (l, st') \<Longrightarrow>
    (\<exists>rest. remaining st = l @ rest) \<and> length l \<le> n \<and> 10 \<notin> set (butlast l) \<and>
    (s_eof st' \<or> s_error st' \<or> length l = n \<or> (l \<noteq> [] \<and> last l = 10))"
proof (induction n arbitrary: l st st')
  case (Suc n)
  obtain r st1 where g: "fgetc st = (r, st1)" by (cases "fgetc st")
  show ?case
  proof (cases r)
    case None
    with Suc.prems g have "l = []" "st' = st1" by auto
    moreover have "s_eof st1 \<or> s_error st1"
      using g None by (auto simp: fgetc_def split: option.splits list.splits)
    ultimately show ?thesis by auto
  next
    case (Some c)
    with fgetc_remaining(1) g have rem: "remaining st = c # remaining st1" by simp
    show ?thesis
    proof (cases "c = 10")
      case True
      with Suc.prems g Some rem show ?thesis by auto
    next
      case False
      obtain l2 st2 where l2: "fgets_loop n st1 = (l2, st2)" by fastforce
      with Suc.prems g Some False have "l = c # l2" "st' = st2" by auto
      with Suc.IH [OF l2] rem False show ?thesis by (cases l2) auto
    qed
  qed
qed simp

end
