(* ===== verification/CTime.thy ===== *)
theory CTime
  imports Stdio
begin

text \<open>
  Calendar time (\<open>userland/libc/src/time.c\<close>): a day number to a date and back, \<open>gmtime\<close>,
  \<open>mktime\<close>, \<open>asctime\<close> and \<open>strftime\<close>.  \<open>long\<close> values are integers, \<open>unsigned\<close> ones words; an \<open>int\<close>
  that is stored is cut to 32 bits.  The clock and the timers, which are system calls, are left out.

  The dates are those of a calendar that counts day by day, and the conversions invert each other.
\<close>

section \<open>Day numbers and dates\<close>

text \<open>Division of \<open>long\<close> values rounds towards zero.\<close>

definition c_div :: "int \<Rightarrow> int \<Rightarrow> int" where
  "c_div a b = (if a < 0 then - ((- a) div b) else a div b)"

definition c_mod :: "int \<Rightarrow> int \<Rightarrow> int" where
  "c_mod a b = a - c_div a b * b"

definition to_int :: "int \<Rightarrow> int" where
  "to_int x = sint (of_int x :: u32)"

definition civil_from_days :: "int \<Rightarrow> int \<times> int \<times> int" where
  "civil_from_days z0 =
     (let z = z0 + 719468;
          era = c_div (if 0 \<le> z then z else z - 146096) 146097;
          doe = (of_int (z - era * 146097) :: u32);
          yoe = (doe - doe div 1460 + doe div 36524 - doe div 146096) div 365;
          yy = uint yoe + era * 400;
          doy = doe - (365 * yoe + yoe div 4 - yoe div 100);
          mp = (5 * doy + 2) div 153;
          dd = doy - (153 * mp + 2) div 5 + 1;
          mm = mp + (if mp < 10 then 3 else - 9)
      in (to_int (yy + (if mm \<le> 2 then 1 else 0)), sint mm, sint dd))"

definition days_from_civil :: "int \<Rightarrow> int \<Rightarrow> int \<Rightarrow> int" where
  "days_from_civil y m d =
     (let yy = y - (if m \<le> 2 then 1 else 0);
          era = c_div (if 0 \<le> yy then yy else yy - 399) 400;
          yoe = (of_int (yy - era * 400) :: u32);
          mp = of_int (m + (if 2 < m then - 3 else 9)) :: u32;
          doy = (153 * mp + 2) div 5 + of_int d - 1;
          doe = yoe * 365 + yoe div 4 - yoe div 100 + doy
      in era * 146097 + uint doe - 719468)"

section \<open>Broken-down time\<close>

record tm =
  tm_sec :: int
  tm_min :: int
  tm_hour :: int
  tm_mday :: int
  tm_mon :: int
  tm_year :: int
  tm_wday :: int
  tm_yday :: int
  tm_isdst :: int
  tm_gmtoff :: int
  tm_zone :: "cstr option"

definition day_of :: "int \<Rightarrow> int" where
  "day_of t = (if 0 \<le> t then c_div t 86400 else c_div (t - 86399) 86400)"

definition gmtime_r :: "int \<Rightarrow> tm" where
  "gmtime_r t =
     (let days = day_of t; rem = t - days * 86400; (y, mo, d) = civil_from_days days in
      \<lparr>tm_sec = to_int (c_mod rem 60), tm_min = to_int (c_div (c_mod rem 3600) 60),
       tm_hour = to_int (c_div rem 3600), tm_mday = d, tm_mon = mo - 1, tm_year = y - 1900,
       tm_wday = to_int (c_mod (c_mod days 7 + 7 + 4) 7),
       tm_yday = to_int (days - days_from_civil y 1 1), tm_isdst = 0, tm_gmtoff = 0, tm_zone = Some (cs ''UTC'')\<rparr>)"

definition localtime_r :: "int \<Rightarrow> tm" where "localtime_r t = gmtime_r t"

definition mktime :: "tm \<Rightarrow> int \<times> tm" where
  "mktime tm =
     (let days = days_from_civil (tm_year tm + 1900) (tm_mon tm + 1) (tm_mday tm);
          t = days * 86400 + tm_hour tm * 3600 + tm_min tm * 60 + tm_sec tm
      in (t, gmtime_r t))"

definition wdays_full :: "cstr list" where
  "wdays_full = map cs [''Sunday'', ''Monday'', ''Tuesday'', ''Wednesday'', ''Thursday'', ''Friday'', ''Saturday'']"

definition mons_full :: "cstr list" where
  "mons_full = map cs [''January'', ''February'', ''March'', ''April'', ''May'', ''June'', ''July'',
     ''August'', ''September'', ''October'', ''November'', ''December'']"

text \<open>An \<open>int\<close> as an argument of \<open>printf\<close>, and an entry of a table of names: a negative index is
  outside the table.\<close>

definition int_arg :: "int \<Rightarrow> arg" where
  "int_arg v = Slot (ucast (of_int v :: u32))"

definition name_at :: "cstr list \<Rightarrow> int \<Rightarrow> int \<Rightarrow> cstr outcome" where
  "name_at names i n = (let k = c_mod i n in if k < 0 then Fault else Ret (names ! nat k))"

text \<open>\<open>asctime\<close> prints into 26 bytes.\<close>

definition asctime :: "tm \<Rightarrow> (nat option \<times> u8 list) outcome" where
  "asctime tm =
     obind (name_at wdays_full (tm_wday tm) 7) (\<lambda>w.
     obind (name_at mons_full (tm_mon tm) 12) (\<lambda>m.
       vsnprintf 26 (cs ''%s %s %2d %02d:%02d:%02d %d'' @ [10])
         [Text (Some (take 3 w)), Text (Some (take 3 m)), int_arg (tm_mday tm), int_arg (tm_hour tm),
          int_arg (tm_min tm), int_arg (tm_sec tm), int_arg (tm_year tm + 1900)]))"

definition ctime :: "int \<Rightarrow> (nat option \<times> u8 list) outcome" where
  "ctime t = asctime (localtime_r t)"

text \<open>The text of one \<open>strftime\<close> conversion.  All but the name of the zone fit the 32 bytes it is
  printed into; a longer zone name overruns them.\<close>

definition strftime_piece :: "u8 \<Rightarrow> tm \<Rightarrow> cstr outcome" where
  "strftime_piece f tm =
     (let num = (\<lambda>fmt v. obind (vsnprintf 32 (cs fmt) [int_arg v]) (\<lambda>(_, s). Ret (takeWhile (\<lambda>c. c \<noteq> 0) s)))
      in
      if f = 89 then num ''%d'' (tm_year tm + 1900)
      else if f = 121 then num ''%02d'' (c_mod (tm_year tm + 1900) 100)
      else if f = 109 then num ''%02d'' (tm_mon tm + 1)
      else if f = 100 then num ''%02d'' (tm_mday tm)
      else if f = 101 then num ''%2d'' (tm_mday tm)
      else if f = 72 then num ''%02d'' (tm_hour tm)
      else if f = 73 then num ''%02d'' (if c_mod (tm_hour tm) 12 = 0 then 12 else c_mod (tm_hour tm) 12)
      else if f = 77 then num ''%02d'' (tm_min tm)
      else if f = 83 then num ''%02d'' (tm_sec tm)
      else if f = 112 then Ret (if tm_hour tm < 12 then cs ''AM'' else cs ''PM'')
      else if f = 97 then obind (name_at wdays_full (tm_wday tm) 7) (\<lambda>w. Ret (take 3 w))
      else if f = 65 then name_at wdays_full (tm_wday tm) 7
      else if f = 98 \<or> f = 104 then obind (name_at mons_full (tm_mon tm) 12) (\<lambda>m. Ret (take 3 m))
      else if f = 66 then name_at mons_full (tm_mon tm) 12
      else if f = 106 then num ''%03d'' (tm_yday tm + 1)
      else if f = 110 then Ret [10]
      else if f = 116 then Ret [9]
      else if f = 90 then
        (let z = (case tm_zone tm of Some z \<Rightarrow> z | None \<Rightarrow> cs ''UTC'') in
         if length z < 32 then Ret z else Fault)
      else if f = 37 then Ret [37]
      else Ret [37, f])"

fun strftime_loop :: "nat \<Rightarrow> u8 list \<Rightarrow> tm \<Rightarrow> u8 list \<Rightarrow> u8 list outcome" where
  "strftime_loop room [] tm s = Ret s"
| "strftime_loop room [f] tm s =
     (if room \<le> length s + 1 then Ret s
      else if f \<noteq> 37 then Ret (s @ [f])
      else Ret (s @ take (room - 1 - length s) [37]))"
| "strftime_loop room (f # g # fmt) tm s =
     (if room \<le> length s + 1 then Ret s
      else if f \<noteq> 37 then strftime_loop room (g # fmt) tm (s @ [f])
      else obind (strftime_piece g tm) (\<lambda>p.
        strftime_loop room fmt tm (s @ take (room - 1 - length s) p)))"

text \<open>The string and the length returned; the terminator is written in any case.\<close>

definition strftime :: "nat \<Rightarrow> u8 list \<Rightarrow> tm \<Rightarrow> (nat \<times> u8 list) outcome" where
  "strftime room fmt tm = obind (strftime_loop room fmt tm []) (\<lambda>s. Ret (length s, s @ [0]))"

section \<open>The calendar\<close>

definition leap :: "int \<Rightarrow> bool" where
  "leap y \<longleftrightarrow> 4 dvd y \<and> (\<not> 100 dvd y \<or> 400 dvd y)"

definition month_days :: "int \<Rightarrow> int \<Rightarrow> int" where
  "month_days y m = (if m = 2 then if leap y then 29 else 28 else if m \<in> {4, 6, 9, 11} then 30 else 31)"

fun next_day :: "int \<times> int \<times> int \<Rightarrow> int \<times> int \<times> int" where
  "next_day (y, m, d) =
     (if d < month_days y m then (y, m, d + 1) else if m < 12 then (y, m + 1, 1) else (y + 1, 1, 1))"

fun valid_date :: "int \<times> int \<times> int \<Rightarrow> bool" where
  "valid_date (y, m, d) \<longleftrightarrow> 1 \<le> m \<and> m \<le> 12 \<and> 1 \<le> d \<and> d \<le> month_days y m"

lemma c_div_floor: "0 < b \<Longrightarrow> c_div (if 0 \<le> a then a else a - (b - 1)) b = a div b"
proof (cases "0 \<le> a")
  case False
  assume b: "0 < b"
  define q r where "q = a div b" and "r = a mod b"
  have a: "a = q * b + r" "0 \<le> r" "r < b" using b by (simp_all add: q_def r_def)
  have "- (a - (b - 1)) = (- q) * b + (b - 1 - r)" using a(1) by (simp add: algebra_simps)
  then have "(- (a - (b - 1))) div b = - q"
    by (intro int_div_pos_eq [where r = "b - 1 - r"]) (use a(2, 3) in \<open>simp_all add: mult.commute\<close>)
  moreover have "a - (b - 1) < 0" using False b by linarith
  ultimately show ?thesis using False by (simp add: c_div_def q_def)
qed (simp add: c_div_def)

text \<open>The March-based year: the days before it, and those before a month of it.\<close>

definition year_start :: "int \<Rightarrow> int" where
  "year_start y = 365 * y + y div 4 - y div 100 + y div 400"

definition month_start :: "int \<Rightarrow> int" where
  "month_start mp = (153 * mp + 2) div 5"

text \<open>The March-based year, and month of a date.\<close>

definition march_year :: "int \<Rightarrow> int \<Rightarrow> int" where
  "march_year y m = (if m \<le> 2 then y - 1 else y)"

definition march_month :: "int \<Rightarrow> int" where
  "march_month m = (if 2 < m then m - 3 else m + 9)"

definition day_number :: "int \<Rightarrow> int \<Rightarrow> int \<Rightarrow> int" where
  "day_number y m d = year_start (march_year y m) + month_start (march_month m) + d - 1"

lemma div_step: "(0::int) < k \<Longrightarrow> y div k - (y - 1) div k = (if k dvd y then 1 else 0)"
proof -
  assume k: "0 < k"
  have y: "y = k * (y div k) + y mod k" by simp
  show ?thesis
  proof (cases "k dvd y")
    case True
    then obtain q where q: "y = k * q" by (elim dvdE)
    then have "(y - 1) div k = q - 1"
      by (intro int_div_pos_eq [where r = "k - 1"]) (use k in \<open>simp_all add: algebra_simps\<close>)
    with q k show ?thesis by simp
  next
    case False
    then have "y mod k \<noteq> 0" by (simp add: dvd_eq_mod_eq_0)
    then have "0 \<le> y mod k - 1" "y mod k - 1 < k"
      using k pos_mod_bound [OF k, of y] pos_mod_sign [OF k, of y] by linarith+
    then have "(y - 1) div k = y div k"
      by (intro int_div_pos_eq [where r = "y mod k - 1"]) simp_all
    with False show ?thesis by simp
  qed
qed

lemma year_length: "year_start y - year_start (y - 1) = (if leap y then 366 else 365)"
proof -
  have "4 dvd y" if "100 dvd y" by (rule dvd_trans [OF _ that]) simp
  moreover have "100 dvd y" if "400 dvd y" by (rule dvd_trans [OF _ that]) simp
  moreover have "365 * y + a - b + c - (365 * (y - 1) + a' - b' + c') = 365 + (a - a') - (b - b') + (c - c')"
    for a b c a' b' c' :: int by (simp add: algebra_simps)
  then have "year_start y - year_start (y - 1)
      = 365 + (if 4 dvd y then 1 else 0) - (if 100 dvd y then 1 else 0) + (if 400 dvd y then 1 else 0)"
    by (simp only: year_start_def div_step zero_less_numeral)
  ultimately show ?thesis
    unfolding leap_def by (cases "4 dvd y"; cases "100 dvd y"; cases "400 dvd y") simp_all
qed

lemma month_cases: "1 \<le> (m::int) \<Longrightarrow> m \<le> 12 \<Longrightarrow>
  m = 1 \<or> m = 2 \<or> m = 3 \<or> m = 4 \<or> m = 5 \<or> m = 6 \<or> m = 7 \<or> m = 8 \<or> m = 9 \<or> m = 10 \<or> m = 11 \<or> m = 12"
  by arith

lemma month_turn:
  assumes "1 \<le> m" "m \<le> 12"
  shows "day_number (if m < 12 then y else y + 1) (if m < 12 then m + 1 else 1) 1
    = day_number y m (month_days y m) + 1"
proof (cases "m = 2")
  case True
  have "day_number y 3 1 = year_start y" "day_number y 2 (month_days y 2) = year_start (y - 1) + 336 + month_days y 2"
    by (simp_all add: day_number_def march_year_def march_month_def month_start_def)
  with True year_length [of y] show ?thesis by (cases "leap y") (simp_all add: month_days_def)
next
  case False
  define y' m' where "y' = (if m < 12 then y else y + 1)" and "m' = (if m < 12 then m + 1 else 1)"
  have "march_year y' m' = march_year y m" "march_month m' = march_month m + 1"
    using assms False by (simp_all add: y'_def m'_def march_year_def march_month_def)
  moreover have "month_start (march_month m + 1) = month_start (march_month m) + month_days y m"
    using month_cases [OF assms] False
    by (elim disjE) (simp_all add: month_start_def march_month_def month_days_def)
  ultimately show ?thesis by (simp add: day_number_def y'_def [symmetric] m'_def [symmetric])
qed

lemma month_days_pos: "1 \<le> month_days y m"
  by (simp add: month_days_def)

lemma next_day_number:
  assumes "valid_date (y, m, d)" "next_day (y, m, d) = (y', m', d')"
  shows "day_number y' m' d' = day_number y m d + 1" "valid_date (y', m', d')"
proof -
  have m: "1 \<le> m" "m \<le> 12" "1 \<le> d" "d \<le> month_days y m" using assms(1) by simp_all
  have "day_number y' m' d' = day_number y m d + 1 \<and> valid_date (y', m', d')"
  proof (cases "d < month_days y m")
    case True
    with assms(2) have "y' = y" "m' = m" "d' = d + 1" by simp_all
    with True m show ?thesis by (simp add: day_number_def)
  next
    case False
    with m(4) have d: "d = month_days y m" by simp
    with assms(2) have "y' = (if m < 12 then y else y + 1)" "m' = (if m < 12 then m + 1 else 1)" "d' = 1"
      by (simp_all split: if_splits)
    with m d month_turn [OF m(1, 2), of y] show ?thesis by (simp add: month_days_pos)
  qed
  then show "day_number y' m' d' = day_number y m d + 1" "valid_date (y', m', d')" by blast+
qed

section \<open>From a day number to the date\<close>

definition century_day :: "int \<Rightarrow> int" where
  "century_day k = 365 * k + k div 4 - k div 100"

definition year_days :: "int \<Rightarrow> int" where
  "year_days k = (if k = 399 then 366 else century_day (k + 1) - century_day k)"

definition year_sum :: "int \<Rightarrow> int" where
  "year_sum e = e - e div 1460 + e div 36524"

definition year_at :: "int \<Rightarrow> int" where
  "year_at e = (year_sum e - e div 146096) div 365"

lemma year_sum_mono: "a \<le> b \<Longrightarrow> year_sum a \<le> year_sum b"
proof -
  assume ab: "a \<le> b"
  have "b div 1460 \<le> (a + (b - a) * 1460) div 1460" using ab by (intro zdiv_mono1) simp_all
  then have "b div 1460 \<le> a div 1460 + (b - a)" by simp
  moreover have "a div 36524 \<le> b div 36524" using ab by (rule zdiv_mono1) simp
  moreover have "q' \<le> q + (b - a) \<Longrightarrow> r \<le> r' \<Longrightarrow> a - q + r \<le> b - q' + r'" for q q' r r' :: int by simp
  ultimately show ?thesis unfolding year_sum_def by blast
qed

lemma year_start_split: "year_start y = 146097 * (y div 400) + century_day (y mod 400)"
proof -
  define e k where "e = y div 400" and "k = y mod 400"
  have y: "y = k + 400 * e" by (simp add: e_def k_def)
  have "(k + 4 * (100 * e)) div 4 = 100 * e + k div 4" "(k + 100 * (4 * e)) div 100 = 4 * e + k div 100"
    by (subst div_mult_self2; simp)+
  then have "y div 4 = 100 * e + k div 4" "y div 100 = 4 * e + k div 100" by (simp_all add: y)
  then show ?thesis by (simp add: year_start_def century_day_def e_def [symmetric] k_def [symmetric]) (simp add: y)
qed

lemma leap_mod: "leap (y mod 400) = leap y" "leap (y mod 400 + 1) = leap (y + 1)"
proof -
  show "leap (y mod 400) = leap y" by (simp add: leap_def dvd_mod_iff)
  have "k dvd y mod 400 + 1 \<longleftrightarrow> k dvd y + 1" if "k dvd 400" for k
  proof -
    have "y + 1 = (y mod 400 + 1) + 400 * (y div 400)" by simp
    moreover have "k dvd 400 * (y div 400)" using that by simp
    ultimately show ?thesis by (metis dvd_add_left_iff)
  qed
  then show "leap (y mod 400 + 1) = leap (y + 1)" by (simp add: leap_def)
qed

lemma year_days_leap: "0 \<le> k \<Longrightarrow> k < 400 \<Longrightarrow> year_days k = (if leap (k + 1) then 366 else 365)"
proof (cases "k = 399")
  case False
  assume "0 \<le> k" "k < 400"
  with False have "k div 400 = 0" "k mod 400 = k" "(k + 1) div 400 = 0" "(k + 1) mod 400 = k + 1" by simp_all
  then show ?thesis
    using year_length [of "k + 1"] False by (simp add: year_days_def year_start_split [of k] year_start_split [of "k + 1"])
qed (simp add: year_days_def leap_def)

definition year_entry :: "int \<Rightarrow> bool" where
  "year_entry k \<longleftrightarrow>
     (let s = century_day k; l = s + year_days k - 1; e = (if k = 399 then 146095 else l)
      in year_at s = k \<and> year_sum e div 365 = k \<and>
         0 \<le> s \<and> s < 146096 \<and> l \<le> (if k < 399 then 146095 else 146096))"

lemma year_table_0: "list_all year_entry [0..99]" by code_simp

lemma year_table_1: "list_all year_entry [100..199]" by code_simp

lemma year_table_2: "list_all year_entry [200..299]" by code_simp

lemma year_table_3: "list_all year_entry [300..399]" by code_simp

lemma year_entry: "0 \<le> k \<Longrightarrow> k < 400 \<Longrightarrow> year_entry k"
proof -
  assume "0 \<le> k" "k < 400"
  then have "k \<in> set [0..99] \<or> k \<in> set [100..199] \<or> k \<in> set [200..299] \<or> k \<in> set [300..399]"
    unfolding set_upto atLeastAtMost_iff by linarith
  with year_table_0 year_table_1 year_table_2 year_table_3 show ?thesis unfolding list_all_iff by blast
qed

lemma year_at_ok:
  assumes "0 \<le> k" "k < 400" "0 \<le> doy" "doy < year_days k"
  shows "year_at (century_day k + doy) = k" "century_day k + doy < 146097" "0 \<le> century_day k"
proof -
  let ?e = "century_day k + doy"
  define top where "top = (if k = 399 then 146095 else century_day k + year_days k - 1)"
  have entry: "year_at (century_day k) = k \<and> year_sum top div 365 = k \<and> 0 \<le> century_day k \<and>
    century_day k < 146096 \<and> century_day k + year_days k - 1 \<le> (if k < 399 then 146095 else 146096)"
    using year_entry [OF assms(1, 2)] unfolding year_entry_def Let_def top_def [symmetric] .
  note t = entry [THEN conjunct1] entry [THEN conjunct2, THEN conjunct1]
    entry [THEN conjunct2, THEN conjunct2, THEN conjunct1]
    entry [THEN conjunct2, THEN conjunct2, THEN conjunct2, THEN conjunct1]
    entry [THEN conjunct2, THEN conjunct2, THEN conjunct2, THEN conjunct2]
  show "?e < 146097" "0 \<le> century_day k" using t(3, 5) assms by (simp_all split: if_splits)
  show "year_at ?e = k"
  proof (cases "?e < 146096")
    case True
    then have e: "?e \<le> top" using assms t(3) by (cases "k = 399", simp_all add: top_def)
    have "century_day k div 146096 = 0" "?e div 146096 = 0"
      using t(3, 4) assms(3) True by (simp_all add: div_pos_pos_trivial)
    then have k: "year_sum (century_day k) div 365 = k" "year_at ?e = year_sum ?e div 365"
      using t(1) by (simp_all add: year_at_def)
    have "year_sum (century_day k) div 365 \<le> year_sum ?e div 365"
      using year_sum_mono [of "century_day k" ?e] assms(3) by (simp add: zdiv_mono1)
    moreover have "year_sum ?e div 365 \<le> year_sum top div 365"
      using year_sum_mono [OF e] by (simp add: zdiv_mono1)
    ultimately show ?thesis using k t(2) by linarith
  next
    case False
    with t(5) assms have "?e = 146096" "k = 399" by (simp_all split: if_splits)
    then show ?thesis by (simp add: year_at_def year_sum_def)
  qed
qed

definition month_length :: "int \<Rightarrow> int" where
  "month_length mp = (if mp = 11 then 29 else month_start (mp + 1) - month_start mp)"

definition month_entry :: "int \<Rightarrow> bool" where
  "month_entry mp \<longleftrightarrow>
     list_all (\<lambda>d. (5 * (month_start mp + d) + 2) div 153 = mp) [0..month_length mp - 1]"

lemma month_table: "list_all month_entry [0..11]"
  by code_simp

lemma month_at_ok:
  assumes "0 \<le> mp" "mp \<le> 11" "0 \<le> d" "d < month_length mp"
  shows "(5 * (month_start mp + d) + 2) div 153 = mp"
proof -
  have "month_entry mp" using month_table assms(1, 2) unfolding list_all_iff by simp
  then show ?thesis using assms(3, 4) unfolding month_entry_def list_all_iff by simp
qed

section \<open>Words\<close>

lemma u32_div:
  "0 \<le> a \<Longrightarrow> a < 4294967296 \<Longrightarrow> 0 \<le> b \<Longrightarrow> b < 4294967296 \<Longrightarrow>
    (of_int a :: u32) div of_int b = of_int (a div b)"
  by (simp add: word_div_def unsigned_of_int take_bit_int_eq_self)

lemma u32_uint: "0 \<le> a \<Longrightarrow> a < 4294967296 \<Longrightarrow> uint (of_int a :: u32) = a"
  by (simp add: unsigned_of_int take_bit_int_eq_self)

lemma to_int_id: "- 2147483648 \<le> a \<Longrightarrow> a < 2147483648 \<Longrightarrow> to_int a = a"
  by (simp add: to_int_def signed_of_int signed_take_bit_int_eq_self)

lemma year_word:
  assumes "0 \<le> e" "e < 146097"
  shows "((of_int e :: u32) - of_int e div 1460 + of_int e div 36524 - of_int e div 146096) div 365
    = of_int (year_at e)"
proof -
  have d: "(of_int e :: u32) div of_int b = of_int (e div b)" if "0 \<le> b" "b < 4294967296" for b
    using u32_div [of e b] assms that by simp
  have small: "x - a + b - c < 4294967296" "0 \<le> x - a + b - c"
    if "x < 146097" "0 \<le> x" "0 \<le> a" "a \<le> x" "b \<le> x" "0 \<le> c" "c \<le> b" for x a b c :: int
    using that by linarith+
  have le: "e div k \<le> e" "0 \<le> e div k" if "0 < k" for k
    using zdiv_mono2 [of e 1 k] assms(1) that by (simp_all add: pos_imp_zdiv_nonneg_iff)
  have "e div 146096 \<le> e div 36524" using assms(1) by (intro zdiv_mono2) simp_all
  note small = small [OF assms(2, 1) le(2) [of 1460] le(1) [of 1460] le(1) [of 36524] le(2) [of 146096] this,
    OF zero_less_numeral zero_less_numeral zero_less_numeral zero_less_numeral]
  have r: "(of_int e :: u32) - of_int e div 1460 + of_int e div 36524 - of_int e div 146096
      = of_int (e - e div 1460 + e div 36524 - e div 146096)"
    using d [of 1460] d [of 36524] d [of 146096] by simp
  show ?thesis unfolding r year_at_def year_sum_def
    using u32_div [OF small(2, 1), of 365] by (simp only: of_int_numeral zero_le_numeral numeral_less_iff less_num_simps simp_thms)
qed

section \<open>The conversions\<close>

definition march_day :: "int \<Rightarrow> int \<Rightarrow> int" where
  "march_day m d = month_start (march_month m) + d - 1"

definition cycle_day :: "int \<Rightarrow> int \<Rightarrow> int \<Rightarrow> int" where
  "cycle_day y m d = century_day (march_year y m mod 400) + march_day m d"

lemma day_number_split:
  "day_number y m d = 146097 * (march_year y m div 400) + cycle_day y m d"
  using year_start_split [of "march_year y m"]
  by (simp add: day_number_def march_day_def cycle_day_def)

lemma march_day_bounds:
  assumes "valid_date (y, m, d)"
  shows "0 \<le> march_month m" "march_month m \<le> 11" "0 \<le> d - 1" "d - 1 < month_length (march_month m)"
    "0 \<le> march_day m d" "march_day m d < year_days (march_year y m mod 400)"
proof -
  have m: "1 \<le> m" "m \<le> 12" "1 \<le> d" "d \<le> month_days y m" using assms by simp_all
  show "0 \<le> march_month m" "march_month m \<le> 11" "0 \<le> d - 1"
    using m by (simp_all add: march_month_def)
  have "month_days y m \<le> month_length (march_month m) \<and> 0 \<le> month_start (march_month m) \<and>
    month_start (march_month m) + month_days y m \<le> (if m = 2 then if leap y then 366 else 365 else 365)"
    using month_cases [OF m(1, 2)]
    by (elim disjE) (simp_all add: march_month_def month_days_def month_length_def month_start_def)
  moreover have "year_days (march_year y m mod 400) = (if leap (march_year y m + 1) then 366 else 365)"
    by (simp add: year_days_leap leap_mod)
  moreover have "march_year y 2 + 1 = y" by (simp add: march_year_def)
  ultimately show "d - 1 < month_length (march_month m)" "0 \<le> march_day m d"
    "march_day m d < year_days (march_year y m mod 400)"
    using m by (cases "m = 2"; simp add: march_day_def split: if_splits; linarith)+
qed

lemma cycle_day_ok:
  assumes "valid_date (y, m, d)"
  shows "0 \<le> cycle_day y m d" "cycle_day y m d < 146097" "year_at (cycle_day y m d) = march_year y m mod 400"
    "(5 * march_day m d + 2) div 153 = march_month m"
proof -
  note b = march_day_bounds [OF assms]
  have k: "0 \<le> march_year y m mod 400" "march_year y m mod 400 < 400" by simp_all
  show "0 \<le> cycle_day y m d" "cycle_day y m d < 146097" "year_at (cycle_day y m d) = march_year y m mod 400"
    using year_at_ok [OF k b(5, 6)] b(5) by (simp_all add: cycle_day_def)
  show "(5 * march_day m d + 2) div 153 = march_month m"
    using month_at_ok [OF b(1, 2, 3, 4)] by (simp add: march_day_def algebra_simps)
qed

lemma civil_from_days_date:
  assumes v: "valid_date (y, m, d)" and y: "- 2147483648 \<le> y" "y < 2147483648"
  shows "civil_from_days (day_number y m d - 719468) = (y, m, d)"
proof -
  define e k n where "e = march_year y m div 400" and "k = march_year y m mod 400" and "n = cycle_day y m d"
  note ok = cycle_day_ok [OF v, folded n_def k_def] and b = march_day_bounds [OF v, folded k_def]
  have z: "day_number y m d = 146097 * e + n" by (simp add: day_number_split e_def n_def)
  have e: "c_div (if 0 \<le> day_number y m d then day_number y m d else day_number y m d - 146096) 146097 = e"
    using c_div_floor [of 146097 "day_number y m d"] z ok(1, 2) by (simp split: if_splits)
  have k: "0 \<le> k" "k < 400" "k < 4294967296" by (simp_all add: k_def order_less_trans [of _ 400])
  have n: "n = 365 * k + k div 4 - k div 100 + march_day m d"
    by (simp add: n_def k_def cycle_day_def century_day_def)
  have doy: "(of_int n :: u32) - (365 * of_int k + of_int k div 4 - of_int k div 100) = of_int (march_day m d)"
    using u32_div [of k 4] u32_div [of k 100] k by (simp add: n)
  have d366: "march_day m d < 366" using b(6) k by (simp add: year_days_leap split: if_splits)
  have mp: "(5 * of_int (march_day m d) + 2) div 153 = (of_int (march_month m) :: u32)"
    using u32_div [of "5 * march_day m d + 2" 153] ok(4) b(5) d366 by simp
  have ms: "(153 * of_int (march_month m) + 2) div 5 = (of_int (month_start (march_month m)) :: u32)"
    using u32_div [of "153 * march_month m + 2" 5] b(1, 2) by (simp add: month_start_def)
  have dd: "of_int (march_day m d) - (of_int (month_start (march_month m)) :: u32) + 1 = of_int d"
    by (simp add: march_day_def)
  have mm: "of_int (march_month m) + (if (of_int (march_month m) :: u32) < 10 then 3 else - 9) = (of_int m :: u32)"
  proof -
    have "(of_int (march_month m) :: u32) < 10 \<longleftrightarrow> march_month m < 10"
      using b(1, 2) by (simp add: word_less_alt u32_uint)
    then show ?thesis using v by (simp add: march_month_def)
  qed
  have m2: "(of_int m :: u32) \<le> 2 \<longleftrightarrow> m \<le> 2"
    using v by (simp add: word_le_def u32_uint)
  have fin: "sint (of_int m :: u32) = m" "sint (of_int d :: u32) = d"
    using v d366 to_int_id [of m] to_int_id [of d] by (simp_all add: to_int_def month_days_def split: if_splits)
  have yy: "k + e * 400 + (if m \<le> 2 then 1 else 0) = y" by (simp add: e_def k_def march_year_def)
  have yoe: "(of_int n - of_int n div 1460 + of_int n div 36524 - of_int n div 146096) div 365 = (of_int k :: u32)"
    using year_word [OF ok(1, 2)] ok(3) by simp
  have n': "day_number y m d - e * 146097 = n" by (simp add: z)
  show ?thesis
    unfolding civil_from_days_def Let_def diff_add_cancel e n' yoe doy mp ms dd mm m2 fin u32_uint [OF k(1, 3)] yy
    by (simp add: to_int_id y)
qed

lemma days_from_civil_date:
  assumes v: "valid_date (y, m, d)"
  shows "days_from_civil y m d = day_number y m d - 719468"
proof -
  define e k n where "e = march_year y m div 400" and "k = march_year y m mod 400" and "n = cycle_day y m d"
  note ok = cycle_day_ok [OF v, folded n_def k_def] and b = march_day_bounds [OF v, folded k_def]
  have z: "day_number y m d = 146097 * e + n" by (simp add: day_number_split e_def n_def)
  have yy: "y - (if m \<le> 2 then 1 else 0) = march_year y m" by (simp add: march_year_def)
  have e: "c_div (if 0 \<le> march_year y m then march_year y m else march_year y m - 399) 400 = e"
    using c_div_floor [of 400 "march_year y m"] by (simp add: e_def split: if_splits)
  have k: "0 \<le> k" "k < 400" "march_year y m - e * 400 = k"
    by (simp_all add: k_def e_def minus_div_mult_eq_mod [symmetric])
  have mp: "m + (if 2 < m then - 3 else 9) = march_month m" by (simp add: march_month_def)
  have n: "n = 365 * k + k div 4 - k div 100 + march_day m d"
    by (simp add: n_def k_def cycle_day_def century_day_def)
  have ms: "(153 * of_int (march_month m) + 2) div 5 = (of_int (month_start (march_month m)) :: u32)"
    using u32_div [of "153 * march_month m + 2" 5] b(1, 2) by (simp add: month_start_def)
  have md: "of_int (month_start (march_month m)) + of_int d - 1 = (of_int (march_day m d) :: u32)"
    by (simp add: march_day_def)
  have doe: "of_int k * 365 + of_int k div 4 - of_int k div 100 + of_int (march_day m d) = (of_int n :: u32)"
    using u32_div [of k 4] u32_div [of k 100] k by (simp add: n)
  have u: "uint (of_int n :: u32) = n" using ok(1, 2) by (simp add: u32_uint)
  show ?thesis unfolding days_from_civil_def Let_def yy e k(3) mp ms md doe u z by simp
qed

text \<open>The day of the year, counted by months.\<close>

definition days_before :: "int \<Rightarrow> int \<Rightarrow> int" where
  "days_before y m = sum_list (map (month_days y) [1..m - 1])"

lemma days_before_day_number:
  "1 \<le> m \<Longrightarrow> m \<le> 12 \<Longrightarrow> days_before y m = day_number y m 1 - day_number y 1 1"
proof (induction "nat (m - 1)" arbitrary: m)
  case (Suc n)
  then have m: "1 \<le> m - 1" "m - 1 \<le> 12" "m - 1 < 12" "n = nat (m - 1 - 1)" by simp_all
  have "[1..m - 1] = [1..m - 1 - 1] @ [m - 1]" using m by (intro upto_rec2) simp
  then have "days_before y m = days_before y (m - 1) + month_days y (m - 1)"
    unfolding days_before_def by simp
  moreover have "days_before y (m - 1) = day_number y (m - 1) 1 - day_number y 1 1"
    by (rule Suc.hyps(1) [OF m(4, 1, 2)])
  moreover have "day_number y m 1 = day_number y (m - 1) (month_days y (m - 1)) + 1"
    using month_turn [OF m(1, 2), of y] m(3) by simp
  moreover have "day_number y (m - 1) (month_days y (m - 1)) = day_number y (m - 1) 1 + month_days y (m - 1) - 1"
    by (simp add: day_number_def)
  ultimately show ?case by simp
qed (simp add: days_before_def)

section \<open>Every day has a date\<close>

lemma day_after_epoch:
  "\<exists>y m d. (next_day ^^ n) (1970, 1, 1) = (y, m, d) \<and> valid_date (y, m, d) \<and> day_number y m d = 719468 + int n"
proof (induction n)
  case 0
  show ?case by (simp add: month_days_def day_number_def march_year_def march_month_def month_start_def year_start_def)
next
  case (Suc n)
  then obtain y m d where s: "(next_day ^^ n) (1970, 1, 1) = (y, m, d)" "valid_date (y, m, d)"
    "day_number y m d = 719468 + int n" by blast
  obtain y' m' d' where n: "next_day (y, m, d) = (y', m', d')" by (metis surj_pair)
  show ?case using next_day_number [OF s(2) n] s n by simp
qed

lemma shift_cycles:
  "valid_date (y - 400 * c, m, d) = valid_date (y, m, d)"
  "day_number (y - 400 * c) m d = day_number y m d - 146097 * c"
proof -
  have "leap (y - 400 * c) = leap y"
    using leap_mod(1) [of "y - 400 * c"] leap_mod(1) [of y] by (simp add: mod_diff_eq [symmetric])
  then show "valid_date (y - 400 * c, m, d) = valid_date (y, m, d)" by (simp add: month_days_def)
  have "march_year (y - 400 * c) m = march_year y m + 400 * (- c)" by (simp add: march_year_def)
  then have "march_year (y - 400 * c) m div 400 = march_year y m div 400 - c"
    "march_year (y - 400 * c) m mod 400 = march_year y m mod 400"
    by (simp_all only: div_mult_self2 mod_mult_self2 zero_neq_numeral not_False_eq_True simp_thms uminus_add_conv_diff add_uminus_conv_diff)
  then show "day_number (y - 400 * c) m d = day_number y m d - 146097 * c"
    unfolding day_number_split cycle_day_def by simp
qed

lemma day_exists: "\<exists>y m d. valid_date (y, m, d) \<and> day_number y m d = z"
proof -
  define c n where "c = 1 + \<bar>z\<bar>" and "n = nat (z + 146097 * c - 719468 + 146097 * 400)"
  obtain y m d where "valid_date (y, m, d)" "day_number y m d = 719468 + int n"
    using day_after_epoch [of n] by blast
  moreover have "719468 + int n = z + 146097 * (c + 400)" by (simp add: n_def c_def)
  ultimately show ?thesis using shift_cycles [of y "c + 400" m d] by (metis add_diff_cancel_right')
qed

lemma year_bounds:
  assumes "valid_date (y, m, d)" "\<bar>day_number y m d\<bar> \<le> 600000000000"
  shows "- 2147480000 \<le> y" "y < 2147480000"
proof -
  define e n where "e = march_year y m div 400" and "n = cycle_day y m d"
  have "day_number y m d = 146097 * e + n" "0 \<le> n" "n < 146097"
    using cycle_day_ok(1, 2) [OF assms(1)] by (simp_all add: day_number_split e_def n_def)
  with assms(2) have "- 4106862 < e" "e < 4106862" by linarith+
  moreover have "march_year y m = 400 * e + march_year y m mod 400" by (simp add: e_def)
  moreover have "0 \<le> march_year y m mod 400" "march_year y m mod 400 < 400" by simp_all
  ultimately have "- 1642744800 < march_year y m" "march_year y m < 1642745200" by linarith+
  then show "- 2147480000 \<le> y" "y < 2147480000" by (simp_all add: march_year_def split: if_splits)
qed

section \<open>Broken-down time is the calendar's\<close>

text \<open>The date of a day of the era, counted from the epoch, and the time of day.\<close>

definition calendar_time :: "int \<Rightarrow> tm" where
  "calendar_time t =
     (case (next_day ^^ nat (t div 86400)) (1970, 1, 1) of (y, m, d) \<Rightarrow>
        \<lparr>tm_sec = t mod 60, tm_min = t div 60 mod 60, tm_hour = t div 3600 mod 24, tm_mday = d, tm_mon = m - 1,
         tm_year = y - 1900, tm_wday = (t div 86400 + 4) mod 7, tm_yday = days_before y m + d - 1,
     tm_isdst = 0, tm_gmtoff = 0, tm_zone = Some (cs ''UTC'')\<rparr>)"

lemma day_of_div: "day_of t = t div 86400"
  unfolding day_of_def using c_div_floor [of 86400 t] by (simp split: if_splits)

lemma c_div_pos: "0 \<le> a \<Longrightarrow> c_div a b = a div b"
  by (simp add: c_div_def)

lemma c_mod_pos: "0 \<le> a \<Longrightarrow> c_mod a b = a mod b"
  by (simp add: c_mod_def c_div_def minus_div_mult_eq_mod)

lemma c_mod_bounds: "0 < b \<Longrightarrow> - b < c_mod a b" "0 < b \<Longrightarrow> c_mod a b < b"
proof -
  assume b: "0 < b"
  have "- ((- a) mod b) = a + (- a) div b * b" by (simp add: minus_div_mult_eq_mod [symmetric])
  then have c: "c_mod a b = - ((- a) mod b) \<or> c_mod a b = a mod b"
    by (simp add: c_mod_def c_div_def minus_div_mult_eq_mod)
  note m = pos_mod_bound [OF b, of "- a"] pos_mod_sign [OF b, of "- a"] pos_mod_bound [OF b, of a]
    pos_mod_sign [OF b, of a]
  from c show "- b < c_mod a b" by (rule disjE) (use m b in linarith)+
  from c show "c_mod a b < b" by (rule disjE) (use m b in linarith)+
qed

lemma weekday: "to_int (c_mod (c_mod n 7 + 7 + 4) 7) = (n + 4) mod 7"
proof -
  define r where "r = c_mod n 7"
  have "n + 4 = (r + 4) + 7 * c_div n 7" by (simp add: r_def c_mod_def)
  then have "(n + 4) mod 7 = (r + 4) mod 7" by (simp only: mod_mult_self2)
  moreover have "r + 11 = (r + 4) + 7 * 1" by simp
  then have "(r + 11) mod 7 = (r + 4) mod 7" by (simp only: mod_mult_self2)
  moreover have "0 \<le> r + 11" using c_mod_bounds(1) [of 7 n] by (simp add: r_def)
  then have "c_mod (r + 11) 7 = (r + 11) mod 7" by (rule c_mod_pos)
  moreover have "r + 7 + 4 = r + 11" by simp
  moreover have "- 2147483648 \<le> (n + 4) mod 7" "(n + 4) mod 7 < 2147483648"
    using pos_mod_bound [of 7 "n + 4"] pos_mod_sign [of 7 "n + 4"] by linarith+
  ultimately show ?thesis unfolding r_def [symmetric] by (simp only: to_int_id)
qed

lemma mod_mult_div: "0 < (b::int) \<Longrightarrow> 0 \<le> c \<Longrightarrow> a mod (b * c) div b = a div b mod c"
  by (simp add: zmod_zmult2_eq)

lemma time_of_day:
  fixes t :: int
  defines "rem \<equiv> t - t div 86400 * 86400"
  shows "to_int (c_mod rem 60) = t mod 60" "to_int (c_div (c_mod rem 3600) 60) = t div 60 mod 60"
    "to_int (c_div rem 3600) = t div 3600 mod 24"
proof -
  have r: "rem = t mod 86400" by (simp add: rem_def minus_div_mult_eq_mod)
  have b: "0 \<le> rem" "rem < 86400" by (simp_all add: r)
  have c: "c_mod rem 60 = rem mod 60" "c_mod rem 3600 = rem mod 3600" "c_div rem 3600 = rem div 3600"
    "c_div (rem mod 3600) 60 = rem mod 3600 div 60"
    using b(1) by (simp_all only: c_mod_pos c_div_pos pos_mod_sign zero_less_numeral)
  have k: "3600 * 24 = (86400::int)" "60 * 60 = (3600::int)" "(60::int) dvd 86400" "(3600::int) dvd 86400" by simp_all
  have t: "rem mod 60 = t mod 60" "rem mod 3600 div 60 = t div 60 mod 60" "rem div 3600 = t div 3600 mod 24"
    using mod_mult_div [of 60 60 t] mod_mult_div [of 3600 24 t]
    by (simp_all only: r k mod_mod_cancel zero_less_numeral zero_le_numeral simp_thms)
  have i: "- 2147483648 \<le> x mod k" "x mod k < 2147483648" if "0 < k" "k \<le> 3600" for x k :: int
    using pos_mod_bound [OF that(1), of x] pos_mod_sign [OF that(1), of x] that by linarith+
  show "to_int (c_mod rem 60) = t mod 60" "to_int (c_div (c_mod rem 3600) 60) = t div 60 mod 60"
    "to_int (c_div rem 3600) = t div 3600 mod 24"
    unfolding c t by (rule to_int_id; (rule i; simp))+
qed

lemma month_days_le: "month_days y m \<le> 31" "0 \<le> month_days y m"
  by (simp_all add: month_days_def)

lemma days_before_bounds: "0 \<le> days_before y m" "m \<le> 12 \<Longrightarrow> days_before y m \<le> 372"
proof -
  have "0 \<le> sum_list (map (month_days y) ms) \<and> sum_list (map (month_days y) ms) \<le> 31 * int (length ms)" for ms
  proof (induction ms)
    case (Cons a ms)
    with month_days_le [of y a] show ?case by simp
  qed simp
  note b = this [of "[1..m - 1]"]
  show "0 \<le> days_before y m" using b by (simp add: days_before_def)
  show "days_before y m \<le> 372" if "m \<le> 12"
    using b that unfolding days_before_def by (simp split: if_splits)
qed

lemma gmtime_date:
  assumes v: "valid_date (y, m, d)" and n: "day_number y m d = t div 86400 + 719468" and b: "\<bar>t div 86400\<bar> \<le> 500000000000"
  shows "gmtime_r t =
    \<lparr>tm_sec = t mod 60, tm_min = t div 60 mod 60, tm_hour = t div 3600 mod 24, tm_mday = d, tm_mon = m - 1,
     tm_year = y - 1900, tm_wday = (t div 86400 + 4) mod 7, tm_yday = days_before y m + d - 1,
     tm_isdst = 0, tm_gmtoff = 0, tm_zone = Some (cs ''UTC'')\<rparr>"
proof -
  have "\<bar>day_number y m d\<bar> \<le> 600000000000" using n b by linarith
  note y = year_bounds [OF v this]
  have "civil_from_days (day_number y m d - 719468) = (y, m, d)"
    using y by (intro civil_from_days_date [OF v]) simp_all
  then have c: "civil_from_days (t div 86400) = (y, m, d)" by (simp add: n)
  have m: "1 \<le> m" "m \<le> 12" using v by simp_all
  have "days_from_civil y 1 1 = day_number y 1 1 - 719468"
    by (rule days_from_civil_date) (simp add: month_days_def)
  moreover have "day_number y m d = day_number y m 1 + d - 1" by (simp add: day_number_def)
  ultimately have yd: "t div 86400 - days_from_civil y 1 1 = days_before y m + d - 1"
    using n days_before_day_number [OF m, of y] by simp
  show ?thesis
    unfolding gmtime_r_def Let_def day_of_div c prod.case weekday time_of_day yd
    using days_before_bounds(1) [of y m] days_before_bounds(2) [OF m(2), of y] v month_days_le [of y m] m by (simp add: to_int_id)
qed

text \<open>C34 Broken-down time is that of the calendar: for every time from the epoch on (up to the year
  1141709097), \<open>gmtime_r\<close> gives the date that counting the days one by one gives, with its time of day,
  day of the week and day of the year.\<close>
theorem gmtime_calendar:
  assumes "0 \<le> t" "t < 36028797018963968"
  shows "gmtime_r t = calendar_time t"
proof -
  have d: "0 \<le> t div 86400" "t div 86400 \<le> 500000000000"
    using assms zdiv_mono1 [of t 36028797018963968 86400] by (simp_all add: pos_imp_zdiv_nonneg_iff)
  obtain y m d where s: "(next_day ^^ nat (t div 86400)) (1970, 1, 1) = (y, m, d)" "valid_date (y, m, d)"
    "day_number y m d = 719468 + int (nat (t div 86400))"
    using day_after_epoch [of "nat (t div 86400)"] by blast
  then have "day_number y m d = t div 86400 + 719468" "\<bar>t div 86400\<bar> \<le> 500000000000" using d by simp_all
  from gmtime_date [OF s(2) this] show ?thesis by (simp add: calendar_time_def s(1))
qed

theorem gmtime_calendar_witness: "gmtime_r 951782399 = calendar_time 951782399"
  by (rule gmtime_calendar) simp_all

lemma mktime_date:
  assumes "valid_date (tm_year tm + 1900, tm_mon tm + 1, tm_mday tm)"
    "day_number (tm_year tm + 1900) (tm_mon tm + 1) (tm_mday tm) = t div 86400 + 719468"
    "tm_hour tm * 3600 + tm_min tm * 60 + tm_sec tm = t mod 86400"
  shows "mktime tm = (t, gmtime_r t)"
proof -
  have "t div 86400 * 86400 + tm_hour tm * 3600 + tm_min tm * 60 + tm_sec tm = t"
    using assms(3) div_mult_mod_eq [of t 86400] by linarith
  then show ?thesis
    unfolding mktime_def Let_def days_from_civil_date [OF assms(1)] assms(2) by simp
qed

lemma day_seconds: "t div 3600 mod 24 * 3600 + t div 60 mod 60 * 60 + t mod 60 = (t::int) mod 86400"
  using zmod_zmult2_eq [of 24 t 3600] zmod_zmult2_eq [of 60 t 60] by simp

text \<open>C35 Breaking a time down and putting it together again gives it back, before the epoch as after it:
  \<open>mktime\<close> of what \<open>gmtime_r\<close> returns is the time, and the fields are left as they were.\<close>
theorem mktime_gmtime:
  assumes "\<bar>t\<bar> < 36028797018963968"
  shows "mktime (gmtime_r t) = (t, gmtime_r t)"
proof -
  have b: "\<bar>t div 86400\<bar> \<le> 500000000000"
    using assms zdiv_mono1 [of t 36028797018963968 86400] zdiv_mono1 [of "- 36028797018963968" t 86400]
    unfolding abs_less_iff abs_le_iff by simp
  obtain y m d where v: "valid_date (y, m, d)" and n: "day_number y m d = t div 86400 + 719468"
    using day_exists [of "t div 86400 + 719468"] by blast
  show ?thesis
    by (rule mktime_date; simp only: gmtime_date [OF v n b] tm.simps) (use v n day_seconds in simp_all)
qed

theorem mktime_gmtime_witness: "mktime (gmtime_r (- 1)) = (- 1, gmtime_r (- 1))"
  by (rule mktime_gmtime) simp

end
