(* ===== verification/Malloc.thy ===== *)
theory Malloc
  imports Prelude
begin

text \<open>
  The allocator, \<open>userland/libc/src/malloc.c\<close>.  Addresses and sizes are natural numbers below
  \<open>2 ^ 64\<close>, and every sum that the code computes in \<open>size_t\<close> is taken modulo \<open>2 ^ 64\<close>; \<open>cells\<close>
  is the memory of the payloads, where the headers are not seen.  The chain
  of chunks that starts at \<open>g_head\<close> is a list in the order of the chain; \<open>lost\<close> are chunks that
  a cut of the chain made unreachable from its head, which happens when the chain is longer than
  the limit on walks.  \<open>mmap\<close> is an argument: the address of a new block of the given size, if
  there is one.  The lock is taken and released by every public function; a call is one step.

  The locale \<open>allocator\<close> is the contract of an allocator, with the disjointness of whatever a
  program holds after any calls; \<open>malloc\<close> and \<open>free\<close> are an interpretation.
\<close>

section \<open>Allocators\<close>

locale allocator =
  fixes alloc :: "nat \<Rightarrow> 's \<Rightarrow> (nat option \<times> 's) outcome"
    and release :: "nat \<Rightarrow> 's \<Rightarrow> 's outcome"
    and live :: "'s \<Rightarrow> (nat \<times> nat) set"
    and inv :: "'s \<Rightarrow> bool"
    and size_ok :: "nat \<Rightarrow> bool"
  assumes alloc_some: "inv s \<Longrightarrow> size_ok n \<Longrightarrow> alloc n s = Ret (Some p, s') \<Longrightarrow>
      inv s' \<and> (\<exists>m. n \<le> m \<and> live s' = insert (p, m) (live s) \<and> p \<notin> fst ` live s)"
    and alloc_none: "inv s \<Longrightarrow> size_ok n \<Longrightarrow> alloc n s = Ret (None, s') \<Longrightarrow> inv s' \<and> live s' = live s"
    and release_live: "inv s \<Longrightarrow> (p, m) \<in> live s \<Longrightarrow>
      \<exists>s'. release p s = Ret s' \<and> inv s' \<and> live s' = live s - {(p, m)}"
    and live_apart: "inv s \<Longrightarrow> (p, m) \<in> live s \<Longrightarrow> (q, n) \<in> live s \<Longrightarrow> p \<noteq> q \<Longrightarrow>
      p + m \<le> q \<or> q + n \<le> p"
    and live_once: "inv s \<Longrightarrow> (p, m) \<in> live s \<Longrightarrow> (p, n) \<in> live s \<Longrightarrow> m = n"
begin

text \<open>What a program holds: the pointers it was given and has not freed, with the sizes it
  asked for.\<close>

definition covered :: "'s \<Rightarrow> (nat \<rightharpoonup> nat) \<Rightarrow> bool" where
  "covered s held \<longleftrightarrow> inv s \<and> (\<forall>p n. held p = Some n \<longrightarrow> (\<exists>m\<ge>n. (p, m) \<in> live s))"

lemma coveredI:
  "inv s \<Longrightarrow> (\<And>p n. held p = Some n \<Longrightarrow> \<exists>m\<ge>n. (p, m) \<in> live s) \<Longrightarrow> covered s held"
  by (simp add: covered_def)

lemma coveredD:
  assumes "covered s held"
  shows "inv s" "held p = Some n \<Longrightarrow> \<exists>m\<ge>n. (p, m) \<in> live s"
  using assms unfolding covered_def by blast+

text \<open>A block leaves what is held, or enters it.\<close>

lemma covered_drop:
  assumes "covered s held" "inv s'" "live s' = live s - {(p, m)}"
  shows "covered s' (held(p := None))"
proof (rule coveredI)
  fix q n assume "(held(p := None)) q = Some n"
  then have "q \<noteq> p" "held q = Some n" by (auto split: if_splits)
  then show "\<exists>m\<ge>n. (q, m) \<in> live s'"
    using coveredD(2) [OF assms(1), of q n] unfolding assms(3) by blast
qed (rule assms(2))

lemma covered_put:
  assumes "covered s held" "inv s'" "live s' = insert (p, m) (live s)" "n \<le> m"
  shows "covered s' (held(p \<mapsto> n))"
proof (rule coveredI)
  fix q k assume "(held(p \<mapsto> n)) q = Some k"
  then show "\<exists>j\<ge>k. (q, j) \<in> live s'"
    using coveredD(2) [OF assms(1), of q k] assms(4) unfolding assms(3)
    by (cases "q = p") auto
qed (rule assms(2))

lemma covered_move:
  assumes "covered s held" "inv s'" "live s' = insert (q, k) (live s - {(p, m)})" "n \<le> k"
  shows "covered s' ((held(p := None))(q \<mapsto> n))"
proof (rule coveredI)
  fix r j assume j: "((held(p := None))(q \<mapsto> n)) r = Some j"
  show "\<exists>i\<ge>j. (r, i) \<in> live s'"
  proof (cases "r = q")
    case False
    with j have "r \<noteq> p" "held r = Some j" by (auto split: if_splits)
    then show ?thesis using coveredD(2) [OF assms(1), of r j] unfolding assms(3) by blast
  qed (use j assms(3,4) in auto)
qed (rule assms(2))

lemma covered_some:
  assumes "covered s held" "size_ok n" "alloc n s = Ret (Some p, s')"
  shows "covered s' (held(p \<mapsto> n))"
  using alloc_some [OF coveredD(1) [OF assms(1)] assms(2,3)] covered_put [OF assms(1)] by blast

lemma covered_none:
  assumes "covered s held" "size_ok n" "alloc n s = Ret (None, s')"
  shows "covered s' held"
  using alloc_none [OF coveredD(1) [OF assms(1)] assms(2,3)] assms(1) by (simp add: covered_def)

lemma covered_freed:
  assumes "covered s held" "held p = Some n" "release p s = Ret s'"
  shows "covered s' (held(p := None))"
proof -
  obtain m where m: "(p, m) \<in> live s" using coveredD(2) [OF assms(1,2)] by blast
  from release_live [OF coveredD(1) [OF assms(1)] m] assms(3) covered_drop [OF assms(1), of s' p m]
  show ?thesis by auto
qed

text \<open>A pointer that is handed out was held by nobody.\<close>

lemma covered_fresh:
  assumes "covered s held" "size_ok n" "alloc n s = Ret (Some p, s')"
  shows "held p = None"
proof (cases "held p")
  case (Some k)
  then show ?thesis using coveredD(2) [OF assms(1), of p k] alloc_some [OF coveredD(1) [OF assms(1)] assms(2,3)]
    by (force simp: image_iff)
qed

lemma covered_disjoint:
  assumes c: "covered s held" and "held p = Some n" "held q = Some m" "p \<noteq> q"
  shows "p + n \<le> q \<or> q + m \<le> p"
proof -
  obtain n' where n: "(p, n') \<in> live s" "n \<le> n'" using coveredD(2) [OF c assms(2)] by blast
  obtain m' where m: "(q, m') \<in> live s" "m \<le> m'" using coveredD(2) [OF c assms(3)] by blast
  from live_apart [OF coveredD(1) [OF c] n(1) m(1) assms(4)] n(2) m(2) show ?thesis by linarith
qed

end

section \<open>The operations\<close>

record chunk =
  ch_addr :: nat
  ch_size :: nat
  ch_free :: bool

record heap =
  chain :: "chunk list"
  lost :: "chunk list"
  cells :: "nat \<Rightarrow> u8"

definition size_t :: "nat \<Rightarrow> nat" where "size_t n = n mod 2 ^ 64"

text \<open>Subtraction in \<open>size_t\<close>.\<close>

definition size_minus :: "nat \<Rightarrow> nat \<Rightarrow> nat" where
  "size_minus a b = size_t (a + 2 ^ 64 - b)"

definition header :: nat where "header = 32"
definition arena_size :: nat where "arena_size = 8 * 1024 * 1024"
definition chunk_scan_limit :: nat where "chunk_scan_limit = 2000000"

definition align16 :: "nat \<Rightarrow> nat" where
  "align16 n = size_t (n + 15) div 16 * 16"

definition arena_grow :: "(nat \<Rightarrow> heap \<Rightarrow> nat option) \<Rightarrow> nat \<Rightarrow> heap \<Rightarrow> chunk option" where
  "arena_grow mmap min_size h =
     (let block_size = (if arena_size < size_t (min_size + header) then size_t (min_size + header)
                        else arena_size) in
      map_option (\<lambda>base. \<lparr>ch_addr = base, ch_size = size_minus block_size header, ch_free = True\<rparr>)
        (mmap block_size h))"

definition arena_init :: "(nat \<Rightarrow> heap \<Rightarrow> nat option) \<Rightarrow> heap \<Rightarrow> heap" where
  "arena_init mmap h =
     (if chain h \<noteq> [] then h
      else case arena_grow mmap 0 h of None \<Rightarrow> h | Some c \<Rightarrow> h\<lparr>chain := [c]\<rparr>)"

text \<open>The chunk taken for \<open>sz\<close> bytes, split if enough is left.\<close>

definition carve :: "nat \<Rightarrow> chunk \<Rightarrow> chunk list" where
  "carve sz c =
     (if size_t (sz + header + 8) \<le> ch_size c then
        [c\<lparr>ch_size := sz, ch_free := False\<rparr>,
         \<lparr>ch_addr = ch_addr c + header + sz, ch_size = size_minus (size_minus (ch_size c) sz) header, ch_free = True\<rparr>]
      else [c\<lparr>ch_free := False\<rparr>])"

fun take_fit :: "nat \<Rightarrow> nat \<Rightarrow> chunk list \<Rightarrow> (nat \<times> chunk list) option" where
  "take_fit iters sz [] = None"
| "take_fit iters sz (c # cs) =
     (if chunk_scan_limit < iters + 1 then None
      else if \<not> ch_free c \<or> ch_size c < sz then
        map_option (apsnd ((#) c)) (take_fit (iters + 1) sz cs)
      else Some (ch_addr c + header, carve sz c @ cs))"

text \<open>A first \<open>mmap\<close> that fails leaves the chain empty, and its tail is a null pointer.\<close>

definition malloc_nolock ::
  "(nat \<Rightarrow> heap \<Rightarrow> nat option) \<Rightarrow> nat \<Rightarrow> heap \<Rightarrow> (nat option \<times> heap) outcome" where
  "malloc_nolock mmap sz0 h0 =
     (let h = arena_init mmap h0; sz = align16 (if sz0 = 0 then 1 else sz0) in
      case take_fit 0 sz (chain h) of
        Some (p, cs) \<Rightarrow> Ret (Some p, h\<lparr>chain := cs\<rparr>)
      | None \<Rightarrow>
          if chain h = [] then Fault
          else case arena_grow mmap sz h of
                 None \<Rightarrow> Ret (None, h)
               | Some fresh \<Rightarrow>
                   Ret (Some (ch_addr fresh + header),
                     h\<lparr>chain := take (chunk_scan_limit + 1) (chain h) @ carve sz fresh,
                       lost := drop (chunk_scan_limit + 1) (chain h) @ lost h\<rparr>))"

definition mark_free :: "nat \<Rightarrow> chunk list \<Rightarrow> chunk list" where
  "mark_free a cs = map (\<lambda>c. if ch_addr c = a then c\<lparr>ch_free := True\<rparr> else c) cs"

fun coalesce :: "nat \<Rightarrow> chunk list \<Rightarrow> chunk list" where
  "coalesce iters (p # n # cs) =
     (if chunk_scan_limit < iters + 1 then p # n # cs
      else if ch_free p \<and> ch_free n \<and> ch_addr p + header + ch_size p = ch_addr n then
        p\<lparr>ch_size := ch_size p + header + ch_size n\<rparr> # coalesce (iters + 1) cs
      else p # coalesce (iters + 1) (n # cs))"
| "coalesce iters cs = cs"

definition find_chunk :: "nat \<Rightarrow> heap \<Rightarrow> chunk option" where
  "find_chunk a h = List.find (\<lambda>c. ch_addr c = a) (chain h @ lost h)"

text \<open>Freeing what is no chunk's payload is undefined.\<close>

definition free_nolock :: "nat \<Rightarrow> heap \<Rightarrow> heap outcome" where
  "free_nolock ptr h =
     (if ptr = 0 then Ret h
      else if ptr < header \<or> find_chunk (ptr - header) h = None then Undef
      else Ret (h\<lparr>chain := coalesce 0 (mark_free (ptr - header) (chain h)),
                  lost := mark_free (ptr - header) (lost h)\<rparr>))"

definition calloc ::
  "(nat \<Rightarrow> heap \<Rightarrow> nat option) \<Rightarrow> nat \<Rightarrow> nat \<Rightarrow> heap \<Rightarrow> (nat option \<times> heap) outcome" where
  "calloc mmap nmemb sz h =
     (let total = size_t (nmemb * sz) in
      if nmemb \<noteq> 0 \<and> total div nmemb \<noteq> sz then Ret (None, h)
      else obind (malloc_nolock mmap total h) (\<lambda>(p, h').
        case p of
          None \<Rightarrow> Ret (None, h')
        | Some a \<Rightarrow> Ret (Some a,
            h'\<lparr>cells := (\<lambda>x. if a \<le> x \<and> x < a + total then 0 else cells h' x)\<rparr>)))"

definition realloc ::
  "(nat \<Rightarrow> heap \<Rightarrow> nat option) \<Rightarrow> nat \<Rightarrow> nat \<Rightarrow> heap \<Rightarrow> (nat option \<times> heap) outcome" where
  "realloc mmap ptr sz h =
     (if ptr = 0 then malloc_nolock mmap sz h
      else if sz = 0 then obind (free_nolock ptr h) (\<lambda>h'. Ret (None, h'))
      else if ptr < header then Undef
      else case find_chunk (ptr - header) h of
             None \<Rightarrow> Undef
           | Some c \<Rightarrow>
               if sz \<le> ch_size c then Ret (Some ptr, h)
               else obind (malloc_nolock mmap sz h) (\<lambda>(p, h1).
                 case p of
                   None \<Rightarrow> Ret (None, h1)
                 | Some n \<Rightarrow>
                     obind (free_nolock ptr
                         (h1\<lparr>cells := (\<lambda>x. if n \<le> x \<and> x < n + ch_size c
                             then cells h1 (ptr + (x - n)) else cells h1 x)\<rparr>))
                       (\<lambda>h2. Ret (Some n, h2))))"

definition reallocarray ::
  "(nat \<Rightarrow> heap \<Rightarrow> nat option) \<Rightarrow> nat \<Rightarrow> nat \<Rightarrow> nat \<Rightarrow> heap \<Rightarrow> (nat option \<times> heap) outcome" where
  "reallocarray mmap ptr nmemb sz h =
     (let total = size_t (nmemb * sz) in
      if nmemb \<noteq> 0 \<and> total div nmemb \<noteq> sz then Ret (None, h)
      else realloc mmap ptr total h)"

text \<open>The slack before the aligned payload becomes a free chunk of its own.\<close>

definition aligned_address :: "nat \<Rightarrow> nat \<Rightarrow> nat" where
  "aligned_address alignment raw =
     unat ((of_nat (raw + header + alignment - 1) :: u64) AND NOT (of_nat alignment - 1))"

definition split_front :: "nat \<Rightarrow> nat \<Rightarrow> chunk list \<Rightarrow> chunk list" where
  "split_front a newc cs =
     concat (map (\<lambda>c. if ch_addr c = a then
         [c\<lparr>ch_size := size_minus (newc - a) header, ch_free := True\<rparr>,
          \<lparr>ch_addr = newc, ch_size = size_minus (ch_size c) (newc - a), ch_free = False\<rparr>]
       else [c]) cs)"

definition aligned_alloc ::
  "(nat \<Rightarrow> heap \<Rightarrow> nat option) \<Rightarrow> nat \<Rightarrow> nat \<Rightarrow> heap \<Rightarrow> (nat option \<times> heap) outcome" where
  "aligned_alloc mmap alignment sz h =
     (if alignment \<le> 8 then malloc_nolock mmap sz h
      else obind (malloc_nolock mmap (size_t (sz + alignment + header)) h) (\<lambda>(raw, h').
        case raw of
          None \<Rightarrow> Ret (None, h')
        | Some raw \<Rightarrow>
            let aligned = aligned_address alignment raw in
            Ret (Some aligned,
              h'\<lparr>chain := split_front (raw - header) (aligned - header) (chain h')\<rparr>)))"

section \<open>The shape of a heap\<close>

definition chunk_end :: "chunk \<Rightarrow> nat" where
  "chunk_end c = ch_addr c + header + ch_size c"

definition apart :: "chunk \<Rightarrow> chunk \<Rightarrow> bool" where
  "apart a b \<longleftrightarrow> chunk_end a \<le> ch_addr b \<or> chunk_end b \<le> ch_addr a"

definition within :: "chunk \<Rightarrow> chunk \<Rightarrow> bool" where
  "within d c \<longleftrightarrow> ch_addr c \<le> ch_addr d \<and> chunk_end d \<le> chunk_end c"

definition chunk_ok :: "chunk \<Rightarrow> bool" where
  "chunk_ok c \<longleftrightarrow> 0 < ch_addr c \<and> 16 dvd ch_addr c \<and> 16 dvd ch_size c \<and> chunk_end c \<le> 2 ^ 64"

definition chunks_ok :: "chunk list \<Rightarrow> bool" where
  "chunks_ok cs \<longleftrightarrow> list_all chunk_ok cs \<and> sorted_wrt apart cs"

definition heap_ok :: "heap \<Rightarrow> bool" where
  "heap_ok h \<longleftrightarrow> chunks_ok (chain h @ lost h)"

lemma apart_sym: "apart a b \<Longrightarrow> apart b a" by (auto simp: apart_def)

lemma apart_within: "within d c \<Longrightarrow> apart c e \<Longrightarrow> apart d e"
  by (auto simp: apart_def within_def)

lemma apart_within': "within d c \<Longrightarrow> apart e c \<Longrightarrow> apart e d"
  by (auto simp: apart_def within_def)

lemma apart_addr: "apart a b \<Longrightarrow> ch_addr a \<noteq> ch_addr b"
  by (auto simp: apart_def chunk_end_def header_def)

lemma chunks_refine:
  assumes "chunks_ok (as @ c # bs)" "chunks_ok ds" "\<And>d. d \<in> set ds \<Longrightarrow> within d c"
  shows "chunks_ok (as @ ds @ bs)"
  using assms apart_within [of _ c] apart_within' [of _ c]
  unfolding chunks_ok_def by (auto simp: sorted_wrt_append list_all_iff)

lemma chunks_append:
  "chunks_ok (as @ bs) \<longleftrightarrow>
     chunks_ok as \<and> chunks_ok bs \<and> (\<forall>a\<in>set as. \<forall>b\<in>set bs. apart a b)"
  by (auto simp: chunks_ok_def sorted_wrt_append)

lemma chunks_perm: "chunks_ok (as @ bs) \<longleftrightarrow> chunks_ok (bs @ as)"
  using apart_sym by (auto simp: chunks_append)

lemma size_t_id [simp]: "n < 2 ^ 64 \<Longrightarrow> size_t n = n" by (simp add: size_t_def)

lemma size_minus_le: "b \<le> a \<Longrightarrow> a < 2 ^ 64 \<Longrightarrow> size_minus a b = a - b"
  by (simp add: size_minus_def size_t_def mod_if)

definition size_ok :: "nat \<Rightarrow> bool" where "size_ok n \<longleftrightarrow> n + 64 \<le> 2 ^ 64"

lemma align16_ok:
  assumes "size_ok n"
  shows "n \<le> align16 n" "align16 n < n + 16" "16 dvd align16 n"
  using assms by (auto simp: align16_def size_ok_def)

section \<open>Carving a chunk\<close>

lemma carve_shape:
  assumes "chunk_ok c" "sz \<le> ch_size c" "16 dvd sz"
  shows "carve sz c = (if sz + header + 8 \<le> ch_size c then
        [c\<lparr>ch_size := sz, ch_free := False\<rparr>,
         \<lparr>ch_addr = ch_addr c + header + sz, ch_size = ch_size c - sz - header, ch_free = True\<rparr>]
      else [c\<lparr>ch_free := False\<rparr>])"
proof -
  have b: "ch_size c + 48 \<le> 2 ^ 64" "ch_size c < 2 ^ 64"
    using assms(1) by (auto simp: chunk_ok_def chunk_end_def header_def dvd_def)
  have "size_t (sz + header + 8) = sz + header + 8" using b assms(2) by (simp add: header_def)
  then show ?thesis using b assms(2) by (simp add: carve_def size_minus_le)
qed

lemma carve_ok:
  assumes "chunk_ok c" "sz \<le> ch_size c" "16 dvd sz"
  shows "chunks_ok (carve sz c)" "d \<in> set (carve sz c) \<Longrightarrow> within d c"
    "\<exists>m. sz \<le> m \<and> filter (\<lambda>d. \<not> ch_free d) (carve sz c) =
       [\<lparr>ch_addr = ch_addr c, ch_size = m, ch_free = False\<rparr>]"
proof -
  have d: "16 dvd ch_addr c + header + sz"
    "sz + header \<le> ch_size c \<Longrightarrow> 16 dvd ch_size c - sz - header"
    using assms(1,3) by (auto simp: chunk_ok_def header_def intro: dvd_diff_nat)
  then show "chunks_ok (carve sz c)"
    using assms unfolding carve_shape [OF assms]
    by (auto simp: chunks_ok_def chunk_ok_def chunk_end_def apart_def)
  show "within d c" if "d \<in> set (carve sz c)"
    using that assms unfolding carve_shape [OF assms]
    by (auto simp: within_def chunk_end_def split: if_splits)
  show "\<exists>m. sz \<le> m \<and> filter (\<lambda>d. \<not> ch_free d) (carve sz c) =
       [\<lparr>ch_addr = ch_addr c, ch_size = m, ch_free = False\<rparr>]"
    using assms(2) unfolding carve_shape [OF assms] by (cases c) auto
qed

lemma take_fit_some:
  "take_fit i sz cs = Some (p, cs') \<Longrightarrow>
     \<exists>as c bs. cs = as @ c # bs \<and> cs' = as @ carve sz c @ bs \<and> ch_free c \<and> sz \<le> ch_size c \<and>
       p = ch_addr c + header"
proof (induction cs arbitrary: i p cs')
  case (Cons c cs)
  show ?case
  proof (cases "\<not> ch_free c \<or> ch_size c < sz")
    case True
    with Cons.prems obtain ds where "take_fit (i + 1) sz cs = Some (p, ds)" "cs' = c # ds"
      by (auto split: if_splits)
    with Cons.IH [OF this(1)] show ?thesis by (metis append_Cons)
  next
    case False
    with Cons.prems show ?thesis by (auto split: if_splits intro!: exI [of _ "[]"])
  qed
qed simp

definition in_use :: "chunk list \<Rightarrow> (nat \<times> nat) set" where
  "in_use cs = (\<lambda>c. (ch_addr c + header, ch_size c)) ` set (filter (\<lambda>c. \<not> ch_free c) cs)"

definition live :: "heap \<Rightarrow> (nat \<times> nat) set" where
  "live h = in_use (chain h @ lost h)"

lemma in_use_append [simp]: "in_use (as @ bs) = in_use as \<union> in_use bs"
  by (simp add: in_use_def image_Un)

lemma in_use_Nil [simp]: "in_use [] = {}" by (simp add: in_use_def)

lemma in_use_Cons:
  "in_use (c # cs) = (if ch_free c then {} else {(ch_addr c + header, ch_size c)}) \<union> in_use cs"
  by (auto simp: in_use_def)

lemma in_use_apart: "(\<And>a. a \<in> set as \<Longrightarrow> apart a c) \<Longrightarrow> ch_addr c + header \<notin> fst ` in_use as"
  using apart_addr by (force simp: in_use_def)

lemma carve_use:
  assumes "chunk_ok c" "sz \<le> ch_size c" "16 dvd sz"
  shows "\<exists>m\<ge>sz. in_use (carve sz c) = {(ch_addr c + header, m)}"
proof -
  obtain m where "sz \<le> m" and f: "filter (\<lambda>d. \<not> ch_free d) (carve sz c) =
       [\<lparr>ch_addr = ch_addr c, ch_size = m, ch_free = False\<rparr>]"
    using carve_ok(3) [OF assms] by blast
  then show ?thesis unfolding in_use_def f by auto
qed

text \<open>Taking a free chunk \<open>c\<close> anywhere in a list of chunks.\<close>

lemma taken:
  assumes "chunks_ok (as @ c # bs)" "ch_free c" "sz \<le> ch_size c" "16 dvd sz"
  shows "chunks_ok (as @ carve sz c @ bs) \<and>
    (\<exists>m\<ge>sz. in_use (as @ carve sz c @ bs) =
       insert (ch_addr c + header, m) (in_use (as @ c # bs))) \<and>
    ch_addr c + header \<notin> fst ` in_use (as @ c # bs)"
proof -
  have c: "chunk_ok c" using assms(1) by (simp add: chunks_ok_def)
  note k = carve_ok [OF c assms(3,4)]
  have "chunks_ok (as @ carve sz c @ bs)" by (rule chunks_refine [OF assms(1) k(1,2)])
  moreover have "\<exists>m\<ge>sz. in_use (as @ carve sz c @ bs) =
       insert (ch_addr c + header, m) (in_use (as @ c # bs))"
    using carve_use [OF c assms(3,4)] assms(2) by (auto simp: in_use_Cons)
  moreover have "ch_addr c + header \<notin> fst ` in_use (as @ bs)"
  proof (rule in_use_apart)
    fix a assume "a \<in> set (as @ bs)"
    with assms(1) show "apart a c"
      by (auto simp: chunks_ok_def sorted_wrt_append intro: apart_sym)
  qed
  ultimately show ?thesis using assms(2) by (simp add: in_use_Cons image_Un)
qed

lemma taken_live:
  assumes "chunks_ok (as @ c # bs)" "ch_free c" "sz \<le> ch_size c" "16 dvd sz" "n \<le> sz"
    "in_use (as @ c # bs) = L" "chain h @ lost h = as @ carve sz c @ bs"
  shows "heap_ok h \<and> (\<exists>m\<ge>n. live h = insert (ch_addr c + header, m) L) \<and>
    ch_addr c + header \<notin> fst ` L"
proof -
  note t = taken [OF assms(1-4), unfolded assms(6)]
  then obtain m where "sz \<le> m" "live h = insert (ch_addr c + header, m) L"
    unfolding live_def assms(7) by blast
  moreover from this(1) have "n \<le> m" using assms(5) by simp
  ultimately show ?thesis using t unfolding heap_ok_def assms(7) by blast
qed

section \<open>Allocating\<close>

text \<open>What the code relies on of \<open>mmap\<close>: a new block is aligned, does not wrap and overlaps no
  block that it returned before.\<close>

definition mmap_ok :: "(nat \<Rightarrow> heap \<Rightarrow> nat option) \<Rightarrow> bool" where
  "mmap_ok mmap \<longleftrightarrow> (\<forall>n h b. mmap n h = Some b \<longrightarrow>
     0 < b \<and> 16 dvd b \<and> b + n \<le> 2 ^ 64 \<and>
     (\<forall>c\<in>set (chain h @ lost h). chunk_end c \<le> b \<or> b + n \<le> ch_addr c))"

lemma arena_grow_ok:
  assumes "mmap_ok mmap" "arena_grow mmap m h = Some c" "16 dvd m" "m + header < 2 ^ 64"
  shows "chunk_ok c" "m \<le> ch_size c" "ch_free c" "\<And>d. d \<in> set (chain h @ lost h) \<Longrightarrow> apart d c"
proof -
  define n where "n = (if arena_size < m + header then m + header else arena_size)"
  have n: "header \<le> n" "n < 2 ^ 64" "m + header \<le> n" "16 dvd n"
    using assms(3,4) by (auto simp: n_def arena_size_def header_def)
  have "size_t (m + header) = m + header" using assms(4) by simp
  from assms(2) [unfolded arena_grow_def this, folded n_def] obtain b where b: "mmap n h = Some b"
    "c = \<lparr>ch_addr = b, ch_size = n - header, ch_free = True\<rparr>"
    using size_minus_le [OF n(1,2)] by (auto simp: arena_grow_def Let_def simp flip: n_def)
  note k = assms(1) [unfolded mmap_ok_def, rule_format, OF b(1)]
  show "chunk_ok c" using k n unfolding b(2)
    by (auto simp: chunk_ok_def chunk_end_def header_def intro: dvd_diff_nat)
  show "m \<le> ch_size c" "ch_free c" using n b(2) by auto
  show "apart d c" if "d \<in> set (chain h @ lost h)" for d
    using conjunct2 [OF conjunct2 [OF conjunct2 [OF k]]] that n(1) unfolding b(2)
    by (force simp: apart_def chunk_end_def)
qed

text \<open>A new arena takes its place in the list of chunks.\<close>

lemma arena_added:
  assumes "mmap_ok mmap" "arena_grow mmap m h = Some c" "16 dvd m" "m + header < 2 ^ 64"
    "chain h @ lost h = as @ bs" "heap_ok h"
  shows "chunks_ok (as @ c # bs)" "in_use (as @ c # bs) = live h"
proof -
  note k = arena_grow_ok [OF assms(1-4)]
  have ap: "apart a c" if "a \<in> set as \<or> a \<in> set bs" for a
    using k(4) [of a] that unfolding assms(5) by auto
  have "chunks_ok (as @ bs)" using assms(6) by (simp add: heap_ok_def assms(5))
  then show "chunks_ok (as @ c # bs)"
    using ap k(1) by (auto simp: chunks_ok_def sorted_wrt_append intro: apart_sym)
  show "in_use (as @ c # bs) = live h"
    using k(3) by (simp add: live_def assms(5) in_use_Cons)
qed

lemma arena_init_ok:
  assumes "mmap_ok mmap" "heap_ok h"
  shows "heap_ok (arena_init mmap h)" "live (arena_init mmap h) = live h"
proof -
  have "heap_ok (arena_init mmap h) \<and> live (arena_init mmap h) = live h"
  proof (cases "chain h = [] \<and> arena_grow mmap 0 h \<noteq> None")
    case True
    then obtain c where c: "arena_grow mmap 0 h = Some c" and e: "chain h = []" by auto
    have "chunks_ok ([] @ c # lost h)"
      by (rule arena_added(1) [OF assms(1) c _ _ _ assms(2)]) (simp_all add: e header_def)
    moreover have "in_use ([] @ c # lost h) = live h"
      by (rule arena_added(2) [OF assms(1) c _ _ _ assms(2)]) (simp_all add: e header_def)
    ultimately show ?thesis using e c by (simp add: arena_init_def heap_ok_def live_def)
  qed (use assms(2) in \<open>auto simp: arena_init_def split: option.splits\<close>)
  then show "heap_ok (arena_init mmap h)" "live (arena_init mmap h) = live h" by auto
qed

lemma malloc_ok:
  assumes "mmap_ok mmap" "heap_ok h0" "size_ok n" "malloc_nolock mmap n h0 = Ret (r, h)"
  shows "heap_ok h \<and> (case r of None \<Rightarrow> live h = live h0
     | Some p \<Rightarrow> (\<exists>m\<ge>n. live h = insert (p, m) (live h0)) \<and> p \<notin> fst ` live h0)"
proof -
  define h1 where "h1 = arena_init mmap h0"
  define sz where "sz = align16 (if n = 0 then 1 else n)"
  have i: "heap_ok h1" "live h1 = live h0" using arena_init_ok [OF assms(1,2)] by (simp_all add: h1_def)
  have "size_ok (if n = 0 then 1 else n)" using assms(3) by (simp add: size_ok_def)
  from align16_ok [OF this] have z: "n \<le> sz" "16 dvd sz" "sz + header < 2 ^ 64"
    using assms(3) by (auto simp: sz_def size_ok_def header_def split: if_splits)
  note u = assms(4) [unfolded malloc_nolock_def Let_def, folded h1_def sz_def]
  show ?thesis
  proof (cases "take_fit 0 sz (chain h1)")
    case (Some pc)
    then obtain p cs where t: "take_fit 0 sz (chain h1) = Some (p, cs)" by (cases pc) auto
    from take_fit_some [OF t] obtain as c bs where
      s: "chain h1 = as @ c # bs" "cs = as @ carve sz c @ bs" "ch_free c" "sz \<le> ch_size c"
        "p = ch_addr c + header" by blast
    have "chunks_ok (as @ c # bs @ lost h1)" using i(1) by (simp add: heap_ok_def s(1))
    moreover have "in_use (as @ c # bs @ lost h1) = live h0" using i(2) by (simp add: live_def s(1))
    moreover have "r = Some (ch_addr c + header)" "chain h @ lost h = as @ carve sz c @ bs @ lost h1"
      using u t s(2,5) by auto
    ultimately show ?thesis using taken_live [OF _ s(3,4) z(2,1)] by simp
  next
    case None
    show ?thesis
    proof (cases "arena_grow mmap sz h1")
      case None2: None
      with u None i show ?thesis by (auto split: if_splits)
    next
      case (Some c)
      define as where "as = take (chunk_scan_limit + 1) (chain h1)"
      define bs where "bs = drop (chunk_scan_limit + 1) (chain h1) @ lost h1"
      have L: "chain h1 @ lost h1 = as @ bs" by (simp add: as_def bs_def flip: append_assoc)
      note a = arena_added [OF assms(1) Some z(2,3) L i(1)]
      note g = arena_grow_ok [OF assms(1) Some z(2,3)]
      have "r = Some (ch_addr c + header)" "chain h @ lost h = as @ carve sz c @ bs"
        using u None Some by (auto simp: as_def bs_def split: if_splits)
      then show ?thesis using taken_live [OF a(1) g(3,2) z(2,1)] a(2) i(2) by simp
    qed
  qed
qed

section \<open>Freeing\<close>

lemma mark_free_ok: "chunks_ok cs \<Longrightarrow> chunks_ok (mark_free a cs)"
  by (auto simp: chunks_ok_def mark_free_def list_all_iff chunk_ok_def chunk_end_def apart_def
      sorted_wrt_map elim!: sorted_wrt_mono_rel [rotated])

lemma mark_free_use:
  "in_use (mark_free a cs) = {pm \<in> in_use cs. fst pm \<noteq> a + header}"
  by (auto simp: in_use_def mark_free_def image_iff split: if_splits)

lemma coalesce_use: "in_use (coalesce i cs) = in_use cs"
  by (induction i cs rule: coalesce.induct) (auto simp: in_use_Cons)

lemma chunks_join:
  assumes "chunks_ok (p # n # cs)" "ch_addr p + header + ch_size p = ch_addr n"
  shows "chunks_ok (p\<lparr>ch_size := ch_size p + header + ch_size n\<rparr> # cs)"
proof -
  have "apart (p\<lparr>ch_size := ch_size p + header + ch_size n\<rparr>) x" if "x \<in> set cs" for x
  proof -
    have "apart p x" "apart n x" using assms(1) that by (auto simp: chunks_ok_def)
    then show ?thesis using assms(2) by (auto simp: apart_def chunk_end_def header_def)
  qed
  moreover have "chunk_ok (p\<lparr>ch_size := ch_size p + header + ch_size n\<rparr>)"
    using assms by (auto simp: chunks_ok_def chunk_ok_def chunk_end_def header_def)
  ultimately show ?thesis using assms(1) by (simp add: chunks_ok_def)
qed

text \<open>The pass of \<open>free\<close> only joins neighbours, wherever it stops.\<close>

lemma coalesce_ok: "chunks_ok (coalesce i cs @ ds)" if "chunks_ok (cs @ ds)"
  using that
proof (induction i cs arbitrary: ds rule: coalesce.induct)
  case (1 i p n cs)
  show ?case
  proof (cases "chunk_scan_limit < i + 1")
    case False
    show ?thesis
    proof (cases "ch_free p \<and> ch_free n \<and> ch_addr p + header + ch_size p = ch_addr n")
      case True
      let ?p = "p\<lparr>ch_size := ch_size p + header + ch_size n\<rparr>"
      have "chunks_ok (p # n # cs @ ds)" using "1.prems" by simp
      then have "chunks_ok (?p # cs @ ds)" by (rule chunks_join) (use True in simp)
      then have "chunks_ok (cs @ ds @ [?p])" using chunks_perm [of "[?p]" "cs @ ds"] by simp
      with "1.IH"(1) [OF False True, of "ds @ [?p]"]
      have "chunks_ok (coalesce (i + 1) cs @ ds @ [?p])" by simp
      then show ?thesis using True False chunks_perm [of "[?p]" "coalesce (i + 1) cs @ ds"] by simp
    next
      case c: False
      have "chunks_ok ((n # cs) @ ds @ [p])"
        using "1.prems" chunks_perm [of "[p]" "n # cs @ ds"] by simp
      with "1.IH"(2) [OF False c, of "ds @ [p]"]
      have "chunks_ok (coalesce (i + 1) (n # cs) @ ds @ [p])" by simp
      then show ?thesis
        using c False chunks_perm [of "[p]" "coalesce (i + 1) (n # cs) @ ds"] by auto
    qed
  qed (use "1.prems" in simp)
qed simp_all

lemma live_chunk:
  "(p, m) \<in> live h \<longleftrightarrow>
     (\<exists>c\<in>set (chain h @ lost h). \<not> ch_free c \<and> p = ch_addr c + header \<and> m = ch_size c)"
  by (auto simp: live_def in_use_def)

lemma chunks_distinct:
  "chunks_ok cs \<Longrightarrow> c \<in> set cs \<Longrightarrow> d \<in> set cs \<Longrightarrow> c \<noteq> d \<Longrightarrow> apart c d"
  by (induction cs) (auto simp: chunks_ok_def intro: apart_sym)

lemma chunks_addr:
  "chunks_ok cs \<Longrightarrow> c \<in> set cs \<Longrightarrow> d \<in> set cs \<Longrightarrow> ch_addr c = ch_addr d \<Longrightarrow> c = d"
  using chunks_distinct [of cs c d] apart_addr by blast

lemma live_same:
  assumes "heap_ok h" "(p, m) \<in> live h" "(p, n) \<in> live h"
  shows "m = n"
proof -
  obtain c where c: "c \<in> set (chain h @ lost h)" "p = ch_addr c + header" "m = ch_size c"
    using assms(2) unfolding live_chunk by blast
  obtain d where d: "d \<in> set (chain h @ lost h)" "p = ch_addr d + header" "n = ch_size d"
    using assms(3) unfolding live_chunk by blast
  have "ch_addr c = ch_addr d" using c(2) d(2) by simp
  from chunks_addr [OF assms(1) [unfolded heap_ok_def] c(1) d(1) this] c(3) d(3)
  show ?thesis by simp
qed

lemma free_ok:
  assumes "heap_ok h" "(p, m) \<in> live h"
  shows "\<exists>h'. free_nolock p h = Ret h' \<and> heap_ok h' \<and> live h' = live h - {(p, m)}"
proof -
  let ?a = "p - header"
  from assms(2) obtain c where c: "c \<in> set (chain h @ lost h)" "p = ch_addr c + header" "m = ch_size c"
    "\<not> ch_free c" unfolding live_chunk by blast
  have "find_chunk ?a h \<noteq> None" using c(1,2) by (auto simp: find_chunk_def find_None_iff)
  then have r: "free_nolock p h = Ret (h\<lparr>chain := coalesce 0 (mark_free ?a (chain h)),
      lost := mark_free ?a (lost h)\<rparr>)" (is "_ = Ret ?h")
    using c(2) by (simp add: free_nolock_def header_def)
  have "mark_free ?a (chain h @ lost h) = mark_free ?a (chain h) @ mark_free ?a (lost h)"
    by (simp add: mark_free_def)
  with mark_free_ok [OF assms(1) [unfolded heap_ok_def], of ?a]
  have "chunks_ok (mark_free ?a (chain h) @ mark_free ?a (lost h))" by simp
  from coalesce_ok [OF this, of 0] have "heap_ok ?h" by (simp add: heap_ok_def)
  have "live ?h = {pm \<in> live h. fst pm \<noteq> p}"
    using c(2) by (auto simp: live_def coalesce_use mark_free_use)
  also have "\<dots> = live h - {(p, m)}" using assms(2) by (auto dest: live_same [OF assms(1) _ assms(2)])
  finally show ?thesis using r \<open>heap_ok ?h\<close> by blast
qed

lemma live_separate:
  assumes "heap_ok h" "(p, m) \<in> live h" "(q, n) \<in> live h" "p \<noteq> q"
  shows "p + m \<le> q \<or> q + n \<le> p"
proof -
  obtain c where c: "c \<in> set (chain h @ lost h)" "p = ch_addr c + header" "m = ch_size c"
    using assms(2) unfolding live_chunk by blast
  obtain d where d: "d \<in> set (chain h @ lost h)" "q = ch_addr d + header" "n = ch_size d"
    using assms(3) unfolding live_chunk by blast
  have "apart c d"
    using chunks_distinct [OF assms(1) [unfolded heap_ok_def] c(1) d(1)] c(2) d(2) assms(4) by auto
  then show ?thesis using c d by (auto simp: apart_def chunk_end_def)
qed

interpretation mem: allocator "malloc_nolock mmap" free_nolock live
    "\<lambda>h. mmap_ok mmap \<and> heap_ok h" size_ok for mmap
proof (unfold_locales, goal_cases)
  case (1 s n p s')
  then show ?case using malloc_ok [of mmap s n "Some p" s'] by auto
next
  case (2 s n s')
  then show ?case using malloc_ok [of mmap s n None s'] by auto
next
  case (3 s p m)
  then show ?case using free_ok [of s p m] by auto
next
  case (4 s p m q n)
  then show ?case using live_separate [of s p m q n] by auto
next
  case (5 s p m n)
  then show ?case using live_same [of s p m n] by auto
qed

section \<open>Aligned blocks\<close>

lemma size_ok_mono: "size_ok m \<Longrightarrow> n \<le> m \<Longrightarrow> size_ok n" by (simp add: size_ok_def)

lemma round_down:
  fixes x k :: nat
  assumes "x < 2 ^ 64" "k < 64"
  shows "unat ((of_nat x :: u64) AND NOT (of_nat (2 ^ k) - 1)) = x div 2 ^ k * 2 ^ k"
proof -
  have "(of_nat x :: u64) AND NOT (of_nat (2 ^ k) - 1) = push_bit k (drop_bit k (of_nat x))"
    by (rule bit_word_eqI) (auto simp: bit_simps simp flip: mask_eq_exp_minus_1)
  moreover have "take_bit 64 x = x" using assms(1) by (simp add: take_bit_nat_eq_self)
  moreover have "push_bit k (drop_bit k x) \<le> x" by (simp add: push_bit_eq_mult drop_bit_eq_div)
  then have "take_bit 64 (push_bit k (drop_bit k x)) = push_bit k (drop_bit k x)"
    using assms(1) by (intro take_bit_nat_eq_self) simp
  then have "take_bit 64 (push_bit k (drop_bit k x)) = x div 2 ^ k * 2 ^ k"
    by (simp add: push_bit_eq_mult drop_bit_eq_div)
  ultimately show ?thesis
    by (simp add: unsigned_push_bit_eq unsigned_drop_bit_eq unsigned_of_nat)
qed

lemma aligned_address_ok:
  assumes "raw + header + 2 ^ k \<le> 2 ^ 64" "k < 64"
  shows "2 ^ k dvd aligned_address (2 ^ k) raw" "raw + header \<le> aligned_address (2 ^ k) raw"
    "aligned_address (2 ^ k) raw \<le> raw + header + 2 ^ k - 1"
proof -
  have p: "(0::nat) < 2 ^ k" by simp
  let ?x = "raw + header + 2 ^ k - 1"
  have e: "aligned_address (2 ^ k) raw = ?x div 2 ^ k * 2 ^ k"
    unfolding aligned_address_def by (rule round_down) (use assms p in auto)
  show "2 ^ k dvd aligned_address (2 ^ k) raw" unfolding e by simp
  have "?x = ?x div 2 ^ k * 2 ^ k + ?x mod 2 ^ k" by (rule div_mult_mod_eq [symmetric])
  moreover have "?x mod 2 ^ k < 2 ^ k" by simp
  ultimately show "raw + header \<le> aligned_address (2 ^ k) raw"
    "aligned_address (2 ^ k) raw \<le> ?x" unfolding e by linarith+
qed

lemma split_front_miss: "a \<notin> ch_addr ` set cs \<Longrightarrow> split_front a b cs = cs"
  by (induction cs) (auto simp: split_front_def)

lemma split_front_append: "split_front a b (cs @ ds) = split_front a b cs @ split_front a b ds"
  by (simp add: split_front_def)

lemma malloc_chain:
  assumes "malloc_nolock mmap n h0 = Ret (Some p, h)"
  shows "\<exists>c\<in>set (chain h). ch_addr c + header = p"
proof -
  have k: "\<exists>d\<in>set (carve sz c). ch_addr d = ch_addr c" for sz c by (simp add: carve_def)
  show ?thesis
  proof (cases "take_fit 0 (align16 (if n = 0 then 1 else n)) (chain (arena_init mmap h0))")
    case None
    with assms show ?thesis
      using k by (fastforce simp: malloc_nolock_def Let_def split: if_splits option.splits)
  next
    case (Some pc)
    then obtain q cs where t: "take_fit 0 (align16 (if n = 0 then 1 else n))
        (chain (arena_init mmap h0)) = Some (q, cs)" by (cases pc) auto
    from take_fit_some [OF t] obtain as c bs where
      "cs = as @ carve (align16 (if n = 0 then 1 else n)) c @ bs" "q = ch_addr c + header" by blast
    with assms t k [of "align16 (if n = 0 then 1 else n)" c] show ?thesis
      by (fastforce simp: malloc_nolock_def Let_def)
  qed
qed

text \<open>Splitting the chunk of the payload \<open>a\<close>, which is in use.\<close>

lemma split_front_ok:
  assumes "chunks_ok (as @ c # bs)" "\<not> ch_free c" "ch_addr c + header \<le> newc" "16 dvd newc"
    "newc + header \<le> chunk_end c"
  shows "chunks_ok (as @ split_front (ch_addr c) newc [c] @ bs)"
    "in_use (as @ split_front (ch_addr c) newc [c] @ bs) =
       insert (newc + header, chunk_end c - (newc + header)) (in_use (as @ bs))"
proof -
  have c: "chunk_ok c" using assms(1) by (simp add: chunks_ok_def)
  then have b: "chunk_end c \<le> 2 ^ 64" "0 < ch_addr c" by (simp_all add: chunk_ok_def)
  have l: "size_minus (newc - ch_addr c) header = newc - ch_addr c - header"
    "size_minus (ch_size c) (newc - ch_addr c) = ch_size c - (newc - ch_addr c)"
    using assms(3,5) b by (simp_all add: chunk_end_def header_def size_minus_le)
  have s: "split_front (ch_addr c) newc [c] =
      [c\<lparr>ch_size := newc - ch_addr c - header, ch_free := True\<rparr>,
       \<lparr>ch_addr = newc, ch_size = ch_size c - (newc - ch_addr c), ch_free = False\<rparr>]"
    by (simp add: split_front_def l)
  have d: "16 dvd newc - ch_addr c - header" "16 dvd ch_size c - (newc - ch_addr c)"
    using c assms(4) by (auto simp: chunk_ok_def header_def intro!: dvd_diff_nat)
  show "chunks_ok (as @ split_front (ch_addr c) newc [c] @ bs)"
  proof (rule chunks_refine [OF assms(1)])
    show "chunks_ok (split_front (ch_addr c) newc [c])"
      unfolding s using c d assms(3-5)
      by (auto simp: chunks_ok_def chunk_ok_def chunk_end_def apart_def)
    show "within e c" if "e \<in> set (split_front (ch_addr c) newc [c])" for e
      using that assms(3,5) unfolding s by (auto simp: within_def chunk_end_def)
  qed
  have "chunk_end c - (newc + header) = ch_size c - (newc - ch_addr c)"
    using assms(3) by (simp add: chunk_end_def)
  then show "in_use (as @ split_front (ch_addr c) newc [c] @ bs) =
       insert (newc + header, chunk_end c - (newc + header)) (in_use (as @ bs))"
    unfolding s by (auto simp: in_use_Cons)
qed

lemma split_front_chain:
  assumes "chunks_ok (as @ c # bs)"
  shows "split_front (ch_addr c) b (as @ c # bs) = as @ split_front (ch_addr c) b [c] @ bs"
proof -
  have "ch_addr c \<noteq> ch_addr d" if "d \<in> set as \<union> set bs" for d
    using assms that apart_addr [of c d] apart_addr [of d c]
    by (auto simp: chunks_ok_def sorted_wrt_append)
  then have "split_front (ch_addr c) b as = as" "split_front (ch_addr c) b bs = bs"
    by (auto intro!: split_front_miss)
  moreover have "split_front (ch_addr c) b ([c] @ bs) =
      split_front (ch_addr c) b [c] @ split_front (ch_addr c) b bs"
    by (rule split_front_append)
  ultimately show ?thesis using split_front_append [of _ b as "[c] @ bs"] by simp
qed

lemma in_use_remove:
  assumes "chunks_ok (as @ c # bs)" "\<not> ch_free c"
    "in_use (as @ c # bs) = insert (ch_addr c + header, m) L" "ch_addr c + header \<notin> fst ` L"
  shows "in_use (as @ bs) = L"
proof -
  have r: "ch_addr c + header \<notin> fst ` in_use (as @ bs)"
  proof (rule in_use_apart)
    fix d assume "d \<in> set (as @ bs)"
    with assms(1) show "apart d c" by (auto simp: chunks_ok_def sorted_wrt_append intro: apart_sym)
  qed
  have "insert (ch_addr c + header, ch_size c) (in_use (as @ bs)) = insert (ch_addr c + header, m) L"
    using assms(2,3) by (simp add: in_use_Cons)
  moreover from this have "ch_size c = m" using assms(4) by (force simp: image_iff)
  moreover have "(ch_addr c + header, m) \<notin> L" "(ch_addr c + header, m) \<notin> in_use (as @ bs)"
    using r assms(4) by (force simp: image_iff)+
  ultimately show ?thesis by (metis insert_ident)
qed

lemma aligned_alloc_ok:
  assumes "mmap_ok mmap" "heap_ok h0" "size_ok (n + 2 ^ k + header)" "4 \<le> k" "k < 64"
    "aligned_alloc mmap (2 ^ k) n h0 = Ret (r, h)"
  shows "heap_ok h \<and> (case r of None \<Rightarrow> live h = live h0
     | Some p \<Rightarrow> 2 ^ k dvd p \<and> (\<exists>m\<ge>n. live h = insert (p, m) (live h0)))"
proof -
  have "(16::nat) \<le> 2 ^ k" using assms(4) power_increasing [of 4 k "2::nat"] by simp
  then have "\<not> (2::nat) ^ k \<le> 8" by linarith
  moreover have "size_t (n + 2 ^ k + header) = n + 2 ^ k + header"
    using assms(3) by (simp add: size_ok_def)
  ultimately obtain raw h1 where m: "malloc_nolock mmap (n + 2 ^ k + header) h0 = Ret (raw, h1)"
    and u: "aligned_alloc mmap (2 ^ k) n h0 = (case raw of None \<Rightarrow> Ret (None, h1)
      | Some raw \<Rightarrow> let aligned = aligned_address (2 ^ k) raw in Ret (Some aligned,
          h1\<lparr>chain := split_front (raw - header) (aligned - header) (chain h1)\<rparr>))"
    using assms(6) unfolding aligned_alloc_def
    by (cases "malloc_nolock mmap (n + 2 ^ k + header) h0") auto
  show ?thesis
  proof (cases raw)
    case None
    then show ?thesis using malloc_ok [OF assms(1-3) m] u assms(6) by auto
  next
    case (Some a)
    from malloc_ok [OF assms(1-3) m] Some obtain m' where
      k: "heap_ok h1" "n + 2 ^ k + header \<le> m'" "live h1 = insert (a, m') (live h0)"
        "a \<notin> fst ` live h0" by auto
    from malloc_chain [OF m [unfolded Some]] obtain as c bs where
      c: "chain h1 = as @ c # bs" "ch_addr c + header = a" by (meson split_list)
    let ?p = "aligned_address (2 ^ k) a"
    have g: "chunks_ok (as @ c # bs @ lost h1)" using k(1) by (simp add: heap_ok_def c(1))
    have used: "(a, m') \<in> live h1" using k(3) by simp
    then obtain d where d: "d \<in> set (chain h1 @ lost h1)" "\<not> ch_free d" "a = ch_addr d + header"
      "m' = ch_size d" unfolding live_chunk by blast
    have "d = c" using chunks_addr [OF k(1) [unfolded heap_ok_def] d(1), of c] d(3) c by simp
    then have f: "\<not> ch_free c" "m' = ch_size c" using d by simp_all
    have "chunk_ok c" using g by (simp add: chunks_ok_def)
    then have e: "chunk_end c \<le> 2 ^ 64" "chunk_end c = a + m'" "16 dvd a"
      using c(2) f(2) by (auto simp: chunk_ok_def chunk_end_def header_def)
    have al: "2 ^ k dvd ?p" "a + header \<le> ?p" "?p \<le> a + header + 2 ^ k - 1"
      using aligned_address_ok [of a k] e(1,2) k(2) assms(5) by simp_all
    have "16 dvd ?p" using dvd_trans [OF _ al(1), of 16] assms(4) le_imp_power_dvd [of 4 k "2::nat"] by simp
    then have h16: "16 dvd ?p - header" "?p - header + header = ?p" "a - header = ch_addr c"
      "ch_addr c + header \<le> ?p - header" "?p \<le> chunk_end c"
      using al(2,3) c(2) e(2) k(2) by (auto simp: header_def intro: dvd_diff_nat)
    note s = split_front_ok [OF g f(1) h16(4,1), unfolded h16(2), OF h16(5)]
    have gc: "chunks_ok (as @ c # bs)" using g by (auto simp: chunks_ok_def sorted_wrt_append)
    have r: "r = Some ?p" and ch: "chain h @ lost h =
        as @ split_front (ch_addr c) (?p - header) [c] @ bs @ lost h1"
      using u assms(6) Some c(1) split_front_chain [OF gc] by (auto simp: Let_def h16(3))
    have "in_use (as @ bs @ lost h1) = live h0"
      using in_use_remove [OF g f(1), of m' "live h0"] k(3,4) by (simp add: live_def c)
    moreover have "n \<le> chunk_end c - ?p" using al(3) e(2) k(2) by (simp add: header_def)
    ultimately have "\<exists>m\<ge>n. live h = insert (?p, m) (live h0)"
      using s(2) unfolding live_def [of h] ch by auto
    then show ?thesis using s(1) al(1) r unfolding heap_ok_def ch by auto
  qed
qed

section \<open>Reallocation\<close>

lemma malloc_cells: "malloc_nolock mmap n h0 = Ret (r, h) \<Longrightarrow> cells h = cells h0"
  by (auto simp: malloc_nolock_def arena_init_def Let_def split: option.splits if_splits)

lemma free_cells: "free_nolock p h0 = Ret h \<Longrightarrow> cells h = cells h0"
  by (auto simp: free_nolock_def split: if_splits)

lemma cells_update [simp]:
  "heap_ok (h\<lparr>cells := f\<rparr>) = heap_ok h" "live (h\<lparr>cells := f\<rparr>) = live h"
  by (simp_all add: heap_ok_def live_def)

lemma find_chunk_at:
  assumes "heap_ok h" "c \<in> set (chain h @ lost h)"
  shows "find_chunk (ch_addr c) h = Some c"
proof -
  have "find_chunk (ch_addr c) h \<noteq> None" using assms(2) by (auto simp: find_chunk_def find_None_iff)
  then obtain d where d: "find_chunk (ch_addr c) h = Some d" by blast
  then have "d \<in> set (chain h @ lost h)" "ch_addr d = ch_addr c"
    unfolding find_chunk_def find_Some_iff by (metis nth_mem, metis)
  then show ?thesis using chunks_addr [OF assms(1) [unfolded heap_ok_def] _ assms(2)] d by blast
qed

lemma realloc_ok:
  assumes "mmap_ok mmap" "heap_ok h0" "(p, m) \<in> live h0" "0 < n" "size_ok n"
    "realloc mmap p n h0 = Ret (Some q, h)"
  shows "heap_ok h \<and> (\<exists>k\<ge>n. live h = insert (q, k) (live h0 - {(p, m)})) \<and>
    (\<forall>i<min m n. cells h (q + i) = cells h0 (p + i))"
proof -
  obtain c where c: "c \<in> set (chain h0 @ lost h0)" "\<not> ch_free c" "p = ch_addr c + header" "m = ch_size c"
    using assms(3) unfolding live_chunk by blast
  have f: "find_chunk (p - header) h0 = Some c" using find_chunk_at [OF assms(2) c(1)] c(3) by simp
  have pp: "p \<noteq> 0" "\<not> p < header" using c(3) by (auto simp: header_def)
  show ?thesis
  proof (cases "n \<le> m")
    case True
    then have "q = p" "h = h0" using assms(4,6) pp f c(4) by (auto simp: realloc_def)
    then show ?thesis using True assms(2,3) by auto
  next
    case False
    then have "\<not> n \<le> ch_size c" using c(4) by simp
    then obtain h1 where h1: "malloc_nolock mmap n h0 = Ret (Some q, h1)"
      and fr: "free_nolock p (h1\<lparr>cells := (\<lambda>x. if q \<le> x \<and> x < q + m
          then cells h1 (p + (x - q)) else cells h1 x)\<rparr>) = Ret h"
      using assms(4,6) pp f c(4) by (auto simp: realloc_def split: option.splits)
    from malloc_ok [OF assms(1,2,5) h1] obtain k where
      k: "heap_ok h1" "n \<le> k" "live h1 = insert (q, k) (live h0)" "q \<notin> fst ` live h0" by auto
    have "(p, m) \<in> live h1" "q \<noteq> p" using k(3,4) assms(3) by force+
    with free_ok [of "h1\<lparr>cells := (\<lambda>x. if q \<le> x \<and> x < q + m
          then cells h1 (p + (x - q)) else cells h1 x)\<rparr>" p m] fr k(1)
    have "heap_ok h" "live h = live h1 - {(p, m)}" by auto
    moreover have "cells h (q + i) = cells h0 (p + i)" if "i < m" for i
      using free_cells [OF fr] malloc_cells [OF h1] that by simp
    ultimately show ?thesis using k(2,3) \<open>q \<noteq> p\<close> False by auto
  qed
qed

text \<open>\<open>calloc\<close> and \<open>reallocarray\<close> refuse a product that does not fit.\<close>

lemma product_check:
  assumes "a < 2 ^ 64" "b < 2 ^ 64"
  shows "a \<noteq> 0 \<and> size_t (a * b) div a \<noteq> b \<longleftrightarrow> 2 ^ 64 \<le> a * b"
proof (cases "a * b < 2 ^ 64")
  case False
  have "size_t (a * b) < 2 ^ 64" by (simp add: size_t_def)
  then have "size_t (a * b) < b * a" using False by (simp add: mult.commute)
  moreover have "a \<noteq> 0" using False by (cases a) auto
  ultimately have "size_t (a * b) div a < b" "a \<noteq> 0" by (simp_all add: div_less_iff_less_mult)
  then show ?thesis using False by simp
qed simp

lemma calloc_ok:
  assumes "mmap_ok mmap" "heap_ok h0" "a < 2 ^ 64" "b < 2 ^ 64" "size_ok (a * b)"
    "calloc mmap a b h0 = Ret (Some p, h)"
  shows "heap_ok h \<and> (\<exists>m\<ge>a * b. live h = insert (p, m) (live h0)) \<and> (\<forall>i<a * b. cells h (p + i) = 0)"
proof -
  have "a * b < 2 ^ 64" using assms(5) by (simp add: size_ok_def)
  moreover have "\<not> (a \<noteq> 0 \<and> a * b div a \<noteq> b)" by simp
  ultimately obtain h1 where "malloc_nolock mmap (a * b) h0 = Ret (Some p, h1)"
    and "h = h1\<lparr>cells := (\<lambda>x. if p \<le> x \<and> x < p + a * b then 0 else cells h1 x)\<rparr>"
    using assms(6) by (auto simp: calloc_def Let_def split: option.splits if_splits)
  then show ?thesis using malloc_ok [OF assms(1,2,5), of "Some p" h1] by auto
qed

lemma calloc_refuses:
  "a < 2 ^ 64 \<Longrightarrow> b < 2 ^ 64 \<Longrightarrow> 2 ^ 64 \<le> a * b \<Longrightarrow> calloc mmap a b h = Ret (None, h)"
  using product_check [of a b] by (simp add: calloc_def Let_def)

lemma reallocarray_refuses:
  "a < 2 ^ 64 \<Longrightarrow> b < 2 ^ 64 \<Longrightarrow> 2 ^ 64 \<le> a * b \<Longrightarrow> reallocarray mmap p a b h = Ret (None, h)"
  using product_check [of a b] by (simp add: reallocarray_def Let_def)

section \<open>Programs that allocate and free\<close>

text \<open>The calls of a program; \<open>held\<close> is what it holds, with the sizes it asked for.  Freeing or
  resizing anything else is undefined.\<close>

datatype call = Malloc nat | Calloc nat nat | Aligned nat nat | Realloc nat nat | Free nat

definition keep :: "nat option \<Rightarrow> nat \<Rightarrow> (nat \<rightharpoonup> nat) \<Rightarrow> nat \<rightharpoonup> nat" where
  "keep r n held = (case r of None \<Rightarrow> held | Some p \<Rightarrow> held(p \<mapsto> n))"

fun perform :: "(nat \<Rightarrow> heap \<Rightarrow> nat option) \<Rightarrow> call \<Rightarrow> heap \<Rightarrow> (nat \<rightharpoonup> nat) \<Rightarrow>
    (heap \<times> (nat \<rightharpoonup> nat)) outcome" where
  "perform mmap (Malloc n) h held =
     obind (malloc_nolock mmap n h) (\<lambda>(r, h'). Ret (h', keep r n held))"
| "perform mmap (Calloc a b) h held =
     obind (calloc mmap a b h) (\<lambda>(r, h'). Ret (h', keep r (a * b) held))"
| "perform mmap (Aligned k n) h held =
     obind (aligned_alloc mmap (2 ^ k) n h) (\<lambda>(r, h'). Ret (h', keep r n held))"
| "perform mmap (Realloc p n) h held =
     (if held p = None then Undef
      else obind (realloc mmap p n h) (\<lambda>(r, h'). Ret (h',
        if n = 0 \<or> r \<noteq> None then keep r n (held(p := None)) else held)))"
| "perform mmap (Free p) h held =
     (if held p = None then Undef
      else obind (free_nolock p h) (\<lambda>h'. Ret (h', held(p := None))))"

fun session :: "(nat \<Rightarrow> heap \<Rightarrow> nat option) \<Rightarrow> call list \<Rightarrow> heap \<Rightarrow> (nat \<rightharpoonup> nat) \<Rightarrow>
    (heap \<times> (nat \<rightharpoonup> nat)) outcome" where
  "session mmap [] h held = Ret (h, held)"
| "session mmap (c # cs) h held =
     obind (perform mmap c h held) (\<lambda>(h', held'). session mmap cs h' held')"

fun call_ok :: "call \<Rightarrow> bool" where
  "call_ok (Malloc n) \<longleftrightarrow> size_ok n"
| "call_ok (Calloc a b) \<longleftrightarrow> a < 2 ^ 64 \<and> b < 2 ^ 64 \<and> size_ok (a * b)"
| "call_ok (Aligned k n) \<longleftrightarrow> 4 \<le> k \<and> k < 64 \<and> size_ok (n + 2 ^ k + header)"
| "call_ok (Realloc p n) \<longleftrightarrow> size_ok n"
| "call_ok (Free p) \<longleftrightarrow> True"

definition empty_heap :: heap where
  "empty_heap = \<lparr>chain = [], lost = [], cells = (\<lambda>_. 0)\<rparr>"

lemma calloc_none:
  assumes "mmap_ok mmap" "heap_ok h0" "size_ok (a * b)" "calloc mmap a b h0 = Ret (None, h)"
  shows "heap_ok h \<and> live h = live h0"
proof -
  have "size_t (a * b) = a * b" using assms(3) by (simp add: size_ok_def)
  then show ?thesis using assms(4) malloc_ok [OF assms(1-3), of None h] assms(2)
    by (auto simp: calloc_def Let_def split: if_splits option.splits)
qed

lemma realloc_none:
  assumes "mmap_ok mmap" "heap_ok h0" "(p, m) \<in> live h0" "0 < n" "size_ok n"
    "realloc mmap p n h0 = Ret (None, h)"
  shows "heap_ok h \<and> live h = live h0"
proof -
  obtain c where c: "c \<in> set (chain h0 @ lost h0)" "p = ch_addr c + header"
    using assms(3) unfolding live_chunk by blast
  have "find_chunk (p - header) h0 = Some c" using find_chunk_at [OF assms(2) c(1)] c(2) by simp
  moreover have "p \<noteq> 0" "\<not> p < header" using c(2) by (auto simp: header_def)
  ultimately show ?thesis using assms(4,6) malloc_ok [OF assms(1,2,5), of None h]
    by (auto simp: realloc_def split: option.splits if_splits)
qed

lemma covered_new:
  assumes "mem.covered mmap h held" "heap_ok h' \<and> (\<exists>m\<ge>n. live h' = insert (p, m) (live h))"
  shows "mem.covered mmap h' (held(p \<mapsto> n))"
  using mem.covered_put [OF assms(1), of h' p _ n] mem.coveredD(1) [OF assms(1)] assms(2) by blast

lemma covered_same:
  assumes "mem.covered mmap h held" "heap_ok h' \<and> live h' = live h"
  shows "mem.covered mmap h' held"
  using assms unfolding mem.covered_def by blast

lemma covered_realloc:
  assumes "mem.covered mmap h0 held" "held p = Some j" "size_ok n" "realloc mmap p n h0 = Ret (r, h)"
  shows "mem.covered mmap h (if n = 0 \<or> r \<noteq> None then keep r n (held(p := None)) else held)"
proof -
  have i: "mmap_ok mmap" "heap_ok h0" using mem.coveredD(1) [OF assms(1)] by blast+
  obtain m where l: "(p, m) \<in> live h0" using mem.coveredD(2) [OF assms(1,2)] by blast
  then have "p \<noteq> 0" by (auto simp: live_chunk header_def)
  show ?thesis
  proof (cases "n = 0")
    case True
    then have "free_nolock p h0 = Ret h" "r = None"
      using assms(4) \<open>p \<noteq> 0\<close> by (auto simp: realloc_def)
    then show ?thesis using mem.covered_freed [OF assms(1,2)] True by (simp add: keep_def)
  next
    case False
    then have z: "0 < n" by simp
    show ?thesis
    proof (cases r)
      case None
      with covered_same [OF assms(1) realloc_none [OF i l z assms(3)]] assms(4) False
      show ?thesis by simp
    next
      case (Some q)
      from realloc_ok [OF i l z assms(3,4) [unfolded Some]] obtain k where
        k: "heap_ok h" "n \<le> k" "live h = insert (q, k) (live h0 - {(p, m)})" by blast
      have "mmap_ok mmap \<and> heap_ok h" using i(1) k(1) by blast
      from mem.covered_move [OF assms(1) this k(3,2)] Some show ?thesis by (simp add: keep_def)
    qed
  qed
qed

text \<open>Every call keeps what is held covered by blocks in use.\<close>

lemma perform_covered:
  assumes "perform mmap c h0 held0 = Ret (h, held)" "mem.covered mmap h0 held0" "call_ok c"
  shows "mem.covered mmap h held"
proof -
  have i: "mmap_ok mmap" "heap_ok h0" using mem.coveredD(1) [OF assms(2)] by blast+
  show ?thesis
  proof (cases c)
    case (Malloc n)
    then have n: "size_ok n" using assms(3) by simp
    from Malloc assms(1) obtain r where m: "malloc_nolock mmap n h0 = Ret (r, h)" "held = keep r n held0"
      by auto
    show ?thesis using mem.covered_none [OF assms(2) n] mem.covered_some [OF assms(2) n] m
      by (cases r) (simp_all add: keep_def)
  next
    case (Calloc a b)
    then have n: "a < 2 ^ 64" "b < 2 ^ 64" "size_ok (a * b)" using assms(3) by simp_all
    from Calloc assms(1) obtain r where m: "calloc mmap a b h0 = Ret (r, h)" "held = keep r (a * b) held0"
      by auto
    show ?thesis
    proof (cases r)
      case None
      with covered_same [OF assms(2) calloc_none [OF i n(3)]] m show ?thesis by (simp add: keep_def)
    next
      case (Some p)
      with calloc_ok [OF i n, of p h] m covered_new [OF assms(2), of h "a * b" p]
      show ?thesis by (simp add: keep_def)
    qed
  next
    case (Aligned k n)
    then have n: "size_ok (n + 2 ^ k + header)" "4 \<le> k" "k < 64" using assms(3) by simp_all
    from Aligned assms(1) obtain r where m: "aligned_alloc mmap (2 ^ k) n h0 = Ret (r, h)"
      "held = keep r n held0" by auto
    note a = aligned_alloc_ok [OF i n m(1)]
    show ?thesis
    proof (cases r)
      case None
      with covered_same [OF assms(2), of h] a m(2) show ?thesis by (simp add: keep_def)
    next
      case (Some p)
      with covered_new [OF assms(2), of h n p] a m(2) show ?thesis by (simp add: keep_def)
    qed
  next
    case (Realloc p n)
    then have n: "size_ok n" using assms(3) by simp
    from Realloc assms(1) obtain j where hp: "held0 p = Some j" by (auto split: if_splits)
    with Realloc assms(1) obtain r where m: "realloc mmap p n h0 = Ret (r, h)"
      "held = (if n = 0 \<or> r \<noteq> None then keep r n (held0(p := None)) else held0)" by auto
    show ?thesis unfolding m(2) by (rule covered_realloc [OF assms(2) hp n m(1)])
  next
    case (Free p)
    with assms(1) obtain j where "held0 p = Some j" "free_nolock p h0 = Ret h" "held = held0(p := None)"
      by (auto split: if_splits)
    with mem.covered_freed [OF assms(2), of p j h] show ?thesis by simp
  qed
qed

lemma session_covered:
  "session mmap cs h0 held0 = Ret (h, held) \<Longrightarrow> mem.covered mmap h0 held0 \<Longrightarrow> list_all call_ok cs \<Longrightarrow>
   mem.covered mmap h held"
  by (induction cs arbitrary: h0 held0) (auto dest: perform_covered)

text \<open>C17 Whatever sequence of calls of \<open>malloc\<close>, \<open>calloc\<close>, \<open>aligned_alloc\<close>, \<open>realloc\<close> and
  \<open>free\<close> a program makes, two blocks that it holds do not overlap: the bytes it asked for are its
  own.  \<open>mmap\<close> returns new blocks, sizes leave room for the header below \<open>2 ^ 64\<close>, and the program
  frees and resizes only what it holds.\<close>
theorem malloc_disjoint:
  assumes "mmap_ok mmap" "list_all call_ok cs"
    "session mmap cs empty_heap Map.empty = Ret (h, held)"
    "held p = Some n" "held q = Some m" "p \<noteq> q"
  shows "p + n \<le> q \<or> q + m \<le> p"
proof -
  have "mem.covered mmap empty_heap Map.empty"
    by (rule mem.coveredI) (use assms(1) in \<open>auto simp: heap_ok_def empty_heap_def chunks_ok_def\<close>)
  from mem.covered_disjoint [OF session_covered [OF assms(3) this assms(2)] assms(4-6)] show ?thesis .
qed

text \<open>A kernel that places new blocks above all chunks, on page boundaries.\<close>

definition heap_top :: "heap \<Rightarrow> nat" where
  "heap_top h = 4096 * (foldr (\<lambda>c. max (chunk_end c)) (chain h @ lost h) 0 div 4096 + 1)"

definition page_mmap :: "nat \<Rightarrow> heap \<Rightarrow> nat option" where
  "page_mmap n h = (if heap_top h + n \<le> 2 ^ 64 then Some (heap_top h) else None)"

lemma heap_top_ok:
  "0 < heap_top h" "16 dvd heap_top h" "c \<in> set (chain h @ lost h) \<Longrightarrow> chunk_end c \<le> heap_top h"
proof -
  have top: "c \<in> set cs \<Longrightarrow> chunk_end c \<le> foldr (\<lambda>c. max (chunk_end c)) cs 0" for cs
    by (induction cs) auto
  have up: "t \<le> 4096 * (t div 4096 + 1)" for t :: nat
    using dividend_less_times_div [of 4096 t] by simp
  show "chunk_end c \<le> heap_top h" if "c \<in> set (chain h @ lost h)"
    unfolding heap_top_def by (rule le_trans [OF top [OF that] up])
  show "0 < heap_top h" by (simp add: heap_top_def)
  have "(16::nat) dvd 4096" by simp
  then show "16 dvd heap_top h" unfolding heap_top_def by (rule dvd_mult2)
qed

lemma page_mmap_ok: "mmap_ok page_mmap"
  unfolding mmap_ok_def page_mmap_def using heap_top_ok by (simp split: if_splits)

lemmas malloc_eval = empty_heap_def malloc_nolock_def Let_def arena_init_def arena_grow_def
  page_mmap_def heap_top_def arena_size_def header_def size_t_def size_minus_def align16_def
  carve_def chunk_scan_limit_def free_nolock_def find_chunk_def mark_free_def chunk_end_def

lemma malloc_disjoint_witness:
  "\<exists>h held. session page_mmap [Malloc 100, Calloc 2 5, Free 4128, Malloc 20]
      empty_heap Map.empty = Ret (h, held) \<and>
    held 4128 = Some 20 \<and> held 4272 = Some 10 \<and> (4128 + 20 \<le> (4272::nat) \<or> 4272 + 10 \<le> (4128::nat))"
proof -
  obtain h held where e: "session page_mmap [Malloc 100, Calloc 2 5, Free 4128, Malloc 20]
      empty_heap Map.empty = Ret (h, held)" "held 4128 = Some 20" "held 4272 = Some 10"
    by (simp add: malloc_eval calloc_def keep_def del: obind_eq_Ret)
  have "4128 + 20 \<le> (4272::nat) \<or> 4272 + 10 \<le> (4128::nat)"
    by (rule malloc_disjoint [OF page_mmap_ok _ e]) (simp_all add: size_ok_def)
  with e show ?thesis by blast
qed

text \<open>A successful \<open>realloc\<close> of a block in use gives a block of at least the new size, in
  its place, with the contents of the old one up to the smaller size; all other blocks stay.\<close>
theorem realloc_correct:
  assumes "mmap_ok mmap" "heap_ok h0" "(p, m) \<in> live h0" "0 < n" "size_ok n"
    "realloc mmap p n h0 = Ret (Some q, h)"
  shows "heap_ok h \<and> (\<exists>k\<ge>n. live h = insert (q, k) (live h0 - {(p, m)})) \<and>
    map (\<lambda>i. cells h (q + i)) [0..<min m n] = map (\<lambda>i. cells h0 (p + i)) [0..<min m n]"
  using realloc_ok [OF assms] by simp

definition small_heap :: heap where
  "small_heap = \<lparr>chain = [\<lparr>ch_addr = 4096, ch_size = 16, ch_free = False\<rparr>,
     \<lparr>ch_addr = 4144, ch_size = 160, ch_free = True\<rparr>], lost = [], cells = of_nat\<rparr>"

lemma small_heap_ok: "heap_ok small_heap" "(4128, 16) \<in> live small_heap"
  by (simp_all add: heap_ok_def small_heap_def chunks_ok_def chunk_ok_def chunk_end_def apart_def
      header_def live_def in_use_def)

lemma realloc_correct_witness:
  "\<exists>h. realloc page_mmap 4128 32 small_heap = Ret (Some 4176, h) \<and>
     map (\<lambda>i. cells h (4176 + i)) [0..<16] = map (\<lambda>i. cells small_heap (4128 + i)) [0..<16]"
proof -
  obtain h where e: "realloc page_mmap 4128 32 small_heap = Ret (Some 4176, h)"
    by (simp add: realloc_def malloc_eval small_heap_def del: obind_eq_Ret)
  have "heap_ok h \<and> (\<exists>k\<ge>32. live h = insert (4176, k) (live small_heap - {(4128, 16)})) \<and>
    map (\<lambda>i. cells h (4176 + i)) [0..<min 16 32] = map (\<lambda>i. cells small_heap (4128 + i)) [0..<min 16 32]"
    by (rule realloc_correct [OF page_mmap_ok small_heap_ok _ _ e]) (simp_all add: size_ok_def)
  with e show ?thesis by auto
qed

text \<open>\<open>aligned_alloc\<close> with a power of two as alignment returns a new block of at least the
  size that was asked for, at a multiple of the alignment, and leaves every other block alone.\<close>
theorem aligned_alloc_correct:
  assumes "mmap_ok mmap" "heap_ok h0" "size_ok (n + 2 ^ k + header)" "4 \<le> k" "k < 64"
    "aligned_alloc mmap (2 ^ k) n h0 = Ret (Some p, h)"
  shows "heap_ok h \<and> 2 ^ k dvd p \<and> (\<exists>m\<ge>n. live h = insert (p, m) (live h0))"
  using aligned_alloc_ok [OF assms] by simp

lemma aligned_alloc_correct_witness:
  "\<exists>h. aligned_alloc page_mmap (2 ^ 6) 20 small_heap = Ret (Some 4224, h) \<and> heap_ok h"
proof -
  obtain h where e: "aligned_alloc page_mmap (2 ^ 6) 20 small_heap = Ret (Some 4224, h)"
    by (simp add: aligned_alloc_def aligned_address_def malloc_eval small_heap_def del: obind_eq_Ret)
  have "heap_ok h \<and> 2 ^ 6 dvd (4224::nat) \<and> (\<exists>m\<ge>20. live h = insert (4224, m) (live small_heap))"
    by (rule aligned_alloc_correct [OF page_mmap_ok small_heap_ok(1) _ _ _ e])
       (simp_all add: size_ok_def header_def)
  with e show ?thesis by blast
qed

text \<open>A request within 15 bytes of \<open>SIZE_MAX\<close> is not refused: rounding it up wraps to zero,
  and the program is given a block of no bytes.\<close>
theorem malloc_near_max:
  assumes "n \<in> {2 ^ 64 - 15..<2 ^ 64}" "mmap arena_size empty_heap = Some b"
  shows "\<exists>h. malloc_nolock mmap n empty_heap = Ret (Some (b + header), h) \<and> (b + header, 0) \<in> live h"
proof -
  define k where "k = n + 15 - 2 ^ 64"
  have k: "n + 15 = k + 2 ^ 64" "k < 15" using assms(1) by (auto simp: k_def)
  have "size_t (n + 15) = k" unfolding k(1) using k(2) by (simp add: size_t_def)
  then have "align16 (if n = 0 then 1 else n) = 0" using assms(1) k(2) by (simp add: align16_def)
  moreover have "arena_grow mmap 0 empty_heap =
      Some \<lparr>ch_addr = b, ch_size = arena_size - header, ch_free = True\<rparr>"
    using assms(2) by (simp add: arena_grow_def arena_size_def header_def size_minus_le)
  ultimately show ?thesis
    by (simp add: malloc_nolock_def Let_def arena_init_def empty_heap_def carve_def live_def in_use_Cons
        size_minus_le arena_size_def header_def chunk_scan_limit_def)
qed

lemma malloc_near_max_witness:
  "\<exists>h. malloc_nolock page_mmap (2 ^ 64 - 1) empty_heap = Ret (Some (4096 + header), h) \<and>
    (4096 + header, 0) \<in> live h"
  by (rule malloc_near_max) (simp_all add: malloc_eval)

text \<open>A process whose first \<open>mmap\<close> fails reads through a null pointer.\<close>

lemma malloc_first_fault: "mmap arena_size h = None \<Longrightarrow> chain h = [] \<Longrightarrow> malloc_nolock mmap n h = Fault"
  by (simp add: malloc_nolock_def Let_def arena_init_def arena_grow_def arena_size_def header_def)

end
