(* ===== verification/Dispatch.thy ===== *)
theory Dispatch
  imports Prelude
begin

text \<open>
  libdispatch's queues and worker pool, \<open>userland/libdispatch/dispatch_queue.c\<close>.  A critical
  section under one of the locks is one step, and the steps of the workers and of the threads
  that submit work interleave in any order.  A queue is known by a number.  A thread that has
  appended an item and decided to schedule the queue, but has not yet appended it to the
  runnable list, is an entry of \<open>pushing\<close>.

  The invariant gives what a client relies on: a serial queue runs its items one at a time and in
  the order of submission, no item is lost, and the pool comes to rest with empty queues.
\<close>

section \<open>Queues\<close>

record item =
  it_func :: nat
  it_context :: nat

record queue =
  is_serial :: bool
  q_items :: "item list"
  draining :: bool
  on_runnable_list :: bool

definition dispatch_queue_create :: "bool \<Rightarrow> queue" where
  "dispatch_queue_create concurrent =
     \<lparr>is_serial = (\<not> concurrent), q_items = [], draining = False, on_runnable_list = False\<rparr>"

text \<open>The section of \<open>_dispatch_queue_push_item\<close> under the queue's lock: the queue with the item
  appended, and whether it has to be scheduled.\<close>

definition queue_push_item :: "item \<Rightarrow> queue \<Rightarrow> queue \<times> bool" where
  "queue_push_item it q0 =
     (let q = q0\<lparr>q_items := q_items q0 @ [it]\<rparr> in
      if is_serial q then
        if \<not> draining q \<and> \<not> on_runnable_list q then (q\<lparr>on_runnable_list := True\<rparr>, True)
        else (q, False)
      else (q, True))"

definition queue_pop_head_locked :: "queue \<Rightarrow> item option \<times> queue" where
  "queue_pop_head_locked q =
     (case q_items q of [] \<Rightarrow> (None, q) | it # its \<Rightarrow> (Some it, q\<lparr>q_items := its\<rparr>))"

text \<open>One round of the worker's inner loop over a serial queue.\<close>

definition serial_next :: "queue \<Rightarrow> item option \<times> queue" where
  "serial_next q =
     (case queue_pop_head_locked q of
        (None, q') \<Rightarrow> (None, q'\<lparr>draining := False\<rparr>)
      | (Some it, q') \<Rightarrow> (Some it, q'))"

definition drain_begin :: "queue \<Rightarrow> item option \<times> queue" where
  "drain_begin q =
     (if is_serial q then serial_next (q\<lparr>on_runnable_list := False, draining := True\<rparr>)
      else queue_pop_head_locked q)"

definition drain_more :: "queue \<Rightarrow> item option \<times> queue" where
  "drain_more q = (if is_serial q then serial_next q else (None, q))"

section \<open>The pool\<close>

text \<open>A worker waits for a runnable queue, has taken one from the list, or runs an item.\<close>

datatype worker = Idle | Fetched nat | Running nat item

record pool =
  queues :: "nat \<rightharpoonup> queue"
  next_queue :: nat
  pushing :: "nat list"
  runnable :: "nat list"
  workers :: "worker list"

definition workerpool_start :: "nat \<Rightarrow> pool" where
  "workerpool_start ncpu =
     \<lparr>queues = [0 \<mapsto> dispatch_queue_create False, 1 \<mapsto> dispatch_queue_create True],
      next_queue = 2, pushing = [], runnable = [],
      workers = replicate (if ncpu < 2 then 2 else ncpu) Idle\<rparr>"

definition create_queue :: "bool \<Rightarrow> pool \<Rightarrow> pool" where
  "create_queue concurrent p =
     p\<lparr>queues := (queues p)(next_queue p \<mapsto> dispatch_queue_create concurrent),
       next_queue := next_queue p + 1\<rparr>"

definition push_item :: "nat \<Rightarrow> item \<Rightarrow> pool \<Rightarrow> pool option" where
  "push_item k it p =
     map_option (\<lambda>q. let (q', should_push) = queue_push_item it q in
       p\<lparr>queues := (queues p)(k \<mapsto> q'),
         pushing := (if should_push then k # pushing p else pushing p)\<rparr>) (queues p k)"

definition runnable_push :: "nat \<Rightarrow> pool \<Rightarrow> pool" where
  "runnable_push k p = p\<lparr>pushing := remove1 k (pushing p), runnable := runnable p @ [k]\<rparr>"

definition runnable_pop :: "nat \<Rightarrow> pool \<Rightarrow> pool option" where
  "runnable_pop w p =
     (case runnable p of
        [] \<Rightarrow> None
      | k # ks \<Rightarrow> Some (p\<lparr>runnable := ks, workers := (workers p)[w := Fetched k]\<rparr>))"

text \<open>What a worker does with an item it got, or without one.\<close>

definition take_up :: "nat \<Rightarrow> nat \<Rightarrow> item option \<times> queue \<Rightarrow> pool \<Rightarrow> pool" where
  "take_up w k r p =
     p\<lparr>queues := (queues p)(k \<mapsto> snd r),
       workers := (workers p)[w := (case fst r of None \<Rightarrow> Idle | Some it \<Rightarrow> Running k it)]\<rparr>"

datatype event = Push nat item | Start nat item | Stop nat item

definition started :: "nat \<Rightarrow> item option \<Rightarrow> event list" where
  "started k r = (case r of None \<Rightarrow> [] | Some it \<Rightarrow> [Start k it])"

text \<open>The steps of the workers, and of all threads; with the events they make.\<close>

inductive worker_step :: "pool \<Rightarrow> event list \<Rightarrow> pool \<Rightarrow> bool" where
  publish: "k \<in> set (pushing p) \<Longrightarrow> worker_step p [] (runnable_push k p)"
| fetch: "w < length (workers p) \<Longrightarrow> workers p ! w = Idle \<Longrightarrow> runnable_pop w p = Some p' \<Longrightarrow>
    worker_step p [] p'"
| commence: "w < length (workers p) \<Longrightarrow> workers p ! w = Fetched k \<Longrightarrow> queues p k = Some q \<Longrightarrow>
    worker_step p (started k (fst (drain_begin q))) (take_up w k (drain_begin q) p)"
| more: "w < length (workers p) \<Longrightarrow> workers p ! w = Running k it \<Longrightarrow> queues p k = Some q \<Longrightarrow>
    worker_step p (Stop k it # started k (fst (drain_more q))) (take_up w k (drain_more q) p)"

inductive pool_step :: "pool \<Rightarrow> event list \<Rightarrow> pool \<Rightarrow> bool" where
  worker: "worker_step p es p' \<Longrightarrow> pool_step p es p'"
| push: "push_item k it p = Some p' \<Longrightarrow> pool_step p [Push k it] p'"
| create: "pool_step p [] (create_queue concurrent p)"

inductive trace :: "pool \<Rightarrow> event list \<Rightarrow> pool \<Rightarrow> bool" where
  none: "trace p [] p"
| step: "trace p es p' \<Longrightarrow> pool_step p' fs p'' \<Longrightarrow> trace p (es @ fs) p''"

text \<open>What a trace says of one queue.\<close>

fun pushes :: "nat \<Rightarrow> event list \<Rightarrow> item list" where
  "pushes k [] = []"
| "pushes k (Push j it # es) = (if j = k then it # pushes k es else pushes k es)"
| "pushes k (_ # es) = pushes k es"

fun starts :: "nat \<Rightarrow> event list \<Rightarrow> item list" where
  "starts k [] = []"
| "starts k (Start j it # es) = (if j = k then it # starts k es else starts k es)"
| "starts k (_ # es) = starts k es"

definition runs :: "nat \<Rightarrow> event list \<Rightarrow> event list" where
  "runs k es = filter (\<lambda>e. case e of Start j _ \<Rightarrow> j = k | Stop j _ \<Rightarrow> j = k | _ \<Rightarrow> False) es"

text \<open>The tickets of a queue, each of which makes a worker look at it, and the items of the queue
  that are being run.\<close>

definition tickets :: "nat \<Rightarrow> pool \<Rightarrow> nat" where
  "tickets k p = count_list (pushing p) k + count_list (runnable p) k +
     count_list (workers p) (Fetched k)"

definition running_of :: "nat \<Rightarrow> worker \<Rightarrow> item list" where
  "running_of k w = (case w of Running j it \<Rightarrow> if j = k then [it] else [] | _ \<Rightarrow> [])"

definition running :: "nat \<Rightarrow> pool \<Rightarrow> item list" where
  "running k p = concat (map (running_of k) (workers p))"

definition queue_ok :: "nat \<Rightarrow> event list \<Rightarrow> pool \<Rightarrow> queue \<Rightarrow> bool" where
  "queue_ok k es p q \<longleftrightarrow>
     pushes k es = starts k es @ q_items q \<and>
     (if is_serial q then
        tickets k p = of_bool (on_runnable_list q) \<and>
        length (running k p) = of_bool (draining q) \<and>
        \<not> (on_runnable_list q \<and> draining q) \<and>
        (q_items q \<noteq> [] \<longrightarrow> on_runnable_list q \<or> draining q) \<and>
        (\<exists>ran. starts k es = ran @ running k p \<and>
           runs k es = concat (map (\<lambda>it. [Start k it, Stop k it]) ran) @
             map (Start k) (running k p))
      else tickets k p = length (q_items q))"

definition pool_ok :: "event list \<Rightarrow> pool \<Rightarrow> bool" where
  "pool_ok es p \<longleftrightarrow>
     (\<forall>k q. queues p k = Some q \<longrightarrow> k < next_queue p \<and> queue_ok k es p q) \<and>
     (\<forall>k. queues p k = None \<longrightarrow> tickets k p = 0 \<and> running k p = [] \<and> pushes k es = [] \<and>
        starts k es = [] \<and> runs k es = [])"

section \<open>The invariant\<close>

lemma pushes_append [simp]: "pushes k (es @ fs) = pushes k es @ pushes k fs"
  by (induction k es rule: pushes.induct) auto

lemma starts_append [simp]: "starts k (es @ fs) = starts k es @ starts k fs"
  by (induction k es rule: starts.induct) auto

lemma runs_append [simp]: "runs k (es @ fs) = runs k es @ runs k fs"
  by (simp add: runs_def)

lemma runs_simps [simp]:
  "runs k [] = []"
  "runs k (Push j it # es) = runs k es"
  "runs k (Start j it # es) = (if j = k then Start j it # runs k es else runs k es)"
  "runs k (Stop j it # es) = (if j = k then Stop j it # runs k es else runs k es)"
  by (simp_all add: runs_def)

lemma started_simps [simp]:
  "pushes j (started k r) = []"
  "starts j (started k r) = (if j = k then (case r of None \<Rightarrow> [] | Some it \<Rightarrow> [it]) else [])"
  "runs j (started k r) = (if j = k then started k r else [])"
  by (auto simp: started_def split: option.splits)

lemma count_update:
  assumes "w < length ws"
  shows "count_list (ws[w := x]) y + of_bool (ws ! w = y) = count_list ws y + of_bool (x = y)"
proof -
  have "count_list ws y = count_list (take w ws) y + count_list (ws ! w # drop (Suc w) ws) y"
    using arg_cong [OF id_take_nth_drop [OF assms], of "\<lambda>l. count_list l y"] by simp
  then show ?thesis by (simp add: upd_conv_take_nth_drop [OF assms])
qed

lemma concat_update:
  assumes "w < length ws"
  shows "\<exists>as bs. concat (map f ws) = as @ f (ws ! w) @ bs \<and>
    (\<forall>x. concat (map f (ws[w := x])) = as @ f x @ bs)"
proof -
  have "concat (map f ws) =
      concat (map f (take w ws)) @ f (ws ! w) @ concat (map f (drop (Suc w) ws))"
    using arg_cong [OF id_take_nth_drop [OF assms], of "\<lambda>l. concat (map f l)"] by simp
  moreover have "concat (map f (ws[w := x])) =
      concat (map f (take w ws)) @ f x @ concat (map f (drop (Suc w) ws))" for x
    by (simp add: upd_conv_take_nth_drop [OF assms])
  ultimately show ?thesis by blast
qed

lemma concat_update_same:
  assumes "w < length ws" "f x = f (ws ! w)"
  shows "concat (map f (ws[w := x])) = concat (map f ws)"
  using concat_update [OF assms(1), of f] assms(2) by auto

lemma concat_update_only:
  assumes "w < length ws" "concat (map f ws) = f (ws ! w)"
  shows "concat (map f (ws[w := x])) = f x"
proof -
  obtain as bs where c: "concat (map f ws) = as @ f (ws ! w) @ bs"
    "concat (map f (ws[w := x])) = as @ f x @ bs" using concat_update [OF assms(1), of f] by blast
  have "length (f (ws ! w)) = length (as @ f (ws ! w) @ bs)" using c(1) assms(2) by simp
  then show ?thesis using c(2) by simp
qed

lemma running_idle [simp]: "running_of k Idle = []" "running_of k (Fetched j) = []"
  "running_of k (Running j it) = (if j = k then [it] else [])"
  by (simp_all add: running_of_def)

lemma queue_ok_cong:
  assumes "queue_ok j es p q" "tickets j p' = tickets j p" "running j p' = running j p"
    "pushes j fs = []" "starts j fs = []" "runs j fs = []"
  shows "queue_ok j (es @ fs) p' q"
  using assms by (simp add: queue_ok_def)

text \<open>A step that changes nothing a queue counts.\<close>

lemma pool_ok_quiet:
  assumes "pool_ok es p" "queues p' = queues p" "next_queue p' = next_queue p"
    "\<And>j. tickets j p' = tickets j p" "\<And>j. running j p' = running j p"
  shows "pool_ok es p'"
  using assms queue_ok_cong [of _ es p _ p' "[]"] by (simp add: pool_ok_def)

text \<open>A step on the queue \<open>k\<close>.\<close>

lemma pool_ok_queue:
  assumes "pool_ok es p" "queues p k = Some q" "queues p' = (queues p)(k \<mapsto> q')"
    "next_queue p' = next_queue p"
    "\<And>j. j \<noteq> k \<Longrightarrow> tickets j p' = tickets j p" "\<And>j. j \<noteq> k \<Longrightarrow> running j p' = running j p"
    "\<And>j. j \<noteq> k \<Longrightarrow> pushes j fs = []" "\<And>j. j \<noteq> k \<Longrightarrow> starts j fs = []" "\<And>j. j \<noteq> k \<Longrightarrow> runs j fs = []"
    "queue_ok k es p q \<Longrightarrow> queue_ok k (es @ fs) p' q'"
  shows "pool_ok (es @ fs) p'"
proof -
  have "j < next_queue p' \<and> queue_ok j (es @ fs) p' r" if "queues p' j = Some r" for j r
  proof (cases "j = k")
    case True
    then show ?thesis using assms(1-4,10) that by (auto simp: pool_ok_def)
  next
    case False
    then have "queues p j = Some r" using that assms(3) by simp
    with assms(1) have "j < next_queue p" "queue_ok j es p r" by (auto simp: pool_ok_def)
    then show ?thesis using queue_ok_cong [OF _ assms(5-9)] False assms(4) by simp
  qed
  moreover have "tickets j p' = 0 \<and> running j p' = [] \<and> pushes j (es @ fs) = [] \<and>
      starts j (es @ fs) = [] \<and> runs j (es @ fs) = []" if "queues p' j = None" for j
  proof -
    have "j \<noteq> k" "queues p j = None" using that assms(3) by (auto split: if_splits)
    with assms(1) have "tickets j p = 0 \<and> running j p = [] \<and> pushes j es = [] \<and> starts j es = [] \<and>
        runs j es = []" by (simp add: pool_ok_def)
    then show ?thesis using assms(5-9) [OF \<open>j \<noteq> k\<close>] by simp
  qed
  ultimately show ?thesis unfolding pool_ok_def by blast
qed

lemma pool_ok_publish: "pool_ok es p \<Longrightarrow> k \<in> set (pushing p) \<Longrightarrow> pool_ok es (runnable_push k p)"
proof (rule pool_ok_quiet)
  assume k: "k \<in> set (pushing p)"
  have "0 < count_list (pushing p) k" using k count_list_0_iff by fastforce
  then show "tickets j (runnable_push k p) = tickets j p" for j
    by (auto simp: tickets_def runnable_push_def)
qed (simp_all add: runnable_push_def running_def)

lemma pool_ok_fetch:
  assumes "pool_ok es p" "w < length (workers p)" "workers p ! w = Idle" "runnable_pop w p = Some p'"
  shows "pool_ok es p'"
proof -
  obtain k ks where r: "runnable p = k # ks"
    and p': "p' = p\<lparr>runnable := ks, workers := (workers p)[w := Fetched k]\<rparr>"
    using assms(4) by (auto simp: runnable_pop_def split: list.splits)
  show ?thesis
  proof (rule pool_ok_quiet [OF assms(1)])
    show "tickets j p' = tickets j p" for j
      using count_update [OF assms(2), of "Fetched k" "Fetched j"] assms(3) r
      by (auto simp: p' tickets_def split: if_splits)
    show "running j p' = running j p" for j
      using concat_update_same [OF assms(2), of "running_of j" "Fetched k"] assms(3)
      by (simp add: p' running_def)
  qed (simp_all add: p')
qed

lemma pool_ok_push:
  assumes "pool_ok es p" "push_item k it p = Some p'"
  shows "pool_ok (es @ [Push k it]) p'"
proof -
  obtain q where q: "queues p k = Some q"
    and p': "p' = p\<lparr>queues := (queues p)(k \<mapsto> fst (queue_push_item it q)),
         pushing := (if snd (queue_push_item it q) then k # pushing p else pushing p)\<rparr>"
    using assms(2) by (auto simp: push_item_def case_prod_unfold Let_def)
  have run: "running j p' = running j p" for j by (simp add: p' running_def)
  have t: "tickets k p' = tickets k p + of_bool (snd (queue_push_item it q))"
    by (simp add: p' tickets_def)
  show ?thesis
  proof (rule pool_ok_queue [OF assms(1) q])
    show "queues p' = (queues p)(k \<mapsto> fst (queue_push_item it q))" "next_queue p' = next_queue p"
      by (simp_all add: p')
    show "tickets j p' = tickets j p" if "j \<noteq> k" for j using that by (simp add: p' tickets_def)
    assume "queue_ok k es p q"
    then show "queue_ok k (es @ [Push k it]) p' (fst (queue_push_item it q))"
      unfolding queue_ok_def run t by (auto simp: queue_push_item_def Let_def)
  qed (simp_all add: run)
qed

lemma pool_ok_create:
  assumes "pool_ok es p"
  shows "pool_ok es (create_queue c p)"
proof -
  have "queues p (next_queue p) = None"
    using assms by (cases "queues p (next_queue p)") (auto simp: pool_ok_def)
  then have n: "tickets (next_queue p) p = 0 \<and> running (next_queue p) p = [] \<and>
      pushes (next_queue p) es = [] \<and> starts (next_queue p) es = [] \<and> runs (next_queue p) es = []"
    using assms by (simp add: pool_ok_def)
  have s: "tickets j (create_queue c p) = tickets j p" "running j (create_queue c p) = running j p" for j
    by (simp_all add: create_queue_def tickets_def running_def)
  have "queue_ok (next_queue p) es (create_queue c p) (dispatch_queue_create c)"
    using n unfolding queue_ok_def s by (simp add: dispatch_queue_create_def)
  moreover have "queue_ok j es (create_queue c p) q" if "queue_ok j es p q" for j q
    using queue_ok_cong [of j es p q "create_queue c p" "[]"] that by (simp add: s)
  ultimately show ?thesis using assms unfolding pool_ok_def s
    by (auto simp: create_queue_def dispatch_queue_create_def less_Suc_eq split: if_splits)
qed

lemma take_up_other:
  assumes "w < length (workers p)" "j \<noteq> k" "workers p ! w = Fetched k \<or> workers p ! w = Running k it"
  shows "tickets j (take_up w k r p) = tickets j p" "running j (take_up w k r p) = running j p"
proof -
  show "tickets j (take_up w k r p) = tickets j p"
    using count_update [OF assms(1), of "case fst r of None \<Rightarrow> Idle | Some it \<Rightarrow> Running k it" "Fetched j"]
      assms(2,3) by (auto simp: tickets_def take_up_def split: option.splits if_splits)
  have "running_of j (case fst r of None \<Rightarrow> Idle | Some it \<Rightarrow> Running k it) = []"
    using assms(2) by (simp split: option.splits)
  then show "running j (take_up w k r p) = running j p"
    using concat_update_same [OF assms(1), of "running_of j"] assms(2,3)
    by (auto simp: running_def take_up_def)
qed

lemma take_up_tickets:
  assumes "w < length (workers p)"
  shows "tickets k (take_up w k r p) = tickets k p - of_bool (workers p ! w = Fetched k)"
  using count_update [OF assms, of "case fst r of None \<Rightarrow> Idle | Some it \<Rightarrow> Running k it" "Fetched k"]
  by (auto simp: tickets_def take_up_def split: option.splits if_splits)

lemma fetched_ticket:
  "w < length (workers p) \<Longrightarrow> workers p ! w = Fetched k \<Longrightarrow> 0 < tickets k p"
  using count_list_0_iff [of "workers p" "Fetched k"] nth_mem [of w "workers p"]
  by (auto simp: tickets_def)

lemma running_ticket:
  assumes "w < length (workers p)" "workers p ! w = Running k it" "length (running k p) \<le> 1"
  shows "running k p = [it]"
proof -
  obtain as bs where "running k p = as @ [it] @ bs"
    using concat_update [OF assms(1), of "running_of k"] assms(2) by (auto simp: running_def)
  with assms(3) show ?thesis by simp
qed

lemma take_up_running:
  assumes "w < length (workers p)" "running k p = running_of k (workers p ! w)"
  shows "running k (take_up w k r p) = (case fst r of None \<Rightarrow> [] | Some it \<Rightarrow> [it])"
  using concat_update_only [OF assms(1), of "running_of k"] assms(2)
  by (simp add: running_def take_up_def split: option.splits)

text \<open>A worker begins to drain a queue, or goes on after an item.\<close>

lemma commence_queue:
  assumes "w < length (workers p)" "workers p ! w = Fetched k" "queue_ok k es p q"
  shows "queue_ok k (es @ started k (fst (drain_begin q))) (take_up w k (drain_begin q) p)
    (snd (drain_begin q))"
proof -
  have t: "0 < tickets k p" by (rule fetched_ticket [OF assms(1,2)])
  have t': "tickets k (take_up w k r p) = tickets k p - 1" for r
    using take_up_tickets [OF assms(1)] assms(2) by simp
  show ?thesis
  proof (cases "is_serial q")
    case True
    with assms(3) t have q: "tickets k p = 1" "\<not> draining q" "running k p = []"
      "pushes k es = starts k es @ q_items q" "runs k es = concat (map (\<lambda>it. [Start k it, Stop k it]) (starts k es))"
      by (auto simp: queue_ok_def split: if_splits)
    have r: "running k (take_up w k r p) = (case fst r of None \<Rightarrow> [] | Some it \<Rightarrow> [it])" for r
      by (rule take_up_running [OF assms(1)]) (simp add: assms(2) q(3))
    show ?thesis
      using q True unfolding queue_ok_def t' r
      by (simp add: drain_begin_def serial_next_def queue_pop_head_locked_def started_def split: list.splits)
  next
    case False
    then show ?thesis using assms(3) t unfolding queue_ok_def t'
      by (simp add: drain_begin_def queue_pop_head_locked_def split: list.splits)
  qed
qed

lemma more_queue:
  assumes "w < length (workers p)" "workers p ! w = Running k it" "queue_ok k es p q"
  shows "queue_ok k (es @ Stop k it # started k (fst (drain_more q))) (take_up w k (drain_more q) p)
    (snd (drain_more q))"
proof -
  have t': "tickets k (take_up w k r p) = tickets k p" for r
    using take_up_tickets [OF assms(1)] assms(2) by simp
  show ?thesis
  proof (cases "is_serial q")
    case True
    with assms(3) have "length (running k p) \<le> 1" by (simp add: queue_ok_def)
    from running_ticket [OF assms(1,2) this] have run: "running k p = [it]" .
    have d: "draining q" using assms(3) True run by (cases "draining q") (auto simp: queue_ok_def)
    with assms(3) True run obtain ran where q: "\<not> on_runnable_list q" "tickets k p = 0"
      "pushes k es = starts k es @ q_items q" "starts k es = ran @ [it]"
      "runs k es = concat (map (\<lambda>it. [Start k it, Stop k it]) ran) @ [Start k it]"
      by (auto simp: queue_ok_def split: if_splits)
    have r: "running k (take_up w k r p) = (case fst r of None \<Rightarrow> [] | Some it \<Rightarrow> [it])" for r
      by (rule take_up_running [OF assms(1)]) (simp add: assms(2) run)
    show ?thesis
      using q d True unfolding queue_ok_def t' r
      by (simp add: drain_more_def serial_next_def queue_pop_head_locked_def started_def split: list.splits)
  next
    case False
    then show ?thesis using assms(3) unfolding queue_ok_def t' by (simp add: drain_more_def)
  qed
qed

lemma pool_ok_take_up:
  assumes "pool_ok es p" "w < length (workers p)" "queues p k = Some q"
    "workers p ! w = Fetched k \<or> workers p ! w = Running k it"
    "\<And>j. j \<noteq> k \<Longrightarrow> pushes j fs = [] \<and> starts j fs = [] \<and> runs j fs = []"
    "queue_ok k es p q \<Longrightarrow> queue_ok k (es @ fs) (take_up w k r p) (snd r)"
  shows "pool_ok (es @ fs) (take_up w k r p)"
proof (rule pool_ok_queue [OF assms(1,3)])
  show "queues (take_up w k r p) = (queues p)(k \<mapsto> snd r)" "next_queue (take_up w k r p) = next_queue p"
    by (simp_all add: take_up_def)
qed (use take_up_other [OF assms(2) _ assms(4)] assms(5,6) in auto)

lemma worker_step_ok: "worker_step p fs p' \<Longrightarrow> pool_ok es p \<Longrightarrow> pool_ok (es @ fs) p'"
proof (induction rule: worker_step.induct)
  case (publish k p)
  then show ?case using pool_ok_publish by simp
next
  case (fetch w p p')
  then show ?case using pool_ok_fetch by simp
next
  case (commence w p k q)
  then show ?case by (intro pool_ok_take_up) (auto intro: commence_queue)
next
  case (more w p k it q)
  then show ?case by (intro pool_ok_take_up) (auto intro: more_queue)
qed

lemma pool_step_ok: "pool_step p fs p' \<Longrightarrow> pool_ok es p \<Longrightarrow> pool_ok (es @ fs) p'"
  by (cases rule: pool_step.cases) (auto dest: worker_step_ok pool_ok_push pool_ok_create)

lemma pool_ok_start: "pool_ok [] (workerpool_start n)"
proof -
  have r: "concat (map (running_of k) (replicate m Idle)) = []" "count_list (replicate m Idle) (Fetched k) = 0"
    for k m by (induction m) auto
  show ?thesis
    by (auto simp: pool_ok_def workerpool_start_def queue_ok_def tickets_def running_def r
        dispatch_queue_create_def)
qed

lemma trace_ok: "trace p es p' \<Longrightarrow> pool_ok [] p \<Longrightarrow> pool_ok es p'"
  by (induction rule: trace.induct) (auto dest: pool_step_ok)

text \<open>C18 A serial queue runs its items one at a time and in the order of submission: what its
  workers did is a sequence of complete runs, with at most one begun after them, and the items
  run and the items waiting are exactly the items submitted, in that order.\<close>
theorem serial_queue_correct:
  assumes "trace (workerpool_start ncpu) es p" "queues p k = Some q" "is_serial q"
  shows "\<exists>ran cur. length cur \<le> 1 \<and>
    runs k es = concat (map (\<lambda>it. [Start k it, Stop k it]) ran) @ map (Start k) cur \<and>
    pushes k es = ran @ cur @ q_items q"
proof -
  have "queue_ok k es p q"
    using trace_ok [OF assms(1) pool_ok_start] assms(2) by (simp add: pool_ok_def)
  with assms(3) obtain ran where "starts k es = ran @ running k p"
    "runs k es = concat (map (\<lambda>it. [Start k it, Stop k it]) ran) @ map (Start k) (running k p)"
    "pushes k es = starts k es @ q_items q" by (auto simp: queue_ok_def)
  moreover have "length (running k p) \<le> 1" using \<open>queue_ok k es p q\<close> assms(3) by (simp add: queue_ok_def)
  ultimately show ?thesis by (intro exI [of _ ran] exI [of _ "running k p"]) simp
qed

section \<open>Coming to rest\<close>

text \<open>What is left to do: every worker step does some of it.\<close>

definition load :: "worker \<Rightarrow> nat" where
  "load w = (case w of Idle \<Rightarrow> 0 | _ \<Rightarrow> 1)"

definition work :: "nat set \<Rightarrow> pool \<Rightarrow> nat" where
  "work ks p = 3 * length (pushing p) + 2 * length (runnable p) + sum_list (map load (workers p)) +
     2 * (\<Sum>k\<in>ks. case queues p k of None \<Rightarrow> 0 | Some q \<Rightarrow> length (q_items q))"

inductive worker_run :: "pool \<Rightarrow> nat \<Rightarrow> pool \<Rightarrow> bool" where
  none: "worker_run p 0 p"
| step: "worker_run p n p' \<Longrightarrow> worker_step p' es p'' \<Longrightarrow> worker_run p (Suc n) p''"

lemma load_update:
  assumes "w < length ws"
  shows "sum_list (map load (ws[w := x])) + load (ws ! w) = sum_list (map load ws) + load x"
proof -
  have "sum_list (map load ws) = sum_list (map load (take w ws @ ws ! w # drop (Suc w) ws))"
    by (simp add: id_take_nth_drop [OF assms, symmetric])
  then show ?thesis by (simp add: upd_conv_take_nth_drop [OF assms])
qed

lemma items_update:
  assumes "finite ks" "k \<in> ks" "f k = Some q"
  shows "(\<Sum>j\<in>ks. case (f(k \<mapsto> q')) j of None \<Rightarrow> 0 | Some q \<Rightarrow> length (q_items q)) + length (q_items q) =
    (\<Sum>j\<in>ks. case f j of None \<Rightarrow> 0 | Some q \<Rightarrow> length (q_items q)) + length (q_items q')"
proof -
  have "(\<Sum>j\<in>ks - {k}. case (f(k \<mapsto> q')) j of None \<Rightarrow> 0 | Some q \<Rightarrow> length (q_items q)) =
      (\<Sum>j\<in>ks - {k}. case f j of None \<Rightarrow> 0 | Some q \<Rightarrow> length (q_items q))"
    by (rule sum.cong) auto
  then show ?thesis using assms(3) by (simp add: sum.remove [OF assms(1,2)])
qed

text \<open>A queue that is looked at either gives an item or had none.\<close>

lemma drain_items:
  "length (q_items (snd (drain_begin q))) + (case fst (drain_begin q) of None \<Rightarrow> 0 | Some _ \<Rightarrow> 1) =
     length (q_items q)"
  "length (q_items (snd (drain_more q))) + (case fst (drain_more q) of None \<Rightarrow> 0 | Some _ \<Rightarrow> 1) =
     length (q_items q)"
  by (simp_all add: drain_begin_def drain_more_def serial_next_def queue_pop_head_locked_def
      split: list.splits)

lemma take_up_work:
  assumes "finite ks" "k \<in> ks" "queues p k = Some q" "w < length (workers p)" "load (workers p ! w) = 1"
    "length (q_items (snd r)) + (case fst r of None \<Rightarrow> 0 | Some _ \<Rightarrow> 1) = length (q_items q)"
  shows "work ks (take_up w k r p) < work ks p"
proof -
  let ?x = "case fst r of None \<Rightarrow> Idle | Some it \<Rightarrow> Running k it"
  have "load ?x = (case fst r of None \<Rightarrow> 0 | Some _ \<Rightarrow> 1)" by (simp add: load_def split: option.splits)
  with load_update [OF assms(4), of ?x] items_update [OF assms(1,2), of "queues p" q "snd r"] assms(3,5,6)
  show ?thesis by (simp add: work_def take_up_def split: option.splits)
qed

lemma take_up_dom: "k \<in> ks \<Longrightarrow> dom (queues p) \<subseteq> ks \<Longrightarrow> dom (queues (take_up w k r p)) \<subseteq> ks"
  by (auto simp: take_up_def split: if_splits)

lemma worker_step_work:
  assumes "worker_step p es p'" "finite ks" "dom (queues p) \<subseteq> ks"
  shows "work ks p' < work ks p \<and> dom (queues p') \<subseteq> ks"
  using assms
proof (induction rule: worker_step.induct)
  case (publish k p)
  then have "length (remove1 k (pushing p)) < length (pushing p)"
    using length_pos_if_in_set [of k "pushing p"] by (simp add: length_remove1)
  with publish show ?case by (simp add: work_def runnable_push_def)
next
  case (fetch w p p')
  then obtain k ks where "runnable p = k # ks"
    "p' = p\<lparr>runnable := ks, workers := (workers p)[w := Fetched k]\<rparr>"
    by (auto simp: runnable_pop_def split: list.splits)
  with fetch load_update [OF fetch(1), of "Fetched k"] show ?case by (simp add: work_def load_def)
next
  case (commence w p k q)
  then have "k \<in> ks" by auto
  from take_up_work [OF commence(4) this commence(3,1) _ drain_items(1)] commence(2,5)
  show ?case using take_up_dom [OF \<open>k \<in> ks\<close>] by (simp add: load_def)
next
  case (more w p k it q)
  then have "k \<in> ks" by auto
  from take_up_work [OF more(4) this more(3,1) _ drain_items(2)] more(2,5)
  show ?case using take_up_dom [OF \<open>k \<in> ks\<close>] by (simp add: load_def)
qed

lemma worker_run_work:
  "worker_run p n p' \<Longrightarrow> finite ks \<Longrightarrow> dom (queues p) \<subseteq> ks \<Longrightarrow>
   n + work ks p' \<le> work ks p \<and> dom (queues p') \<subseteq> ks"
proof (induction rule: worker_run.induct)
  case (step p n p' es p'')
  then have "n + work ks p' \<le> work ks p" "dom (queues p') \<subseteq> ks" by simp_all
  with worker_step_work [OF step.hyps(2) step.prems(1)] show ?case by simp
qed simp

lemma dom_finite: "pool_ok es p \<Longrightarrow> finite (dom (queues p))"
  by (rule finite_subset [of _ "{..<next_queue p}"]) (auto simp: pool_ok_def)

definition resting :: "pool \<Rightarrow> bool" where
  "resting p \<longleftrightarrow> pushing p = [] \<and> runnable p = [] \<and> set (workers p) \<subseteq> {Idle} \<and>
     (\<forall>q\<in>ran (queues p). q_items q = [])"

lemma stuck_rests:
  assumes "pool_ok es p" "workers p \<noteq> []" "\<not> (\<exists>fs p'. worker_step p fs p')"
  shows "resting p"
proof -
  have busy: "queues p k \<noteq> None" if "0 < tickets k p \<or> running k p \<noteq> []" for k
    using assms(1) that by (auto simp: pool_ok_def)
  have idle: "workers p ! w = Idle" if w: "w < length (workers p)" for w
  proof (cases "workers p ! w")
    case (Fetched k)
    with fetched_ticket [OF w] busy obtain q where "queues p k = Some q" by blast
    from worker_step.commence [OF w Fetched this] assms(3) show ?thesis by blast
  next
    case (Running k it)
    then have "running k p \<noteq> []" using nth_mem [OF w] by (force simp: running_def)
    with busy obtain q where "queues p k = Some q" by blast
    from worker_step.more [OF w Running this] assms(3) show ?thesis by blast
  qed
  then have i: "set (workers p) \<subseteq> {Idle}" by (auto simp: in_set_conv_nth)
  have p: "pushing p = []" 
  proof (cases "pushing p")
    case (Cons k ks)
    then show ?thesis using worker_step.publish [of k p] assms(3) by auto
  qed
  have r: "runnable p = []"
  proof (cases "runnable p")
    case (Cons k ks)
    then have "runnable_pop 0 p \<noteq> None" by (simp add: runnable_pop_def)
    with worker_step.fetch [of 0 p] idle [of 0] assms(2,3) show ?thesis by auto
  qed
  have "tickets k p = 0" "running k p = []" for k
    using i p r by (auto simp: tickets_def running_def count_list_0_iff)
  then have "q_items q = []" if "queues p k = Some q" for k q
    using assms(1) that by (force simp: pool_ok_def queue_ok_def split: if_splits)
  then show ?thesis using p r i by (auto simp: resting_def ran_def)
qed

lemma worker_step_workers: "worker_step p es p' \<Longrightarrow> length (workers p') = length (workers p)"
  by (induction rule: worker_step.induct)
     (auto simp: runnable_push_def take_up_def runnable_pop_def split: list.splits)

lemma trace_workers: "trace p es p' \<Longrightarrow> length (workers p') = length (workers p)"
proof (induction rule: trace.induct)
  case (step p es p' fs p'')
  from step.hyps(2) have "length (workers p'') = length (workers p')"
    by (cases rule: pool_step.cases)
       (auto simp: worker_step_workers push_item_def create_queue_def case_prod_unfold Let_def)
  with step.IH show ?case by simp
qed simp

lemma worker_run_trace: "worker_run p n p' \<Longrightarrow> trace p0 es p \<Longrightarrow> \<exists>fs. trace p0 fs p'"
  by (induction rule: worker_run.induct) (blast intro: trace.step pool_step.worker)+


section \<open>Submitting work\<close>

definition dispatch_async_f :: "nat \<Rightarrow> item \<Rightarrow> pool \<Rightarrow> pool option" where
  "dispatch_async_f k it p = push_item k it p"

text \<open>The part of \<open>dispatch_sync_f\<close> before it waits; \<open>here\<close> is the queue that the calling thread
  is draining.  \<open>tramp\<close> is the item that runs the work and signals.\<close>

definition dispatch_sync_f :: "nat option \<Rightarrow> nat \<Rightarrow> item \<Rightarrow> pool \<Rightarrow> pool outcome" where
  "dispatch_sync_f here k tramp p =
     (if here = Some k then Panic ''dispatch_sync: deadlock''
      else case push_item k tramp p of None \<Rightarrow> Undef | Some p' \<Rightarrow> Ret p')"

text \<open>The last \<open>dispatch_release\<close> of a queue frees it, whether or not it has items or is on the
  runnable list.\<close>

definition queue_destroy :: "nat \<Rightarrow> pool \<Rightarrow> pool" where
  "queue_destroy k p = p\<lparr>queues := (queues p)(k := None)\<rparr>"

text \<open>A queue that is released right after an item was submitted to it is freed while a ticket for
  it exists: the worker that takes the ticket uses the freed queue.\<close>

lemma release_dangles:
  assumes "pool_ok es p" "queues p k = Some q" "push_item k it p = Some p'" "running k p = []"
  shows "queues (queue_destroy k p') k = None \<and> 0 < tickets k (queue_destroy k p')"
proof -
  from pool_ok_push [OF assms(1,3)] obtain q' where q': "queues p' k = Some q'"
    and ok: "queue_ok k (es @ [Push k it]) p' q'" and ne: "q_items q' \<noteq> []"
    using assms(2,3) by (auto simp: pool_ok_def push_item_def queue_push_item_def Let_def split: if_splits)
  have "running k p' = []"
    using assms(3,4) by (auto simp: push_item_def running_def case_prod_unfold Let_def)
  with ok ne have "0 < tickets k p'" by (auto simp: queue_ok_def split: if_splits)
  then show ?thesis by (simp add: queue_destroy_def tickets_def)
qed

section \<open>An example\<close>

text \<open>Two items on the main queue; the first one is being run.\<close>

definition item_a :: item where "item_a = \<lparr>it_func = 1, it_context = 10\<rparr>"
definition item_b :: item where "item_b = \<lparr>it_func = 2, it_context = 20\<rparr>"

definition demo_queue :: queue where
  "demo_queue = \<lparr>is_serial = True, q_items = [item_b], draining = True, on_runnable_list = False\<rparr>"

definition demo_pool :: pool where
  "demo_pool = (workerpool_start 1)\<lparr>queues := [1 \<mapsto> dispatch_queue_create True, 0 \<mapsto> demo_queue],
     workers := [Running 0 item_a, Idle]\<rparr>"

lemma demo_trace:
  "trace (workerpool_start 1) [Push 0 item_a, Push 0 item_b, Start 0 item_a] demo_pool"
proof -
  define p1 where "p1 = the (push_item 0 item_a (workerpool_start 1))"
  define p2 where "p2 = the (push_item 0 item_b p1)"
  define p3 where "p3 = runnable_push 0 p2"
  define p4 where "p4 = the (runnable_pop 0 p3)"
  note d = p1_def p2_def p3_def p4_def workerpool_start_def push_item_def queue_push_item_def
    dispatch_queue_create_def runnable_push_def runnable_pop_def Let_def
  have t1: "trace (workerpool_start 1) ([] @ [Push 0 item_a]) p1"
    by (intro trace.step [OF trace.none] pool_step.push) (simp add: d)
  have t2: "pool_step p1 [Push 0 item_b] p2" by (intro pool_step.push) (simp add: d)
  have t3: "pool_step p2 [] p3"
    unfolding p3_def by (intro pool_step.worker worker_step.publish) (simp add: d)
  have t4: "pool_step p3 [] p4"
    by (intro pool_step.worker worker_step.fetch [of 0]) (simp_all add: d)
  define q where "q = \<lparr>is_serial = True, q_items = [item_a, item_b], draining = False,
    on_runnable_list = True\<rparr>"
  have b: "drain_begin q = (Some item_a, demo_queue)"
    by (simp add: drain_begin_def serial_next_def queue_pop_head_locked_def q_def demo_queue_def)
  have "worker_step p4 (started 0 (fst (drain_begin q))) (take_up 0 0 (drain_begin q) p4)"
    by (rule worker_step.commence) (simp_all add: d q_def)
  moreover have "take_up 0 0 (drain_begin q) p4 = demo_pool"
    unfolding b by (simp add: take_up_def demo_pool_def d numeral_2_eq_2)
  ultimately have t5: "pool_step p4 [Start 0 item_a] demo_pool"
    unfolding b by (simp add: started_def pool_step.worker)
  show ?thesis
    using trace.step [OF trace.step [OF trace.step [OF trace.step [OF t1 t2] t3] t4] t5] by simp
qed

lemma serial_queue_correct_witness:
  "trace (workerpool_start 1) [Push 0 item_a, Push 0 item_b, Start 0 item_a] demo_pool \<and>
   (\<exists>ran cur. length cur \<le> 1 \<and>
    runs 0 [Push 0 item_a, Push 0 item_b, Start 0 item_a] =
      concat (map (\<lambda>it. [Start 0 it, Stop 0 it]) ran) @ map (Start 0) cur \<and>
    pushes 0 [Push 0 item_a, Push 0 item_b, Start 0 item_a] = ran @ cur @ q_items demo_queue)"
  using demo_trace serial_queue_correct [OF demo_trace, of 0 demo_queue]
  by (simp add: demo_pool_def demo_queue_def)


end
