(* ===== verification/DispatchSync.thy ===== *)
theory DispatchSync
  imports Dispatch "HOL-Library.Multiset"
begin

text \<open>
  libdispatch's other objects: \<open>dispatch_once.c\<close>, \<open>dispatch_group.c\<close>, \<open>dispatch_semaphore.c\<close> and
  \<open>dispatch_time.c\<close> under \<open>userland/libdispatch\<close>.  As in \<open>Dispatch\<close>, a critical section is one
  step.  A wait is the step with which it returns; it has no step while it has to wait.
\<close>

section \<open>dispatch_once\<close>

datatype once_state = Unstarted | InProgress | Done

text \<open>A caller of \<open>dispatch_once_f\<close>: before the compare-and-exchange, running the function,
  spinning until it is done, or returned.\<close>

datatype caller = Calling | Executing | Spinning | Returned

record once =
  predicate :: once_state
  callers :: "caller list"
  executed :: nat

definition once_enter :: "nat \<Rightarrow> once \<Rightarrow> once" where
  "once_enter i s =
     (if predicate s = Unstarted then s\<lparr>predicate := InProgress, callers := (callers s)[i := Executing]\<rparr>
      else s\<lparr>callers := (callers s)[i := Spinning]\<rparr>)"

definition once_finish :: "nat \<Rightarrow> once \<Rightarrow> once" where
  "once_finish i s =
     s\<lparr>predicate := Done, callers := (callers s)[i := Returned], executed := executed s + 1\<rparr>"

definition once_spin :: "nat \<Rightarrow> once \<Rightarrow> once" where
  "once_spin i s = (if predicate s = Done then s\<lparr>callers := (callers s)[i := Returned]\<rparr> else s)"

inductive once_step :: "once \<Rightarrow> once \<Rightarrow> bool" where
  call: "once_step s (s\<lparr>callers := callers s @ [Calling]\<rparr>)"
| enter: "i < length (callers s) \<Longrightarrow> callers s ! i = Calling \<Longrightarrow> once_step s (once_enter i s)"
| finish: "i < length (callers s) \<Longrightarrow> callers s ! i = Executing \<Longrightarrow> once_step s (once_finish i s)"
| spin: "i < length (callers s) \<Longrightarrow> callers s ! i = Spinning \<Longrightarrow> once_step s (once_spin i s)"

definition once_start :: once where
  "once_start = \<lparr>predicate = Unstarted, callers = [], executed = 0\<rparr>"

definition once_ok :: "once \<Rightarrow> bool" where
  "once_ok s \<longleftrightarrow>
     count_list (callers s) Executing = of_bool (predicate s = InProgress) \<and>
     executed s = of_bool (predicate s = Done) \<and>
     (Returned \<in> set (callers s) \<longrightarrow> predicate s = Done)"

lemma executing_now:
  "once_ok s \<Longrightarrow> i < length (callers s) \<Longrightarrow> callers s ! i = Executing \<Longrightarrow> predicate s = InProgress"
  using count_list_0_iff [of "callers s" Executing] nth_mem [of i "callers s"]
  by (auto simp: once_ok_def split: if_splits)

lemma returned_update:
  "Returned \<in> set (cs[i := c]) \<Longrightarrow> c = Returned \<or> Returned \<in> set cs"
  using set_update_subset_insert [of cs i c] by auto

lemma once_step_ok: "once_step s s' \<Longrightarrow> once_ok s \<Longrightarrow> once_ok s'"
proof (induction rule: once_step.induct)
  case (call s)
  then show ?case by (auto simp: once_ok_def)
next
  case (enter i s)
  then show ?case
    using count_update [OF enter(1), of Executing Executing] count_update [OF enter(1), of Spinning Executing]
    by (auto simp: once_ok_def once_enter_def dest!: returned_update split: if_splits)
next
  case (finish i s)
  then have "predicate s = InProgress" using executing_now by blast
  with finish show ?case using count_update [OF finish(1), of Returned Executing]
    by (simp add: once_ok_def once_finish_def)
next
  case (spin i s)
  then show ?case using count_update [OF spin(1), of Returned Executing]
    by (auto simp: once_ok_def once_spin_def)
qed

text \<open>However many threads call \<open>dispatch_once\<close> on a predicate, the function is executed at
  most once, and no call returns before it has been executed.\<close>
theorem once_correct:
  assumes "once_step\<^sup>*\<^sup>* once_start s"
  shows "executed s \<le> 1 \<and> (if Returned \<in> set (callers s) then executed s = 1 else True)"
proof -
  have "once_ok once_start" by (simp add: once_start_def once_ok_def)
  with assms have "once_ok s" by (induction rule: rtranclp_induct) (auto dest: once_step_ok)
  then show ?thesis by (auto simp: once_ok_def)
qed

lemma once_demo:
  "once_step\<^sup>*\<^sup>* once_start \<lparr>predicate = Done, callers = [Returned], executed = 1\<rparr>"
proof -
  let ?c = "\<lambda>p c n. \<lparr>predicate = p, callers = [c], executed = n\<rparr>"
  have "once_step once_start (?c Unstarted Calling 0)"
    using once_step.call [of once_start] by (simp add: once_start_def)
  moreover have "once_step (?c Unstarted Calling 0) (?c InProgress Executing 0)"
    using once_step.enter [of 0 "?c Unstarted Calling 0"] by (simp add: once_enter_def)
  moreover have "once_step (?c InProgress Executing 0) (?c Done Returned 1)"
    using once_step.finish [of 0 "?c InProgress Executing 0"] by (simp add: once_finish_def)
  ultimately show ?thesis by (meson rtranclp.rtrancl_into_rtrancl rtranclp.rtrancl_refl)
qed

lemma once_correct_witness:
  "once_step\<^sup>*\<^sup>* once_start \<lparr>predicate = Done, callers = [Returned], executed = 1\<rparr> \<and> (1::nat) \<le> 1"
  using once_correct [OF once_demo] once_demo by simp

section \<open>Groups\<close>

record notify =
  n_queue :: nat
  n_item :: item

record group =
  g_count :: int
  notify_head :: "notify list"

definition dispatch_group_create :: group where
  "dispatch_group_create = \<lparr>g_count = 0, notify_head = []\<rparr>"

definition dispatch_group_enter :: "group \<Rightarrow> group" where
  "dispatch_group_enter g = g\<lparr>g_count := g_count g + 1\<rparr>"

text \<open>What \<open>dispatch_group_leave\<close> and \<open>dispatch_group_notify\<close> push to the queues, in order.\<close>

definition dispatch_group_leave :: "group \<Rightarrow> group \<times> notify list" where
  "dispatch_group_leave g0 =
     (let g = g0\<lparr>g_count := g_count g0 - 1\<rparr> in
      if g_count g = 0 then (g\<lparr>notify_head := []\<rparr>, notify_head g) else (g, []))"

definition dispatch_group_notify :: "notify \<Rightarrow> group \<Rightarrow> group \<times> notify list" where
  "dispatch_group_notify n g =
     (if g_count g = 0 then (g, [n]) else (g\<lparr>notify_head := n # notify_head g\<rparr>, []))"

text \<open>\<open>dispatch_group_wait\<close>: its result, or \<open>None\<close> while it waits.  \<open>expired\<close> tells whether the
  time of a timed wait is over.\<close>

datatype timeout = Now | Forever | Until u64

definition dispatch_group_wait :: "timeout \<Rightarrow> bool \<Rightarrow> group \<Rightarrow> int option" where
  "dispatch_group_wait t expired g =
     (case t of
        Forever \<Rightarrow> if 0 < g_count g then None else Some 0
      | Now \<Rightarrow> Some (if 0 < g_count g then - 1 else 0)
      | Until _ \<Rightarrow> if 0 < g_count g then if expired then Some (- 1) else None else Some 0)"

text \<open>\<open>dispatch_group_async_f\<close> enters the group and submits a trampoline that leaves it when the
  work is done: the calls of a program and its workers on one group.\<close>

datatype group_call = Enter | Leave | Notify notify

fun group_run :: "group_call list \<Rightarrow> group \<Rightarrow> group \<times> notify list" where
  "group_run [] g = (g, [])"
| "group_run (Enter # cs) g = group_run cs (dispatch_group_enter g)"
| "group_run (Leave # cs) g =
     (let (g', fired) = dispatch_group_leave g; (g'', more) = group_run cs g' in (g'', fired @ more))"
| "group_run (Notify n # cs) g =
     (let (g', fired) = dispatch_group_notify n g; (g'', more) = group_run cs g' in (g'', fired @ more))"

text \<open>No call leaves the group more often than it was entered.\<close>

fun balanced :: "int \<Rightarrow> group_call list \<Rightarrow> bool" where
  "balanced n [] \<longleftrightarrow> True"
| "balanced n (Enter # cs) \<longleftrightarrow> balanced (n + 1) cs"
| "balanced n (Leave # cs) \<longleftrightarrow> 0 < n \<and> balanced (n - 1) cs"
| "balanced n (Notify _ # cs) \<longleftrightarrow> balanced n cs"

fun outstanding :: "int \<Rightarrow> group_call list \<Rightarrow> int" where
  "outstanding n [] = n"
| "outstanding n (Enter # cs) = outstanding (n + 1) cs"
| "outstanding n (Leave # cs) = outstanding (n - 1) cs"
| "outstanding n (Notify _ # cs) = outstanding n cs"

definition notified :: "group_call list \<Rightarrow> notify list" where
  "notified cs = concat (map (\<lambda>c. case c of Notify n \<Rightarrow> [n] | _ \<Rightarrow> []) cs)"

lemma group_run_inv:
  "balanced (g_count g) cs \<Longrightarrow> 0 \<le> g_count g \<Longrightarrow> (g_count g = 0 \<longrightarrow> notify_head g = []) \<Longrightarrow>
   group_run cs g = (g', fired) \<Longrightarrow>
   g_count g' = outstanding (g_count g) cs \<and> 0 \<le> g_count g' \<and> (g_count g' = 0 \<longrightarrow> notify_head g' = []) \<and>
   mset fired + mset (notify_head g') = mset (notify_head g) + mset (notified cs)"
proof (induction cs arbitrary: g fired)
  case (Cons c cs)
  show ?case
  proof (cases c)
    case Enter
    with Cons.prems Cons.IH [of "dispatch_group_enter g" fired] show ?thesis
      by (simp add: dispatch_group_enter_def notified_def)
  next
    case Leave
    obtain g1 f1 where l: "dispatch_group_leave g = (g1, f1)" by (cases "dispatch_group_leave g")
    obtain f2 where r: "group_run cs g1 = (g', f2)" "fired = f1 @ f2"
      using Cons.prems(4) Leave l by (auto split: prod.splits)
    have "g_count g1 = g_count g - 1" "g_count g1 = 0 \<longrightarrow> notify_head g1 = []"
      "mset f1 + mset (notify_head g1) = mset (notify_head g)"
      using l by (auto simp: dispatch_group_leave_def Let_def split: if_splits)
    with Cons.IH [OF _ _ _ r(1)] Cons.prems(1) Leave r(2) show ?thesis
      by (simp add: notified_def ac_simps)
  next
    case (Notify n)
    obtain g1 f1 where l: "dispatch_group_notify n g = (g1, f1)" by (cases "dispatch_group_notify n g")
    obtain f2 where r: "group_run cs g1 = (g', f2)" "fired = f1 @ f2"
      using Cons.prems(4) Notify l by (auto split: prod.splits)
    have "g_count g1 = g_count g" "g_count g1 = 0 \<longrightarrow> notify_head g1 = []"
      "mset f1 + mset (notify_head g1) = add_mset n (mset (notify_head g))"
      using l Cons.prems(3) by (auto simp: dispatch_group_notify_def split: if_splits)
    with Cons.IH [OF _ _ _ r(1)] Cons.prems(1,2) Notify r(2) show ?thesis
      by (simp add: notified_def ac_simps)
  qed
qed (simp add: notified_def)

text \<open>Every block given to \<open>dispatch_group_notify\<close> is pushed to its queue exactly once, by the
  time the work of the group is done: what was pushed and what waits are together what was
  registered, and nothing waits when nothing is outstanding.\<close>
theorem group_notify_once:
  assumes "balanced 0 cs" "group_run cs dispatch_group_create = (g, fired)"
  shows "mset fired + mset (notify_head g) = mset (notified cs) \<and> g_count g = outstanding 0 cs \<and>
    (if outstanding 0 cs = 0 then mset fired = mset (notified cs) else True)"
  using group_run_inv [of dispatch_group_create cs g fired] assms
  by (simp add: dispatch_group_create_def) force

definition nth_note :: "nat \<Rightarrow> notify" where
  "nth_note k = \<lparr>n_queue = 0, n_item = \<lparr>it_func = k, it_context = 0\<rparr>\<rparr>"

lemma group_notify_once_witness:
  "group_run [Enter, Notify (nth_note 1), Notify (nth_note 2), Leave, Notify (nth_note 3)] dispatch_group_create =
     (dispatch_group_create, [nth_note 2, nth_note 1, nth_note 3]) \<and>
   mset [nth_note 2, nth_note 1, nth_note 3] = mset (notified [Enter, Notify (nth_note 1), Notify (nth_note 2), Leave, Notify (nth_note 3)])"
proof -
  have e: "group_run [Enter, Notify (nth_note 1), Notify (nth_note 2), Leave, Notify (nth_note 3)] dispatch_group_create =
     (dispatch_group_create, [nth_note 2, nth_note 1, nth_note 3])"
    by (simp add: dispatch_group_create_def dispatch_group_enter_def dispatch_group_leave_def
        dispatch_group_notify_def)
  then show ?thesis using group_notify_once [OF _ e] by simp
qed

text \<open>The blocks run in the reverse of the order in which they were registered.\<close>

lemma group_run_notifies:
  "g_count g \<noteq> 0 \<Longrightarrow>
   group_run (map Notify ns @ cs) g = group_run cs (g\<lparr>notify_head := rev ns @ notify_head g\<rparr>)"
  by (induction ns arbitrary: g) (simp_all add: dispatch_group_notify_def)

lemma group_run_leaves:
  "g_count g = int n \<Longrightarrow> 0 < n \<Longrightarrow> snd (group_run (replicate n Leave) g) = notify_head g"
proof (induction n arbitrary: g)
  case (Suc n)
  show ?case
  proof (cases n)
    case 0
    with Suc.prems show ?thesis by (simp add: dispatch_group_leave_def)
  next
    case (Suc m)
    then have "dispatch_group_leave g = (g\<lparr>g_count := int n\<rparr>, [])"
      using Suc.prems(1) by (simp add: dispatch_group_leave_def)
    with Suc.IH [of "g\<lparr>g_count := int n\<rparr>"] Suc show ?thesis
      by (simp add: case_prod_unfold Let_def)
  qed
qed simp

lemma group_notify_reverses:
  assumes "g_count g = int n" "0 < n" "notify_head g = []"
  shows "snd (group_run (map Notify ns @ replicate n Leave) g) = rev ns"
  using assms group_run_leaves [of "g\<lparr>notify_head := rev ns\<rparr>" n] by (simp add: group_run_notifies)

section \<open>Semaphores\<close>

record semaphore =
  sem_value :: int

definition dispatch_semaphore_create :: "int \<Rightarrow> semaphore" where
  "dispatch_semaphore_create v = \<lparr>sem_value = v\<rparr>"

definition dispatch_semaphore_signal :: "semaphore \<Rightarrow> int \<times> semaphore" where
  "dispatch_semaphore_signal s =
     (let v = sem_value s + 1 in (if 0 < v then 0 else 1, s\<lparr>sem_value := v\<rparr>))"

definition dispatch_semaphore_wait :: "timeout \<Rightarrow> bool \<Rightarrow> semaphore \<Rightarrow> (int \<times> semaphore) option" where
  "dispatch_semaphore_wait t expired s =
     (if 0 < sem_value s then Some (0, s\<lparr>sem_value := sem_value s - 1\<rparr>)
      else case t of
             Forever \<Rightarrow> None
           | Now \<Rightarrow> Some (- 1, s)
           | Until _ \<Rightarrow> if expired then Some (- 1, s) else None)"

text \<open>Calls of any threads, in the order in which they return; the number of waits that took a
  unit is counted.\<close>

datatype sem_call = Signal | Wait timeout bool

fun sem_run :: "sem_call list \<Rightarrow> semaphore \<Rightarrow> (nat \<times> semaphore) option" where
  "sem_run [] s = Some (0, s)"
| "sem_run (Signal # cs) s = sem_run cs (snd (dispatch_semaphore_signal s))"
| "sem_run (Wait t e # cs) s =
     (case dispatch_semaphore_wait t e s of
        None \<Rightarrow> None
      | Some (r, s') \<Rightarrow>
          map_option (apfst (\<lambda>n. if r = 0 then n + 1 else n)) (sem_run cs s'))"

lemma sem_run_value:
  "sem_run cs s = Some (n, s') \<Longrightarrow> 0 \<le> sem_value s \<Longrightarrow>
   0 \<le> sem_value s' \<and> sem_value s' + int n = sem_value s + int (count_list cs Signal)"
proof (induction cs arbitrary: s n)
  case (Cons c cs)
  show ?case
  proof (cases c)
    case Signal
    with Cons show ?thesis by (fastforce simp: dispatch_semaphore_signal_def Let_def)
  next
    case (Wait t e)
    with Cons.prems obtain r s1 n1 where w: "dispatch_semaphore_wait t e s = Some (r, s1)"
      "sem_run cs s1 = Some (n1, s')" "n = (if r = 0 then n1 + 1 else n1)"
      by (auto split: option.splits prod.splits)
    then have "0 \<le> sem_value s1" "sem_value s1 = sem_value s - of_bool (r = 0)"
      using Cons.prems(2) by (auto simp: dispatch_semaphore_wait_def split: if_splits timeout.splits)
    with Cons.IH [OF w(2)] w(3) Wait show ?thesis by (auto split: if_splits)
  qed
qed simp

section \<open>Time\<close>

definition time_now :: u64 where "time_now = 0"
definition time_forever :: u64 where "time_forever = NOT 0"

text \<open>\<open>- delta\<close> overflows for the least value, where the code is undefined.\<close>

definition add_delta :: "u64 \<Rightarrow> 64 word \<Rightarrow> u64 outcome" where
  "add_delta base delta =
     (if 0 \<le> sint delta then Ret (base + delta)
      else if sint delta = - (2 ^ 63) then Undef
      else let d = - delta in Ret (if d < base then base - d else 0))"

definition dispatch_time :: "u64 \<Rightarrow> u64 \<Rightarrow> 64 word \<Rightarrow> u64 outcome" where
  "dispatch_time now when delta = add_delta (if when = time_now then now else when) delta"

definition dispatch_walltime :: "u64 \<Rightarrow> (u64 \<times> u64) option \<Rightarrow> 64 word \<Rightarrow> u64 outcome" where
  "dispatch_walltime now when delta =
     add_delta (case when of None \<Rightarrow> now | Some (sec, nsec) \<Rightarrow> sec * 1000000000 + nsec) delta"

text \<open>A time plus a delta is exact where it fits, and never before the epoch.\<close>

lemma add_delta_exact:
  assumes "- (2 ^ 63) < sint delta" "uint base + sint delta < 2 ^ 64"
  shows "\<exists>t. add_delta base delta = Ret t \<and> uint t = max 0 (uint base + sint delta)"
proof (cases "0 \<le> sint delta")
  case True
  moreover have "sint delta < 2 ^ 64" using sint_lt [of delta] by simp
  ultimately have "uint delta = sint delta" by (simp add: uint_sint take_bit_eq_mod)
  with assms(2) uint_add_lem [of base delta] have "uint (base + delta) = uint base + sint delta"
    by simp
  with True show ?thesis by (simp add: add_delta_def)
next
  case False
  have "uint (- delta) = (- sint delta) mod 2 ^ 64"
    using uint_word_ariths(4) [of delta] unfolding uint_sint [of delta] take_bit_eq_mod
    by (simp add: mod_minus_eq)
  moreover have "- sint delta < 2 ^ 64" using sint_ge [of delta] by simp
  ultimately have d: "uint (- delta) = - sint delta" using False by simp
  show ?thesis
  proof (cases "- delta < base")
    case True
    then have "uint (base - - delta) = uint base - uint (- delta)"
      using uint_sub_lem [of "- delta" base] by (simp add: word_less_def)
    then show ?thesis using False True assms(1) d
      by (auto simp: add_delta_def Let_def word_less_def max_def)
  next
    case c: False
    then show ?thesis using False assms(1) d
      by (auto simp: add_delta_def Let_def word_less_def max_def)
  qed
qed

text \<open>\<open>dispatch_time\<close> does not keep \<open>DISPATCH_TIME_FOREVER\<close>: one nanosecond later is the value
  that means now.\<close>

lemma forever_wraps: "dispatch_time now time_forever 1 = Ret time_now"
  by (simp add: dispatch_time_def add_delta_def time_forever_def time_now_def)

section \<open>Timers\<close>

record timer =
  deadline :: u64
  t_queue :: nat
  t_item :: item

fun timer_schedule :: "timer \<Rightarrow> timer list \<Rightarrow> timer list" where
  "timer_schedule t [] = [t]"
| "timer_schedule t (x # xs) =
     (if deadline x \<le> deadline t then x # timer_schedule t xs else t # x # xs)"

definition dispatch_after_f :: "u64 \<Rightarrow> timer \<Rightarrow> timer list \<Rightarrow> timer list \<times> timer list" where
  "dispatch_after_f now t timers =
     (if deadline t \<le> now then ([t], timers) else ([], timer_schedule t timers))"

text \<open>One round of the timer thread; \<open>clock\<close> gives the readings of the clock in this round.  The
  timers that it pushes to their queues, in order, and those that stay.\<close>

fun timer_fire :: "(nat \<Rightarrow> u64) \<Rightarrow> timer list \<Rightarrow> timer list \<times> timer list" where
  "timer_fire clock [] = ([], [])"
| "timer_fire clock (t # ts) =
     (if deadline t \<le> clock 0 then apfst ((#) t) (timer_fire (\<lambda>i. clock (Suc i)) ts)
      else ([], t # ts))"

definition timer_poll_cap :: u64 where "timer_poll_cap = 20000000"

definition timer_sleep :: "u64 \<Rightarrow> timer list \<Rightarrow> u64" where
  "timer_sleep now timers =
     (case timers of
        [] \<Rightarrow> timer_poll_cap
      | t # _ \<Rightarrow> let remaining = (if now < deadline t then deadline t - now else 0) in
                if remaining < timer_poll_cap then remaining else timer_poll_cap)"

lemma timer_schedule_mset [simp]: "mset (timer_schedule t ts) = add_mset t (mset ts)"
  by (induction ts) auto

lemma timer_schedule_set [simp]: "set (timer_schedule t ts) = insert t (set ts)"
  by (induction ts) auto

lemma timer_schedule_sorted:
  "sorted (map deadline ts) \<Longrightarrow> sorted (map deadline (timer_schedule t ts))"
  by (induction ts) auto

lemma timer_schedule_filter:
  "sorted (map deadline ts) \<Longrightarrow>
   filter (\<lambda>x. deadline x = d) (timer_schedule t ts) =
     filter (\<lambda>x. deadline x = d) ts @ (if deadline t = d then [t] else [])"
proof (induction ts)
  case (Cons x xs)
  show ?case
  proof (cases "deadline x \<le> deadline t")
    case False
    with Cons.prems have "deadline t < deadline y" if "y \<in> set (x # xs)" for y
      using that by (auto simp: not_le intro: less_le_trans)
    then have "deadline t = d \<Longrightarrow> filter (\<lambda>x. deadline x = d) (x # xs) = []"
      by (fastforce simp: filter_empty_conv)
    with False show ?thesis by simp
  qed (use Cons in simp)
qed simp

lemma timers_inv:
  "sorted (map deadline (foldl (\<lambda>l t. timer_schedule t l) [] ts)) \<and>
   mset (foldl (\<lambda>l t. timer_schedule t l) [] ts) = mset ts \<and>
   (\<forall>d. filter (\<lambda>x. deadline x = d) (foldl (\<lambda>l t. timer_schedule t l) [] ts) =
      filter (\<lambda>x. deadline x = d) ts)"
  by (induction ts rule: rev_induct) (auto simp: timer_schedule_sorted timer_schedule_filter)

lemma timers_sort: "foldl (\<lambda>l t. timer_schedule t l) [] ts = sort_key deadline ts"
proof (rule properties_for_sort_key [symmetric])
  show "filter (\<lambda>x. deadline k = deadline x) (foldl (\<lambda>l t. timer_schedule t l) [] ts) =
      filter (\<lambda>x. deadline k = deadline x) ts" for k
    using timers_inv [of ts] by (simp add: eq_commute)
qed (use timers_inv [of ts] in simp_all)

lemma timer_fire_split:
  "timer_fire clock ts = (fired, rest) \<Longrightarrow> mono clock \<Longrightarrow>
   ts = fired @ rest \<and> (\<forall>t\<in>set fired. deadline t \<le> clock (length fired)) \<and>
   (rest \<noteq> [] \<longrightarrow> clock (length fired) < deadline (hd rest))"
proof (induction clock ts arbitrary: fired rule: timer_fire.induct)
  case (2 clock t ts)
  show ?case
  proof (cases "deadline t \<le> clock 0")
    case True
    then obtain f where f: "timer_fire (\<lambda>i. clock (Suc i)) ts = (f, rest)" "fired = t # f"
      using "2.prems"(1) by (cases "timer_fire (\<lambda>i. clock (Suc i)) ts") auto
    have "mono (\<lambda>i. clock (Suc i))" using "2.prems"(2) by (simp add: mono_def)
    moreover have "deadline t \<le> clock (length fired)"
      by (rule order_trans [OF True monoD [OF "2.prems"(2)]]) simp
    ultimately show ?thesis using "2.IH" [OF True f(1)] f(2) by simp
  next
    case False
    then have "fired = [] \<and> rest = t # ts" using "2.prems"(1) by simp
    with False show ?thesis by (simp add: not_le)
  qed
qed simp

text \<open>C20 Timers fire in the order of their deadlines, those with one deadline in the order in which
  they were scheduled, each of them once, none before its deadline and none late: a round of the
  timer thread takes from the timers that were scheduled, sorted by deadline, exactly those whose
  deadline the clock has reached.\<close>
theorem timers_correct:
  assumes "timer_fire clock (foldl (\<lambda>l t. timer_schedule t l) [] ts) = (fired, rest)" "mono clock"
  shows "fired = takeWhile (\<lambda>t. deadline t \<le> clock (length fired)) (sort_key deadline ts) \<and>
    fired @ rest = sort_key deadline ts"
proof -
  from timer_fire_split [OF assms] have s: "sort_key deadline ts = fired @ rest"
    "\<forall>t\<in>set fired. deadline t \<le> clock (length fired)"
    "rest \<noteq> [] \<longrightarrow> clock (length fired) < deadline (hd rest)" unfolding timers_sort by auto
  then have "takeWhile (\<lambda>t. deadline t \<le> clock (length fired)) rest = []"
    by (cases rest) (auto simp: not_le)
  with s show ?thesis by (simp add: takeWhile_append2)
qed

definition demo_timer :: "u64 \<Rightarrow> nat \<Rightarrow> timer" where
  "demo_timer d k = \<lparr>deadline = d, t_queue = 0, t_item = \<lparr>it_func = k, it_context = 0\<rparr>\<rparr>"

lemma timers_correct_witness:
  "timer_fire (\<lambda>i. 15) (foldl (\<lambda>l t. timer_schedule t l) []
      [demo_timer 20 1, demo_timer 10 2, demo_timer 10 3]) =
     ([demo_timer 10 2, demo_timer 10 3], [demo_timer 20 1]) \<and>
   sort_key deadline [demo_timer 20 1, demo_timer 10 2, demo_timer 10 3] =
     [demo_timer 10 2, demo_timer 10 3, demo_timer 20 1]"
proof -
  have e: "timer_fire (\<lambda>i. 15) (foldl (\<lambda>l t. timer_schedule t l) []
      [demo_timer 20 1, demo_timer 10 2, demo_timer 10 3]) =
     ([demo_timer 10 2, demo_timer 10 3], [demo_timer 20 1])"
    by (simp add: demo_timer_def)
  from timers_correct [OF e] show ?thesis using e by (simp add: mono_def)
qed

end
