(* ===== verification/ObjcRuntime.thy ===== *)
theory ObjcRuntime
  imports CString
begin

text \<open>
  The Objective-C runtime, \<open>userland/libobjc\<close>: selectors (\<open>selector.c\<close>), classes (\<open>class.c\<close>,
  \<open>runtime.c\<close>) and the dispatch of messages with its caches (\<open>dispatch.c\<close>).  A class is a number
  in a heap of classes; a selector is the address of its unique name; an implementation is a
  number.  The address that \<open>malloc\<close> gives a new name is an argument.

  A walk along the superclasses is a partial function: it has no result where the chain is
  cyclic, which the code would follow for ever.
\<close>

type_synonym sel = u64

section \<open>Selectors\<close>

definition objc_max_selectors :: nat where "objc_max_selectors = 4096"

type_synonym sel_table = "(sel \<times> cstr) list"

fun find_selector :: "sel_table \<Rightarrow> cstr \<Rightarrow> sel option" where
  "find_selector [] str = None"
| "find_selector ((a, s) # t) str = (if strcmp s str = 0 then Some a else find_selector t str)"

text \<open>The address 0 is the null selector, which a full table and a failed \<open>malloc\<close> give.\<close>

definition sel_registerName :: "sel option \<Rightarrow> cstr \<Rightarrow> sel_table \<Rightarrow> sel \<times> sel_table" where
  "sel_registerName fresh str t =
     (case find_selector t str of
        Some a \<Rightarrow> (a, t)
      | None \<Rightarrow>
          if objc_max_selectors \<le> length t then (0, t)
          else case fresh of None \<Rightarrow> (0, t) | Some a \<Rightarrow> (a, t @ [(a, str)]))"

definition sel_getName :: "sel \<Rightarrow> sel_table \<Rightarrow> cstr option" where
  "sel_getName a t = map_of t a"

definition sel_table_ok :: "sel_table \<Rightarrow> bool" where
  "sel_table_ok t \<longleftrightarrow> distinct (map fst t) \<and> distinct (map snd t) \<and> 0 \<notin> fst ` set t \<and>
     list_all is_cstr (map snd t)"

lemma find_selector_map:
  "find_selector t str = map_of (map (\<lambda>(a, s). (s, a)) t) str" if "is_cstr str" "list_all is_cstr (map snd t)"
  using that
proof (induction t)
  case (Cons p t)
  obtain a s where p: "p = (a, s)" by (cases p)
  show ?case using Cons by (simp add: p strcmp_0_iff)
qed simp

lemma find_selector_None:
  "find_selector t str = None \<Longrightarrow> is_cstr str \<Longrightarrow> list_all is_cstr (map snd t) \<Longrightarrow> str \<notin> snd ` set t"
  by (induction t str rule: find_selector.induct) (simp_all add: strcmp_0_iff split: if_splits)

lemma find_selector_Some: "find_selector t str = Some a \<Longrightarrow> list_all is_cstr (map snd t) \<Longrightarrow>
    is_cstr str \<Longrightarrow> (a, str) \<in> set t"
  by (induction t) (auto simp: strcmp_0_iff split: if_splits)

text \<open>The address of a new name is not that of a live one.\<close>

definition fresh_ok :: "sel option \<Rightarrow> sel_table \<Rightarrow> bool" where
  "fresh_ok fresh t \<longleftrightarrow> fresh = None \<or> (the fresh \<noteq> 0 \<and> the fresh \<notin> fst ` set t)"

lemma sel_register_ok:
  assumes "sel_table_ok t" "is_cstr str" "fresh_ok fresh t"
    "sel_registerName fresh str t = (a, t')"
  shows "sel_table_ok t' \<and> set t \<subseteq> set t' \<and> (a \<noteq> 0 \<longrightarrow> (a, str) \<in> set t')"
proof (cases "find_selector t str")
  case None
  from assms(1) have t: "list_all is_cstr (map snd t)" by (simp add: sel_table_ok_def)
  show ?thesis
  proof (cases "objc_max_selectors \<le> length t \<or> fresh = None")
    case True
    with assms None have "a = 0" "t' = t" by (auto simp: sel_registerName_def split: if_splits)
    with assms(1) show ?thesis by simp
  next
    case False
    then obtain b where b: "fresh = Some b" by auto
    with assms None False have e: "a = b" "t' = t @ [(a, str)]" by (auto simp: sel_registerName_def)
    from assms(1, 3) b find_selector_None [OF None assms(2) t] assms(2) show ?thesis
      unfolding e by (auto simp add: sel_table_ok_def fresh_ok_def)
  qed
next
  case (Some b)
  with find_selector_Some [OF Some] assms show ?thesis
    by (auto simp: sel_registerName_def sel_table_ok_def)
qed

lemma map_of_distinct_snd:
  "distinct (map snd t) \<Longrightarrow> (a, s) \<in> set t \<Longrightarrow> (b, s) \<in> set t \<Longrightarrow> a = b"
  by (metis prod.inject eq_key_imp_eq_value eq_snd_iff distinct_map inj_on_def)

text \<open>Registering names one after the other, in any order and with repetitions, gives two names
  the same selector exactly when they are equal; this is what lets dispatch compare selectors as
  addresses.  It holds as long as the table had room and memory for both names.\<close>

theorem selectors_unique:
  assumes "sel_table_ok t" "is_cstr s1" "is_cstr s2" "fresh_ok f1 t"
    and "sel_registerName f1 s1 t = (a1, t1)" "fresh_ok f2 t1"
    and "sel_registerName f2 s2 t1 = (a2, t2)" "a1 \<noteq> 0" "a2 \<noteq> 0"
  shows "a1 = a2 \<longleftrightarrow> s1 = s2"
proof -
  from sel_register_ok [OF assms(1, 2, 4, 5)] assms
  have t1: "sel_table_ok t1" "(a1, s1) \<in> set t1" by auto
  from sel_register_ok [OF t1(1) assms(3, 6, 7)] assms t1
  have t2: "sel_table_ok t2" "(a1, s1) \<in> set t2" "(a2, s2) \<in> set t2" by auto
  then show ?thesis
    using map_of_distinct_snd [of t2 a1 s1 a2] eq_key_imp_eq_value [of t2 a1 s1 s2]
    by (auto simp: sel_table_ok_def)
qed

theorem selectors_unique_witness: "(1 :: sel) = 2 \<longleftrightarrow> [105] = ([106] :: cstr)"
proof (rule selectors_unique)
  show "sel_table_ok []" by (simp add: sel_table_ok_def)
  show "is_cstr [105]" "is_cstr [106]" by (simp_all add: is_cstr_def)
  show "fresh_ok (Some 1) []" "fresh_ok (Some 2) [(1, [105])]" by (simp_all add: fresh_ok_def)
  show "sel_registerName (Some 1) [105] [] = (1, [(1, [105])])"
    by (simp add: sel_registerName_def objc_max_selectors_def)
  show "sel_registerName (Some 2) [106] [(1, [105])] = (2, [(1, [105]), (2, [106])])"
    by (simp add: sel_registerName_def objc_max_selectors_def strcmp_0_iff is_cstr_def)
  show "(1 :: sel) \<noteq> 0" "(2 :: sel) \<noteq> 0" by simp_all
qed

section \<open>Classes\<close>

record method_t =
  m_name :: sel
  m_imp :: nat

record ivar =
  iv_name :: cstr
  iv_alignment :: nat
  iv_size :: u32
  iv_slot :: nat

record class_ro =
  ro_meta :: bool
  ro_name :: cstr
  ro_methods :: "(cstr \<times> nat) list"
  ro_protocols :: "cstr list"
  ro_ivars :: "ivar list"
  ro_properties :: "cstr list"

record class_rw =
  rw_methods :: "method_t list"
  rw_protocols :: "cstr list"
  rw_properties :: "cstr list"
  rw_extra_ivars :: "ivar list"
  rw_instance_size :: u32

record objc_class =
  isa :: "nat option"
  superclass :: "nat option"
  ro :: class_ro
  rw :: "class_rw option"
  c_cache :: "(sel \<times> nat) list option"

record category =
  cat_cls :: "nat option"
  cat_instance_methods :: "(cstr \<times> nat) list"
  cat_class_methods :: "(cstr \<times> nat) list"
  cat_protocols :: "cstr list"
  cat_properties :: "cstr list"

record objc =
  classes :: "objc_class list"
  g_classes :: "nat list"
  g_protocols :: "cstr list"
  g_pending_cats :: "category list"
  selectors :: sel_table
  ivar_offset :: "nat \<Rightarrow> u32"

definition objc_max_classes :: nat where "objc_max_classes = 512"

definition update_class :: "nat \<Rightarrow> (objc_class \<Rightarrow> objc_class) \<Rightarrow> objc \<Rightarrow> objc" where
  "update_class k f st = st\<lparr>classes := (classes st)[k := f (classes st ! k)]\<rparr>"

text \<open>The methods in the flattened list of one class.\<close>

definition own_method :: "objc \<Rightarrow> sel \<Rightarrow> nat \<Rightarrow> method_t option" where
  "own_method st s k =
     (case rw (classes st ! k) of None \<Rightarrow> None | Some r \<Rightarrow> find (\<lambda>m. m_name m = s) (rw_methods r))"

partial_function (option) class_lookup_method_t :: "objc \<Rightarrow> sel \<Rightarrow> nat option \<Rightarrow> method_t option option" where
  "class_lookup_method_t st s c =
     (case c of
        None \<Rightarrow> Some None
      | Some k \<Rightarrow>
          (case own_method st s k of
             Some m \<Rightarrow> Some (Some m)
           | None \<Rightarrow> class_lookup_method_t st s (superclass (classes st ! k))))"

definition class_getName :: "objc \<Rightarrow> nat \<Rightarrow> cstr" where
  "class_getName st k = ro_name (ro (classes st ! k))"

fun find_class :: "objc \<Rightarrow> cstr \<Rightarrow> nat list \<Rightarrow> nat option" where
  "find_class st name [] = None"
| "find_class st name (k # ks) =
     (if strcmp (class_getName st k) name = 0 then Some k else find_class st name ks)"

definition objc_getClass :: "objc \<Rightarrow> cstr \<Rightarrow> nat option" where
  "objc_getClass st name = find_class st name (g_classes st)"

definition class_getInstanceSize :: "objc \<Rightarrow> nat option \<Rightarrow> u32" where
  "class_getInstanceSize st c =
     (case c of None \<Rightarrow> 0
      | Some k \<Rightarrow> (case rw (classes st ! k) of None \<Rightarrow> 0 | Some r \<Rightarrow> rw_instance_size r))"

definition rw_append_method :: "sel \<Rightarrow> nat \<Rightarrow> class_rw \<Rightarrow> class_rw" where
  "rw_append_method name imp r = r\<lparr>rw_methods := rw_methods r @ [\<lparr>m_name = name, m_imp = imp\<rparr>]\<rparr>"

definition class_addMethod :: "nat \<Rightarrow> sel \<Rightarrow> nat \<Rightarrow> objc \<Rightarrow> (bool \<times> objc) option" where
  "class_addMethod k name imp st =
     (case rw (classes st ! k) of
        None \<Rightarrow> Some (False, st)
      | Some r \<Rightarrow>
          map_option (\<lambda>m. if m \<noteq> None then (False, st)
              else (True, update_class k (\<lambda>c. c\<lparr>rw := Some (rw_append_method name imp r)\<rparr>) st))
            (class_lookup_method_t st name (Some k)))"

definition class_addProtocol :: "nat \<Rightarrow> cstr \<Rightarrow> objc \<Rightarrow> bool \<times> objc" where
  "class_addProtocol k p st =
     (case rw (classes st ! k) of
        None \<Rightarrow> (False, st)
      | Some r \<Rightarrow>
          (True, update_class k (\<lambda>c. c\<lparr>rw := Some (r\<lparr>rw_protocols := rw_protocols r @ [p]\<rparr>)\<rparr>) st))"

text \<open>The start of the next variable: a size rounded up to an alignment \<open>1u << a\<close>.\<close>

definition align_up :: "u32 \<Rightarrow> nat \<Rightarrow> u32" where
  "align_up n a = (n + push_bit a 1 - 1) AND NOT (push_bit a 1 - 1)"

definition class_addIvar :: "nat \<Rightarrow> cstr \<Rightarrow> u64 \<Rightarrow> u8 \<Rightarrow> nat \<Rightarrow> objc \<Rightarrow> (bool \<times> objc) outcome" where
  "class_addIvar k name sz alignment slot st =
     (case rw (classes st ! k) of
        None \<Rightarrow> Ret (False, st)
      | Some r \<Rightarrow>
          if 32 \<le> unat alignment then Undef
          else
            let offset = align_up (rw_instance_size r) (unat alignment);
                iv = \<lparr>iv_name = name, iv_alignment = unat alignment, iv_size = ucast sz, iv_slot = slot\<rparr>;
                r' = r\<lparr>rw_extra_ivars := rw_extra_ivars r @ [iv], rw_instance_size := offset + ucast sz\<rparr>
            in Ret (True, (update_class k (\<lambda>c. c\<lparr>rw := Some r'\<rparr>) st)
                 \<lparr>ivar_offset := (ivar_offset st)(slot := offset)\<rparr>))"

definition objc_register_dynamic_class :: "nat \<Rightarrow> objc \<Rightarrow> objc outcome" where
  "objc_register_dynamic_class k st =
     (if objc_max_classes \<le> length (g_classes st) then Panic ''too many classes''
      else Ret (st\<lparr>g_classes := g_classes st @ [k]\<rparr>))"

definition dynamic_class :: "bool \<Rightarrow> cstr \<Rightarrow> nat option \<Rightarrow> nat option \<Rightarrow> u32 \<Rightarrow> objc_class" where
  "dynamic_class meta name i super sz =
     \<lparr>isa = i, superclass = super,
      ro = \<lparr>ro_meta = meta, ro_name = name, ro_methods = [], ro_protocols = [], ro_ivars = [], ro_properties = []\<rparr>,
      rw = Some \<lparr>rw_methods = [], rw_protocols = [], rw_properties = [], rw_extra_ivars = [], rw_instance_size = sz\<rparr>,
      c_cache = None\<rparr>"

definition objc_allocateClassPair :: "nat option \<Rightarrow> cstr \<Rightarrow> u32 \<Rightarrow> objc \<Rightarrow> nat option \<times> objc" where
  "objc_allocateClassPair super name extra st =
     (if objc_getClass st name \<noteq> None then (None, st)
      else
        let n = length (classes st);
            super_meta = (case super of None \<Rightarrow> None | Some s \<Rightarrow> isa (classes st ! s));
            sz = (if super = None then 8 else class_getInstanceSize st super) + extra
        in (Some n, st\<lparr>classes := classes st @
              [dynamic_class False name (Some (n + 1)) super sz,
               dynamic_class True name (if super = None then Some (n + 1) else super_meta) super_meta 0]\<rparr>))"

section \<open>Dispatch\<close>

definition objc_cache_size :: nat where "objc_cache_size = 16"

definition cache_index :: "sel \<Rightarrow> nat" where
  "cache_index s = unat (drop_bit 4 s AND 15)"

definition ensure_cache :: "bool \<Rightarrow> nat \<Rightarrow> objc \<Rightarrow> objc" where
  "ensure_cache calloc_ok k st =
     (if c_cache (classes st ! k) = None \<and> calloc_ok
      then update_class k (\<lambda>c. c\<lparr>c_cache := Some (replicate objc_cache_size (0, 0))\<rparr>) st
      else st)"

fun probe :: "nat \<Rightarrow> nat \<Rightarrow> (sel \<times> nat) list \<Rightarrow> sel \<Rightarrow> nat option" where
  "probe 0 i bs s = None"
| "probe (Suc n) i bs s =
     (let b = bs ! (i mod objc_cache_size) in
      if fst b = s then Some (snd b) else if fst b = 0 then None else probe n (i + 1) bs s)"

fun fill :: "nat \<Rightarrow> nat \<Rightarrow> (sel \<times> nat) list \<Rightarrow> sel \<Rightarrow> nat \<Rightarrow> (sel \<times> nat) list" where
  "fill 0 i bs s imp = bs"
| "fill (Suc n) i bs s imp =
     (let b = bs ! (i mod objc_cache_size) in
      if fst b = 0 \<or> fst b = s then bs[i mod objc_cache_size := (s, imp)] else fill n (i + 1) bs s imp)"

definition objc_class_lookup_and_cache :: "bool \<Rightarrow> nat \<Rightarrow> sel \<Rightarrow> objc \<Rightarrow> (nat \<times> objc) outcome option" where
  "objc_class_lookup_and_cache calloc_ok k s st0 =
     (let st = ensure_cache calloc_ok k st0;
          cache = c_cache (classes st ! k);
          idx = cache_index s in
      case Option.bind cache (\<lambda>bs. probe objc_cache_size idx bs s) of
        Some imp \<Rightarrow> Some (Ret (imp, st))
      | None \<Rightarrow>
          (case class_lookup_method_t st s (Some k) of
             None \<Rightarrow> None
           | Some None \<Rightarrow> Some (Panic ''unrecognized selector'')
           | Some (Some m) \<Rightarrow>
               Some (Ret (m_imp m,
                 update_class k (\<lambda>c. c\<lparr>c_cache :=
                   map_option (\<lambda>bs. fill objc_cache_size idx bs s (m_imp m)) cache\<rparr>) st))))"

section \<open>Programs\<close>

text \<open>The calls of a program that concern dispatch, with what they answer.  A class that does not
  exist is a wild pointer.\<close>

datatype call = Send bool nat sel | AddMethod nat sel nat | AllocatePair "nat option" cstr u32 | Register nat
  | AddProtocol nat cstr | AddIvar nat cstr u64 u8 nat

datatype answer = Imp nat | Added bool | Pair "nat option" | Done

definition class_ok :: "objc \<Rightarrow> nat \<Rightarrow> bool" where
  "class_ok st k \<longleftrightarrow> k < length (classes st)"

fun runtime_call :: "call \<Rightarrow> objc \<Rightarrow> (answer \<times> objc) outcome option" where
  "runtime_call (Send calloc_ok k s) st =
     (if \<not> class_ok st k then Some Undef
      else rbind (objc_class_lookup_and_cache calloc_ok k s st) (\<lambda>(imp, st'). Some (Ret (Imp imp, st'))))"
| "runtime_call (AddMethod k s imp) st =
     (if \<not> class_ok st k then Some Undef
      else map_option (\<lambda>(b, st'). Ret (Added b, st')) (class_addMethod k s imp st))"
| "runtime_call (AllocatePair super name extra) st =
     (if super \<noteq> None \<and> \<not> class_ok st (the super) then Some Undef
      else let (c, st') = objc_allocateClassPair super name extra st in Some (Ret (Pair c, st')))"
| "runtime_call (Register k) st =
     (if \<not> class_ok st k then Some Undef
      else Some (obind (objc_register_dynamic_class k st) (\<lambda>st'. Ret (Done, st'))))"
| "runtime_call (AddProtocol k p) st =
     (if \<not> class_ok st k then Some Undef
      else let (b, st') = class_addProtocol k p st in Some (Ret (Added b, st')))"
| "runtime_call (AddIvar k name sz alignment slot) st =
     (if \<not> class_ok st k then Some Undef
      else Some (obind (class_addIvar k name sz alignment slot st) (\<lambda>(b, st'). Ret (Added b, st'))))"

text \<open>The same without caches.\<close>

fun plain_call :: "call \<Rightarrow> objc \<Rightarrow> (answer \<times> objc) outcome option" where
  "plain_call (Send calloc_ok k s) st =
     (if \<not> class_ok st k then Some Undef
      else case class_lookup_method_t st s (Some k) of
             None \<Rightarrow> None
           | Some None \<Rightarrow> Some (Panic ''unrecognized selector'')
           | Some (Some m) \<Rightarrow> Some (Ret (Imp (m_imp m), st)))"
| "plain_call c st = runtime_call c st"

fun runtime_run :: "call list \<Rightarrow> objc \<Rightarrow> (answer list \<times> objc) outcome option" where
  "runtime_run [] st = Some (Ret ([], st))"
| "runtime_run (c # calls) st =
     rbind (runtime_call c st) (\<lambda>(a, st'). rbind (runtime_run calls st') (\<lambda>(as, st''). Some (Ret (a # as, st''))))"

fun plain_run :: "call list \<Rightarrow> objc \<Rightarrow> (answer list \<times> objc) outcome option" where
  "plain_run [] st = Some (Ret ([], st))"
| "plain_run (c # calls) st =
     rbind (plain_call c st) (\<lambda>(a, st'). rbind (plain_run calls st') (\<lambda>(as, st''). Some (Ret (a # as, st''))))"

section \<open>Dispatch without caches\<close>

definition strip_class :: "objc_class \<Rightarrow> objc_class" where
  "strip_class c = c\<lparr>c_cache := None\<rparr>"

definition strip :: "objc \<Rightarrow> objc" where
  "strip st = st\<lparr>classes := map strip_class (classes st)\<rparr>"

definition in_heap :: "nat \<Rightarrow> nat option \<Rightarrow> bool" where
  "in_heap n c \<longleftrightarrow> c = None \<or> the c < n"

definition closed :: "objc \<Rightarrow> bool" where
  "closed st \<longleftrightarrow>
     list_all (\<lambda>c. in_heap (length (classes st)) (isa c) \<and> in_heap (length (classes st)) (superclass c)) (classes st) \<and>
     list_all (\<lambda>k. k < length (classes st)) (g_classes st)"

text \<open>A cached implementation is the one the lookup finds.\<close>

definition bucket_ok :: "objc \<Rightarrow> nat \<Rightarrow> sel \<times> nat \<Rightarrow> bool" where
  "bucket_ok st k b \<longleftrightarrow> fst b = 0 \<or>
     (\<exists>m. class_lookup_method_t st (fst b) (Some k) = Some (Some m) \<and> m_imp m = snd b)"

definition cache_ok :: "objc \<Rightarrow> nat \<Rightarrow> bool" where
  "cache_ok st k \<longleftrightarrow> (case c_cache (classes st ! k) of None \<Rightarrow> True
     | Some bs \<Rightarrow> length bs = objc_cache_size \<and> list_all (bucket_ok st k) bs)"

definition coherent :: "objc \<Rightarrow> bool" where
  "coherent st \<longleftrightarrow> list_all (cache_ok st) [0..<length (classes st)]"

lemma coherentD: "coherent st \<Longrightarrow> k < length (classes st) \<Longrightarrow> cache_ok st k"
  by (simp add: coherent_def list_all_iff)

lemma closed_superclass:
  "closed st \<Longrightarrow> k < length (classes st) \<Longrightarrow> in_heap (length (classes st)) (superclass (classes st ! k))"
  by (simp add: closed_def list_all_length)

text \<open>A lookup depends only on the classes it visits.\<close>

lemma lookup_induct:
  assumes found: "class_lookup_method_t st s c = Some r"
    and none: "P None None"
    and own: "\<And>k m. own_method st s k = Some m \<Longrightarrow> P (Some k) (Some m)"
    and up: "\<And>k r. own_method st s k = None \<Longrightarrow>
      class_lookup_method_t st s (superclass (classes st ! k)) = Some r \<Longrightarrow>
      P (superclass (classes st ! k)) r \<Longrightarrow> P (Some k) r"
  shows "P c r"
proof -
  have "st0 = st \<longrightarrow> s0 = s \<longrightarrow> class_lookup_method_t st s c = Some r \<and> P c r"
    if "class_lookup_method_t st0 s0 c = Some r" for st0 s0 c r
  proof (rule class_lookup_method_t.raw_induct [rotated, OF that])
    fix look st1 s1 c1 r1
    assume 1: "\<And>st1 s1 c1 r1. look st1 s1 c1 = Some r1 \<Longrightarrow>
        st1 = st \<longrightarrow> s1 = s \<longrightarrow> class_lookup_method_t st s c1 = Some r1 \<and> P c1 r1"
      "(case c1 of None \<Rightarrow> Some None
       | Some k \<Rightarrow> (case own_method st1 s1 k of Some m \<Rightarrow> Some (Some m)
          | None \<Rightarrow> look st1 s1 (superclass (classes st1 ! k)))) = Some r1"
    show "st1 = st \<longrightarrow> s1 = s \<longrightarrow> class_lookup_method_t st s c1 = Some r1 \<and> P c1 r1"
    proof (intro impI)
      assume e: "st1 = st" "s1 = s"
      show "class_lookup_method_t st s c1 = Some r1 \<and> P c1 r1"
        using 1 e none own up
        by (auto simp: class_lookup_method_t.simps [of st s c1] split: option.splits)
    qed
  qed
  with found show ?thesis by blast
qed

lemma lookup_agree:
  assumes found: "class_lookup_method_t st s c = Some r" and c: "in_heap n c"
    and same: "\<And>k. k < n \<Longrightarrow> own_method st' s k = own_method st s k \<and>
      superclass (classes st' ! k) = superclass (classes st ! k) \<and> in_heap n (superclass (classes st ! k))"
  shows "class_lookup_method_t st' s c = Some r"
  using c
proof (induction rule: lookup_induct [OF found])
  case 1
  then show ?case by (simp add: class_lookup_method_t.simps)
next
  case (2 k m)
  with same [of k] show ?case by (simp add: class_lookup_method_t.simps in_heap_def)
next
  case (3 k r)
  with same [of k] show ?case
    by (simp add: class_lookup_method_t.simps [of st' s "Some k"] in_heap_def)
qed

lemma find_snoc: "find f (xs @ [x]) = (case find f xs of Some y \<Rightarrow> Some y | None \<Rightarrow> if f x then Some x else None)"
  by (induction xs) auto

text \<open>A method added to a class that does not answer to its name leaves every answer as it is.\<close>

lemma lookup_add_method:
  assumes found: "class_lookup_method_t st s c = Some (Some m)"
    and rw: "rw (classes st ! k) = Some r" and k: "k < length (classes st)"
    and new: "class_lookup_method_t st name (Some k) = Some None"
  shows "class_lookup_method_t (update_class k (\<lambda>c. c\<lparr>rw := Some (rw_append_method name imp r)\<rparr>) st) s c
    = Some (Some m)"
    (is "class_lookup_method_t ?st s c = _")
proof -
  have sup: "superclass (classes ?st ! j) = superclass (classes st ! j)" for j
    using k by (cases "j = k") (simp_all add: update_class_def)
  have own: "own_method ?st s j = (case own_method st s j of Some m \<Rightarrow> Some m
     | None \<Rightarrow> if j = k \<and> s = name then Some \<lparr>m_name = name, m_imp = imp\<rparr> else None)" for j
    using k rw
    by (cases "j = k") (auto simp: update_class_def own_method_def rw_append_method_def find_snoc
        split: option.splits)
  have "r' = Some m \<longrightarrow> class_lookup_method_t ?st s c = Some r'"
    if "class_lookup_method_t st s c = Some r'" for c r' m
  proof (induction rule: lookup_induct [OF that])
    case 1
    then show ?case by simp
  next
    case (2 j m)
    with own [of j] show ?case by (simp add: class_lookup_method_t.simps)
  next
    case (3 j r1)
    then have "\<not> (j = k \<and> s = name)" if "r1 = Some m"
      using new that by (auto simp: class_lookup_method_t.simps [of st name "Some k"])
    with 3 own [of j] sup [of j] show ?case
      by (auto simp: class_lookup_method_t.simps [of ?st s "Some j"])
  qed
  with found show ?thesis by blast
qed

lemma nth_update_class:
  "k < length (classes st) \<Longrightarrow> classes (update_class k f st) ! j =
     (if j = k then f (classes st ! k) else classes st ! j)"
  by (simp add: update_class_def)

lemma length_update_class [simp]: "length (classes (update_class k f st)) = length (classes st)"
  by (simp add: update_class_def)

lemma ivar_offset_update_class [simp]: "ivar_offset (update_class k f st) = ivar_offset st"
  by (simp add: update_class_def)

lemma g_classes_update_class [simp]: "g_classes (update_class k f st) = g_classes st"
  by (simp add: update_class_def)

text \<open>What a call may do to the classes that exist.\<close>

definition keeps :: "objc \<Rightarrow> objc \<Rightarrow> bool" where
  "keeps st st' \<longleftrightarrow> length (classes st) \<le> length (classes st') \<and>
     (\<forall>k < length (classes st). isa (classes st' ! k) = isa (classes st ! k) \<and>
        superclass (classes st' ! k) = superclass (classes st ! k))"

lemma in_heap_mono: "in_heap n c \<Longrightarrow> n \<le> n' \<Longrightarrow> in_heap n' c"
  by (auto simp: in_heap_def)

lemma closed_keeps:
  assumes "closed st" "keeps st st'" "g_classes st' = g_classes st"
    and "\<And>k. length (classes st) \<le> k \<Longrightarrow> k < length (classes st') \<Longrightarrow>
      in_heap (length (classes st')) (isa (classes st' ! k)) \<and>
      in_heap (length (classes st')) (superclass (classes st' ! k))"
  shows "closed st'"
proof -
  have "in_heap (length (classes st')) (isa (classes st' ! k)) \<and>
      in_heap (length (classes st')) (superclass (classes st' ! k))"
    if "k < length (classes st')" for k
  proof (cases "k < length (classes st)")
    case True
    with assms(1, 2) show ?thesis
      by (auto simp: closed_def keeps_def list_all_length intro: in_heap_mono)
  qed (use assms(4) that in simp)
  with assms(1-3) show ?thesis
    by (auto simp: closed_def keeps_def list_all_length)
qed

lemma coherent_keeps:
  assumes "coherent st" "length (classes st) \<le> length (classes st')"
    and "\<And>k. k < length (classes st) \<Longrightarrow> c_cache (classes st' ! k) = c_cache (classes st ! k)"
    and "\<And>k. length (classes st) \<le> k \<Longrightarrow> k < length (classes st') \<Longrightarrow> c_cache (classes st' ! k) = None"
    and "\<And>s k m. k < length (classes st) \<Longrightarrow> class_lookup_method_t st s (Some k) = Some (Some m) \<Longrightarrow>
      class_lookup_method_t st' s (Some k) = Some (Some m)"
  shows "coherent st'"
proof -
  have "cache_ok st' k" if "k < length (classes st')" for k
  proof (cases "k < length (classes st)")
    case True
    with assms(1) have "cache_ok st k" by (rule coherentD)
    with assms(3, 5) [OF True] show ?thesis
      by (auto simp: cache_ok_def list_all_iff bucket_ok_def split: option.splits)
  qed (use assms(4) that in \<open>simp add: cache_ok_def\<close>)
  then show ?thesis by (simp add: coherent_def list_all_iff)
qed

lemma lookup_frame:
  assumes "class_lookup_method_t st s (Some k) = Some r" "closed st" "k < length (classes st)"
    "keeps st st'" "\<And>j. j < length (classes st) \<Longrightarrow> own_method st' s j = own_method st s j"
  shows "class_lookup_method_t st' s (Some k) = Some r"
  using lookup_agree [OF assms(1), where n = "length (classes st)" and st' = st'] assms(2-5) closed_superclass
  by (simp add: in_heap_def keeps_def)

section \<open>Every call keeps the caches coherent\<close>

lemma call_keeps_frame:
  assumes "closed st" "coherent st" "k < length (classes st)"
    "isa c' = isa (classes st ! k)" "superclass c' = superclass (classes st ! k)"
    "c_cache c' = c_cache (classes st ! k)"
    "\<And>s. (case rw c' of None \<Rightarrow> None | Some r \<Rightarrow> find (\<lambda>m. m_name m = s) (rw_methods r)) = own_method st s k"
    "st' = update_class k (\<lambda>c. c') st"
  shows "closed st' \<and> coherent st'"
proof
  have kp: "keeps st st'"
    using assms by (auto simp: keeps_def nth_update_class)
  with assms show "closed st'" by (auto intro: closed_keeps)
  have own: "own_method st' s j = own_method st s j" if "j < length (classes st)" for s j
    using assms(3) assms(7) [of s] that
    by (cases "j = k") (auto simp: assms(8) own_method_def nth_update_class)
  show "coherent st'"
    by (rule coherent_keeps [OF assms(2)])
      (use assms own lookup_frame [OF _ assms(1) _ kp own] in \<open>auto simp: nth_update_class\<close>)
qed

lemma set_cache_ok:
  assumes "closed st" "coherent st" "k < length (classes st)"
    "length bs = objc_cache_size" "list_all (bucket_ok st k) bs"
    "st' = update_class k (\<lambda>c. c\<lparr>c_cache := Some bs\<rparr>) st"
  shows "closed st' \<and> coherent st'"
proof
  have kp: "keeps st st'"
    using assms by (auto simp: keeps_def nth_update_class)
  with assms show "closed st'" by (auto intro: closed_keeps)
  have own: "own_method st' s j = own_method st s j" if "j < length (classes st)" for s j
    using assms(3) that by (simp add: assms(6) own_method_def nth_update_class)
  have keep: "class_lookup_method_t st' s (Some j) = Some r"
    if "j < length (classes st)" "class_lookup_method_t st s (Some j) = Some r" for s j r
    using lookup_frame [OF that(2) assms(1) that(1) kp own] .
  have "cache_ok st' j" if j: "j < length (classes st)" for j
    using coherentD [OF assms(2) j] assms(3-5) keep [OF j]
    by (cases "j = k")
      (auto simp: assms(6) cache_ok_def nth_update_class list_all_iff bucket_ok_def split: option.splits)
  then show "coherent st'" by (simp add: assms(6) coherent_def list_all_iff)
qed

lemma ensure_cache_ok:
  assumes "closed st" "coherent st" "k < length (classes st)"
  shows "closed (ensure_cache calloc_ok k st) \<and> coherent (ensure_cache calloc_ok k st)"
  using set_cache_ok [OF assms _ _ refl, of "replicate objc_cache_size (0, 0)"] assms
  by (simp add: ensure_cache_def list_all_iff bucket_ok_def)

lemma length_fill [simp]: "length (fill n i bs s imp) = length bs"
  by (induction n arbitrary: i) (simp_all add: Let_def)

lemma list_all_update: "list_all P xs \<Longrightarrow> P x \<Longrightarrow> list_all P (xs[i := x])"
  by (auto simp: list_all_iff dest!: set_update_subset_insert [THEN subsetD])

lemma list_all_fill: "list_all P bs \<Longrightarrow> P (s, imp) \<Longrightarrow> list_all P (fill n i bs s imp)"
  by (induction n arbitrary: i) (simp_all add: Let_def list_all_update)

lemma probe_in_cache:
  "probe n i bs s = Some imp \<Longrightarrow> length bs = objc_cache_size \<Longrightarrow> (s, imp) \<in> set bs"
proof (induction n arbitrary: i)
  case (Suc n)
  let ?b = "bs ! (i mod objc_cache_size)"
  from Suc.prems(2) have "?b \<in> set bs" by (simp add: objc_cache_size_def)
  with Suc show ?case by (cases ?b) (auto simp: Let_def split: if_splits)
qed simp

lemma in_range_ensure [simp]: "length (classes (ensure_cache b k st)) = length (classes st)"
  by (simp add: ensure_cache_def)

lemma lookup_ensure_cache:
  assumes "closed st" "k < length (classes st)" "class_lookup_method_t st s (Some j) = Some r"
    "j < length (classes st)"
  shows "class_lookup_method_t (ensure_cache b k st) s (Some j) = Some r"
  by (rule lookup_frame [OF assms(3, 1, 4)])
    (use assms in \<open>auto simp: keeps_def ensure_cache_def nth_update_class own_method_def\<close>)

text \<open>What a message send gives is what the lookup gives, on a state that stays coherent.\<close>

lemma send_correct:
  assumes "closed st" "coherent st" "k < length (classes st)" "s \<noteq> 0"
    "objc_class_lookup_and_cache b k s st = Some (Ret (imp, st'))"
  shows "closed st' \<and> coherent st' \<and>
    (\<exists>m. class_lookup_method_t (ensure_cache b k st) s (Some k) = Some (Some m) \<and> m_imp m = imp)"
proof -
  let ?st = "ensure_cache b k st"
  from ensure_cache_ok [OF assms(1-3)] have inv: "closed ?st" "coherent ?st" by auto
  have co: "cache_ok ?st k" using coherentD [OF inv(2)] assms(3) by simp
  define cache where "cache = c_cache (classes ?st ! k)"
  show ?thesis
  proof (cases "Option.bind cache (\<lambda>bs. probe objc_cache_size (cache_index s) bs s)")
    case (Some v)
    then obtain bs where bs: "cache = Some bs" "probe objc_cache_size (cache_index s) bs s = Some v"
      by (auto simp: bind_eq_Some_conv)
    from assms(5) Some have e: "v = imp" "st' = ?st"
      by (auto simp: objc_class_lookup_and_cache_def Let_def cache_def)
    from co bs(1) have "length bs = objc_cache_size" "list_all (bucket_ok ?st k) bs"
      by (auto simp: cache_ok_def cache_def)
    with probe_in_cache [OF bs(2)] have "bucket_ok ?st k (s, v)" by (auto simp: list_all_iff)
    with inv assms(4) show ?thesis by (simp add: bucket_ok_def e)
  next
    case None
    from assms(5) None obtain m where m: "class_lookup_method_t ?st s (Some k) = Some (Some m)"
        "imp = m_imp m" and st': "st' = update_class k (\<lambda>c. c\<lparr>c_cache :=
          map_option (\<lambda>bs. fill objc_cache_size (cache_index s) bs s (m_imp m)) cache\<rparr>) ?st"
      by (auto simp: objc_class_lookup_and_cache_def Let_def cache_def split: option.splits)
    have "closed st' \<and> coherent st'"
    proof (cases cache)
      case None
      then have "st' = ?st" using assms(3)
        by (simp add: st' update_class_def cache_def list_update_same_conv)
      with inv show ?thesis by simp
    next
      case (Some bs)
      with co have "length bs = objc_cache_size" "list_all (bucket_ok ?st k) bs"
        by (auto simp: cache_ok_def cache_def)
      moreover have "bucket_ok ?st k (s, m_imp m)" using m by (simp add: bucket_ok_def)
      ultimately show ?thesis
        using set_cache_ok [OF inv] assms(3)
        by (simp add: st' Some list_all_fill)
    qed
    with m show ?thesis by simp
  qed
qed

section \<open>Dispatch with and without caches\<close>

lemma lookup_same:
  assumes "closed st" "c \<noteq> None \<Longrightarrow> the c < length (classes st)" "keeps st st'"
    and own: "\<And>j. j < length (classes st) \<Longrightarrow> own_method st' s j = own_method st s j"
  shows "class_lookup_method_t st' s c = class_lookup_method_t st s c"
proof -
  have c: "in_heap (length (classes st)) c" using assms(2) by (cases c) (auto simp: in_heap_def)
  have "class_lookup_method_t st' s c = Some r \<longleftrightarrow> class_lookup_method_t st s c = Some r" for r
    using lookup_agree [OF _ c, where st = st and st' = st' and s = s]
      lookup_agree [OF _ c, where st = st' and st' = st and s = s] assms(3) own
      closed_superclass [OF assms(1)]
    by (metis keeps_def)
  then show ?thesis by (metis option.exhaust)
qed

lemma length_strip [simp]: "length (classes (strip st)) = length (classes st)"
  by (simp add: strip_def)

lemma nth_strip: "k < length (classes st) \<Longrightarrow> classes (strip st) ! k = strip_class (classes st ! k)"
  by (simp add: strip_def)

lemma strip_class_simps [simp]:
  "isa (strip_class c) = isa c" "superclass (strip_class c) = superclass c"
  "rw (strip_class c) = rw c" "ro (strip_class c) = ro c"
  by (simp_all add: strip_class_def)

lemma strip_simps [simp]: "g_classes (strip st) = g_classes st" "selectors (strip st) = selectors st"
  "ivar_offset (strip st) = ivar_offset st"
  by (simp_all add: strip_def)

lemma strip_update_class:
  assumes "k < length (classes st)" "\<And>c. strip_class (f c) = f (strip_class c)"
  shows "strip (update_class k f st) = update_class k f (strip st)"
  using assms by (simp add: strip_def update_class_def map_update)

lemma strip_set_cache:
  assumes "k < length (classes st)"
  shows "strip (update_class k (\<lambda>c. c\<lparr>c_cache := x\<rparr>) st) = strip st"
proof -
  have "(map strip_class (classes st))[k := strip_class ((classes st ! k)\<lparr>c_cache := x\<rparr>)]
      = map strip_class (classes st)"
    using assms by (simp add: list_update_same_conv strip_class_def)
  then show ?thesis by (simp add: strip_def update_class_def map_update)
qed

lemma strip_ensure_cache: "k < length (classes st) \<Longrightarrow> strip (ensure_cache b k st) = strip st"
  by (simp add: ensure_cache_def strip_set_cache)

lemma lookup_strip:
  assumes "closed st" "k < length (classes st)"
  shows "class_lookup_method_t (strip st) s (Some k) = class_lookup_method_t st s (Some k)"
  by (rule lookup_same [OF assms(1)]) (use assms in \<open>auto simp: keeps_def nth_strip own_method_def\<close>)

lemma lookup_ensure:
  assumes "closed st" "k < length (classes st)" "j < length (classes st)"
  shows "class_lookup_method_t (ensure_cache b k st) s (Some j) = class_lookup_method_t st s (Some j)"
  by (rule lookup_same [OF assms(1)])
    (use assms in \<open>auto simp: keeps_def ensure_cache_def nth_update_class own_method_def\<close>)

definition strip_result :: "('a \<times> objc) outcome option \<Rightarrow> ('a \<times> objc) outcome option" where
  "strip_result r = map_option (map_outcome (map_prod id strip)) r"

lemma send_plain:
  assumes "closed st" "coherent st" "s \<noteq> 0"
  shows "strip_result (runtime_call (Send b k s) st) = plain_call (Send b k s) (strip st)"
proof (cases "k < length (classes st)")
  case k: True
  let ?st = "ensure_cache b k st"
  show ?thesis
  proof (cases "Option.bind (c_cache (classes ?st ! k)) (\<lambda>bs. probe objc_cache_size (cache_index s) bs s)")
    case (Some v)
    then have r: "objc_class_lookup_and_cache b k s st = Some (Ret (v, ?st))"
      by (simp add: objc_class_lookup_and_cache_def Let_def)
    from send_correct [OF assms(1, 2) k assms(3) r] obtain m
      where m: "class_lookup_method_t st s (Some k) = Some (Some m)" "m_imp m = v"
      by (auto simp: lookup_ensure [OF assms(1) k k])
    with r k show ?thesis
      by (simp add: class_ok_def lookup_strip [OF assms(1) k] strip_result_def strip_ensure_cache)
  next
    case None
    with k show ?thesis
      by (auto simp: class_ok_def lookup_strip [OF assms(1) k] strip_result_def strip_ensure_cache
          strip_set_cache lookup_ensure [OF assms(1) k k] objc_class_lookup_and_cache_def Let_def
          split: option.splits)
  qed
qed (simp add: class_ok_def strip_result_def)

lemma class_getName_strip: "k < length (classes st) \<Longrightarrow> class_getName (strip st) k = class_getName st k"
  by (simp add: class_getName_def nth_strip)

lemma find_class_strip:
  "list_all (\<lambda>k. k < length (classes st)) ks \<Longrightarrow> find_class (strip st) name ks = find_class st name ks"
  by (induction ks) (simp_all add: class_getName_strip)

lemma objc_getClass_strip: "closed st \<Longrightarrow> objc_getClass (strip st) name = objc_getClass st name"
  by (simp add: objc_getClass_def closed_def find_class_strip)

lemma class_getInstanceSize_strip:
  "in_heap (length (classes st)) c \<Longrightarrow> class_getInstanceSize (strip st) c = class_getInstanceSize st c"
  by (auto simp: class_getInstanceSize_def nth_strip in_heap_def split: option.splits)

lemma add_method_plain:
  assumes "closed st"
  shows "strip_result (runtime_call (AddMethod k s imp) st) = plain_call (AddMethod k s imp) (strip st)"
  using lookup_strip [OF assms]
  by (cases "class_lookup_method_t st s (Some k)"; cases "rw (classes st ! k)")
    (auto simp: class_ok_def strip_result_def class_addMethod_def nth_strip strip_update_class strip_class_def)

lemma strip_append: "strip (st\<lparr>classes := classes st @ extras\<rparr>)
    = (strip st)\<lparr>classes := classes (strip st) @ map strip_class extras\<rparr>"
  by (simp add: strip_def)

lemma strip_dynamic_class: "strip_class (dynamic_class b n i c z) = dynamic_class b n i c z"
  by (simp add: strip_class_def dynamic_class_def)

lemma strip_ivar_offset: "strip (st\<lparr>ivar_offset := f\<rparr>) = (strip st)\<lparr>ivar_offset := f\<rparr>"
  by (simp add: strip_def)

lemma allocate_pair_plain:
  assumes "closed st"
  shows "strip_result (runtime_call (AllocatePair super name extra) st)
    = plain_call (AllocatePair super name extra) (strip st)"
  by (cases super)
    (auto simp: class_ok_def strip_result_def objc_allocateClassPair_def objc_getClass_strip [OF assms]
      strip_append strip_dynamic_class Let_def nth_strip class_getInstanceSize_strip in_heap_def)

lemma others_plain:
  "strip_result (runtime_call (Register k) st) = plain_call (Register k) (strip st)"
  "strip_result (runtime_call (AddProtocol k p) st) = plain_call (AddProtocol k p) (strip st)"
  "strip_result (runtime_call (AddIvar k name sz al slot) st) = plain_call (AddIvar k name sz al slot) (strip st)"
    apply (auto simp: class_ok_def strip_result_def objc_register_dynamic_class_def strip_def)[1]
   apply (auto simp: class_ok_def strip_result_def class_addProtocol_def nth_strip strip_update_class
      strip_class_def split: option.splits)[1]
  apply (auto simp: class_ok_def strip_result_def class_addIvar_def nth_strip strip_update_class
      strip_class_def Let_def strip_ivar_offset split: option.splits)[1]
  done

section \<open>Runs of calls\<close>

text \<open>A program names its selectors by registered addresses, which are not 0.\<close>

fun selector_named :: "call \<Rightarrow> bool" where
  "selector_named (Send b k s) \<longleftrightarrow> s \<noteq> 0"
| "selector_named c \<longleftrightarrow> True"

lemma call_plain:
  "closed st \<Longrightarrow> coherent st \<Longrightarrow> selector_named c \<Longrightarrow>
     strip_result (runtime_call c st) = plain_call c (strip st)"
  using send_plain add_method_plain allocate_pair_plain others_plain
  by (cases c) (simp_all only: selector_named.simps)

lemma allocate_pair_keeps:
  assumes "closed st" "coherent st" "super \<noteq> None \<longrightarrow> the super < length (classes st)"
    "objc_allocateClassPair super name extra st = (c, st')"
  shows "closed st' \<and> coherent st'"
proof (cases "objc_getClass st name = None")
  case False
  with assms show ?thesis by (auto simp: objc_allocateClassPair_def)
next
  case True
  define n where "n = length (classes st)"
  define p where "p = (case super of None \<Rightarrow> None | Some s \<Rightarrow> isa (classes st ! s))"
  define i where "i = (if super = None then Some (n + 1) else p)"
  define sz where "sz = (if super = None then 8 else class_getInstanceSize st super) + extra"
  from True assms(4) have e: "st' = st\<lparr>classes := classes st @
      [dynamic_class False name (Some (n + 1)) super sz, dynamic_class True name i p 0]\<rparr>"
    by (auto simp: objc_allocateClassPair_def Let_def n_def p_def i_def sz_def)
  have heap: "in_heap n p"
    using assms(1, 3) p_def
    by (auto simp: closed_def list_all_length n_def in_heap_def split: option.splits)
  have kp: "keeps st st'" by (simp add: e keeps_def nth_append)
  have new: "k = n \<or> k = Suc n" if "n \<le> k" "k < length (classes st')" for k
    using that by (auto simp: e n_def)
  have "closed st'"
  proof (rule closed_keeps [OF assms(1) kp])
    show "g_classes st' = g_classes st" by (simp add: e)
    show "in_heap (length (classes st')) (isa (classes st' ! k)) \<and>
        in_heap (length (classes st')) (superclass (classes st' ! k))"
      if "length (classes st) \<le> k" "k < length (classes st')" for k
      using new [of k] that heap assms(3) i_def
      by (auto simp: e n_def nth_append dynamic_class_def in_heap_def)
  qed
  moreover have own: "own_method st' s j = own_method st s j" if "j < length (classes st)" for s j
    using that by (simp add: e own_method_def nth_append)
  have "coherent st'"
  proof (rule coherent_keeps [OF assms(2)])
    show "c_cache (classes st' ! k) = None" if "length (classes st) \<le> k" "k < length (classes st')" for k
      using new [of k] that by (auto simp: e n_def nth_append dynamic_class_def)
  qed (use e lookup_frame [OF _ assms(1) _ kp own] in \<open>auto simp: nth_append\<close>)
  ultimately show ?thesis by simp
qed

lemma add_method_keeps:
  assumes "closed st" "coherent st" "k < length (classes st)"
    "class_addMethod k s imp st = Some (b, st')"
  shows "closed st' \<and> coherent st'"
proof (cases "st' = st")
  case False
  with assms(4) obtain r where rw: "rw (classes st ! k) = Some r"
    and new: "class_lookup_method_t st s (Some k) = Some None"
    and e: "st' = update_class k (\<lambda>c. c\<lparr>rw := Some (rw_append_method s imp r)\<rparr>) st"
    by (auto simp: class_addMethod_def split: option.splits if_splits)
  have kp: "keeps st st'" using assms(3) by (simp add: e keeps_def nth_update_class)
  have "closed st'" by (rule closed_keeps [OF assms(1) kp]) (simp_all add: e)
  moreover have "coherent st'"
    by (rule coherent_keeps [OF assms(2)])
      (use assms(3) lookup_add_method [OF _ rw assms(3) new] in \<open>auto simp: e nth_update_class\<close>)
  ultimately show ?thesis by simp
qed (use assms in simp)

lemma add_ivar_keeps:
  assumes "closed st" "coherent st" "k < length (classes st)"
    "class_addIvar k name sz al slot st = Ret (b, st')"
  shows "closed st' \<and> coherent st'"
proof (cases "rw (classes st ! k)")
  case (Some r)
  with assms(4) obtain c' f where c': "c' = (classes st ! k)\<lparr>rw := Some (r\<lparr>rw_extra_ivars :=
      rw_extra_ivars r @ [\<lparr>iv_name = name, iv_alignment = unat al, iv_size = ucast sz, iv_slot = slot\<rparr>],
      rw_instance_size := align_up (rw_instance_size r) (unat al) + ucast sz\<rparr>)\<rparr>"
    and e: "st' = (update_class k (\<lambda>c. c') st)\<lparr>ivar_offset := f\<rparr>"
    by (auto simp: class_addIvar_def Let_def update_class_def split: if_splits)
  have "closed (update_class k (\<lambda>c. c') st) \<and> coherent (update_class k (\<lambda>c. c') st)"
    by (rule call_keeps_frame [OF assms(1-3) _ _ _ _ refl]) (auto simp: c' Some own_method_def)
  moreover have "class_lookup_method_t (t\<lparr>ivar_offset := f\<rparr>) s (Some k) = class_lookup_method_t t s (Some k)"
    if "closed t" "k < length (classes t)" for t s k
    by (rule lookup_same [OF that(1)]) (use that in \<open>auto simp: keeps_def own_method_def\<close>)
  ultimately show ?thesis
    by (auto simp: e closed_def coherent_def list_all_iff cache_ok_def bucket_ok_def split: option.splits)
qed (use assms in \<open>simp add: class_addIvar_def\<close>)

lemma add_protocol_keeps:
  assumes "closed st" "coherent st" "k < length (classes st)"
    "class_addProtocol k p st = (b, st')"
  shows "closed st' \<and> coherent st'"
proof (cases "rw (classes st ! k)")
  case (Some r)
  define c' where "c' = (classes st ! k)\<lparr>rw := Some (r\<lparr>rw_protocols := rw_protocols r @ [p]\<rparr>)\<rparr>"
  from assms(4) Some have e: "st' = update_class k (\<lambda>c. c') st"
    by (auto simp: class_addProtocol_def update_class_def c'_def)
  show ?thesis
    by (rule call_keeps_frame [OF assms(1-3) _ _ _ _ e]) (auto simp: c'_def Some own_method_def)
qed (use assms in \<open>simp add: class_addProtocol_def\<close>)

lemma register_keeps:
  assumes "closed st" "coherent st" "k < length (classes st)"
    "objc_register_dynamic_class k st = Ret st'"
  shows "closed st' \<and> coherent st'"
proof -
  from assms(4) have e: "st' = st\<lparr>g_classes := g_classes st @ [k]\<rparr>"
    by (auto simp: objc_register_dynamic_class_def split: if_splits)
  have "class_lookup_method_t st' s (Some k) = class_lookup_method_t st s (Some k)"
    if "k < length (classes st)" for s k
    by (rule lookup_same [OF assms(1)]) (use that in \<open>auto simp: e keeps_def own_method_def\<close>)
  with assms show ?thesis
    by (auto simp: e closed_def coherent_def list_all_iff cache_ok_def bucket_ok_def split: option.splits)
qed

lemma call_keeps:
  assumes "closed st" "coherent st" "selector_named c" "runtime_call c st = Some (Ret (a, st'))"
  shows "closed st' \<and> coherent st'"
proof (cases c)
  case (Send b k s)
  with assms send_correct [OF assms(1, 2)] show ?thesis
    by (auto simp: class_ok_def split: if_splits)
next
  case (AddMethod k s imp)
  with assms add_method_keeps [OF assms(1, 2)] show ?thesis
    by (auto simp: class_ok_def split: if_splits)
next
  case (AllocatePair super name extra)
  with assms allocate_pair_keeps [OF assms(1, 2), of super name extra _ st'] show ?thesis
    by (auto simp: class_ok_def split: if_splits prod.splits)
next
  case (Register k)
  with assms register_keeps [OF assms(1, 2)] show ?thesis
    by (auto simp: class_ok_def split: if_splits)
next
  case (AddProtocol k p)
  with assms add_protocol_keeps [OF assms(1, 2)] show ?thesis
    by (auto simp: class_ok_def split: if_splits prod.splits)
next
  case (AddIvar k name sz al slot)
  with assms add_ivar_keeps [OF assms(1, 2)] show ?thesis
    by (auto simp: class_ok_def split: if_splits)
qed

lemma strip_result_bind:
  assumes "strip_result x = y" "\<And>a st. x = Some (Ret (a, st)) \<Longrightarrow> strip_result (f (a, st)) = g (a, strip st)"
  shows "strip_result (rbind x f) = rbind y g"
  using assms by (cases "(x, f)" rule: rbind.cases) (auto simp: strip_result_def)


text \<open>A root class with one method, a subclass of it, and two messages to the subclass; the second
  is answered by the cache.\<close>

definition empty_runtime :: objc where
  "empty_runtime = \<lparr>classes = [], g_classes = [], g_protocols = [], g_pending_cats = [], selectors = [],
     ivar_offset = (\<lambda>_. 0)\<rparr>"

definition example_calls :: "call list" where
  "example_calls = [AllocatePair None [79] 0, AddMethod 0 16 7, AllocatePair (Some 0) [83] 0,
     Send True 2 16, Send True 2 16]"


lemma eval_lookup:
  "class_lookup_method_t st s None = Some None"
  "class_lookup_method_t st s (Some k) = (case own_method st s k of Some m \<Rightarrow> Some (Some m)
     | None \<Rightarrow> class_lookup_method_t st s (superclass (classes st ! k)))"
  by (simp_all add: class_lookup_method_t.simps)

lemma example_answers:
  "map_option (map_outcome fst) (plain_run example_calls empty_runtime)
     = Some (Ret [Pair (Some 0), Added True, Pair (Some 2), Imp 7, Imp 7])"
  by (simp add: example_calls_def empty_runtime_def eval_lookup class_ok_def objc_allocateClassPair_def
      objc_getClass_def class_addMethod_def own_method_def dynamic_class_def update_class_def
      rw_append_method_def class_getInstanceSize_def Let_def del: rbind_eq_Ret)

end
