(* ===== verification/ObjcRealize.thy ===== *)
theory ObjcRealize
  imports ObjcRuntime
begin

text \<open>
  The realisation of the classes an image brings (\<open>userland/libobjc/class.c\<close>, \<open>init.c\<close>): the
  superclass first, then the layout of the instance variables after those of the superclass, the
  methods with their selectors, and the metaclass.  An image is the contents of its
  \<open>__DATA,__objc_*\<close> sections; the reading of a class's read-only data once the class is realised,
  through a tagged pointer, is undefined.
\<close>

section \<open>Realising a class\<close>

record objc_image =
  im_selrefs :: "cstr list"
  im_classlist :: "nat option list"
  im_catlist :: "category list"
  im_protolist :: "cstr list"

definition max_pending_categories :: nat where "max_pending_categories = 256"
definition objc_max_protocols :: nat where "objc_max_protocols = 128"

fun layout_ivars :: "u32 \<Rightarrow> ivar list \<Rightarrow> (nat \<Rightarrow> u32) \<Rightarrow> (u32 \<times> (nat \<Rightarrow> u32)) outcome" where
  "layout_ivars sz [] offs = Ret (sz, offs)"
| "layout_ivars sz (iv # ivs) offs =
     (if 32 \<le> iv_alignment iv then Undef
      else let start = align_up sz (iv_alignment iv)
           in layout_ivars (start + iv_size iv) ivs (offs(iv_slot iv := start)))"

fun rw_add_methods :: "(nat \<Rightarrow> sel option) \<Rightarrow> (cstr \<times> nat) list \<Rightarrow> class_rw \<times> sel_table \<Rightarrow> class_rw \<times> sel_table" where
  "rw_add_methods fresh [] (r, sels) = (r, sels)"
| "rw_add_methods fresh ((name, imp) # ml) (r, sels) =
     (let (a, sels') = sel_registerName (fresh (length sels)) name sels
      in rw_add_methods fresh ml (rw_append_method a imp r, sels'))"

definition rw_add_protocols :: "cstr list \<Rightarrow> class_rw \<Rightarrow> class_rw" where
  "rw_add_protocols pl r = r\<lparr>rw_protocols := rw_protocols r @ pl\<rparr>"

definition rw_add_properties :: "cstr list \<Rightarrow> class_rw \<Rightarrow> class_rw" where
  "rw_add_properties pl r = r\<lparr>rw_properties := rw_properties r @ pl\<rparr>"

definition fill_rw ::
  "(nat \<Rightarrow> sel option) \<Rightarrow> (cstr \<times> nat) list \<Rightarrow> cstr list \<Rightarrow> cstr list \<Rightarrow> class_rw \<Rightarrow> sel_table \<Rightarrow> class_rw \<times> sel_table" where
  "fill_rw fresh ms protos props r sels =
     (let (r', sels') = rw_add_methods fresh ms (r, sels)
      in (rw_add_properties props (rw_add_protocols protos r'), sels'))"

text \<open>The body of \<open>realize_class\<close> between its two recursive calls.\<close>

definition realize_body :: "(nat \<Rightarrow> sel option) \<Rightarrow> nat \<Rightarrow> objc \<Rightarrow> objc outcome" where
  "realize_body fresh k st =
     (if rw (classes st ! k) \<noteq> None then Undef
      else
        let r = ro (classes st ! k) in
        obind (layout_ivars (class_getInstanceSize st (superclass (classes st ! k))) (ro_ivars r) (ivar_offset st))
          (\<lambda>(sz, offs).
             let (new, sels) = fill_rw fresh (ro_methods r) (ro_protocols r) (ro_properties r)
                   \<lparr>rw_methods = [], rw_protocols = [], rw_properties = [], rw_extra_ivars = [],
                    rw_instance_size = sz\<rparr> (selectors st)
             in objc_register_dynamic_class k
                  ((update_class k (\<lambda>c. c\<lparr>rw := Some new\<rparr>) st)\<lparr>ivar_offset := offs, selectors := sels\<rparr>)))"

fun realize_class :: "(nat \<Rightarrow> sel option) \<Rightarrow> nat \<Rightarrow> nat option \<Rightarrow> objc \<Rightarrow> objc outcome option" where
  "realize_class fresh fuel None st = Some (Ret st)"
| "realize_class fresh 0 (Some k) st = None"
| "realize_class fresh (Suc fuel) (Some k) st =
     (if rw (classes st ! k) \<noteq> None then Some (Ret st)
      else rbind (realize_class fresh fuel (superclass (classes st ! k)) st) (\<lambda>st1.
           rbind (Some (realize_body fresh k st1)) (\<lambda>st2.
           realize_class fresh fuel (isa (classes st2 ! k)) st2)))"

fun realize_classlist :: "(nat \<Rightarrow> sel option) \<Rightarrow> nat \<Rightarrow> nat option list \<Rightarrow> objc \<Rightarrow> objc outcome option" where
  "realize_classlist fresh fuel [] st = Some (Ret st)"
| "realize_classlist fresh fuel (c # cl) st =
     rbind (realize_class fresh fuel c st) (realize_classlist fresh fuel cl)"

section \<open>Images and categories\<close>

text \<open>The selector references of an image become the unique selectors, in place.\<close>

fun selref_fixups :: "(nat \<Rightarrow> sel option) \<Rightarrow> cstr list \<Rightarrow> sel_table \<Rightarrow> sel list \<times> sel_table" where
  "selref_fixups fresh [] sels = ([], sels)"
| "selref_fixups fresh (raw # refs) sels =
     (let (a, sels') = sel_registerName (fresh (length sels)) raw sels;
          (l, sels'') = selref_fixups fresh refs sels'
      in (a # l, sels''))"

definition objc_register_image ::
  "(nat \<Rightarrow> sel option) \<Rightarrow> nat \<Rightarrow> objc_image \<Rightarrow> objc \<Rightarrow> (sel list \<times> objc) outcome option" where
  "objc_register_image fresh fuel im st =
     (let (refs, sels) = selref_fixups fresh (im_selrefs im) (selectors st) in
      rbind (realize_classlist fresh fuel (im_classlist im) (st\<lparr>selectors := sels\<rparr>)) (\<lambda>st1.
        Some (Ret (refs, st1\<lparr>
          g_pending_cats := g_pending_cats st1 @
            take (max_pending_categories - length (g_pending_cats st1)) (im_catlist im),
          g_protocols := g_protocols st1 @
            take (objc_max_protocols - length (g_protocols st1)) (im_protolist im)\<rparr>))))"

definition extend_class ::
  "(nat \<Rightarrow> sel option) \<Rightarrow> (cstr \<times> nat) list \<Rightarrow> cstr list \<Rightarrow> cstr list \<Rightarrow> nat option \<Rightarrow> objc \<Rightarrow> objc" where
  "extend_class fresh ms protos props c st =
     (case c of None \<Rightarrow> st
      | Some k \<Rightarrow>
          (case rw (classes st ! k) of None \<Rightarrow> st
           | Some r \<Rightarrow>
               let (r', sels) = fill_rw fresh ms protos props r (selectors st)
               in (update_class k (\<lambda>c. c\<lparr>rw := Some r'\<rparr>) st)\<lparr>selectors := sels\<rparr>))"

definition attach_category :: "(nat \<Rightarrow> sel option) \<Rightarrow> category \<Rightarrow> objc \<Rightarrow> objc" where
  "attach_category fresh cat st =
     (case cat_cls cat of None \<Rightarrow> st
      | Some k \<Rightarrow>
          extend_class fresh (cat_class_methods cat) [] [] (isa (classes st ! k))
            (extend_class fresh (cat_instance_methods cat) (cat_protocols cat) (cat_properties cat) (Some k) st))"

definition objc_attach_categories :: "(nat \<Rightarrow> sel option) \<Rightarrow> objc \<Rightarrow> objc" where
  "objc_attach_categories fresh st =
     (fold (attach_category fresh) (g_pending_cats st) st)\<lparr>g_pending_cats := []\<rparr>"

fun register_images ::
  "(nat \<Rightarrow> sel option) \<Rightarrow> nat \<Rightarrow> objc_image list \<Rightarrow> objc \<Rightarrow> (sel list list \<times> objc) outcome option" where
  "register_images fresh fuel [] st = Some (Ret ([], st))"
| "register_images fresh fuel (im # ims) st =
     rbind (objc_register_image fresh fuel im st) (\<lambda>(refs, st1).
     rbind (register_images fresh fuel ims st1) (\<lambda>(l, st2). Some (Ret (refs # l, st2))))"

definition objc_init ::
  "(nat \<Rightarrow> sel option) \<Rightarrow> nat \<Rightarrow> objc_image list \<Rightarrow> objc \<Rightarrow> (sel list list \<times> objc) outcome option" where
  "objc_init fresh fuel ims st =
     rbind (register_images fresh fuel ims st) (\<lambda>(l, st1). Some (Ret (l, objc_attach_categories fresh st1)))"

section \<open>The layout of instance variables\<close>

definition iv_room :: "ivar \<Rightarrow> nat" where
  "iv_room iv = unat (iv_size iv) + 2 ^ iv_alignment iv"

definition ivars_room :: "ivar list \<Rightarrow> nat" where
  "ivars_room ivs = sum_list (map iv_room ivs)"

text \<open>The variables lie one after the other, each aligned, from the first bound to the second.\<close>

fun laid_from :: "nat \<Rightarrow> ivar list \<Rightarrow> (nat \<Rightarrow> u32) \<Rightarrow> nat \<Rightarrow> bool" where
  "laid_from lo [] offs hi \<longleftrightarrow> lo \<le> hi"
| "laid_from lo (iv # ivs) offs hi \<longleftrightarrow>
     lo \<le> unat (offs (iv_slot iv)) \<and> 2 ^ iv_alignment iv dvd unat (offs (iv_slot iv)) \<and>
     laid_from (unat (offs (iv_slot iv)) + unat (iv_size iv)) ivs offs hi"

lemma align_up_ok:
  assumes "unat n + 2 ^ a < 2 ^ 32"
  shows "unat n \<le> unat (align_up n a)" "unat (align_up n a) < unat n + 2 ^ a"
    "2 ^ a dvd unat (align_up n a)"
proof -
  have a: "a < 32"
  proof (rule ccontr)
    assume "\<not> a < 32"
    then have "(2::nat) ^ 32 \<le> 2 ^ a" by (intro power_increasing) auto
    with assms show False by linarith
  qed
  define x where "x = unat n + 2 ^ a - 1"
  have x: "x < 2 ^ 32" using assms by (simp add: x_def)
  have xw: "n + push_bit a 1 - 1 = (of_nat x :: u32)"
  proof -
    have "(of_nat x :: u32) + 1 = of_nat (x + 1)" by simp
    also have "x + 1 = unat n + 2 ^ a" by (simp add: x_def)
    finally show ?thesis by (simp add: push_bit_eq_mult algebra_simps)
  qed
  have "align_up n a = push_bit a (drop_bit a (of_nat x))"
    unfolding align_up_def xw by (rule bit_word_eqI) (auto simp: bit_simps simp flip: mask_eq_exp_minus_1 push_bit_eq_mult)
  moreover have "take_bit 32 x = x" using x by (simp add: take_bit_nat_eq_self)
  moreover have "push_bit a (drop_bit a x) \<le> x" by (simp add: push_bit_eq_mult drop_bit_eq_div)
  then have "take_bit 32 (push_bit a (drop_bit a x)) = push_bit a (drop_bit a x)"
    using x by (intro take_bit_nat_eq_self) simp
  then have "take_bit 32 (push_bit a (drop_bit a x)) = x div 2 ^ a * 2 ^ a"
    by (simp add: push_bit_eq_mult drop_bit_eq_div)
  ultimately have e: "unat (align_up n a) = x div 2 ^ a * 2 ^ a"
    by (simp add: unsigned_push_bit_eq unsigned_drop_bit_eq unsigned_of_nat)
  show "2 ^ a dvd unat (align_up n a)" unfolding e by simp
  have "x = x div 2 ^ a * 2 ^ a + x mod 2 ^ a" by (rule div_mult_mod_eq [symmetric])
  moreover have "x mod 2 ^ a < 2 ^ a" by simp
  moreover have "1 \<le> (2::nat) ^ a" by simp
  ultimately show "unat n \<le> unat (align_up n a)" "unat (align_up n a) < unat n + 2 ^ a"
    unfolding e x_def by linarith+
qed

lemma laid_from_cong:
  "(\<And>iv. iv \<in> set ivs \<Longrightarrow> offs' (iv_slot iv) = offs (iv_slot iv)) \<Longrightarrow>
     laid_from lo ivs offs' hi = laid_from lo ivs offs hi"
  by (induction ivs arbitrary: lo) auto

lemma layout_ivars_ok:
  assumes "unat sz + ivars_room ivs < 2 ^ 31" "distinct (map iv_slot ivs)"
  shows "\<exists>sz' offs'. layout_ivars sz ivs offs = Ret (sz', offs') \<and>
    laid_from (unat sz) ivs offs' (unat sz') \<and> unat sz' \<le> unat sz + ivars_room ivs \<and>
    (\<forall>x. x \<notin> iv_slot ` set ivs \<longrightarrow> offs' x = offs x)"
  using assms
proof (induction ivs arbitrary: sz offs)
  case Nil
  then show ?case by simp
next
  case (Cons iv ivs)
  let ?a = "iv_alignment iv" and ?start = "align_up sz (iv_alignment iv)"
  have room: "unat sz + 2 ^ ?a + unat (iv_size iv) + ivars_room ivs < 2 ^ 31"
    using Cons.prems(1) by (simp add: ivars_room_def iv_room_def)
  have a: "?a < 32"
  proof (rule ccontr)
    assume "\<not> ?a < 32"
    then have "(2::nat) ^ 31 \<le> 2 ^ ?a" by (intro power_increasing) auto
    with room show False by linarith
  qed
  from room have "unat sz + 2 ^ ?a < 2 ^ 32" by simp
  note start = align_up_ok [OF this]
  have sum: "unat (?start + iv_size iv) = unat ?start + unat (iv_size iv)"
    by (rule unat_add_lem [THEN iffD1]) (use start room in simp)
  have fits: "unat (?start + iv_size iv) + ivars_room ivs < 2 ^ 31" using start room sum by simp
  from Cons.prems(2) have "distinct (map iv_slot ivs)" by simp
  from Cons.IH [OF fits this, of "offs(iv_slot iv := ?start)"] obtain sz' offs'
    where r: "layout_ivars (?start + iv_size iv) ivs (offs(iv_slot iv := ?start)) = Ret (sz', offs')"
      "laid_from (unat (?start + iv_size iv)) ivs offs' (unat sz')"
      "unat sz' \<le> unat (?start + iv_size iv) + ivars_room ivs"
      "\<forall>x. x \<notin> iv_slot ` set ivs \<longrightarrow> offs' x = (offs(iv_slot iv := ?start)) x"
    by blast
  have "offs' (iv_slot iv) = ?start" using r(4) Cons.prems(2) by simp
  moreover have "unat sz' \<le> unat sz + ivars_room (iv # ivs)"
    using r(3) sum start(2) by (simp add: ivars_room_def iv_room_def)
  ultimately show ?case using r start a sum by (auto simp: Let_def)
qed

section \<open>The hierarchy an image describes\<close>

definition meta :: "objc \<Rightarrow> nat \<Rightarrow> bool" where
  "meta st k = ro_meta (ro (classes st ! k))"

definition realised :: "objc \<Rightarrow> nat \<Rightarrow> bool" where
  "realised st k \<longleftrightarrow> k < length (classes st) \<and> rw (classes st ! k) \<noteq> None"

text \<open>Every class has a metaclass, the metaclasses mirror the classes, the root metaclass is an
  instance of itself and a subclass of the root at most, and the superclasses end at the root.\<close>

definition linked :: "(nat \<Rightarrow> nat) \<Rightarrow> objc \<Rightarrow> nat \<Rightarrow> bool" where
  "linked rank st k \<longleftrightarrow> meta st k \<or>
     (case isa (classes st ! k) of None \<Rightarrow> False
      | Some m \<Rightarrow> m < length (classes st) \<and> meta st m \<and>
          (case superclass (classes st ! k) of
             None \<Rightarrow> (superclass (classes st ! m) = None \<or> superclass (classes st ! m) = Some k) \<and>
               isa (classes st ! m) = Some m
           | Some s \<Rightarrow> s < length (classes st) \<and> \<not> meta st s \<and> rank s < rank k \<and>
               superclass (classes st ! m) = isa (classes st ! s) \<and>
               isa (classes st ! m) = isa (classes st ! the (isa (classes st ! s)))))"

definition hierarchy_ok :: "(nat \<Rightarrow> nat) \<Rightarrow> objc \<Rightarrow> bool" where
  "hierarchy_ok rank st \<longleftrightarrow> list_all (linked rank st) [0..<length (classes st)]"

definition class_ivars :: "objc \<Rightarrow> nat \<Rightarrow> ivar list" where
  "class_ivars st k = ro_ivars (ro (classes st ! k))"

definition slots_ok :: "objc \<Rightarrow> bool" where
  "slots_ok st \<longleftrightarrow> distinct (concat (map (\<lambda>k. map iv_slot (class_ivars st k)) [0..<length (classes st)]))"

definition room_of :: "objc \<Rightarrow> nat set \<Rightarrow> nat" where
  "room_of st A = (\<Sum>k\<in>A. ivars_room (class_ivars st k))"

definition room_ok :: "objc \<Rightarrow> bool" where
  "room_ok st \<longleftrightarrow> room_of st {0..<length (classes st)} < 2 ^ 31"

definition the_realised :: "objc \<Rightarrow> nat set" where
  "the_realised st = {k. k < length (classes st) \<and> realised st k}"

text \<open>A realised class has its superclass realised, and its own variables lie between the end of
  its superclass's instances and the end of its own.\<close>

definition settled :: "objc \<Rightarrow> nat \<Rightarrow> bool" where
  "settled st k \<longleftrightarrow>
     (case superclass (classes st ! k) of None \<Rightarrow> True | Some s \<Rightarrow> s < length (classes st) \<and> realised st s) \<and>
     laid_from (unat (class_getInstanceSize st (superclass (classes st ! k)))) (class_ivars st k) (ivar_offset st)
       (unat (class_getInstanceSize st (Some k))) \<and>
     unat (class_getInstanceSize st (Some k)) \<le> room_of st (the_realised st)"

definition all_settled :: "objc \<Rightarrow> bool" where
  "all_settled st \<longleftrightarrow> (\<forall>k < length (classes st). realised st k \<longrightarrow> settled st k)"

definition isas_realised :: "nat set \<Rightarrow> objc \<Rightarrow> bool" where
  "isas_realised except st \<longleftrightarrow> (\<forall>k < length (classes st). realised st k \<longrightarrow> k \<notin> except \<longrightarrow>
     (\<exists>m. isa (classes st ! k) = Some m \<and> m < length (classes st) \<and> realised st m))"

text \<open>What realisation leaves alone.\<close>

definition same_links :: "objc \<Rightarrow> objc \<Rightarrow> bool" where
  "same_links st st' \<longleftrightarrow> length (classes st') = length (classes st) \<and>
     (\<forall>k < length (classes st). ro (classes st' ! k) = ro (classes st ! k) \<and>
        isa (classes st' ! k) = isa (classes st ! k) \<and>
        superclass (classes st' ! k) = superclass (classes st ! k) \<and>
        c_cache (classes st' ! k) = c_cache (classes st ! k))"

lemma same_links_refl [simp]: "same_links st st" by (simp add: same_links_def)

lemma same_links_trans: "same_links st st' \<Longrightarrow> same_links st' st'' \<Longrightarrow> same_links st st''"
  by (simp add: same_links_def)

lemma same_links_ivars: "same_links st st' \<Longrightarrow> k < length (classes st) \<Longrightarrow> class_ivars st' k = class_ivars st k"
  by (simp add: same_links_def class_ivars_def)

lemma same_links_meta: "same_links st st' \<Longrightarrow> k < length (classes st) \<Longrightarrow> meta st' k = meta st k"
  by (simp add: same_links_def meta_def)

lemma same_links_length: "same_links st st' \<Longrightarrow> length (classes st') = length (classes st)"
  by (simp add: same_links_def)

lemma same_links_hierarchy:
  assumes "same_links st st'" "hierarchy_ok rank st"
  shows "hierarchy_ok rank st'"
proof -
  have "linked rank st' k" if k: "k < length (classes st)" and l: "\<And>j. j < length (classes st) \<Longrightarrow> linked rank st j" for k
  proof (cases "meta st k")
    case True
    then show ?thesis using same_links_meta [OF assms(1) k] by (simp add: linked_def)
  next
    case False
    with l [OF k] obtain m where m: "isa (classes st ! k) = Some m" "m < length (classes st)"
      by (auto simp: linked_def split: option.splits)
    show ?thesis
    proof (cases "superclass (classes st ! k)")
      case None
      with l [OF k] m k assms(1) show ?thesis by (simp add: linked_def same_links_def meta_def)
    next
      case (Some s)
      with l [OF k] m False have s: "s < length (classes st)" "\<not> meta st s" by (auto simp: linked_def)
      with l [OF s(1)] obtain ms where "isa (classes st ! s) = Some ms" "ms < length (classes st)"
        by (auto simp: linked_def split: option.splits)
      with Some s l [OF k] m k assms(1) show ?thesis by (simp add: linked_def same_links_def meta_def)
    qed
  qed
  with assms show ?thesis by (auto simp: hierarchy_ok_def list_all_iff same_links_length)
qed

lemma same_links_room: "same_links st st' \<Longrightarrow> A \<subseteq> {0..<length (classes st)} \<Longrightarrow> room_of st' A = room_of st A"
  unfolding room_of_def by (intro sum.cong) (auto simp: same_links_ivars subset_iff)

lemma same_links_room_ok: "same_links st st' \<Longrightarrow> room_ok st' = room_ok st"
  by (simp add: room_ok_def same_links_room same_links_length)

lemma same_links_slots_ok: "same_links st st' \<Longrightarrow> slots_ok st' = slots_ok st"
proof -
  assume a: "same_links st st'"
  then have "map (\<lambda>k. map iv_slot (class_ivars st' k)) [0..<length (classes st)]
      = map (\<lambda>k. map iv_slot (class_ivars st k)) [0..<length (classes st)]"
    by (intro map_cong) (simp_all add: same_links_ivars)
  with a show ?thesis by (simp only: slots_ok_def same_links_length)
qed

lemma distinct_concat_disjoint:
  "distinct (concat xss) \<Longrightarrow> i < length xss \<Longrightarrow> j < length xss \<Longrightarrow> i \<noteq> j \<Longrightarrow> set (xss ! i) \<inter> set (xss ! j) = {}"
proof (induction xss arbitrary: i j)
  case (Cons xs xss)
  have "set xs \<inter> set (xss ! k) = {}" if "k < length xss" for k
    using Cons.prems(1) that by (auto dest: nth_mem)
  with Cons show ?case by (cases i; cases j) (simp_all add: Int_commute)
qed simp

lemma slots_disjoint:
  assumes "slots_ok st" "j < length (classes st)" "k < length (classes st)" "j \<noteq> k"
    "iv \<in> set (class_ivars st j)"
  shows "iv_slot iv \<notin> iv_slot ` set (class_ivars st k)"
  using distinct_concat_disjoint [OF assms(1) [unfolded slots_ok_def], of j k] assms(2-5) by auto

lemma distinct_concat_nth: "distinct (concat xss) \<Longrightarrow> i < length xss \<Longrightarrow> distinct (xss ! i)"
  by (induction xss arbitrary: i) (auto simp: nth_Cons split: nat.splits)

lemma slots_distinct:
  "slots_ok st \<Longrightarrow> k < length (classes st) \<Longrightarrow> distinct (map iv_slot (class_ivars st k))"
  using distinct_concat_nth [of "map (\<lambda>k. map iv_slot (class_ivars st k)) [0..<length (classes st)]" k]
  by (simp add: slots_ok_def)

section \<open>Realisation keeps the layout\<close>

lemma rw_add_methods_size [simp]:
  "rw_instance_size (fst (rw_add_methods fresh ml rs)) = rw_instance_size (fst rs)"
proof (induction ml arbitrary: rs)
  case Nil
  then show ?case by (cases rs) simp
next
  case (Cons m ml)
  then show ?case by (cases rs; cases m) (simp add: rw_append_method_def split: prod.splits)
qed

lemma fill_rw_size: "fill_rw fresh ms ps qs r sels = (r', sels') \<Longrightarrow> rw_instance_size r' = rw_instance_size r"
  using rw_add_methods_size [of fresh ms "(r, sels)"]
  by (cases "rw_add_methods fresh ms (r, sels)")
    (auto simp: fill_rw_def rw_add_properties_def rw_add_protocols_def simp del: rw_add_methods_size)

lemma realised_update:
  "k < length (classes st) \<Longrightarrow> realised (update_class k (\<lambda>c. c\<lparr>rw := Some r\<rparr>) st) j \<longleftrightarrow> j = k \<or> realised st j"
  by (simp add: realised_def nth_update_class)

lemma the_realised_sub: "the_realised st \<subseteq> {0..<length (classes st)}"
  by (auto simp: the_realised_def)

lemma room_of_le_all: "A \<subseteq> {0..<length (classes st)} \<Longrightarrow> room_of st A \<le> room_of st {0..<length (classes st)}"
  unfolding room_of_def by (rule sum_mono2) auto

lemma settled_superclass_size:
  assumes "all_settled st" "in_heap (length (classes st)) c" "c = None \<or> realised st (the c)"
  shows "unat (class_getInstanceSize st c) \<le> room_of st (the_realised st)"
proof (cases c)
  case (Some s)
  with assms show ?thesis by (auto simp: all_settled_def settled_def in_heap_def)
qed (simp add: class_getInstanceSize_def)

text \<open>The step that realises a class whose superclass is realised.\<close>

definition body_result :: "nat \<Rightarrow> objc \<Rightarrow> objc \<Rightarrow> bool" where
  "body_result k st st' \<longleftrightarrow> same_links st st' \<and> all_settled st' \<and>
     (\<forall>j. realised st' j \<longleftrightarrow> j = k \<or> realised st j) \<and>
     length (g_classes st') = length (g_classes st) + 1"

lemma realize_body_ok:
  assumes k: "k < length (classes st)" "\<not> realised st k"
    and super: "case superclass (classes st ! k) of None \<Rightarrow> True
      | Some s \<Rightarrow> s < length (classes st) \<and> realised st s"
    and inv: "all_settled st" "slots_ok st" "room_ok st" "length (g_classes st) < objc_max_classes"
  shows "\<exists>st'. realize_body fresh k st = Ret st' \<and> body_result k st st'"
proof -
  let ?c = "superclass (classes st ! k)" and ?R = "the_realised st"
  let ?sz = "class_getInstanceSize st ?c"
  have c: "in_heap (length (classes st)) ?c" "?c = None \<or> realised st (the ?c)"
    using super by (auto simp: in_heap_def split: option.splits)
  have kR: "k \<notin> ?R" "insert k ?R \<subseteq> {0..<length (classes st)}" "finite ?R"
    using k by (auto simp: the_realised_def)
  have room: "room_of st (insert k ?R) = room_of st ?R + ivars_room (class_ivars st k)"
    using kR by (simp add: room_of_def)
  have small: "room_of st (insert k ?R) < 2 ^ 31"
    using inv(3) room_of_le_all [OF kR(2)] by (simp add: room_ok_def)
  have le: "unat ?sz \<le> room_of st ?R" by (rule settled_superclass_size [OF inv(1) c])
  have fits: "unat ?sz + ivars_room (class_ivars st k) < 2 ^ 31" using room small le by linarith
  from layout_ivars_ok [OF fits slots_distinct [OF inv(2) k(1)], of "ivar_offset st"]
  obtain sz' offs' where L: "layout_ivars ?sz (class_ivars st k) (ivar_offset st) = Ret (sz', offs')"
    "laid_from (unat ?sz) (class_ivars st k) offs' (unat sz')"
    "unat sz' \<le> unat ?sz + ivars_room (class_ivars st k)"
    "\<forall>x. x \<notin> iv_slot ` set (class_ivars st k) \<longrightarrow> offs' x = ivar_offset st x"
    by blast
  obtain new sels where new: "fill_rw fresh (ro_methods (ro (classes st ! k))) (ro_protocols (ro (classes st ! k)))
      (ro_properties (ro (classes st ! k))) \<lparr>rw_methods = [], rw_protocols = [], rw_properties = [],
        rw_extra_ivars = [], rw_instance_size = sz'\<rparr> (selectors st) = (new, sels)"
    by fastforce
  have size: "rw_instance_size new = sz'" using fill_rw_size [OF new] by simp
  let ?st = "(update_class k (\<lambda>c. c\<lparr>rw := Some new\<rparr>) st)\<lparr>ivar_offset := offs', selectors := sels,
    g_classes := g_classes st @ [k]\<rparr>"
  have run: "realize_body fresh k st = Ret ?st"
    using k L(1) new inv(4)
    by (simp add: realize_body_def realised_def class_ivars_def objc_register_dynamic_class_def)
  have same: "same_links st ?st" using k(1) by (simp add: same_links_def nth_update_class)
  have real: "realised ?st j \<longleftrightarrow> j = k \<or> realised st j" for j
    using k(1) by (simp add: realised_def nth_update_class)
  have newR: "the_realised ?st = insert k ?R" using k(1) real by (auto simp: the_realised_def)
  have room': "room_of ?st (the_realised ?st) = room_of st ?R + ivars_room (class_ivars st k)"
    unfolding newR using same_links_room [OF same kR(2)] room by simp
  have old: "class_getInstanceSize ?st (Some j) = class_getInstanceSize st (Some j)" if "j \<noteq> k" for j
    using k(1) that by (simp add: class_getInstanceSize_def nth_update_class)
  have own: "class_getInstanceSize ?st (Some k) = sz'"
    using k(1) size by (simp add: class_getInstanceSize_def nth_update_class)
  have "settled ?st j" if j: "j < length (classes st)" "realised ?st j" for j
  proof (cases "j = k")
    case True
    have "class_getInstanceSize ?st ?c = ?sz"
    proof (cases ?c)
      case (Some a)
      with c(2) k(2) have "a \<noteq> k" by auto
      with Some old show ?thesis by simp
    qed (simp add: class_getInstanceSize_def)
    with True super own same real room' le L(2, 3) k(1) same_links_ivars [OF same k(1)] show ?thesis
      by (auto simp: settled_def same_links_def split: option.splits)
  next
    case False
    with j real have rj: "realised st j" by simp
    with inv(1) j have set: "settled st j" by (simp add: all_settled_def)
    have "laid_from lo (class_ivars st j) offs' hi = laid_from lo (class_ivars st j) (ivar_offset st) hi" for lo hi
      by (rule laid_from_cong) (use slots_disjoint [OF inv(2) j(1) k(1) False] L(4) in blast)
    moreover have "class_getInstanceSize ?st (superclass (classes st ! j)) = class_getInstanceSize st (superclass (classes st ! j))"
    proof (cases "superclass (classes st ! j)")
      case (Some a)
      with set k(2) have "a \<noteq> k" by (auto simp: settled_def)
      with Some old show ?thesis by simp
    qed (simp add: class_getInstanceSize_def)
    ultimately show ?thesis
      using set same real room' old [OF False] j(1) same_links_ivars [OF same j(1)]
      by (auto simp: settled_def same_links_def split: option.splits)
  qed
  then have "all_settled ?st" by (simp add: all_settled_def)
  with run same real show ?thesis by (auto simp: body_result_def)
qed

section \<open>Realisation ends\<close>

text \<open>What one call of \<open>realize_class\<close> does to a well-formed hierarchy: every class is registered
  once, and only metaclasses and classes up to a rank become realised.\<close>

definition unrealised :: "objc \<Rightarrow> nat" where
  "unrealised st = length (classes st) - card (the_realised st)"

definition realises :: "(nat \<Rightarrow> nat) \<Rightarrow> nat \<Rightarrow> objc \<Rightarrow> objc \<Rightarrow> bool" where
  "realises rank r st st' \<longleftrightarrow> same_links st st' \<and> all_settled st' \<and>
     (\<forall>j. realised st j \<longrightarrow> realised st' j) \<and>
     (\<forall>j. realised st' j \<longrightarrow> realised st j \<or> meta st j \<or> rank j \<le> r) \<and>
     length (g_classes st') + unrealised st' = length (g_classes st) + unrealised st"

definition good :: "(nat \<Rightarrow> nat) \<Rightarrow> objc \<Rightarrow> bool" where
  "good rank st \<longleftrightarrow> hierarchy_ok rank st \<and> slots_ok st \<and> room_ok st \<and> all_settled st \<and>
     length (g_classes st) + unrealised st \<le> objc_max_classes"

lemma realises_good: "good rank st \<Longrightarrow> realises rank r st st' \<Longrightarrow> good rank st'"
  by (auto simp: good_def realises_def same_links_hierarchy same_links_room_ok same_links_slots_ok)

lemma realises_refl: "all_settled st \<Longrightarrow> realises rank r st st"
  by (simp add: realises_def)

lemma realises_trans:
  assumes "realises rank r st st'" "realises rank r' st' st''" "r' \<le> r"
  shows "realises rank r st st''"
proof -
  have "realised st j \<or> meta st j \<or> rank j \<le> r" if "realised st'' j" for j
  proof (cases "realised st' j")
    case True
    with assms(1) show ?thesis by (auto simp: realises_def)
  next
    case False
    with assms(2) that have "meta st' j \<or> rank j \<le> r'" by (auto simp: realises_def)
    moreover have "j < length (classes st)"
      using that assms(1, 2) by (simp add: realises_def same_links_def realised_def)
    ultimately show ?thesis
      using assms(1, 3) by (auto simp: realises_def same_links_meta)
  qed
  moreover have "same_links st st''"
    using assms(1, 2) by (auto simp: realises_def intro: same_links_trans)
  ultimately show ?thesis using assms(1, 2) by (auto simp: realises_def)
qed

lemma card_realised_less:
  assumes "k < length (classes st)" "\<not> realised st k"
  shows "card (the_realised st) < length (classes st)"
proof -
  have "insert k (the_realised st) \<subseteq> {0..<length (classes st)}"
    using assms(1) the_realised_sub by auto
  moreover have "finite (the_realised st)" by (rule finite_subset [OF the_realised_sub]) simp
  moreover have "k \<notin> the_realised st" using assms(2) by (simp add: the_realised_def)
  ultimately show ?thesis using card_mono [of "{0..<length (classes st)}" "insert k (the_realised st)"] by simp
qed

lemma body_realises:
  assumes "good rank st" "k < length (classes st)" "\<not> realised st k" "body_result k st st'"
    "meta st k \<or> rank k \<le> r"
  shows "realises rank r st st'"
proof -
  have R: "the_realised st' = insert k (the_realised st)" "k \<notin> the_realised st"
    using assms(2-4) by (auto simp: the_realised_def body_result_def realised_def same_links_def)
  have fin: "finite (the_realised st)" by (rule finite_subset [OF the_realised_sub]) simp
  from card_realised_less [OF assms(2, 3)] R fin have "length (g_classes st') + unrealised st' = length (g_classes st) + unrealised st"
    using assms(4) by (simp add: unrealised_def body_result_def same_links_def)
  with assms show ?thesis by (auto simp: realises_def body_result_def)
qed

lemma room_for_class:
  assumes "good rank st" "k < length (classes st)" "\<not> realised st k"
  shows "length (g_classes st) < objc_max_classes"
  using assms(1) card_realised_less [OF assms(2, 3)] unfolding good_def unrealised_def by linarith

lemma good_body:
  assumes "good rank st" "k < length (classes st)" "\<not> realised st k"
    "case superclass (classes st ! k) of None \<Rightarrow> True | Some s \<Rightarrow> s < length (classes st) \<and> realised st s"
  shows "\<exists>st'. realize_body fresh k st = Ret st' \<and> body_result k st st'"
  using assms by (intro realize_body_ok room_for_class) (auto simp: good_def)

lemma realize_done: "c = None \<or> realised st (the c) \<Longrightarrow> 0 < f \<Longrightarrow> realize_class fresh f c st = Some (Ret st)"
  by (cases c; cases f) (auto simp: realised_def)

lemma body_resultD:
  assumes "body_result k st st'"
  shows "same_links st st'" "realised st' j \<longleftrightarrow> j = k \<or> realised st j"
  using assms unfolding body_result_def by blast+

lemma same_linksD:
  assumes "same_links st st'" "j < length (classes st)"
  shows "isa (classes st' ! j) = isa (classes st ! j)"
    "superclass (classes st' ! j) = superclass (classes st ! j)"
  using assms unfolding same_links_def by blast+

lemma isas_body:
  assumes "isas_realised X st" "body_result k st st'"
  shows "isas_realised (insert k X) st'"
proof -
  have l: "length (classes st') = length (classes st)"
    by (rule same_links_length [OF body_resultD(1) [OF assms(2)]])
  have "\<exists>m. isa (classes st' ! j) = Some m \<and> m < length (classes st') \<and> realised st' m"
    if j: "j < length (classes st')" "realised st' j" "j \<notin> insert k X" for j
  proof -
    from j body_resultD(2) [OF assms(2)] have "realised st j" "j \<notin> X" by auto
    with assms(1) j(1) l obtain m where m: "isa (classes st ! j) = Some m" "m < length (classes st)" "realised st m"
      unfolding isas_realised_def by metis
    with body_resultD(2) [OF assms(2)] same_linksD(1) [OF body_resultD(1) [OF assms(2)]] j(1) l
    show ?thesis by simp
  qed
  then show ?thesis unfolding isas_realised_def by blast
qed

lemma isas_restore:
  assumes "isas_realised (insert k X) st" "isa (classes st ! k) = Some m" "realised st m"
  shows "isas_realised X st"
  unfolding isas_realised_def
proof (intro allI impI)
  fix j
  assume "j < length (classes st)" "realised st j" "j \<notin> X"
  with assms show "\<exists>m. isa (classes st ! j) = Some m \<and> m < length (classes st) \<and> realised st m"
    by (cases "j = k") (auto simp: isas_realised_def realised_def)
qed

lemma isas_mono: "isas_realised X st \<Longrightarrow> X \<subseteq> Y \<Longrightarrow> isas_realised Y st"
  by (auto simp: isas_realised_def)

lemma realize_meta:
  assumes "good rank st" "m < length (classes st)" "meta st m" "isas_realised X st"
    "case superclass (classes st ! m) of None \<Rightarrow> True | Some s \<Rightarrow> s < length (classes st) \<and> realised st s"
    "isa (classes st ! m) = Some i" "i = m \<or> realised st i" "2 \<le> f"
  shows "\<exists>st'. realize_class fresh f (Some m) st = Some (Ret st') \<and> realises rank r st st' \<and>
    isas_realised X st' \<and> realised st' m"
proof (cases "realised st m")
  case True
  have "all_settled st" using assms(1) by (simp add: good_def)
  with True assms realize_done [of "Some m" st f fresh] show ?thesis
    by (auto simp: realises_refl)
next
  case False
  from assms(8) obtain f' where f: "f = Suc f'" "0 < f'" by (cases f) auto
  from good_body [OF assms(1, 2) False assms(5)] obtain st'
    where b: "realize_body fresh m st = Ret st'" "body_result m st st'" by blast
  have super: "realize_class fresh f' (superclass (classes st ! m)) st = Some (Ret st)"
    by (rule realize_done) (use assms(5) f in \<open>auto split: option.splits\<close>)
  have isa': "isa (classes st' ! m) = Some i" "realised st' i" "realised st' m"
    using assms b(2) by (auto simp: body_result_def same_links_def)
  have "realize_class fresh f (Some m) st = Some (Ret st')"
    using False assms(2) b(1) super isa' realize_done [of "Some i" st' f' fresh] f
    by (simp add: realised_def)
  moreover have "isas_realised X st'"
    by (rule isas_restore [OF isas_body [OF assms(4) b(2)] isa'(1, 2)])
  ultimately show ?thesis
    using body_realises [OF assms(1, 2) False b(2)] assms(3) isa'(3) by blast
qed

lemma hierarchy_linked: "good rank st \<Longrightarrow> k < length (classes st) \<Longrightarrow> linked rank st k"
  by (simp add: good_def hierarchy_ok_def list_all_iff)

text \<open>When a class is realised and its superclass with its metaclass are, the class's metaclass can
  be realised without meeting an unrealised class.\<close>

lemma metaclass_ready:
  assumes "good rank st" "k < length (classes st)" "\<not> meta st k" "isas_realised {k} st" "realised st k"
    "isa (classes st ! k) = Some m"
    and super: "case superclass (classes st ! k) of None \<Rightarrow> True | Some s \<Rightarrow> s < length (classes st) \<and> realised st s"
  shows "\<exists>i. isa (classes st ! m) = Some i \<and> (i = m \<or> realised st i) \<and>
    (case superclass (classes st ! m) of None \<Rightarrow> True | Some s \<Rightarrow> s < length (classes st) \<and> realised st s)"
proof (cases "superclass (classes st ! k)")
  case None
  with hierarchy_linked [OF assms(1, 2)] assms show ?thesis
    by (auto simp: linked_def)
next
  case (Some s)
  with hierarchy_linked [OF assms(1, 2)] assms(3, 6)
  have s: "s < length (classes st)" "\<not> meta st s" "rank s < rank k"
    "superclass (classes st ! m) = isa (classes st ! s)"
    "isa (classes st ! m) = isa (classes st ! the (isa (classes st ! s)))"
    by (auto simp: linked_def)
  with Some super assms(4) obtain ms where ms: "isa (classes st ! s) = Some ms"
    "ms < length (classes st)" "realised st ms"
    by (auto simp: isas_realised_def)
  with hierarchy_linked [OF assms(1) s(1)] s(2) have "meta st ms" by (simp add: linked_def)
  with assms(3) have "ms \<noteq> k" by auto
  with ms assms(4) obtain i where "isa (classes st ! ms) = Some i" "realised st i"
    by (auto simp: isas_realised_def)
  with s ms show ?thesis by auto
qed

lemma realize_class_ok:
  assumes "good rank st" "isas_realised {} st" "k < length (classes st)" "\<not> meta st k" "rank k + 3 \<le> f"
  shows "\<exists>st'. realize_class fresh f (Some k) st = Some (Ret st') \<and> realises rank (rank k) st st' \<and>
    isas_realised {} st' \<and> realised st' k"
  using assms
proof (induction "rank k" arbitrary: k st f rule: less_induct)
  case less
  show ?case
  proof (cases "realised st k")
    case True
    have "all_settled st" using less.prems(1) by (simp add: good_def)
    with True less.prems realize_done [of "Some k" st f fresh] show ?thesis
      by (auto simp: realises_refl)
  next
    case False
    from less.prems(5) obtain f' where f: "f = Suc f'" "rank k + 2 \<le> f'" by (cases f) auto
    from hierarchy_linked [OF less.prems(1, 3)] less.prems(4) obtain m
      where m: "isa (classes st ! k) = Some m" "m < length (classes st)" "meta st m"
      by (auto simp: linked_def split: option.splits)
    have "\<exists>st1. realize_class fresh f' (superclass (classes st ! k)) st = Some (Ret st1) \<and>
        realises rank (rank k) st st1 \<and> isas_realised {} st1 \<and> \<not> realised st1 k \<and>
        (case superclass (classes st1 ! k) of None \<Rightarrow> True | Some s \<Rightarrow> s < length (classes st1) \<and> realised st1 s)"
    proof (cases "superclass (classes st ! k)")
      case None
      with less.prems(1, 2) False f(2) show ?thesis
        by (auto simp: realises_refl good_def realize_done)
    next
      case (Some s)
      with hierarchy_linked [OF less.prems(1, 3)] less.prems(4) m
      have s: "s < length (classes st)" "\<not> meta st s" "rank s < rank k" by (auto simp: linked_def)
      from less.hyps [OF s(3) less.prems(1, 2) s(1, 2), of f'] s(3) f(2) obtain st1
        where st1: "realize_class fresh f' (Some s) st = Some (Ret st1)" "realises rank (rank s) st st1"
          "isas_realised {} st1" "realised st1 s" by auto
      have "\<not> realised st1 k" using st1(2) False less.prems(4) s(3) by (auto simp: realises_def)
      moreover have "superclass (classes st1 ! k) = Some s" "s < length (classes st1)"
        using st1(2, 4) Some less.prems(3) by (auto simp: realises_def same_links_def realised_def)
      moreover have "realises rank (rank k) st st1" using st1(2) s(3) by (auto simp: realises_def)
      ultimately show ?thesis using st1 Some by auto
    qed
    then obtain st1 where s1: "realize_class fresh f' (superclass (classes st ! k)) st = Some (Ret st1)"
      "realises rank (rank k) st st1" "isas_realised {} st1" "\<not> realised st1 k"
      "case superclass (classes st1 ! k) of None \<Rightarrow> True | Some s \<Rightarrow> s < length (classes st1) \<and> realised st1 s"
      by blast
    have l1: "same_links st st1" using s1(2) by (simp add: realises_def)
    have k1: "k < length (classes st1)" using l1 less.prems(3) by (simp add: same_links_def)
    have g1: "good rank st1" by (rule realises_good [OF less.prems(1) s1(2)])
    from good_body [OF g1 k1 s1(4, 5)] obtain st2
      where b: "realize_body fresh k st1 = Ret st2" "body_result k st1 st2" by blast
    have r12: "realises rank (rank k) st1 st2" by (rule body_realises [OF g1 k1 s1(4) b(2)]) simp
    have g2: "good rank st2" by (rule realises_good [OF g1 r12])
    have l2: "same_links st st2" using l1 r12 by (auto simp: realises_def intro: same_links_trans)
    have i2: "isas_realised {k} st2" by (rule isas_body [OF s1(3) b(2)])
    have rk: "realised st2 k" using b(2) by (simp add: body_result_def)
    have meta2: "m < length (classes st2)" "meta st2 m" "isa (classes st2 ! k) = Some m"
      using m l2 less.prems(3) same_links_meta [OF l2] by (simp_all add: same_links_def)
    obtain i where i: "isa (classes st2 ! m) = Some i" "i = m \<or> realised st2 i"
      and sup: "case superclass (classes st2 ! m) of None \<Rightarrow> True | Some s \<Rightarrow> s < length (classes st2) \<and> realised st2 s"
      using metaclass_ready [OF g2 _ _ i2 rk meta2(3)] less.prems(3, 4) l1 l2 s1(5) b(2)
        same_links_meta [OF l2 less.prems(3)]
      by (auto simp: same_links_def body_result_def split: option.splits)
    from realize_meta [OF g2 meta2(1, 2) i2 sup i, of f' fresh] f(2) obtain st3
      where st3: "realize_class fresh f' (Some m) st2 = Some (Ret st3)" "realises rank (rank k) st2 st3"
        "isas_realised {k} st3" "realised st3 m" by auto
    have l3: "same_links st st3" using l2 st3(2) by (auto simp: realises_def intro: same_links_trans)
    have "realize_class fresh f (Some k) st = Some (Ret st3)"
      using False less.prems(3) s1(1) b(1) st3(1) meta2(3) by (simp add: f(1) realised_def)
    moreover have "isas_realised {} st3"
      by (rule isas_restore [OF st3(3) _ st3(4)]) (use l3 m less.prems(3) in \<open>simp add: same_links_def\<close>)
    moreover have "realised st3 k" using rk st3(2) by (simp add: realises_def)
    moreover have "realises rank (rank k) st st3"
      by (rule realises_trans [OF realises_trans [OF s1(2) r12 order.refl] st3(2) order.refl])
    ultimately show ?thesis by blast
  qed
qed

section \<open>The start of the runtime\<close>

definition progress :: "(nat \<Rightarrow> nat) \<Rightarrow> objc \<Rightarrow> objc \<Rightarrow> bool" where
  "progress rank st st' \<longleftrightarrow> good rank st' \<and> isas_realised {} st' \<and> same_links st st' \<and>
     (\<forall>j. realised st j \<longrightarrow> realised st' j)"

lemma progress_trans: "progress rank st st' \<Longrightarrow> progress rank st' st'' \<Longrightarrow> progress rank st st''"
  unfolding progress_def using same_links_trans by blast

text \<open>The classes an image lists: classes of the heap, not metaclasses, with fuel for their depth.\<close>

definition listed :: "(nat \<Rightarrow> nat) \<Rightarrow> nat \<Rightarrow> objc \<Rightarrow> nat option \<Rightarrow> bool" where
  "listed rank fuel st c \<longleftrightarrow>
     (case c of None \<Rightarrow> True | Some k \<Rightarrow> k < length (classes st) \<and> \<not> meta st k \<and> rank k + 3 \<le> fuel)"

definition listed_realised :: "objc \<Rightarrow> nat option \<Rightarrow> bool" where
  "listed_realised st c \<longleftrightarrow> (case c of None \<Rightarrow> True | Some k \<Rightarrow> realised st k)"

lemma listed_progress: "progress rank st st' \<Longrightarrow> listed rank fuel st c \<Longrightarrow> listed rank fuel st' c"
  by (auto simp: listed_def progress_def same_links_length same_links_meta split: option.splits)

lemma listed_realised_progress: "progress rank st st' \<Longrightarrow> listed_realised st c \<Longrightarrow> listed_realised st' c"
  by (auto simp: listed_realised_def progress_def split: option.splits)

lemma realize_classlist_ok:
  assumes "good rank st" "isas_realised {} st" "list_all (listed rank fuel st) cl"
  shows "\<exists>st'. realize_classlist fresh fuel cl st = Some (Ret st') \<and> progress rank st st' \<and>
    list_all (listed_realised st') cl"
  using assms
proof (induction cl arbitrary: st)
  case Nil
  then show ?case by (simp add: progress_def)
next
  case (Cons c cl)
  have "\<exists>st1. realize_class fresh fuel c st = Some (Ret st1) \<and> progress rank st st1 \<and> listed_realised st1 c"
  proof (cases c)
    case None
    with Cons.prems show ?thesis by (simp add: progress_def listed_realised_def)
  next
    case (Some k)
    with Cons.prems(3) have k: "k < length (classes st)" "\<not> meta st k" "rank k + 3 \<le> fuel"
      by (simp_all add: listed_def)
    from realize_class_ok [OF Cons.prems(1, 2) k, of fresh] obtain st1
      where "realize_class fresh fuel (Some k) st = Some (Ret st1)" "realises rank (rank k) st st1"
        "isas_realised {} st1" "realised st1 k" by blast
    with Some realises_good [OF Cons.prems(1)] show ?thesis
      by (auto simp: progress_def listed_realised_def realises_def)
  qed
  then obtain st1 where st1: "realize_class fresh fuel c st = Some (Ret st1)" "progress rank st st1"
    "listed_realised st1 c" by blast
  have "list_all (listed rank fuel st1) cl"
    using Cons.prems(3) listed_progress [OF st1(2)] by (auto simp: list_all_iff)
  with Cons.IH [of st1] st1(2) obtain st2 where st2: "realize_classlist fresh fuel cl st1 = Some (Ret st2)"
    "progress rank st1 st2" "list_all (listed_realised st2) cl" by (auto simp: progress_def)
  with st1 show ?case
    using progress_trans [OF st1(2) st2(2)] listed_realised_progress [OF st2(2) st1(3)] by auto
qed

lemma same_heap_good:
  assumes "classes st' = classes st" "g_classes st' = g_classes st" "ivar_offset st' = ivar_offset st"
  shows "good rank st' = good rank st" "isas_realised X st' = isas_realised X st"
    "realised st' k = realised st k" "meta st' k = meta st k" "same_links st st'"
proof -
  have R: "realised st' = realised st" "meta st' = meta st"
    using assms by (auto simp: realised_def meta_def fun_eq_iff)
  then have "the_realised st' = the_realised st" using assms by (simp add: the_realised_def)
  moreover have "class_ivars st' = class_ivars st" "class_getInstanceSize st' = class_getInstanceSize st"
    using assms(1) by (simp_all add: class_ivars_def [abs_def] class_getInstanceSize_def [abs_def])
  ultimately show "good rank st' = good rank st" using assms R
    by (simp add: good_def hierarchy_ok_def linked_def [abs_def] slots_ok_def room_ok_def room_of_def
        all_settled_def settled_def unrealised_def cong: option.case_cong)
  show "isas_realised X st' = isas_realised X st" using assms R by (simp add: isas_realised_def)
  show "realised st' k = realised st k" "meta st' k = meta st k" using R by simp_all
  show "same_links st st'" using assms by (simp add: same_links_def)
qed

lemma register_image_ok:
  assumes "good rank st" "isas_realised {} st" "list_all (listed rank fuel st) (im_classlist im)"
  shows "\<exists>refs st'. objc_register_image fresh fuel im st = Some (Ret (refs, st')) \<and> progress rank st st' \<and>
    list_all (listed_realised st') (im_classlist im)"
proof -
  obtain refs sels where sels: "selref_fixups fresh (im_selrefs im) (selectors st) = (refs, sels)" by fastforce
  let ?st = "st\<lparr>selectors := sels\<rparr>"
  have same: "good rank ?st = good rank st" "isas_realised {} ?st = isas_realised {} st"
    "realised ?st k = realised st k" "meta ?st k = meta st k" "same_links st ?st" for k
    using same_heap_good [of ?st st] by simp_all
  have "list_all (listed rank fuel ?st) (im_classlist im)"
    using assms(3) same(4) by (simp add: list_all_iff listed_def split: option.splits)
  from realize_classlist_ok [OF _ _ this, of fresh] same(1, 2) assms(1, 2) obtain st1
    where st1: "realize_classlist fresh fuel (im_classlist im) ?st = Some (Ret st1)"
      "progress rank ?st st1" "list_all (listed_realised st1) (im_classlist im)" by blast
  define st' where "st' = st1\<lparr>
          g_pending_cats := g_pending_cats st1 @
            take (max_pending_categories - length (g_pending_cats st1)) (im_catlist im),
          g_protocols := g_protocols st1 @
            take (objc_max_protocols - length (g_protocols st1)) (im_protolist im)\<rparr>"
  have same': "good rank st' = good rank st1" "isas_realised {} st' = isas_realised {} st1"
    "realised st' k = realised st1 k" "same_links st1 st'" for k
    using same_heap_good [of st' st1] by (simp_all add: st'_def)
  have "objc_register_image fresh fuel im st = Some (Ret (refs, st'))"
    by (simp add: objc_register_image_def sels st1(1) st'_def)
  moreover have "progress rank st st'"
    using st1(2) same same' unfolding progress_def by (metis same_links_trans)
  moreover have "list_all (listed_realised st') (im_classlist im)"
    using st1(3) same'(3) by (simp add: list_all_iff listed_realised_def split: option.splits)
  ultimately show ?thesis by blast
qed

lemma register_images_ok:
  assumes "good rank st" "isas_realised {} st"
    "list_all (\<lambda>im. list_all (listed rank fuel st) (im_classlist im)) ims"
  shows "\<exists>l st'. register_images fresh fuel ims st = Some (Ret (l, st')) \<and> progress rank st st' \<and>
    list_all (\<lambda>im. list_all (listed_realised st') (im_classlist im)) ims"
  using assms
proof (induction ims arbitrary: st)
  case Nil
  then show ?case by (simp add: progress_def)
next
  case (Cons im ims)
  from register_image_ok [OF Cons.prems(1, 2), of fuel im fresh] Cons.prems(3) obtain refs st1
    where st1: "objc_register_image fresh fuel im st = Some (Ret (refs, st1))" "progress rank st st1"
      "list_all (listed_realised st1) (im_classlist im)" by auto
  have "list_all (\<lambda>im. list_all (listed rank fuel st1) (im_classlist im)) ims"
    using Cons.prems(3) listed_progress [OF st1(2)] by (auto simp: list_all_iff)
  with Cons.IH [of st1] st1(2) obtain l st2 where st2: "register_images fresh fuel ims st1 = Some (Ret (l, st2))"
    "progress rank st1 st2" "list_all (\<lambda>im. list_all (listed_realised st2) (im_classlist im)) ims"
    by (auto simp: progress_def)
  have "list_all (listed_realised st2) (im_classlist im)"
    using st1(3) listed_realised_progress [OF st2(2)] by (auto simp: list_all_iff)
  with st1 st2 show ?case using progress_trans [OF st1(2) st2(2)] by auto
qed

text \<open>Categories extend the methods of classes and leave their layout.\<close>

definition same_layout :: "objc \<Rightarrow> objc \<Rightarrow> bool" where
  "same_layout st st' \<longleftrightarrow> same_links st st' \<and> ivar_offset st' = ivar_offset st \<and>
     (\<forall>k < length (classes st). map_option rw_instance_size (rw (classes st' ! k))
        = map_option rw_instance_size (rw (classes st ! k)))"

lemma same_layout_trans: "same_layout st st' \<Longrightarrow> same_layout st' st'' \<Longrightarrow> same_layout st st''"
  unfolding same_layout_def using same_links_trans by (metis same_links_length)

lemma same_layout_settled:
  assumes "same_layout st st'"
  shows "all_settled st' = all_settled st" "realised st' k = realised st k"
proof -
  have l: "same_links st st'" "length (classes st') = length (classes st)"
    using assms by (auto simp: same_layout_def same_links_def)
  have R: "realised st' k = realised st k" for k
    using assms l(2) unfolding same_layout_def realised_def by (metis map_option_is_None)
  then show "realised st' k = realised st k" .
  have sz: "class_getInstanceSize st' c = class_getInstanceSize st c" if "in_heap (length (classes st)) c" for c
  proof (cases c)
    case (Some k)
    with that assms have "map_option rw_instance_size (rw (classes st' ! k))
        = map_option rw_instance_size (rw (classes st ! k))"
      by (simp add: same_layout_def in_heap_def)
    with Some show ?thesis by (auto simp: class_getInstanceSize_def split: option.splits)
  qed (simp add: class_getInstanceSize_def)
  have TR: "the_realised st' = the_realised st" using R l(2) by (simp add: the_realised_def)
  have "settled st' k = settled st k" if k: "k < length (classes st)" for k
    using sz [of "Some k"] sz [of "superclass (classes st ! k)"] k l R same_linksD(2) [OF l(1) k]
      same_links_ivars [OF l(1) k] same_links_room [OF l(1) the_realised_sub] assms
    by (auto simp: settled_def TR in_heap_def same_layout_def split: option.splits)
  then show "all_settled st' = all_settled st" by (simp add: all_settled_def R l(2))
qed

lemma extend_class_layout:
  assumes "c = None \<or> the c < length (classes st)"
  shows "same_layout st (extend_class fresh ms ps qs c st)"
proof (cases "c = None \<or> rw (classes st ! the c) = None")
  case True
  then show ?thesis by (auto simp: extend_class_def same_layout_def split: option.splits)
next
  case False
  then obtain k r where k: "c = Some k" "rw (classes st ! k) = Some r" by auto
  obtain r' sels where f: "fill_rw fresh ms ps qs r (selectors st) = (r', sels)" by fastforce
  with k assms fill_rw_size [OF f] show ?thesis
    by (auto simp: extend_class_def same_layout_def same_links_def nth_update_class)
qed

definition category_ok :: "objc \<Rightarrow> category \<Rightarrow> bool" where
  "category_ok st cat \<longleftrightarrow>
     (case cat_cls cat of None \<Rightarrow> True | Some k \<Rightarrow> k < length (classes st) \<and> \<not> meta st k)"

lemma category_ok_same: "same_links st st' \<Longrightarrow> category_ok st cat \<Longrightarrow> category_ok st' cat"
  by (auto simp: category_ok_def same_links_length same_links_meta split: option.splits)

lemma attach_category_layout:
  assumes "hierarchy_ok rank st" "category_ok st cat"
  shows "same_layout st (attach_category fresh cat st)"
proof (cases "cat_cls cat")
  case None
  then show ?thesis by (simp add: attach_category_def same_layout_def)
next
  case (Some k)
  with assms have k: "k < length (classes st)" "\<not> meta st k" "linked rank st k"
    by (auto simp: category_ok_def hierarchy_ok_def list_all_iff)
  then obtain m where m: "isa (classes st ! k) = Some m" "m < length (classes st)"
    by (auto simp: linked_def split: option.splits)
  let ?st = "extend_class fresh (cat_instance_methods cat) (cat_protocols cat) (cat_properties cat) (Some k) st"
  have "same_layout st ?st" by (rule extend_class_layout) (use k in simp)
  moreover from this have "length (classes ?st) = length (classes st)"
    by (simp add: same_layout_def same_links_def)
  then have "same_layout ?st (extend_class fresh (cat_class_methods cat) [] [] (Some m) ?st)"
    by (intro extend_class_layout) (use m in simp)
  ultimately show ?thesis using Some m same_layout_trans by (simp add: attach_category_def)
qed

lemma fold_categories_layout:
  assumes "hierarchy_ok rank st" "list_all (category_ok st) cats"
  shows "same_layout st (fold (attach_category fresh) cats st)"
  using assms
proof (induction cats arbitrary: st)
  case (Cons cat cats)
  from attach_category_layout [of rank st cat fresh] Cons.prems
  have one: "same_layout st (attach_category fresh cat st)" by simp
  then have "same_links st (attach_category fresh cat st)" by (simp add: same_layout_def)
  with Cons.prems have "hierarchy_ok rank (attach_category fresh cat st)"
    "list_all (category_ok (attach_category fresh cat st)) cats"
    by (auto simp: same_links_hierarchy list_all_iff category_ok_same)
  from Cons.IH [OF this] one show ?case using same_layout_trans by simp
qed (simp add: same_layout_def)

text \<open>The categories that are pending come from the images, and are of classes of the heap.\<close>

lemma realize_pending:
  "realize_class fresh f c st = Some (Ret st') \<Longrightarrow> g_pending_cats st' = g_pending_cats st"
proof (induction fresh f c st arbitrary: st' rule: realize_class.induct)
  case (3 fresh fuel k st)
  have body: "g_pending_cats b = g_pending_cats a" if "realize_body fresh k a = Ret b" for a b
    using that
    by (auto simp: realize_body_def objc_register_dynamic_class_def Let_def update_class_def
        case_prod_unfold split: if_splits)
  show ?case
  proof (cases "rw (classes st ! k) = None")
    case True
    with 3(3) obtain st1 st2 where s: "realize_class fresh fuel (superclass (classes st ! k)) st = Some (Ret st1)"
      "realize_body fresh k st1 = Ret st2" "realize_class fresh fuel (isa (classes st2 ! k)) st2 = Some (Ret st')"
      by (auto split: if_splits)
    with 3(1) [OF _ s(1)] 3(2) [OF _ _ _ s(3)] body [OF s(2)] True show ?thesis by auto
  qed (use 3(3) in simp)
qed simp_all

lemma realize_classlist_pending:
  "realize_classlist fresh f cl st = Some (Ret st') \<Longrightarrow> g_pending_cats st' = g_pending_cats st"
  by (induction cl arbitrary: st) (auto dest: realize_pending)

lemma register_images_pending:
  "register_images fresh f ims st = Some (Ret (l, st')) \<Longrightarrow>
     set (g_pending_cats st') \<subseteq> set (g_pending_cats st) \<union> (\<Union>im\<in>set ims. set (im_catlist im))"
proof (induction ims arbitrary: l st)
  case (Cons im ims)
  from Cons.prems obtain refs st1 l' where s: "objc_register_image fresh f im st = Some (Ret (refs, st1))"
    "register_images fresh f ims st1 = Some (Ret (l', st'))" by auto
  from s(1) have "set (g_pending_cats st1) \<subseteq> set (g_pending_cats st) \<union> set (im_catlist im)"
    by (auto simp: objc_register_image_def dest!: realize_classlist_pending in_set_takeD split: prod.splits)
  with Cons.IH [OF s(2)] show ?case by auto
qed simp

text \<open>What a started runtime looks like: the classes of the images are realised, and in every
  realised class the variables are in place.\<close>

definition laid_out :: "objc_image list \<Rightarrow> (sel list list \<times> objc) outcome option \<Rightarrow> bool" where
  "laid_out ims r \<longleftrightarrow>
     (case r of
        Some (Ret (refs, st)) \<Rightarrow>
          all_settled st \<and> list_all (\<lambda>im. list_all (listed_realised st) (im_classlist im)) ims
      | _ \<Rightarrow> False)"

definition image_ok :: "(nat \<Rightarrow> nat) \<Rightarrow> nat \<Rightarrow> objc \<Rightarrow> objc_image \<Rightarrow> bool" where
  "image_ok rank fuel st im \<longleftrightarrow>
     list_all (listed rank fuel st) (im_classlist im) \<and> list_all (category_ok st) (im_catlist im)"

text \<open>The heap the images bring: unrealised classes, at most 512 of them.\<close>

definition bootable :: "(nat \<Rightarrow> nat) \<Rightarrow> objc \<Rightarrow> bool" where
  "bootable rank st \<longleftrightarrow> hierarchy_ok rank st \<and> slots_ok st \<and> room_ok st \<and>
     list_all (\<lambda>c. rw c = None) (classes st) \<and> length (classes st) \<le> objc_max_classes \<and>
     g_classes st = [] \<and> g_pending_cats st = []"

lemma bootable_good: "bootable rank st \<Longrightarrow> good rank st \<and> isas_realised {} st"
  by (auto simp: bootable_def good_def all_settled_def isas_realised_def realised_def unrealised_def
      list_all_length the_realised_def)

text \<open>C23 Starting the runtime on a well-formed hierarchy realises every class the images list, in
  whatever order the images list them: it returns, reads no class's read-only data twice, and leaves
  each realised class with a realised superclass and with its own variables aligned, one after the
  other, between the end of its superclass's instances and the end of its own, categories included.\<close>

theorem objc_init_lays_out:
  assumes "bootable rank st" "list_all (image_ok rank fuel st) ims"
  shows "laid_out ims (objc_init fresh fuel ims st)"
proof -
  from bootable_good [OF assms(1)] have g: "good rank st" "isas_realised {} st" by auto
  have "list_all (\<lambda>im. list_all (listed rank fuel st) (im_classlist im)) ims"
    using assms(2) by (simp add: list_all_iff image_ok_def)
  from register_images_ok [OF g this, of fresh] obtain l st1
    where st1: "register_images fresh fuel ims st = Some (Ret (l, st1))" "progress rank st st1"
      "list_all (\<lambda>im. list_all (listed_realised st1) (im_classlist im)) ims" by blast
  have "list_all (category_ok st1) (g_pending_cats st1)"
    using register_images_pending [OF st1(1)] assms st1(2) category_ok_same [of st st1]
    by (auto simp: list_all_iff image_ok_def bootable_def progress_def)
  with st1(2) have lay: "same_layout st1 (fold (attach_category fresh) (g_pending_cats st1) st1)"
    by (intro fold_categories_layout) (auto simp: progress_def good_def)
  let ?st = "objc_attach_categories fresh st1"
  have "same_layout st1 ?st"
    using lay by (simp add: objc_attach_categories_def same_layout_def same_links_def)
  note s = same_layout_settled [OF this]
  have "all_settled ?st" using st1(2) s(1) by (simp add: progress_def good_def)
  moreover have "listed_realised ?st = listed_realised st1"
    by (auto simp: fun_eq_iff listed_realised_def s(2) split: option.splits)
  then have "list_all (\<lambda>im. list_all (listed_realised ?st) (im_classlist im)) ims"
    using st1(3) by simp
  ultimately show ?thesis using st1(1) by (simp add: laid_out_def objc_init_def)
qed

text \<open>A root class and a subclass of it, listed subclass first, each with two variables; the
  metaclasses follow their classes.\<close>

definition example_class :: "nat option \<Rightarrow> nat option \<Rightarrow> bool \<Rightarrow> cstr \<Rightarrow> ivar list \<Rightarrow> objc_class" where
  "example_class i super is_meta name ivs =
     \<lparr>isa = i, superclass = super,
      ro = \<lparr>ro_meta = is_meta, ro_name = name, ro_methods = [([105], 1)], ro_protocols = [], ro_ivars = ivs,
            ro_properties = []\<rparr>,
      rw = None, c_cache = None\<rparr>"

definition example_heap :: objc where
  "example_heap =
     \<lparr>classes =
        [example_class (Some 1) (Some 2) False [68]
           [\<lparr>iv_name = [97], iv_alignment = 0, iv_size = 1, iv_slot = 0\<rparr>,
            \<lparr>iv_name = [98], iv_alignment = 3, iv_size = 8, iv_slot = 1\<rparr>],
         example_class (Some 3) (Some 3) True [68] [],
         example_class (Some 3) None False [79]
           [\<lparr>iv_name = [105], iv_alignment = 3, iv_size = 8, iv_slot = 2\<rparr>,
            \<lparr>iv_name = [120], iv_alignment = 0, iv_size = 1, iv_slot = 3\<rparr>],
         example_class (Some 3) (Some 2) True [79] []],
      g_classes = [], g_protocols = [], g_pending_cats = [], selectors = [], ivar_offset = (\<lambda>_. 0)\<rparr>"

definition example_rank :: "nat \<Rightarrow> nat" where
  "example_rank k = (if k = 0 then 1 else 0)"

definition example_images :: "objc_image list" where
  "example_images = [\<lparr>im_selrefs = [[105]], im_classlist = [Some 0, Some 2],
     im_catlist = [\<lparr>cat_cls = Some 2, cat_instance_methods = [([106], 2)], cat_class_methods = [],
       cat_protocols = [], cat_properties = []\<rparr>], im_protolist = []\<rparr>]"

lemma example_upt: "[0..<4] = [0, 1, 2, 3 :: nat]" "{0..<4} = {0, 1, 2, 3 :: nat}"
  by (simp_all add: upt_rec) auto

lemma example_length: "length (classes example_heap) = 4"
  by (simp add: example_heap_def)

lemma example_hierarchy: "hierarchy_ok example_rank example_heap"
  unfolding hierarchy_ok_def example_length example_upt
  by (simp add: linked_def meta_def example_heap_def example_class_def example_rank_def)

lemma example_room: "slots_ok example_heap \<and> room_ok example_heap"
  unfolding slots_ok_def room_ok_def room_of_def example_length example_upt
  by (simp add: class_ivars_def example_heap_def example_class_def ivars_room_def iv_room_def)

lemma example_bootable: "bootable example_rank example_heap"
  using example_hierarchy example_room
  by (simp add: bootable_def) (simp add: example_heap_def example_class_def objc_max_classes_def)

theorem objc_init_lays_out_witness:
  "laid_out example_images (objc_init (\<lambda>n. Some (of_nat (n + 1))) 4 example_images example_heap)"
  by (rule objc_init_lays_out [OF example_bootable])
    (simp add: image_ok_def listed_def category_ok_def meta_def example_images_def example_heap_def
      example_class_def example_rank_def)

end
