(* ===== verification/ObjcArc.thy ===== *)
theory ObjcArc
  imports Prelude "HOL-Library.Multiset"
begin

text \<open>
  Reference counting in the Objective-C runtime (\<open>userland/libobjc/arc.c\<close>, \<open>autorelease.c\<close>): the
  side table of retain counts, the table of weak references and the stack of autoreleased objects
  with its pools.  An object is its address, 0 is \<open>nil\<close>; \<open>vars\<close> are the variables of type \<open>id\<close>,
  by address.  The objects are of classes that inherit \<open>retain\<close>, \<open>release\<close>, \<open>autorelease\<close> and
  \<open>dealloc\<close> from \<open>Root.m\<close>, so a message send of these to a live object is the call of its
  \<open>_objc_root\<close> function, and one to freed memory a fault.  The autorelease stack is an array: what
  lies above its top stays there.
\<close>

section \<open>Tables searched from the front\<close>

fun index_of :: "'k \<Rightarrow> ('k \<times> 'v) list \<Rightarrow> nat option" where
  "index_of x [] = None"
| "index_of x ((y, v) # l) = (if x = y then Some 0 else map_option Suc (index_of x l))"

text \<open>Removal by moving the last entry into the gap.\<close>

definition swap_remove :: "nat \<Rightarrow> 'a list \<Rightarrow> 'a list" where
  "swap_remove i xs = butlast (xs[i := last xs])"

lemma index_of_None: "index_of x l = None \<longleftrightarrow> map_of l x = None"
  by (induction x l rule: index_of.induct) auto

lemma index_of_Some:
  "index_of x l = Some i \<Longrightarrow> i < length l \<and> fst (l ! i) = x \<and> map_of l x = Some (snd (l ! i))"
  by (induction l arbitrary: i) (auto split: if_splits)

lemma index_of_split:
  assumes "index_of x l = Some i" "distinct (map fst l)"
  obtains a v b where "l = a @ (x, v) # b" "length a = i" "map_of a x = None" "map_of b x = None"
proof -
  from index_of_Some [OF assms(1)] have i: "i < length l" "fst (l ! i) = x" by auto
  define a b where "a = take i l" and "b = drop (Suc i) l"
  have l: "l = a @ l ! i # b" using id_take_nth_drop [OF i(1)] by (simp add: a_def b_def)
  have "l ! i = (x, snd (l ! i))" using i(2) by (simp add: prod_eq_iff)
  with l have l': "l = a @ (x, snd (l ! i)) # b" by metis
  have "distinct (map fst (a @ (x, snd (l ! i)) # b))" using assms(2) l' by metis
  then have "x \<notin> fst ` set a" "x \<notin> fst ` set b" by auto
  then have "map_of a x = None" "map_of b x = None" by (simp_all add: map_of_eq_None_iff)
  moreover have "length a = i" using i(1) by (simp add: a_def)
  ultimately show thesis using that [OF l'] by blast
qed

lemma list_update_front: "(a @ x # b)[length a := y] = a @ y # b"
  by simp

lemma swap_remove_split: "mset (swap_remove (length a) (a @ x # b)) = mset (a @ b)"
proof (cases b rule: rev_cases)
  case Nil
  then show ?thesis by (simp add: swap_remove_def)
next
  case (snoc b' y)
  then show ?thesis by (simp add: swap_remove_def butlast_append)
qed

text \<open>The three changes of a table, as changes of the map it stands for.\<close>

lemma table_update:
  assumes "index_of x l = Some i" "distinct (map fst l)"
  shows "distinct (map fst (l[i := (x, v)]))" "map_of (l[i := (x, v)]) = (map_of l)(x \<mapsto> v)"
    "length (l[i := (x, v)]) = length l"
proof -
  from assms obtain a w b where l: "l = a @ (x, w) # b" "length a = i" "map_of a x = None" "map_of b x = None"
    by (rule index_of_split)
  then have e: "l[i := (x, v)] = a @ (x, v) # b" by auto
  show "distinct (map fst (l[i := (x, v)]))" using assms(2) e l(1) by simp
  show "map_of (l[i := (x, v)]) = (map_of l)(x \<mapsto> v)"
    unfolding e unfolding l(1) using l(3) by (auto simp: fun_eq_iff map_add_def split: option.splits)
qed simp

lemma table_snoc:
  assumes "index_of x l = None" "distinct (map fst l)"
  shows "distinct (map fst (l @ [(x, v)]))" "map_of (l @ [(x, v)]) = (map_of l)(x \<mapsto> v)"
proof -
  from assms(1) have n: "map_of l x = None" by (simp add: index_of_None)
  then show "distinct (map fst (l @ [(x, v)]))" using assms(2) by (simp add: map_of_eq_None_iff)
  show "map_of (l @ [(x, v)]) = (map_of l)(x \<mapsto> v)"
    using n by (auto simp: fun_eq_iff map_add_def split: option.splits)
qed

lemma map_of_mset_eq:
  assumes "mset l = mset l'" "distinct (map fst l)"
  shows "distinct (map fst l')" "map_of l = map_of l'"
proof -
  have "mset (map fst l) = mset (map fst l')" using assms(1) by simp
  with assms(2) show d: "distinct (map fst l')" using mset_eq_imp_distinct_iff by blast
  show "map_of l = map_of l'"
    by (rule map_of_inject_set [THEN iffD2]) (use assms d mset_eq_setD in auto)
qed

lemma table_remove:
  assumes "index_of x l = Some i" "distinct (map fst l)"
  shows "distinct (map fst (swap_remove i l))" "map_of (swap_remove i l) = (map_of l)(x := None)"
    "Suc (length (swap_remove i l)) = length l"
proof -
  from assms obtain a w b where l: "l = a @ (x, w) # b" "length a = i" "map_of a x = None" "map_of b x = None"
    by (rule index_of_split)
  have e: "mset (a @ b) = mset (swap_remove i l)" unfolding l(1) l(2) [symmetric] by (rule swap_remove_split [symmetric])
  have d: "distinct (map fst (a @ b))" using assms(2) l(1) by auto
  show "distinct (map fst (swap_remove i l))" by (rule map_of_mset_eq(1) [OF e d])
  have "map_of (swap_remove i l) = map_of (a @ b)" using map_of_mset_eq(2) [OF e d] by simp
  also have "\<dots> = (map_of l)(x := None)"
    unfolding l(1) using l(3, 4) by (auto simp: fun_eq_iff map_add_def split: option.splits)
  finally show "map_of (swap_remove i l) = (map_of l)(x := None)" .
  show "Suc (length (swap_remove i l)) = length l"
    using l(1, 2) by (simp add: swap_remove_def)
qed

section \<open>The runtime's state\<close>

type_synonym obj = nat
type_synonym slot = nat

record arc =
  live :: "obj \<Rightarrow> bool"
  vars :: "slot \<Rightarrow> obj"
  refcounts :: "(obj \<times> u64) list"
  weak_owners :: "(obj \<times> slot list) list"
  autorelease_stack :: "nat \<Rightarrow> obj"
  autorelease_top :: nat
  pool_marks :: "nat \<Rightarrow> nat"
  pool_depth :: nat

definition max_refcounted :: nat where "max_refcounted = 4096"
definition max_weak_owners :: nat where "max_weak_owners = 1024"
definition max_autoreleased :: nat where "max_autoreleased = 4096"
definition max_pool_depth :: nat where "max_pool_depth = 256"

section \<open>Retain counts\<close>

definition find_refcount :: "obj \<Rightarrow> arc \<Rightarrow> nat option" where
  "find_refcount x st = index_of x (refcounts st)"

definition root_retain :: "obj \<Rightarrow> arc \<Rightarrow> arc" where
  "root_retain x st =
     (if x = 0 then st
      else case find_refcount x st of
        Some i \<Rightarrow> st\<lparr>refcounts := (refcounts st)[i := (x, snd (refcounts st ! i) + 1)]\<rparr>
      | None \<Rightarrow>
          if length (refcounts st) < max_refcounted
          then st\<lparr>refcounts := refcounts st @ [(x, 1)]\<rparr> else st)"

definition root_retainCount :: "obj \<Rightarrow> arc \<Rightarrow> u64" where
  "root_retainCount x st =
     (if x = 0 then 0
      else 1 + (case find_refcount x st of None \<Rightarrow> 0 | Some i \<Rightarrow> snd (refcounts st ! i)))"

section \<open>Weak references\<close>

definition find_weak_owner :: "obj \<Rightarrow> arc \<Rightarrow> nat option" where
  "find_weak_owner x st = index_of x (weak_owners st)"

definition weak_owner_add_slot :: "obj \<Rightarrow> slot \<Rightarrow> arc \<Rightarrow> arc" where
  "weak_owner_add_slot x s st =
     (case find_weak_owner x st of
        Some i \<Rightarrow> st\<lparr>weak_owners := (weak_owners st)[i := (x, snd (weak_owners st ! i) @ [s])]\<rparr>
      | None \<Rightarrow>
          if max_weak_owners \<le> length (weak_owners st) then st
          else st\<lparr>weak_owners := weak_owners st @ [(x, [s])]\<rparr>)"

fun slot_index :: "slot \<Rightarrow> slot list \<Rightarrow> nat option" where
  "slot_index s [] = None"
| "slot_index s (t # l) = (if t = s then Some 0 else map_option Suc (slot_index s l))"

definition remove_slot :: "slot \<Rightarrow> slot list \<Rightarrow> slot list" where
  "remove_slot s l = (case slot_index s l of None \<Rightarrow> l | Some i \<Rightarrow> swap_remove i l)"

definition weak_owner_remove_slot :: "obj \<Rightarrow> slot \<Rightarrow> arc \<Rightarrow> arc" where
  "weak_owner_remove_slot x s st =
     (case find_weak_owner x st of
        None \<Rightarrow> st
      | Some i \<Rightarrow> st\<lparr>weak_owners := (weak_owners st)[i := (x, remove_slot s (snd (weak_owners st ! i)))]\<rparr>)"

definition objc_weak_clear_object :: "obj \<Rightarrow> arc \<Rightarrow> arc" where
  "objc_weak_clear_object x st =
     (case find_weak_owner x st of
        None \<Rightarrow> st
      | Some i \<Rightarrow>
          st\<lparr>vars := fold (\<lambda>s v. v(s := 0)) (snd (weak_owners st ! i)) (vars st),
             weak_owners := swap_remove i (weak_owners st)\<rparr>)"

definition objc_storeWeak :: "slot \<Rightarrow> obj \<Rightarrow> arc \<Rightarrow> arc" where
  "objc_storeWeak s x st =
     (let st1 = (if vars st s \<noteq> 0 then weak_owner_remove_slot (vars st s) s st else st);
          st2 = (if x \<noteq> 0 then weak_owner_add_slot x s st1 else st1)
      in st2\<lparr>vars := (vars st2)(s := x)\<rparr>)"

definition objc_initWeak :: "slot \<Rightarrow> obj \<Rightarrow> arc \<Rightarrow> arc" where
  "objc_initWeak s x st = objc_storeWeak s x (st\<lparr>vars := (vars st)(s := 0)\<rparr>)"

definition objc_destroyWeak :: "slot \<Rightarrow> arc \<Rightarrow> arc" where
  "objc_destroyWeak s st = objc_storeWeak s 0 st"

definition objc_loadWeak :: "slot \<Rightarrow> arc \<Rightarrow> obj" where
  "objc_loadWeak s st = vars st s"

definition objc_copyWeak :: "slot \<Rightarrow> slot \<Rightarrow> arc \<Rightarrow> arc" where
  "objc_copyWeak dest src st = objc_initWeak dest (vars st src) st"

definition objc_moveWeak :: "slot \<Rightarrow> slot \<Rightarrow> arc \<Rightarrow> arc" where
  "objc_moveWeak dest src st = objc_destroyWeak src (objc_initWeak dest (vars st src) st)"

section \<open>Release\<close>

definition root_dealloc :: "obj \<Rightarrow> arc \<Rightarrow> arc" where
  "root_dealloc x st = (objc_weak_clear_object x st)\<lparr>live := (live st)(x := False)\<rparr>"

definition root_release :: "obj \<Rightarrow> arc \<Rightarrow> arc" where
  "root_release x st =
     (if x = 0 then st
      else case find_refcount x st of
        Some i \<Rightarrow>
          if 0 < snd (refcounts st ! i)
          then st\<lparr>refcounts := (refcounts st)[i := (x, snd (refcounts st ! i) - 1)]\<rparr>
          else root_dealloc x (st\<lparr>refcounts := swap_remove i (refcounts st)\<rparr>)
      | None \<Rightarrow> root_dealloc x st)"

definition msg_send :: "obj \<Rightarrow> (obj \<Rightarrow> arc \<Rightarrow> arc) \<Rightarrow> arc \<Rightarrow> arc outcome" where
  "msg_send x imp st = (if x = 0 then Ret st else if live st x then Ret (imp x st) else Fault)"

definition objc_retain :: "obj \<Rightarrow> arc \<Rightarrow> arc outcome" where
  "objc_retain x st = msg_send x root_retain st"

definition objc_release :: "obj \<Rightarrow> arc \<Rightarrow> arc outcome" where
  "objc_release x st = msg_send x root_release st"

definition objc_storeStrong :: "slot \<Rightarrow> obj \<Rightarrow> arc \<Rightarrow> arc outcome" where
  "objc_storeStrong s x st =
     (let old = vars st s in
      if x = old then Ret st
      else obind (objc_retain x st) (\<lambda>st1.
           objc_release old (st1\<lparr>vars := (vars st1)(s := x)\<rparr>)))"

section \<open>Autorelease pools\<close>

definition root_autorelease :: "obj \<Rightarrow> arc \<Rightarrow> arc outcome" where
  "root_autorelease x st =
     (if x = 0 then Ret st
      else if max_autoreleased \<le> autorelease_top st then Panic ''autorelease pool overflow''
      else Ret (st\<lparr>autorelease_stack := (autorelease_stack st)(autorelease_top st := x),
                   autorelease_top := autorelease_top st + 1\<rparr>))"

definition objc_autorelease :: "obj \<Rightarrow> arc \<Rightarrow> arc outcome" where
  "objc_autorelease x st =
     (if x = 0 then Ret st else if live st x then root_autorelease x st else Fault)"

definition objc_autorelease_try_reclaim_last :: "obj \<Rightarrow> arc \<Rightarrow> bool \<times> arc" where
  "objc_autorelease_try_reclaim_last x st =
     (if 0 < autorelease_top st \<and> autorelease_stack st (autorelease_top st - 1) = x
      then (True, st\<lparr>autorelease_top := autorelease_top st - 1\<rparr>) else (False, st))"

definition objc_retainAutoreleasedReturnValue :: "obj \<Rightarrow> arc \<Rightarrow> arc outcome" where
  "objc_retainAutoreleasedReturnValue x st =
     (if x = 0 then Ret st
      else let (reclaimed, st') = objc_autorelease_try_reclaim_last x st in
        if reclaimed then Ret (root_retain x st') else objc_retain x st')"

definition objc_autoreleasePoolPush :: "arc \<Rightarrow> (nat \<times> arc) outcome" where
  "objc_autoreleasePoolPush st =
     (if max_pool_depth \<le> pool_depth st then Panic ''autorelease pool nesting too deep''
      else Ret (pool_depth st, st\<lparr>pool_marks := (pool_marks st)(pool_depth st := autorelease_top st),
                                  pool_depth := pool_depth st + 1\<rparr>))"

fun release_down :: "nat \<Rightarrow> nat \<Rightarrow> arc \<Rightarrow> arc outcome" where
  "release_down mark 0 st = Ret st"
| "release_down mark (Suc i) st =
     (if i < mark then Ret st
      else obind (objc_release (autorelease_stack st i) st) (release_down mark i))"

text \<open>The token is the index of the pool's mark; any other pointer is stale.\<close>

definition objc_autoreleasePoolPop :: "nat \<Rightarrow> arc \<Rightarrow> arc outcome" where
  "objc_autoreleasePoolPop idx st =
     (if pool_depth st \<le> idx then Ret st
      else let mark = pool_marks st idx in
        obind (release_down mark (autorelease_top st) st) (\<lambda>st'.
          Ret (st'\<lparr>autorelease_top := mark, pool_depth := idx\<rparr>)))"

text \<open>\<open>_objc_rootAlloc\<close>; the address is the allocator's.\<close>

definition root_alloc :: "obj \<Rightarrow> arc \<Rightarrow> arc" where
  "root_alloc x st = st\<lparr>live := (live st)(x := True)\<rparr>"

definition arc_start :: arc where
  "arc_start = \<lparr>live = (\<lambda>_. False), vars = (\<lambda>_. 0), refcounts = [], weak_owners = [],
     autorelease_stack = (\<lambda>_. 0), autorelease_top = 0, pool_marks = (\<lambda>_. 0), pool_depth = 0\<rparr>"

section \<open>Programs\<close>

datatype op = Alloc obj | Retain obj | Release obj | Autorelease obj | RetainReturned obj | Push | Pop nat
  | InitWeak slot obj | StoreWeak slot obj | DestroyWeak slot | CopyWeak slot slot | MoveWeak slot slot
  | StoreStrong slot obj

fun arc_step :: "op \<Rightarrow> arc \<Rightarrow> arc outcome" where
  "arc_step (Alloc x) st = Ret (root_alloc x st)"
| "arc_step (Retain x) st = objc_retain x st"
| "arc_step (Release x) st = objc_release x st"
| "arc_step (Autorelease x) st = objc_autorelease x st"
| "arc_step (RetainReturned x) st = objc_retainAutoreleasedReturnValue x st"
| "arc_step Push st = obind (objc_autoreleasePoolPush st) (\<lambda>(_, st'). Ret st')"
| "arc_step (Pop idx) st = objc_autoreleasePoolPop idx st"
| "arc_step (InitWeak s x) st = Ret (objc_initWeak s x st)"
| "arc_step (StoreWeak s x) st = Ret (objc_storeWeak s x st)"
| "arc_step (DestroyWeak s) st = Ret (objc_destroyWeak s st)"
| "arc_step (CopyWeak d s) st = Ret (objc_copyWeak d s st)"
| "arc_step (MoveWeak d s) st = Ret (objc_moveWeak d s st)"
| "arc_step (StoreStrong s x) st = objc_storeStrong s x st"

fun arc_run :: "op list \<Rightarrow> arc \<Rightarrow> arc outcome" where
  "arc_run [] st = Ret st"
| "arc_run (c # ops) st = obind (arc_step c st) (arc_run ops)"

section \<open>Ownership\<close>

text \<open>
  What a program may rely on: who owns which object.  \<open>held\<close> are the references of variables and
  callers, \<open>pools\<close> those of the autorelease pools, innermost first, the last one the objects
  autoreleased outside any pool; \<open>weak\<close> are the weak variables, \<open>var\<close> the contents of all.
\<close>

record owners =
  held :: "obj multiset"
  pools :: "obj list list"
  weak :: "slot \<Rightarrow> bool"
  var :: "slot \<Rightarrow> obj"

definition owned :: "owners \<Rightarrow> obj multiset" where
  "owned w = held w + mset (concat (pools w))"

text \<open>A weak variable is \<open>nil\<close> once its object has no owner.\<close>

definition settle :: "owners \<Rightarrow> owners" where
  "settle w = w\<lparr>var := (\<lambda>s. if weak w s \<and> var w s \<notin># owned w then 0 else var w s)\<rparr>"

definition valid_ref :: "owners \<Rightarrow> obj \<Rightarrow> bool" where
  "valid_ref w x \<longleftrightarrow> x = 0 \<or> x \<in># owned w"

definition own :: "obj \<Rightarrow> obj multiset" where
  "own x = (if x = 0 then {#} else {#x#})"

definition own_limit :: "owners \<Rightarrow> bool" where
  "own_limit w \<longleftrightarrow> card (set_mset (owned w)) \<le> max_weak_owners \<and> size (owned w) < 2 ^ 63"

text \<open>\<open>None\<close> is a program that breaks the rules: it releases what it does not own, uses an object
  without owner, nests pools or autoreleases past the limits.\<close>

fun own_step :: "op \<Rightarrow> owners \<Rightarrow> owners option" where
  "own_step (Alloc x) w =
     (if x = 0 \<or> x \<in># owned w then None else Some (w\<lparr>held := held w + {#x#}\<rparr>))"
| "own_step (Retain x) w = (if valid_ref w x then Some (w\<lparr>held := held w + own x\<rparr>) else None)"
| "own_step (Release x) w =
     (if own x \<subseteq># held w then Some (settle (w\<lparr>held := held w - own x\<rparr>)) else None)"
| "own_step (Autorelease x) w =
     (if x = 0 then Some w
      else if x \<notin># held w \<or> max_autoreleased \<le> length (concat (pools w)) then None
      else Some (w\<lparr>held := held w - {#x#}, pools := (x # hd (pools w)) # tl (pools w)\<rparr>))"
| "own_step (RetainReturned x) w =
     (if \<not> valid_ref w x \<or> (x \<noteq> 0 \<and> concat (pools w) \<noteq> [] \<and> hd (concat (pools w)) = x) then None
      else Some (w\<lparr>held := held w + own x\<rparr>))"
| "own_step Push w = (if length (pools w) \<le> max_pool_depth then Some (w\<lparr>pools := [] # pools w\<rparr>) else None)"
| "own_step (Pop idx) w =
     (if length (pools w) - 1 \<le> idx then Some w
      else Some (settle (w\<lparr>pools := drop (length (pools w) - 1 - idx) (pools w)\<rparr>)))"
| "own_step (InitWeak s x) w =
     (if weak w s \<or> \<not> valid_ref w x then None
      else Some (w\<lparr>weak := (weak w)(s := True), var := (var w)(s := x)\<rparr>))"
| "own_step (StoreWeak s x) w =
     (if \<not> weak w s \<or> \<not> valid_ref w x then None else Some (w\<lparr>var := (var w)(s := x)\<rparr>))"
| "own_step (DestroyWeak s) w =
     (if \<not> weak w s then None else Some (w\<lparr>weak := (weak w)(s := False), var := (var w)(s := 0)\<rparr>))"
| "own_step (CopyWeak d s) w =
     (if weak w d \<or> \<not> weak w s then None
      else Some (w\<lparr>weak := (weak w)(d := True), var := (var w)(d := var w s)\<rparr>))"
| "own_step (MoveWeak d s) w =
     (if weak w d \<or> \<not> weak w s then None
      else Some (w\<lparr>weak := (weak w)(d := True, s := False), var := (var w)(d := var w s, s := 0)\<rparr>))"
| "own_step (StoreStrong s x) w =
     (if weak w s \<or> \<not> valid_ref w x then None
      else if x = var w s then Some w
      else if \<not> own (var w s) \<subseteq># held w then None
      else Some (settle (w\<lparr>held := held w + own x - own (var w s), var := (var w)(s := x)\<rparr>)))"

fun own_run :: "op list \<Rightarrow> owners \<Rightarrow> owners option" where
  "own_run [] w = Some w"
| "own_run (c # ops) w =
     (case own_step c w of None \<Rightarrow> None | Some w' \<Rightarrow> if own_limit w' then own_run ops w' else None)"

definition own_start :: owners where
  "own_start = \<lparr>held = {#}, pools = [[]], weak = (\<lambda>_. False), var = (\<lambda>_. 0)\<rparr>"

section \<open>The tables as sets of references\<close>

definition extra :: "(obj \<times> u64) list \<Rightarrow> obj \<Rightarrow> u64" where
  "extra l x = (case map_of l x of None \<Rightarrow> 0 | Some e \<Rightarrow> e)"

definition counts_ok :: "obj multiset \<Rightarrow> (obj \<times> u64) list \<Rightarrow> bool" where
  "counts_ok R l \<longleftrightarrow> distinct (map fst l) \<and> dom (map_of l) \<subseteq> set_mset R \<and>
     (\<forall>x\<in>#R. count R x = Suc (unat (extra l x)))"

definition weak_ok :: "(slot \<Rightarrow> bool) \<Rightarrow> (slot \<Rightarrow> obj) \<Rightarrow> (obj \<times> slot list) list \<Rightarrow> bool" where
  "weak_ok W V l \<longleftrightarrow> distinct (map fst l) \<and> (\<forall>x ss. map_of l x = Some ss \<longrightarrow> distinct ss) \<and>
     (\<forall>x s. (\<exists>ss. map_of l x = Some ss \<and> s \<in> set ss) \<longleftrightarrow> x \<noteq> 0 \<and> W s \<and> V s = x)"

text \<open>\<open>R\<close> are all references, \<open>W\<close> the weak variables.\<close>

definition core :: "obj multiset \<Rightarrow> (slot \<Rightarrow> bool) \<Rightarrow> arc \<Rightarrow> bool" where
  "core R W st \<longleftrightarrow> 0 \<notin># R \<and> (\<forall>x. live st x \<longleftrightarrow> x \<in># R) \<and> counts_ok R (refcounts st) \<and>
     dom (map_of (weak_owners st)) \<subseteq> set_mset R \<and> weak_ok W (vars st) (weak_owners st) \<and>
     (\<forall>s. W s \<longrightarrow> vars st s = 0 \<or> vars st s \<in># R)"

definition settle_vars :: "obj multiset \<Rightarrow> (slot \<Rightarrow> bool) \<Rightarrow> (slot \<Rightarrow> obj) \<Rightarrow> slot \<Rightarrow> obj" where
  "settle_vars R W V s = (if W s \<and> V s \<notin># R then 0 else V s)"

definition same_pools :: "arc \<Rightarrow> arc \<Rightarrow> bool" where
  "same_pools st st' \<longleftrightarrow> autorelease_stack st' = autorelease_stack st \<and> autorelease_top st' = autorelease_top st \<and>
     pool_marks st' = pool_marks st \<and> pool_depth st' = pool_depth st"

lemma length_le_dom:
  assumes "distinct (map fst l)" "dom (map_of l) \<subseteq> set_mset R" "x \<in># R" "map_of l x = None"
  shows "length l < card (set_mset R)"
proof -
  have "length l = card (fst ` set l)" using distinct_card [OF assms(1)] by simp
  also have "\<dots> = card (dom (map_of l))" by (simp add: dom_map_of_conv_image_fst)
  also have "\<dots> < card (set_mset R)"
    by (rule psubset_card_mono) (use assms(2-4) in auto)
  finally show ?thesis .
qed

lemma counts_okD:
  "counts_ok R l \<Longrightarrow> x \<in># R \<Longrightarrow> count R x = Suc (unat (extra l x))"
  by (simp add: counts_ok_def)

lemma counts_ok_change:
  assumes "counts_ok R l" "distinct (map fst l')" "map_of l' = (map_of l)(x \<mapsto> e)" "x \<in># R'"
    "count R' x = Suc (unat e)" "\<And>y. y \<noteq> x \<Longrightarrow> count R' y = count R y"
  shows "counts_ok R' l'"
proof -
  have in_R: "y \<in># R' \<longleftrightarrow> y \<in># R" if "y \<noteq> x" for y
    using assms(6) [OF that] by (metis count_eq_zero_iff)
  have "count R' y = Suc (unat (extra l' y))" if "y \<in># R'" for y
    using assms in_R that counts_okD [OF assms(1), of y] by (cases "y = x") (simp_all add: extra_def)
  moreover have "dom (map_of l') \<subseteq> set_mset R'"
  proof
    fix y assume "y \<in> dom (map_of l')"
    with assms(3) have "y = x \<or> y \<in> dom (map_of l)" by (auto split: if_splits)
    with assms(1, 4) in_R [of y] show "y \<in># R'" unfolding counts_ok_def by blast
  qed
  ultimately show ?thesis using assms(2) by (simp add: counts_ok_def)
qed

lemma retain_counts:
  assumes "counts_ok R (refcounts st)" "x \<in># R" "x \<noteq> 0" "card (set_mset R) \<le> max_refcounted"
    "count R x < 2 ^ 63"
  shows "\<exists>l. root_retain x st = st\<lparr>refcounts := l\<rparr> \<and> counts_ok (add_mset x R) l"
proof -
  have d: "distinct (map fst (refcounts st))" using assms(1) by (simp add: counts_ok_def)
  have c: "count R x = Suc (unat (extra (refcounts st) x))" by (rule counts_okD [OF assms(1, 2)])
  have up: "unat (e + 1) = Suc (unat e)" if "unat e < 2 ^ 63" for e :: u64
    using unat_add_lem [of e 1, THEN iffD1] that by simp
  show ?thesis
  proof (cases "find_refcount x st")
    case None
    then have i: "index_of x (refcounts st) = None" by (simp add: find_refcount_def)
    then have m: "map_of (refcounts st) x = None" by (simp add: index_of_None)
    have "length (refcounts st) < max_refcounted"
      using length_le_dom [OF d _ assms(2) m] assms(1, 4) by (simp add: counts_ok_def)
    moreover have "counts_ok (add_mset x R) (refcounts st @ [(x, 1)])"
      by (rule counts_ok_change [OF assms(1) table_snoc [OF i d]]) (use c m in \<open>simp_all add: extra_def\<close>)
    ultimately show ?thesis using None assms(3) by (auto simp: root_retain_def)
  next
    case (Some i)
    then have i: "index_of x (refcounts st) = Some i" by (simp add: find_refcount_def)
    have e: "extra (refcounts st) x = snd (refcounts st ! i)"
      using index_of_Some [OF i] by (simp add: extra_def)
    have "counts_ok (add_mset x R) ((refcounts st)[i := (x, snd (refcounts st ! i) + 1)])"
      by (rule counts_ok_change [OF assms(1) table_update(1, 2) [OF i d]])
        (use c e assms(5) up in simp_all)
    with Some assms(3) show ?thesis by (auto simp: root_retain_def)
  qed
qed

lemma counts_ok_remove:
  assumes "counts_ok R l" "distinct (map fst l')" "map_of l' = (map_of l)(x := None)" "count R x = 1"
  shows "counts_ok (R - {#x#}) l'"
proof -
  have x: "x \<notin># R - {#x#}" using assms(4) by (simp flip: count_eq_zero_iff)
  have "count (R - {#x#}) y = Suc (unat (extra l' y))" if "y \<in># R - {#x#}" for y
    using that x assms(1, 3) in_diffD [OF that] by (cases "y = x") (simp_all add: extra_def counts_ok_def)
  moreover have "dom (map_of l') \<subseteq> set_mset (R - {#x#})"
  proof
    fix y assume "y \<in> dom (map_of l')"
    with assms(3) have "y \<noteq> x" "y \<in> dom (map_of l)" by (auto split: if_splits)
    with assms(1) have "y \<in># R" by (auto simp: counts_ok_def)
    with \<open>y \<noteq> x\<close> show "y \<in># R - {#x#}" by (simp flip: count_greater_zero_iff)
  qed
  ultimately show ?thesis using assms(2) by (simp add: counts_ok_def)
qed

text \<open>A release lowers the count, or deallocates when it is the last one.\<close>

lemma release_counts:
  assumes "counts_ok R (refcounts st)" "x \<in># R" "x \<noteq> 0"
  shows "\<exists>l. counts_ok (R - {#x#}) l \<and>
    root_release x st = (if count R x = 1 then root_dealloc x (st\<lparr>refcounts := l\<rparr>) else st\<lparr>refcounts := l\<rparr>)"
proof -
  have d: "distinct (map fst (refcounts st))" using assms(1) by (simp add: counts_ok_def)
  have c: "count R x = Suc (unat (extra (refcounts st) x))" by (rule counts_okD [OF assms(1, 2)])
  show ?thesis
  proof (cases "find_refcount x st")
    case None
    then have m: "map_of (refcounts st) x = None" by (simp add: find_refcount_def index_of_None)
    with c have c1: "count R x = 1" by (simp add: extra_def)
    have "counts_ok (R - {#x#}) (refcounts st)"
      by (rule counts_ok_remove [OF assms(1) d _ c1]) (use m in auto)
    with None assms(3) c1 show ?thesis by (auto simp: root_release_def)
  next
    case (Some i)
    then have i: "index_of x (refcounts st) = Some i" by (simp add: find_refcount_def)
    let ?e = "snd (refcounts st ! i)"
    have e: "extra (refcounts st) x = ?e"
      using index_of_Some [OF i] by (simp add: extra_def)
    show ?thesis
    proof (cases "?e = 0")
      case True
      with c e have c1: "count R x = 1" by simp
      have "counts_ok (R - {#x#}) (swap_remove i (refcounts st))"
        by (rule counts_ok_remove [OF assms(1) table_remove(1, 2) [OF i d] c1])
      with Some True assms(3) c1 show ?thesis by (auto simp: root_release_def)
    next
      case False
      then have pos: "0 < ?e" "0 < unat ?e" by (simp_all add: word_gt_0 unat_gt_0)
      then have down: "unat (?e - 1) = unat ?e - 1" by (simp add: unat_minus_one)
      have c2: "count R x \<noteq> 1" using c e pos by simp
      have "x \<in># R - {#x#}" using c e pos by (simp flip: count_greater_zero_iff)
      then have "counts_ok (R - {#x#}) ((refcounts st)[i := (x, ?e - 1)])"
        by (intro counts_ok_change [OF assms(1) table_update(1, 2) [OF i d]])
          (use c e pos down in auto)
      with Some pos(1) assms(3) c2 show ?thesis by (auto simp: root_release_def)
    qed
  qed
qed

text \<open>Clearing the weak variables of a dying object.\<close>

lemma fold_clear: "fold (\<lambda>s v. v(s := 0)) ss V = (\<lambda>s. if s \<in> set ss then 0 else V s :: obj)"
  by (induction ss arbitrary: V) (auto simp: fun_eq_iff)

lemma weak_clear:
  assumes "weak_ok W (vars st) (weak_owners st)" "x \<noteq> 0"
  shows "\<exists>l. objc_weak_clear_object x st
      = st\<lparr>vars := (\<lambda>s. if W s \<and> vars st s = x then 0 else vars st s), weak_owners := l\<rparr> \<and>
    map_of l = (map_of (weak_owners st))(x := None) \<and>
    weak_ok W (\<lambda>s. if W s \<and> vars st s = x then 0 else vars st s) l"
    (is "\<exists>l. _ = st\<lparr>vars := ?V, weak_owners := l\<rparr> \<and> _")
proof -
  let ?l = "weak_owners st"
  have d: "distinct (map fst ?l)" using assms(1) by (simp add: weak_ok_def)
  have slots: "(\<exists>ss. map_of ?l y = Some ss \<and> s \<in> set ss) \<longleftrightarrow> y \<noteq> 0 \<and> W s \<and> vars st s = y" for y s
    using assms(1) unfolding weak_ok_def by blast
  have ok: "weak_ok W ?V l" if l: "distinct (map fst l)" "map_of l = (map_of ?l)(x := None)" for l
  proof -
    have "(\<exists>ss. map_of l y = Some ss \<and> s \<in> set ss) \<longleftrightarrow> y \<noteq> 0 \<and> W s \<and> ?V s = y" for y s
      using slots [of y s] by (auto simp: l(2))
    then show ?thesis using assms(1) l by (auto simp: weak_ok_def)
  qed
  show ?thesis
  proof (cases "find_weak_owner x st")
    case None
    then have m: "map_of ?l x = None" by (simp add: find_weak_owner_def index_of_None)
    have "?V = vars st" using slots [of x] m assms(2) by (auto simp: fun_eq_iff)
    moreover have "map_of ?l = (map_of ?l)(x := None)" using m by auto
    ultimately show ?thesis using None ok [OF d]
      by (intro exI [of _ ?l]) (simp add: objc_weak_clear_object_def)
  next
    case (Some i)
    then have i: "index_of x ?l = Some i" by (simp add: find_weak_owner_def)
    have "fold (\<lambda>s v. v(s := 0)) (snd (?l ! i)) (vars st) = ?V"
      using slots [of x] index_of_Some [OF i] assms(2) by (auto simp: fold_clear fun_eq_iff)
    with Some ok [OF table_remove(1, 2) [OF i d]] table_remove(2) [OF i d] show ?thesis
      by (auto simp: objc_weak_clear_object_def)
  qed
qed

section \<open>Retain and release on the whole state\<close>

lemma in_remove1: "y \<in># R - {#x#} \<longleftrightarrow> y \<in># R \<and> (y = x \<longrightarrow> count R x \<noteq> 1)"
proof (cases "y = x")
  case True
  have "x \<in># R - {#x#} \<longleftrightarrow> 1 < count R x" by (simp add: in_diff_count)
  moreover have "x \<in># R \<longleftrightarrow> 0 < count R x" by simp
  ultimately show ?thesis using True by (metis One_nat_def less_one linorder_neqE_nat not_less_zero)
qed (simp add: in_diff_count)

lemma retain_core:
  assumes "core R W st" "x \<in># R" "card (set_mset R) \<le> max_refcounted" "count R x < 2 ^ 63"
  shows "core (add_mset x R) W (root_retain x st) \<and> vars (root_retain x st) = vars st \<and>
    same_pools st (root_retain x st)"
proof -
  from assms(1, 2) have x: "x \<noteq> 0" by (auto simp: core_def)
  have "counts_ok R (refcounts st)" using assms(1) by (simp add: core_def)
  from retain_counts [OF this assms(2) x assms(3, 4)] obtain l
    where l: "root_retain x st = st\<lparr>refcounts := l\<rparr>" "counts_ok (add_mset x R) l" by blast
  with assms(1, 2) show ?thesis by (auto simp: core_def same_pools_def)
qed

lemma release_core:
  assumes "core R W st" "x \<in># R"
  shows "\<exists>st'. objc_release x st = Ret st' \<and> core (R - {#x#}) W st' \<and>
    vars st' = settle_vars (R - {#x#}) W (vars st) \<and> same_pools st st'"
proof -
  from assms have x: "x \<noteq> 0" "live st x" by (auto simp: core_def)
  have "counts_ok R (refcounts st)" using assms(1) by (simp add: core_def)
  from release_counts [OF this assms(2) x(1)] obtain l where l: "counts_ok (R - {#x#}) l"
    "root_release x st = (if count R x = 1 then root_dealloc x (st\<lparr>refcounts := l\<rparr>) else st\<lparr>refcounts := l\<rparr>)"
    by blast
  have run: "objc_release x st = Ret (root_release x st)" using x by (simp add: objc_release_def msg_send_def)
  have weak: "vars st s = 0 \<or> vars st s \<in># R" if "W s" for s using assms(1) that by (simp add: core_def)
  show ?thesis
  proof (cases "count R x = 1")
    case False
    then have same: "y \<in># R - {#x#} \<longleftrightarrow> y \<in># R" for y by (simp add: in_remove1)
    have "settle_vars (R - {#x#}) W (vars st) = vars st"
      using weak by (auto simp: settle_vars_def same fun_eq_iff)
    moreover have "core (R - {#x#}) W (st\<lparr>refcounts := l\<rparr>)"
      using assms(1) l(1) same by (auto simp: core_def)
    ultimately show ?thesis using run l(2) False by (simp add: same_pools_def)
  next
    case True
    then have gone: "y \<in># R - {#x#} \<longleftrightarrow> y \<in># R \<and> y \<noteq> x" for y by (auto simp: in_remove1)
    have "weak_ok W (vars (st\<lparr>refcounts := l\<rparr>)) (weak_owners (st\<lparr>refcounts := l\<rparr>))"
      using assms(1) by (simp add: core_def)
    from weak_clear [OF this x(1)] obtain w where w: "objc_weak_clear_object x (st\<lparr>refcounts := l\<rparr>) =
        st\<lparr>refcounts := l, vars := (\<lambda>s. if W s \<and> vars st s = x then 0 else vars st s), weak_owners := w\<rparr>"
      "map_of w = (map_of (weak_owners st))(x := None)"
      "weak_ok W (\<lambda>s. if W s \<and> vars st s = x then 0 else vars st s) w"
      by (auto cong: if_cong)
    have V: "settle_vars (R - {#x#}) W (vars st) = (\<lambda>s. if W s \<and> vars st s = x then 0 else vars st s)"
      using weak by (auto simp: settle_vars_def gone fun_eq_iff)
    have "core (R - {#x#}) W (root_release x st)"
      using assms(1) l True w gone weak by (auto simp: core_def root_dealloc_def)
    then show ?thesis using run l(2) True w(1) V by (simp add: root_dealloc_def same_pools_def)
  qed
qed

lemma settle_vars_twice:
  "set_mset R \<subseteq> set_mset R' \<Longrightarrow> settle_vars R W (settle_vars R' W V) = settle_vars R W V"
  by (auto simp: settle_vars_def fun_eq_iff)

lemma settle_vars_id:
  "core R W st \<Longrightarrow> settle_vars R W (vars st) = vars st"
  by (auto simp: settle_vars_def core_def fun_eq_iff)

text \<open>A drain releases the objects between the mark and the top.\<close>

lemma release_down_core:
  assumes "core (R + mset (map (autorelease_stack st) [mark..<n])) W st" "mark \<le> n"
  shows "\<exists>st'. release_down mark n st = Ret st' \<and> core R W st' \<and>
    vars st' = settle_vars R W (vars st) \<and> same_pools st st'"
  using assms
proof (induction n arbitrary: st)
  case 0
  then show ?case by (simp add: settle_vars_id same_pools_def)
next
  case (Suc i)
  show ?case
  proof (cases "i < mark")
    case True
    with Suc.prems(2) have "mark = Suc i" by simp
    with Suc.prems(1) show ?thesis by (simp add: settle_vars_id same_pools_def)
  next
    case False
    let ?x = "autorelease_stack st i" and ?R = "R + mset (map (autorelease_stack st) [mark..<i])"
    from False Suc.prems(1) have c: "core (add_mset ?x ?R) W st" by simp
    from release_core [OF c, of ?x] obtain st1 where st1: "objc_release ?x st = Ret st1" "core ?R W st1"
      "vars st1 = settle_vars ?R W (vars st)" "same_pools st st1" by auto
    from st1(4) have stack: "autorelease_stack st1 = autorelease_stack st" by (simp add: same_pools_def)
    from Suc.IH [of st1] st1(2) False stack obtain st2 where st2: "release_down mark i st1 = Ret st2"
      "core R W st2" "vars st2 = settle_vars R W (vars st1)" "same_pools st1 st2" by auto
    have "release_down mark (Suc i) st = Ret st2" using False st1(1) st2(1) by simp
    moreover have "vars st2 = settle_vars R W (vars st)"
      unfolding st2(3) st1(3) by (rule settle_vars_twice) simp
    ultimately show ?thesis using st2(2, 4) st1(4) by (auto simp: same_pools_def)
  qed
qed

section \<open>Weak variables on the whole state\<close>

lemma mset_remove_slot: "mset (remove_slot s l) = mset l - {#s#}"
proof -
  have idx: "slot_index s l = None \<and> s \<notin> set l \<or>
    (\<exists>a b. slot_index s l = Some (length a) \<and> l = a @ s # b)" for l
  proof (induction l)
    case (Cons t l)
    show ?case
    proof (cases "t = s")
      case True
      then show ?thesis by (intro disjI2 exI [of _ "[]"] exI [of _ l]) simp
    next
      case False
      from Cons show ?thesis
      proof (elim disjE exE conjE)
        fix a b assume "slot_index s l = Some (length a)" "l = a @ s # b"
        with False show ?thesis by (intro disjI2 exI [of _ "t # a"] exI [of _ b]) simp
      qed (use False in simp)
    qed
  qed simp
  show ?thesis using idx [of l]
    by (auto simp: remove_slot_def swap_remove_split diff_single_trivial)
qed

lemma set_remove_slot: "distinct l \<Longrightarrow> set (remove_slot s l) = set l - {s}"
  by (metis mset_remove_slot mset_remove1 set_mset_mset set_remove1_eq)

lemma distinct_remove_slot: "distinct l \<Longrightarrow> distinct (remove_slot s l)"
  by (metis mset_remove_slot mset_remove1 mset_eq_imp_distinct_iff distinct_remove1)

lemma weak_okD:
  "weak_ok W V l \<Longrightarrow> (\<exists>ss. map_of l x = Some ss \<and> s \<in> set ss) \<longleftrightarrow> x \<noteq> 0 \<and> W s \<and> V s = x"
  "weak_ok W V l \<Longrightarrow> distinct (map fst l)"
  "weak_ok W V l \<Longrightarrow> map_of l x = Some ss \<Longrightarrow> distinct ss"
  unfolding weak_ok_def by blast+

lemma weak_okI:
  assumes "distinct (map fst l)" "\<And>x ss. map_of l x = Some ss \<Longrightarrow> distinct ss"
    "\<And>x s. (\<exists>ss. map_of l x = Some ss \<and> s \<in> set ss) \<longleftrightarrow> x \<noteq> 0 \<and> W s \<and> V s = x"
  shows "weak_ok W V l"
  using assms unfolding weak_ok_def by blast

text \<open>A variable that is taken off its object's list is weak no more.\<close>

lemma remove_slot_ok:
  assumes "weak_ok W V (weak_owners st)" "V s \<noteq> 0"
  shows "\<exists>l. weak_owner_remove_slot (V s) s st = st\<lparr>weak_owners := l\<rparr> \<and>
    dom (map_of l) = dom (map_of (weak_owners st)) \<and> weak_ok (W(s := False)) V l"
proof (cases "find_weak_owner (V s) st")
  case None
  let ?l = "weak_owners st"
  from None have m: "map_of ?l (V s) = None" by (simp add: find_weak_owner_def index_of_None)
  with weak_okD(1) [OF assms(1), of "V s" s] assms(2) have "\<not> W s" by simp
  then have "W(s := False) = W" by (intro fun_upd_idem) simp
  with assms(1) None show ?thesis
    by (intro exI [of _ ?l]) (simp add: weak_owner_remove_slot_def)
next
  case (Some i)
  let ?l = "weak_owners st"
  let ?ss = "snd (?l ! i)"
  let ?l' = "?l[i := (V s, remove_slot s ?ss)]"
  from Some have i: "index_of (V s) ?l = Some i" by (simp add: find_weak_owner_def)
  note d = weak_okD(2) [OF assms(1)]
  note t = table_update [OF i d, of "remove_slot s ?ss"]
  have ss: "map_of ?l (V s) = Some ?ss" using index_of_Some [OF i] by simp
  have "distinct ?ss" by (rule weak_okD(3) [OF assms(1) ss])
  note rs = set_remove_slot [OF this, of s] distinct_remove_slot [OF this, of s]
  have "weak_ok (W(s := False)) V ?l'"
  proof (rule weak_okI)
    show "distinct (map fst ?l')" by (rule t(1))
    show "distinct ss" if "map_of ?l' x = Some ss" for x ss
    proof (cases "x = V s")
      case True
      with that have "ss = remove_slot s ?ss" by (simp add: t(2))
      with rs(2) show ?thesis by simp
    next
      case False
      with that have "map_of ?l x = Some ss" by (simp add: t(2))
      then show ?thesis by (rule weak_okD(3) [OF assms(1)])
    qed
    show "(\<exists>ss. map_of ?l' x = Some ss \<and> u \<in> set ss) \<longleftrightarrow> x \<noteq> 0 \<and> (W(s := False)) u \<and> V u = x" for x u
    proof (cases "x = V s")
      case True
      have "(\<exists>ss. map_of ?l' (V s) = Some ss \<and> u \<in> set ss) \<longleftrightarrow> u \<noteq> s \<and> (\<exists>ss. map_of ?l (V s) = Some ss \<and> u \<in> set ss)"
        using ss rs(1) by (simp add: t(2)) blast
      with True weak_okD(1) [OF assms(1), of "V s" u] show ?thesis by (cases "u = s") simp_all
    next
      case False
      then have "map_of ?l' x = map_of ?l x" by (simp add: t(2))
      with False weak_okD(1) [OF assms(1), of x u] show ?thesis by (cases "u = s") simp_all
    qed
  qed
  moreover have "dom (map_of ?l') = dom (map_of ?l)" unfolding t(2) using ss by (simp add: insert_absorb domI)
  moreover have "weak_owner_remove_slot (V s) s st = st\<lparr>weak_owners := ?l'\<rparr>"
    using Some by (simp add: weak_owner_remove_slot_def)
  ultimately show ?thesis by blast
qed

lemma add_slot_ok:
  assumes "weak_ok W V (weak_owners st)" "\<not> W s" "x \<noteq> 0" "x \<in># R"
    "dom (map_of (weak_owners st)) \<subseteq> set_mset R" "card (set_mset R) \<le> max_weak_owners"
  shows "\<exists>l. weak_owner_add_slot x s st = st\<lparr>weak_owners := l\<rparr> \<and>
    dom (map_of l) \<subseteq> set_mset R \<and> weak_ok (W(s := True)) (V(s := x)) l"
proof -
  let ?l = "weak_owners st"
  note d = weak_okD(2) [OF assms(1)]
  have off: "s \<notin> set ss" if "map_of ?l y = Some ss" for y ss
    using weak_okD(1) [OF assms(1), of y s] assms(2) that by simp
  have ok: "weak_ok (W(s := True)) (V(s := x)) l \<and> dom (map_of l) \<subseteq> set_mset R"
    if l: "distinct (map fst l)" "map_of l = (map_of ?l)(x \<mapsto> old @ [s])"
      and old: "(case map_of ?l x of None \<Rightarrow> [] | Some ss \<Rightarrow> ss) = old" for l old
  proof
    show "dom (map_of l) \<subseteq> set_mset R" using assms(4, 5) by (simp add: l(2))
    show "weak_ok (W(s := True)) (V(s := x)) l"
    proof (rule weak_okI)
      show "distinct ss" if m: "map_of l y = Some ss" for y ss
      proof (cases "y = x")
        case True
        with m l(2) have "ss = old @ [s]" by simp
        moreover have "distinct old \<and> s \<notin> set old"
        proof (cases "map_of ?l x")
          case (Some ss)
          with old weak_okD(3) [OF assms(1) Some] off [OF Some] show ?thesis by simp
        qed (use old in simp)
        ultimately show ?thesis by simp
      next
        case False
        with m l(2) have "map_of ?l y = Some ss" by simp
        then show ?thesis by (rule weak_okD(3) [OF assms(1)])
      qed
      show "(\<exists>ss. map_of l y = Some ss \<and> u \<in> set ss) \<longleftrightarrow> y \<noteq> 0 \<and> (W(s := True)) u \<and> (V(s := x)) u = y" for y u
      proof (cases "y = x")
        case True
        have "(\<exists>ss. map_of l x = Some ss \<and> u \<in> set ss) \<longleftrightarrow> u = s \<or> (\<exists>ss. map_of ?l x = Some ss \<and> u \<in> set ss)"
          using old by (auto simp: l(2) split: option.splits)
        with True weak_okD(1) [OF assms(1), of x u] assms(3) show ?thesis by (cases "u = s") simp_all
      next
        case False
        then have "map_of l y = map_of ?l y" by (simp add: l(2))
        with False weak_okD(1) [OF assms(1), of y u] assms(2) show ?thesis by (cases "u = s") simp_all
      qed
    qed (rule l(1))
  qed
  show ?thesis
  proof (cases "find_weak_owner x st")
    case None
    then have i: "index_of x ?l = None" by (simp add: find_weak_owner_def)
    then have m: "map_of ?l x = None" by (simp add: index_of_None)
    have "length ?l < max_weak_owners" using length_le_dom [OF d assms(5, 4) m] assms(6) by simp
    then have "weak_owner_add_slot x s st = st\<lparr>weak_owners := ?l @ [(x, [s])]\<rparr>"
      using None by (simp add: weak_owner_add_slot_def)
    moreover have "weak_ok (W(s := True)) (V(s := x)) (?l @ [(x, [s])]) \<and> dom (map_of (?l @ [(x, [s])])) \<subseteq> set_mset R"
      by (rule ok [where old = "[]"]) (use table_snoc [OF i d, of "[s]"] m in simp_all)
    ultimately show ?thesis by blast
  next
    case (Some i)
    then have i: "index_of x ?l = Some i" by (simp add: find_weak_owner_def)
    have m: "map_of ?l x = Some (snd (?l ! i))" using index_of_Some [OF i] by simp
    let ?l' = "?l[i := (x, snd (?l ! i) @ [s])]"
    have "weak_owner_add_slot x s st = st\<lparr>weak_owners := ?l'\<rparr>"
      using Some by (simp add: weak_owner_add_slot_def)
    moreover have "weak_ok (W(s := True)) (V(s := x)) ?l' \<and> dom (map_of ?l') \<subseteq> set_mset R"
      by (rule ok [OF table_update(1, 2) [OF i d]]) (simp add: m)
    ultimately show ?thesis by blast
  qed
qed

lemma weak_ok_clear:
  "weak_ok W V l \<Longrightarrow> \<not> W s \<Longrightarrow> weak_ok (W(s := b)) (V(s := 0)) l"
proof -
  assume a: "weak_ok W V l" "\<not> W s"
  show "weak_ok (W(s := b)) (V(s := 0)) l"
  proof (rule weak_okI)
    show "(\<exists>ss. map_of l x = Some ss \<and> u \<in> set ss) \<longleftrightarrow> x \<noteq> 0 \<and> (W(s := b)) u \<and> (V(s := 0)) u = x" for x u
      using weak_okD(1) [OF a(1), of x u] a(2) by (cases "u = s") auto
  qed (use weak_okD(2, 3) [OF a(1)] in blast)+
qed

text \<open>Storing into a variable that is weak, or \<open>nil\<close>.\<close>

lemma store_core:
  assumes "core R W st" "x = 0 \<or> x \<in># R" "card (set_mset R) \<le> max_weak_owners"
    "W s \<or> vars st s = 0"
  shows "core R (W(s := True)) (objc_storeWeak s x st) \<and>
    vars (objc_storeWeak s x st) = (vars st)(s := x) \<and> same_pools st (objc_storeWeak s x st)"
proof -
  have c: "0 \<notin># R" "\<forall>x. live st x \<longleftrightarrow> x \<in># R" "counts_ok R (refcounts st)"
    "dom (map_of (weak_owners st)) \<subseteq> set_mset R" "weak_ok W (vars st) (weak_owners st)"
    "\<forall>s. W s \<longrightarrow> vars st s = 0 \<or> vars st s \<in># R"
    using assms(1) unfolding core_def by blast+
  define st1 where "st1 = (if vars st s \<noteq> 0 then weak_owner_remove_slot (vars st s) s st else st)"
  have "\<exists>l. st1 = st\<lparr>weak_owners := l\<rparr> \<and> dom (map_of l) \<subseteq> set_mset R \<and> weak_ok (W(s := False)) (vars st) l"
  proof (cases "vars st s = 0")
    case True
    have "weak_ok (W(s := False)) (vars st) (weak_owners st)"
    proof (rule weak_okI)
      show "(\<exists>ss. map_of (weak_owners st) x = Some ss \<and> u \<in> set ss) \<longleftrightarrow>
          x \<noteq> 0 \<and> (W(s := False)) u \<and> vars st u = x" for x u
        using weak_okD(1) [OF c(5), of x u] True by (cases "u = s") auto
    qed (use weak_okD(2, 3) [OF c(5)] in blast)+
    with True c(4) show ?thesis by (intro exI [of _ "weak_owners st"]) (simp add: st1_def)
  next
    case False
    from remove_slot_ok [OF c(5) False] obtain l where
      "weak_owner_remove_slot (vars st s) s st = st\<lparr>weak_owners := l\<rparr>"
      "dom (map_of l) = dom (map_of (weak_owners st))" "weak_ok (W(s := False)) (vars st) l" by blast
    with False c(4) show ?thesis by (intro exI [of _ l]) (simp add: st1_def)
  qed
  then obtain l1 where l1: "st1 = st\<lparr>weak_owners := l1\<rparr>" "dom (map_of l1) \<subseteq> set_mset R"
    "weak_ok (W(s := False)) (vars st) l1" by blast
  define st2 where "st2 = (if x \<noteq> 0 then weak_owner_add_slot x s st1 else st1)"
  have W: "(W(s := False))(s := True) = W(s := True)" by simp
  have "\<exists>l. st2 = st\<lparr>weak_owners := l\<rparr> \<and> dom (map_of l) \<subseteq> set_mset R \<and>
      weak_ok (W(s := True)) ((vars st)(s := x)) l"
  proof (cases "x = 0")
    case True
    from weak_ok_clear [OF l1(3), of s True] l1 True W show ?thesis
      by (intro exI [of _ l1]) (simp add: st2_def)
  next
    case False
    have "weak_ok (W(s := False)) (vars st) (weak_owners st1)" "dom (map_of (weak_owners st1)) \<subseteq> set_mset R"
      using l1 by simp_all
    from add_slot_ok [OF this(1) _ False _ this(2) assms(3), of s] assms(2) False W obtain l
      where "weak_owner_add_slot x s st1 = st1\<lparr>weak_owners := l\<rparr>" "dom (map_of l) \<subseteq> set_mset R"
        "weak_ok (W(s := True)) ((vars st)(s := x)) l" by auto
    with False l1(1) show ?thesis by (intro exI [of _ l]) (simp add: st2_def)
  qed
  then obtain l2 where l2: "st2 = st\<lparr>weak_owners := l2\<rparr>" "dom (map_of l2) \<subseteq> set_mset R"
    "weak_ok (W(s := True)) ((vars st)(s := x)) l2" by blast
  have "objc_storeWeak s x st = st2\<lparr>vars := (vars st2)(s := x)\<rparr>"
    by (simp add: objc_storeWeak_def Let_def st2_def st1_def)
  then have e: "objc_storeWeak s x st = st\<lparr>weak_owners := l2, vars := (vars st)(s := x)\<rparr>"
    by (simp add: l2(1))
  have "core R (W(s := True)) (objc_storeWeak s x st)"
    unfolding core_def e using c(1-3, 6) l2(2, 3) assms(2) by simp
  then show ?thesis by (simp add: e same_pools_def)
qed

lemma init_core:
  assumes "core R W st" "x = 0 \<or> x \<in># R" "card (set_mset R) \<le> max_weak_owners" "\<not> W s"
  shows "core R (W(s := True)) (objc_initWeak s x st) \<and>
    vars (objc_initWeak s x st) = (vars st)(s := x) \<and> same_pools st (objc_initWeak s x st)"
proof -
  let ?st = "st\<lparr>vars := (vars st)(s := 0)\<rparr>"
  have "weak_ok W ((vars st)(s := 0)) (weak_owners st)"
    using weak_ok_clear [of W "vars st" "weak_owners st" s False] assms(1, 4)
    by (simp add: core_def fun_upd_idem)
  then have "core R W ?st" using assms(1, 4) by (auto simp: core_def)
  from store_core [OF this assms(2, 3), of s] show ?thesis
    by (simp add: objc_initWeak_def same_pools_def)
qed

lemma destroy_core:
  assumes "core R W st" "W s" "card (set_mset R) \<le> max_weak_owners"
  shows "core R (W(s := False)) (objc_destroyWeak s st) \<and>
    vars (objc_destroyWeak s st) = (vars st)(s := 0) \<and> same_pools st (objc_destroyWeak s st)"
proof -
  from store_core [OF assms(1) _ assms(3), of 0 s] assms(2)
  have s: "core R W (objc_destroyWeak s st)" "vars (objc_destroyWeak s st) = (vars st)(s := 0)"
    "same_pools st (objc_destroyWeak s st)"
    by (simp_all add: objc_destroyWeak_def fun_upd_idem)
  let ?l = "weak_owners (objc_destroyWeak s st)"
  have w: "weak_ok W ((vars st)(s := 0)) ?l" using s by (simp add: core_def)
  have "weak_ok (W(s := False)) ((vars st)(s := 0)) ?l"
  proof (rule weak_okI)
    show "(\<exists>ss. map_of ?l x = Some ss \<and> u \<in> set ss) \<longleftrightarrow>
        x \<noteq> 0 \<and> (W(s := False)) u \<and> ((vars st)(s := 0)) u = x" for x u
      using weak_okD(1) [OF w, of x u] by (cases "u = s") auto
  qed (use weak_okD(2, 3) [OF w] in blast)+
  with s show ?thesis by (auto simp: core_def)
qed

section \<open>The runtime implements ownership\<close>

text \<open>The stack holds the pools' objects, outermost pool first, and a mark is where its pool begins.\<close>

definition pools_ok :: "obj list list \<Rightarrow> arc \<Rightarrow> bool" where
  "pools_ok P st \<longleftrightarrow> P \<noteq> [] \<and> autorelease_top st = length (concat P) \<and>
     map (autorelease_stack st) [0..<autorelease_top st] = rev (concat P) \<and>
     pool_depth st = length P - 1 \<and>
     (\<forall>i < pool_depth st. pool_marks st i = length (concat (drop (pool_depth st - i) P)))"

definition inv :: "owners \<Rightarrow> arc \<Rightarrow> bool" where
  "inv w st \<longleftrightarrow> core (owned w) (weak w) st \<and> vars st = var w \<and> pools_ok (pools w) st"

lemma pools_ok_same: "same_pools st st' \<Longrightarrow> pools_ok P st' = pools_ok P st"
  by (simp add: pools_ok_def same_pools_def)

lemma settle_simps [simp]:
  "held (settle w) = held w" "pools (settle w) = pools w" "weak (settle w) = weak w"
  "owned (settle w) = owned w" "var (settle w) = settle_vars (owned w) (weak w) (var w)"
  by (auto simp: settle_def owned_def settle_vars_def fun_eq_iff)

lemma inv_release:
  assumes "inv w st" "x \<in># held w"
  shows "\<exists>st'. objc_release x st = Ret st' \<and> inv (settle (w\<lparr>held := held w - {#x#}\<rparr>)) st'"
proof -
  have x: "x \<in># owned w" using assms(2) by (simp add: owned_def)
  have o: "owned (w\<lparr>held := held w - {#x#}\<rparr>) = owned w - {#x#}"
    using assms(2) by (simp add: owned_def)
  from release_core [OF _ x] assms(1) obtain st' where "objc_release x st = Ret st'"
    "core (owned w - {#x#}) (weak w) st'" "vars st' = settle_vars (owned w - {#x#}) (weak w) (vars st)"
    "same_pools st st'" unfolding inv_def by blast
  with assms(1) o show ?thesis by (auto simp: inv_def pools_ok_same)
qed

lemma inv_retain:
  assumes "inv w st" "x \<in># owned w" "own_limit w"
  shows "inv (w\<lparr>held := held w + {#x#}\<rparr>) (root_retain x st)"
proof -
  have "card (set_mset (owned w)) \<le> max_refcounted"
    using assms(3) by (simp add: own_limit_def max_weak_owners_def max_refcounted_def)
  moreover have "count (owned w) x < 2 ^ 63"
    using count_le_size [of "owned w" x] assms(3) by (simp add: own_limit_def)
  ultimately have "core (add_mset x (owned w)) (weak w) (root_retain x st) \<and>
      vars (root_retain x st) = vars st \<and> same_pools st (root_retain x st)"
    using retain_core assms(1, 2) unfolding inv_def by blast
  with assms(1) show ?thesis by (auto simp: inv_def pools_ok_same owned_def)
qed

lemma retain_live: "core R W st \<Longrightarrow> x \<in># R \<Longrightarrow> objc_retain x st = Ret (root_retain x st)"
  by (auto simp: core_def objc_retain_def msg_send_def)

lemma inv_autorelease:
  assumes "inv w st" "x \<in># held w" "length (concat (pools w)) < max_autoreleased"
  shows "\<exists>st'. objc_autorelease x st = Ret st' \<and>
    inv (w\<lparr>held := held w - {#x#}, pools := (x # hd (pools w)) # tl (pools w)\<rparr>) st'"
proof -
  have P: "pools_ok (pools w) st" and c: "core (owned w) (weak w) st" "vars st = var w"
    using assms(1) by (auto simp: inv_def)
  obtain p ps where p: "pools w = p # ps" using P by (cases "pools w") (auto simp: pools_ok_def)
  let ?st = "st\<lparr>autorelease_stack := (autorelease_stack st)(autorelease_top st := x),
    autorelease_top := autorelease_top st + 1\<rparr>"
  have "x \<in># owned w" using assms(2) by (simp add: owned_def)
  with c(1) have "x \<noteq> 0" "live st x" by (auto simp: core_def)
  then have run: "objc_autorelease x st = Ret ?st"
    using assms(3) P by (simp add: objc_autorelease_def root_autorelease_def pools_ok_def)
  have "pools_ok ((x # p) # ps) ?st"
    using P by (auto simp: pools_ok_def p drop_Cons')
  moreover have "core (owned w) (weak w) ?st" using c(1) by (simp add: core_def)
  moreover obtain H where "held w = add_mset x H" using assms(2) by (metis mset_add)
  ultimately show ?thesis using run c(2) by (simp add: inv_def owned_def p)
qed

lemma inv_push:
  assumes "inv w st" "length (pools w) \<le> max_pool_depth"
  shows "\<exists>st'. arc_step Push st = Ret st' \<and> inv (w\<lparr>pools := [] # pools w\<rparr>) st'"
proof -
  have P: "pools_ok (pools w) st" using assms(1) by (simp add: inv_def)
  let ?st = "st\<lparr>pool_marks := (pool_marks st)(pool_depth st := autorelease_top st),
    pool_depth := pool_depth st + 1\<rparr>"
  have "pool_depth st < max_pool_depth" using P assms(2) by (cases "pools w") (auto simp: pools_ok_def)
  then have run: "arc_step Push st = Ret ?st" by (simp add: objc_autoreleasePoolPush_def)
  obtain p ps where p: "pools w = p # ps" using P by (cases "pools w") (auto simp: pools_ok_def)
  have "pools_ok ([] # pools w) ?st"
    using P by (auto simp: pools_ok_def p Suc_diff_le less_Suc_eq)
  with run assms(1) show ?thesis by (auto simp: inv_def core_def owned_def)
qed

lemma inv_pop:
  assumes "inv w st" "idx < length (pools w) - 1"
  shows "\<exists>st'. objc_autoreleasePoolPop idx st = Ret st' \<and>
    inv (settle (w\<lparr>pools := drop (length (pools w) - 1 - idx) (pools w)\<rparr>)) st'"
proof -
  have P: "pools_ok (pools w) st" and c: "core (owned w) (weak w) st" "vars st = var w"
    using assms(1) by (auto simp: inv_def)
  let ?k = "length (pools w) - 1 - idx"
  let ?low = "concat (drop ?k (pools w))" and ?high = "concat (take ?k (pools w))"
  have depth: "pool_depth st = length (pools w) - 1" using P by (simp add: pools_ok_def)
  have mark: "pool_marks st idx = length ?low" using P assms(2) by (simp add: pools_ok_def)
  have split: "concat (pools w) = ?high @ ?low" by (metis append_take_drop_id concat_append)
  have stack: "map (autorelease_stack st) [0..<autorelease_top st] = rev ?low @ rev ?high"
    using P unfolding pools_ok_def split rev_append by blast
  have "autorelease_top st = length (concat (pools w))" using P by (simp add: pools_ok_def)
  then have top: "autorelease_top st = length ?low + length ?high" unfolding split by simp
  have le: "length ?low \<le> autorelease_top st" using top by simp
  have "map (autorelease_stack st) [0..<length ?low] @ map (autorelease_stack st) [length ?low..<autorelease_top st]
      = rev ?low @ rev ?high"
    using stack upt_add_eq_append [of 0 "length ?low" "length ?high"] by (simp add: top)
  then have parts: "map (autorelease_stack st) [0..<length ?low] = rev ?low"
    "map (autorelease_stack st) [length ?low..<autorelease_top st] = rev ?high" by simp_all
  let ?R = "held w + mset ?low"
  have "owned w = ?R + mset (map (autorelease_stack st) [length ?low..<autorelease_top st])"
    unfolding parts(2) owned_def split by simp
  with c(1) have "core (?R + mset (map (autorelease_stack st) [length ?low..<autorelease_top st])) (weak w) st"
    by simp
  from release_down_core [OF this le] obtain st1 where st1:
    "release_down (length ?low) (autorelease_top st) st = Ret st1" "core ?R (weak w) st1"
    "vars st1 = settle_vars ?R (weak w) (vars st)" "same_pools st st1" by blast
  let ?st = "st1\<lparr>autorelease_top := length ?low, pool_depth := idx\<rparr>"
  have run: "objc_autoreleasePoolPop idx st = Ret ?st"
    using st1(1) mark depth assms(2) by (simp add: objc_autoreleasePoolPop_def)
  have "pools_ok (drop ?k (pools w)) ?st"
    using P parts(1) st1(4) assms(2)
    by (auto simp: pools_ok_def same_pools_def add.commute)
  moreover have "core ?R (weak w) ?st" using st1(2) by (simp add: core_def)
  ultimately show ?thesis using run st1(3) c(2) by (simp add: inv_def owned_def)
qed

lemma settle_id: "inv w st \<Longrightarrow> settle w = w"
proof -
  assume "inv w st"
  then have "settle_vars (owned w) (weak w) (var w) = var w"
    using settle_vars_id by (metis inv_def)
  then show ?thesis by (simp add: settle_def settle_vars_def [abs_def])
qed

lemma inv_store_strong:
  assumes "inv w st" "\<not> weak w s" "x = 0 \<or> x \<in># owned w" "x \<noteq> var w s" "own (var w s) \<subseteq># held w"
    "own_limit w"
  shows "\<exists>st'. objc_storeStrong s x st = Ret st' \<and>
    inv (settle (w\<lparr>held := held w + own x - own (var w s), var := (var w)(s := x)\<rparr>)) st'"
proof -
  have V: "vars st = var w" using assms(1) by (simp add: inv_def)
  have "\<exists>st1. objc_retain x st = Ret st1 \<and> inv (w\<lparr>held := held w + own x\<rparr>) st1"
  proof (cases "x = 0")
    case True
    with assms(1) show ?thesis by (simp add: objc_retain_def msg_send_def own_def)
  next
    case False
    with inv_retain [OF assms(1) _ assms(6)] retain_live assms(1, 3) show ?thesis
      by (auto simp: inv_def own_def)
  qed
  then obtain st1 where st1: "objc_retain x st = Ret st1" "inv (w\<lparr>held := held w + own x\<rparr>) st1" by blast
  let ?st = "st1\<lparr>vars := (vars st1)(s := x)\<rparr>" and ?w = "w\<lparr>held := held w + own x, var := (var w)(s := x)\<rparr>"
  have V1: "vars st1 = var w" using st1(2) by (simp add: inv_def)
  have "weak_ok (weak w) ((var w)(s := x)) (weak_owners st1)"
  proof (rule weak_okI)
    have wk: "weak_ok (weak w) (var w) (weak_owners st1)" using st1(2) by (simp add: inv_def core_def V1)
    show "(\<exists>ss. map_of (weak_owners st1) y = Some ss \<and> u \<in> set ss) \<longleftrightarrow>
        y \<noteq> 0 \<and> weak w u \<and> ((var w)(s := x)) u = y" for y u
      using weak_okD(1) [OF wk, of y u] assms(2) by (cases "u = s") simp_all
    show "distinct (map fst (weak_owners st1))"
      "\<And>y ss. map_of (weak_owners st1) y = Some ss \<Longrightarrow> distinct ss"
      using weak_okD(2, 3) [OF wk] by blast+
  qed
  then have inv2: "inv ?w ?st"
    using st1(2) assms(2) V1 by (auto simp: inv_def core_def owned_def pools_ok_def)
  have run: "objc_storeStrong s x st = objc_release (var w s) ?st"
    using st1(1) assms(4) V by (simp add: objc_storeStrong_def Let_def)
  show ?thesis
  proof (cases "var w s = 0")
    case True
    from settle_id [OF inv2] inv2 run True show ?thesis by (simp add: own_def objc_release_def msg_send_def)
  next
    case False
    with assms(5) have "var w s \<in># held ?w" by (simp add: own_def)
    moreover have "?w\<lparr>held := held ?w - {#var w s#}\<rparr>
        = w\<lparr>held := held w + own x - own (var w s), var := (var w)(s := x)\<rparr>"
      using False by (simp add: own_def)
    ultimately show ?thesis using inv_release [OF inv2] run by metis
  qed
qed

lemma inv_alloc:
  assumes "inv w st" "x \<noteq> 0" "x \<notin># owned w"
  shows "inv (w\<lparr>held := held w + {#x#}\<rparr>) (root_alloc x st)"
proof -
  let ?l = "refcounts st" and ?R = "owned w"
  have c: "0 \<notin># ?R" "\<forall>y. live st y \<longleftrightarrow> y \<in># ?R" "counts_ok ?R ?l" "dom (map_of (weak_owners st)) \<subseteq> set_mset ?R"
    "weak_ok (weak w) (vars st) (weak_owners st)"
    "\<forall>s. weak w s \<longrightarrow> vars st s = 0 \<or> vars st s \<in># ?R"
    using assms(1) unfolding inv_def core_def by blast+
  have "x \<notin> dom (map_of ?l)" using c(3) assms(3) unfolding counts_ok_def by blast
  then have "map_of ?l x = None" by (simp add: domIff)
  then have "extra ?l x = 0" by (simp add: extra_def)
  moreover have "count ?R x = 0" using assms(3) by (simp add: not_in_iff)
  ultimately have "counts_ok (add_mset x ?R) ?l" using c(3) by (auto simp: counts_ok_def)
  with c assms(2) have "core (add_mset x ?R) (weak w) (root_alloc x st)"
    by (auto simp: core_def root_alloc_def)
  moreover have "pools_ok (pools w) (root_alloc x st)"
    using assms(1) by (auto simp: inv_def root_alloc_def intro: pools_ok_same [THEN iffD2] simp: same_pools_def)
  ultimately show ?thesis using assms(1) by (simp add: inv_def owned_def root_alloc_def)
qed

lemma inv_weak:
  assumes "inv w st" "own_limit w" "core (owned w) W' st'" "vars st' = V'" "same_pools st st'"
  shows "inv (w\<lparr>weak := W', var := V'\<rparr>) st'"
  using assms by (simp add: inv_def owned_def pools_ok_same)

lemma reclaim_none:
  assumes "pools_ok (pools w) st" "concat (pools w) = [] \<or> hd (concat (pools w)) \<noteq> x"
  shows "objc_autorelease_try_reclaim_last x st = (False, st)"
proof (cases "concat (pools w)")
  case Nil
  with assms(1) show ?thesis by (simp add: objc_autorelease_try_reclaim_last_def pools_ok_def)
next
  case (Cons y ys)
  have t: "autorelease_top st = length (concat (pools w))"
    "map (autorelease_stack st) [0..<autorelease_top st] = rev (concat (pools w))"
    using assms(1) unfolding pools_ok_def by blast+
  then have top: "autorelease_top st = Suc (length ys)" by (simp add: Cons)
  from t(2) have "map (autorelease_stack st) [0..<autorelease_top st] = rev ys @ [y]" by (simp add: Cons)
  with top have "map (autorelease_stack st) [0..<Suc (length ys)] = rev ys @ [y]" by metis
  then have "autorelease_stack st (length ys) = y" by simp
  with top show ?thesis using assms(2) Cons by (simp add: objc_autorelease_try_reclaim_last_def)
qed

text \<open>One operation: what the ownership rules allow, the runtime does.\<close>

lemma step_refines:
  assumes "inv w st" "own_limit w" "own_step c w = Some w'"
  shows "\<exists>st'. arc_step c st = Ret st' \<and> inv w' st'"
proof -
  have core: "core (owned w) (weak w) st" and V: "vars st = var w" and P: "pools_ok (pools w) st"
    using assms(1) by (simp_all add: inv_def)
  have lim: "card (set_mset (owned w)) \<le> max_weak_owners" using assms(2) by (simp add: own_limit_def)
  have wk: "var w s = 0 \<or> var w s \<in># owned w" if "weak w s" for s
    using core that by (simp add: core_def V)
  have nil: "var w s = 0" if "\<not> weak w s" "weak w s" for s using that by simp
  note unf = own_step.simps arc_step.simps
  show ?thesis
  proof (cases c)
    case (Alloc x)
    with assms inv_alloc show ?thesis by (auto split: if_splits)
  next
    case (Retain x)
    with assms inv_retain [OF assms(1) _ assms(2), of x] retain_live [OF core, of x] show ?thesis
      by (auto simp: own_def valid_ref_def objc_retain_def msg_send_def split: if_splits)
  next
    case (Release x)
    with assms inv_release [OF assms(1), of x] settle_id [OF assms(1)] show ?thesis
      by (auto simp: own_def objc_release_def msg_send_def split: if_splits)
  next
    case (Autorelease x)
    with assms inv_autorelease [OF assms(1), of x] show ?thesis
      by (auto simp: objc_autorelease_def split: if_splits)
  next
    case (RetainReturned x)
    with assms inv_retain [OF assms(1) _ assms(2), of x] retain_live [OF core, of x]
      reclaim_none [OF P, of x] show ?thesis
      by (auto simp: own_def valid_ref_def objc_retainAutoreleasedReturnValue_def split: if_splits)
  next
    case Push
    with assms inv_push [OF assms(1)] show ?thesis by (auto split: if_splits)
  next
    case (Pop idx)
    with assms inv_pop [OF assms(1), of idx] P show ?thesis
      by (auto simp: objc_autoreleasePoolPop_def pools_ok_def split: if_splits)
  next
    case (InitWeak s x)
    with assms(3) have a: "\<not> weak w s" "x = 0 \<or> x \<in># owned w"
      "w' = w\<lparr>weak := (weak w)(s := True), var := (var w)(s := x)\<rparr>"
      by (auto simp: valid_ref_def split: if_splits)
    from init_core [OF core a(2) lim a(1)] InitWeak a(3) show ?thesis
      by (auto simp: V intro!: inv_weak [OF assms(1, 2)])
  next
    case (StoreWeak s x)
    with assms(3) have a: "weak w s" "x = 0 \<or> x \<in># owned w" "w' = w\<lparr>var := (var w)(s := x)\<rparr>"
      by (auto simp: valid_ref_def split: if_splits)
    have "(weak w)(s := True) = weak w" using a(1) by (intro fun_upd_idem) simp
    with store_core [OF core a(2) lim, of s] a(1) inv_weak [OF assms(1, 2), of "weak w"]
    have "inv (w\<lparr>weak := weak w, var := (var w)(s := x)\<rparr>) (objc_storeWeak s x st)" by (simp add: V)
    with StoreWeak a(3) show ?thesis by simp
  next
    case (DestroyWeak s)
    with assms(3) have a: "weak w s"
      "w' = w\<lparr>weak := (weak w)(s := False), var := (var w)(s := 0)\<rparr>" by (auto split: if_splits)
    from destroy_core [OF core a(1) lim] DestroyWeak a(2) show ?thesis
      by (auto simp: V intro!: inv_weak [OF assms(1, 2)])
  next
    case (CopyWeak d s)
    with assms(3) have a: "\<not> weak w d" "weak w s"
      "w' = w\<lparr>weak := (weak w)(d := True), var := (var w)(d := var w s)\<rparr>" by (auto split: if_splits)
    from init_core [OF core wk [OF a(2)] lim a(1)] CopyWeak a(3) show ?thesis
      by (auto simp: V objc_copyWeak_def intro!: inv_weak [OF assms(1, 2)])
  next
    case (MoveWeak d s)
    with assms(3) have a: "\<not> weak w d" "weak w s" "d \<noteq> s"
      "w' = w\<lparr>weak := (weak w)(d := True, s := False), var := (var w)(d := var w s, s := 0)\<rparr>"
      by (auto split: if_splits)
    let ?st = "objc_initWeak d (var w s) st"
    from init_core [OF core wk [OF a(2)] lim a(1)]
    have i: "core (owned w) ((weak w)(d := True)) ?st" "vars ?st = (var w)(d := var w s)" "same_pools st ?st"
      by (simp_all add: V)
    let ?st2 = "objc_destroyWeak s ?st"
    have "((weak w)(d := True)) s" using a(2) by simp
    from destroy_core [OF i(1) this lim] i(2)
    have m: "core (owned w) ((weak w)(d := True, s := False)) ?st2"
      "vars ?st2 = (var w)(d := var w s, s := 0)" "same_pools ?st ?st2" by metis+
    have "same_pools st ?st2" using i(3) m(3) by (simp add: same_pools_def)
    from inv_weak [OF assms(1, 2) m(1, 2) this] MoveWeak a(4) show ?thesis
      by (simp add: V objc_moveWeak_def)
  next
    case (StoreStrong s x)
    show ?thesis
    proof (cases "x = var w s")
      case True
      with StoreStrong assms(1, 3) V show ?thesis by (auto simp: objc_storeStrong_def split: if_splits)
    next
      case False
      with StoreStrong assms(3) have "\<not> weak w s" "x = 0 \<or> x \<in># owned w" "own (var w s) \<subseteq># held w"
        "w' = settle (w\<lparr>held := held w + own x - own (var w s), var := (var w)(s := x)\<rparr>)"
        by (auto simp: valid_ref_def split: if_splits)
      with inv_store_strong [OF assms(1) _ _ False _ assms(2)] StoreStrong show ?thesis by auto
    qed
  qed
qed

text \<open>The runtime after a program, against what the ownership rules say.\<close>

definition implements :: "arc outcome \<Rightarrow> owners \<Rightarrow> bool" where
  "implements r w \<longleftrightarrow>
     (case r of
        Ret st \<Rightarrow> live st = (\<lambda>x. x \<in># owned w) \<and> vars st = var w \<and>
          (\<forall>x\<in>#owned w. unat (root_retainCount x st) = count (owned w) x)
      | _ \<Rightarrow> False)"

lemma inv_start: "inv own_start arc_start"
  by (simp add: inv_def own_start_def arc_start_def core_def owned_def counts_ok_def weak_ok_def pools_ok_def)

lemma run_refines:
  assumes "inv w st" "own_limit w" "own_run ops w = Some w'"
  shows "\<exists>st'. arc_run ops st = Ret st' \<and> inv w' st' \<and> own_limit w'"
  using assms
proof (induction ops arbitrary: w st)
  case (Cons c ops)
  from Cons.prems(3) obtain w1 where w1: "own_step c w = Some w1" "own_limit w1" "own_run ops w1 = Some w'"
    by (auto split: option.splits if_splits)
  from step_refines [OF Cons.prems(1, 2) w1(1)] obtain st1 where "arc_step c st = Ret st1" "inv w1 st1" by blast
  with Cons.IH [OF _ w1(2, 3)] show ?case by auto
qed simp

lemma retainCount_inv:
  assumes "inv w st" "own_limit w" "x \<in># owned w"
  shows "unat (root_retainCount x st) = count (owned w) x"
proof -
  have c: "counts_ok (owned w) (refcounts st)" "0 \<notin># owned w" using assms(1) by (auto simp: inv_def core_def)
  from c(2) assms(3) have x: "x \<noteq> 0" by metis
  let ?e = "extra (refcounts st) x"
  have n: "count (owned w) x = Suc (unat ?e)" by (rule counts_okD [OF c(1) assms(3)])
  have "Suc (unat ?e) < 2 ^ 63"
    using count_le_size [of "owned w" x] assms(2) n unfolding own_limit_def by linarith
  then have "unat (1 + ?e) = Suc (unat ?e)"
    using unat_add_lem [of 1 ?e, THEN iffD1] by simp
  moreover have "root_retainCount x st = 1 + ?e"
  proof (cases "find_refcount x st")
    case None
    then have "map_of (refcounts st) x = None" by (simp add: find_refcount_def index_of_None)
    with x None show ?thesis by (simp add: root_retainCount_def extra_def)
  next
    case (Some i)
    then have "index_of x (refcounts st) = Some i" by (simp add: find_refcount_def)
    from index_of_Some [OF this] Some x show ?thesis
      by (simp add: root_retainCount_def extra_def)
  qed
  ultimately show ?thesis using n by simp
qed

text \<open>C21 The runtime implements ownership: for every program that keeps the rules (releases only
  what it owns, at most 1024 objects alive, no reclaim of a returned object), in any interleaving of
  retains, releases, autorelease pools, weak and strong variables, no operation touches a freed
  object, exactly the objects with an owner are alive, every retain count is the number of owners,
  and a weak variable is \<open>nil\<close> as soon as its object has none.\<close>

theorem arc_implements_ownership:
  assumes "own_run ops own_start = Some w"
  shows "implements (arc_run ops arc_start) w"
proof -
  have "own_limit own_start" by (simp add: own_limit_def owned_def own_start_def)
  from run_refines [OF inv_start this assms] obtain st
    where st: "arc_run ops arc_start = Ret st" "inv w st" "own_limit w" by blast
  from st(2) have "live st = (\<lambda>x. x \<in># owned w)" "vars st = var w"
    by (auto simp: inv_def core_def fun_eq_iff)
  with st retainCount_inv [OF st(2, 3)] show ?thesis by (simp add: implements_def)
qed

definition example_program :: "op list" where
  "example_program = [Alloc 16, InitWeak 1 16, StoreStrong 2 16, Release 16, Push, Alloc 32, Autorelease 32,
     InitWeak 3 32, Retain 16, Autorelease 16, Pop 0, StoreStrong 2 0]"

theorem arc_implements_ownership_witness:
  "implements (arc_run example_program arc_start) (the (own_run example_program own_start))"
  by (rule arc_implements_ownership)
    (simp add: example_program_def own_start_def own_limit_def owned_def valid_ref_def own_def
      max_weak_owners_def max_autoreleased_def max_pool_depth_def settle_def card_insert_if)

section \<open>Returned objects\<close>

text \<open>An object that has no owner left, no pool entry, and is alive.\<close>

definition leaked :: "obj \<Rightarrow> arc outcome \<Rightarrow> bool" where
  "leaked x r \<longleftrightarrow> (case r of Ret st \<Rightarrow> live st x \<and> root_retainCount x st = 1 \<and> autorelease_top st = 0 | _ \<Rightarrow> False)"

text \<open>A callee creates an object and returns it autoreleased, the caller takes the return value
  over and releases it when done, and the pool is drained: the object is never freed.  The reclaim
  cancels the pool's release, whose reference the caller then owns, and retains as well.\<close>

theorem reclaimed_return_leaks:
  assumes "x \<noteq> 0"
  shows "leaked x (arc_run [Push, Alloc x, Autorelease x, RetainReturned x, Release x, Pop 0] arc_start)"
  using assms
  by (simp add: leaked_def arc_start_def objc_autoreleasePoolPush_def max_pool_depth_def root_alloc_def
      objc_autorelease_def root_autorelease_def max_autoreleased_def objc_retainAutoreleasedReturnValue_def
      objc_autorelease_try_reclaim_last_def root_retain_def find_refcount_def max_refcounted_def
      objc_release_def msg_send_def root_release_def objc_autoreleasePoolPop_def root_retainCount_def Let_def)

theorem reclaimed_return_leaks_witness:
  "leaked 16 (arc_run [Push, Alloc 16, Autorelease 16, RetainReturned 16, Release 16, Pop 0] arc_start)"
  by (rule reclaimed_return_leaks) simp

end
