(* ===== verification/Pthread.thy ===== *)
theory Pthread
  imports Prelude
begin

text \<open>
  Threads, \<open>userland/libc/src/pthread.c\<close>: the registry of threads, which tells a thread who it is from
  its stack pointer, thread-specific data, and the life of a thread from \<open>pthread_create\<close> to
  \<open>pthread_join\<close> or the reaper of detached threads.  A section under the lock of the registry is one
  step, every other access to shared memory is one too.  A thread is known by the number of its
  structure, which is not given out twice; the kernel's answers are choices.

  What a client that joins or detaches a thread once relies on is that no structure and no stack is
  released twice or while the start routine runs.  The stack of a thread that has published that it
  is finished can go while the thread still needs it.
\<close>

section \<open>The registry\<close>

record thread =
  stack_lo :: nat
  stack_size :: nat
  detached :: bool
  finished :: bool
  err :: int
  tsd :: "u64 list"

definition PTHREAD_KEY_MAX :: int where "PTHREAD_KEY_MAX = 64"

definition page_round :: "nat \<Rightarrow> nat" where
  "page_round n = (n + 4095) div 4096 * 4096"

definition default_stack_size :: nat where
  "default_stack_size = 512 * 1024"

definition stack_hi :: "thread \<Rightarrow> nat" where
  "stack_hi t = stack_lo t + stack_size t"

text \<open>\<open>__pthread_current\<close>: the registered thread whose stack holds the stack pointer; \<open>None\<close> is the main
  thread.\<close>

fun pthread_current :: "(nat \<Rightarrow> thread) \<Rightarrow> nat list \<Rightarrow> nat \<Rightarrow> nat option" where
  "pthread_current ths [] sp = None"
| "pthread_current ths (t # ts) sp =
     (if stack_lo (ths t) \<le> sp \<and> sp < stack_hi (ths t) then Some t else pthread_current ths ts sp)"

definition pthread_register :: "nat \<Rightarrow> nat list \<Rightarrow> nat list" where
  "pthread_register t ts = t # ts"

fun pthread_unregister :: "nat \<Rightarrow> nat list \<Rightarrow> nat list" where
  "pthread_unregister t [] = []"
| "pthread_unregister t (u # us) = (if u = t then us else u # pthread_unregister t us)"

text \<open>The first half of \<open>reap_finished_detached\<close>: what stays registered, and the dead, last one first.\<close>

fun reap_split :: "(nat \<Rightarrow> thread) \<Rightarrow> nat list \<Rightarrow> nat list \<Rightarrow> nat list \<times> nat list" where
  "reap_split ths [] dead = ([], dead)"
| "reap_split ths (t # ts) dead =
     (if detached (ths t) \<and> finished (ths t) then reap_split ths ts (t # dead)
      else let (live, dead') = reap_split ths ts dead in (t # live, dead'))"

lemma reap_split_filter:
  "reap_split ths ts dead =
     (filter (\<lambda>t. \<not> (detached (ths t) \<and> finished (ths t))) ts,
      rev (filter (\<lambda>t. detached (ths t) \<and> finished (ths t)) ts) @ dead)"
  by (induction ts arbitrary: dead) simp_all

lemma unregister_distinct: "distinct ts \<Longrightarrow> pthread_unregister t ts = filter (\<lambda>u. u \<noteq> t) ts"
  by (induction ts) (auto intro!: filter_True [symmetric])

text \<open>Stacks that do not overlap give every thread its own structure.\<close>

definition stacks_disjoint :: "(nat \<Rightarrow> thread) \<Rightarrow> nat list \<Rightarrow> bool" where
  "stacks_disjoint ths ts \<longleftrightarrow>
     (\<forall>t\<in>set ts. \<forall>u\<in>set ts. t \<noteq> u \<longrightarrow> stack_hi (ths t) \<le> stack_lo (ths u) \<or> stack_hi (ths u) \<le> stack_lo (ths t))"

lemma current_in: "pthread_current ths ts sp = Some t \<Longrightarrow> t \<in> set ts \<and> stack_lo (ths t) \<le> sp \<and> sp < stack_hi (ths t)"
  by (induction ts) (auto split: if_splits)

lemma current_none: "pthread_current ths ts sp = None \<Longrightarrow> t \<in> set ts \<Longrightarrow> \<not> (stack_lo (ths t) \<le> sp \<and> sp < stack_hi (ths t))"
  by (induction ts) (auto split: if_splits)

lemma current_unique:
  assumes "stacks_disjoint ths ts" "t \<in> set ts" "stack_lo (ths t) \<le> sp" "sp < stack_hi (ths t)"
  shows "pthread_current ths ts sp = Some t"
proof (cases "pthread_current ths ts sp")
  case None
  with current_none [OF None assms(2)] assms(3, 4) show ?thesis by blast
next
  case (Some u)
  with current_in [OF Some] assms show ?thesis by (fastforce simp: stacks_disjoint_def)
qed

section \<open>Thread-specific data\<close>

definition pthread_key_create :: "int \<Rightarrow> int option \<times> int" where
  "pthread_key_create next_key = (if PTHREAD_KEY_MAX \<le> next_key then None else Some next_key, next_key + 1)"

definition pthread_getspecific :: "int \<Rightarrow> thread \<Rightarrow> u64" where
  "pthread_getspecific key t = (if key < 0 \<or> PTHREAD_KEY_MAX \<le> key then 0 else tsd t ! nat key)"

definition pthread_setspecific :: "int \<Rightarrow> u64 \<Rightarrow> thread \<Rightarrow> int \<times> thread" where
  "pthread_setspecific key v t =
     (if key < 0 \<or> PTHREAD_KEY_MAX \<le> key then (22, t) else (0, t\<lparr>tsd := (tsd t)[nat key := v]\<rparr>))"

lemma specific_get_set:
  assumes "length (tsd t) = 64" "pthread_setspecific key v t = (0, t')"
  shows "pthread_getspecific k t' = (if k = key then v else pthread_getspecific k t)" "length (tsd t') = 64"
  using assms by (auto simp: pthread_setspecific_def pthread_getspecific_def PTHREAD_KEY_MAX_def nth_list_update
    eq_nat_nat_iff split: if_splits)

section \<open>The life of a thread\<close>

text \<open>Where the new thread itself is: not yet started by the kernel, in its start routine, past the
  store that publishes the end, and gone.\<close>

datatype stage = Unborn | Running | Leaving | Terminated

text \<open>Where a client is in a call.\<close>

datatype life_pc =
    Free_to_call
  | Join_spin nat | Join_unregister nat | Join_unmap nat | Join_free nat
  | Reap_unmap "nat list" bool nat | Reap_free "nat list" bool nat
  | Create_kernel nat | Undo_unregister nat | Undo_unmap nat | Undo_free nat

text \<open>\<open>joinable\<close> (the threads a client may still join or detach) and \<open>fault\<close> (a structure or stack was
  used or released that is not there) are for the properties.\<close>

record life =
  structs :: "nat \<Rightarrow> thread"
  allocated :: "nat set"
  g_list :: "nat list"
  mapped :: "nat set"
  stage_of :: "nat \<Rightarrow> stage"
  client :: "nat \<Rightarrow> life_pc"
  next_thread :: nat
  joinable :: "nat set"
  fault :: bool

definition no_thread :: thread where
  "no_thread = \<lparr>stack_lo = 0, stack_size = 0, detached = False, finished = False, err = 0, tsd = []\<rparr>"

definition life_init :: life where
  "life_init = \<lparr>structs = (\<lambda>_. no_thread), allocated = {}, g_list = [], mapped = {}, stage_of = (\<lambda>_. Unborn),
     client = (\<lambda>_. Free_to_call), next_thread = 0, joinable = {}, fault = False\<rparr>"

definition moves :: "nat \<Rightarrow> life_pc \<Rightarrow> life \<Rightarrow> life" where
  "moves c p s = s\<lparr>client := (client s)(c := p)\<rparr>"

definition munmap_stack :: "nat \<Rightarrow> life \<Rightarrow> life" where
  "munmap_stack t s = s\<lparr>mapped := mapped s - {t}, fault := fault s \<or> t \<notin> mapped s \<or> t \<notin> allocated s\<rparr>"

definition free_struct :: "nat \<Rightarrow> life \<Rightarrow> life" where
  "free_struct t s = s\<lparr>allocated := allocated s - {t}, fault := fault s \<or> t \<notin> allocated s\<rparr>"

definition uses :: "nat \<Rightarrow> life \<Rightarrow> life" where
  "uses t s = s\<lparr>fault := fault s \<or> t \<notin> allocated s\<rparr>"

text \<open>\<open>pthread_create\<close>: the reaping section, then the new structure, registered.  A missing stack size is
  the default; where the stack lies is the kernel's choice.\<close>

definition create_reap :: "nat \<Rightarrow> bool \<Rightarrow> nat \<Rightarrow> life \<Rightarrow> life" where
  "create_reap c det sz s =
     (let (live, dead) = reap_split (structs s) (g_list s) [] in
      moves c (Reap_unmap dead det sz) (s\<lparr>g_list := live\<rparr>))"

definition create_register :: "nat \<Rightarrow> bool \<Rightarrow> nat \<Rightarrow> nat \<Rightarrow> life \<Rightarrow> life" where
  "create_register c det sz lo s =
     (let t = next_thread s;
          th = \<lparr>stack_lo = lo, stack_size = page_round (if sz = 0 then default_stack_size else sz), detached = det,
                finished = False, err = 0, tsd = replicate 64 0\<rparr>
      in moves c (Create_kernel t)
           (s\<lparr>structs := (structs s)(t := th), allocated := insert t (allocated s), mapped := insert t (mapped s),
              g_list := pthread_register t (g_list s), next_thread := t + 1\<rparr>))"

text \<open>The answer of \<open>__bsdthread_create\<close>.\<close>

definition create_kernel :: "nat \<Rightarrow> nat \<Rightarrow> bool \<Rightarrow> life \<Rightarrow> life" where
  "create_kernel c t ok s =
     (if ok then moves c Free_to_call
        (s\<lparr>stage_of := (stage_of s)(t := Running),
           joinable := (if detached (structs s t) then joinable s else insert t (joinable s))\<rparr>)
      else moves c (Undo_unregister t) s)"

text \<open>One step of a call in progress, apart from those of \<open>pthread_create\<close> that depend on the kernel.\<close>

fun life_run :: "nat \<Rightarrow> life \<Rightarrow> life" where
  "life_run c s =
     (case client s c of
        Join_spin t \<Rightarrow> if finished (structs s t) then moves c (Join_unregister t) (uses t s) else uses t s
      | Join_unregister t \<Rightarrow> moves c (Join_unmap t) (s\<lparr>g_list := pthread_unregister t (g_list s)\<rparr>)
      | Join_unmap t \<Rightarrow> moves c (Join_free t) (munmap_stack t s)
      | Join_free t \<Rightarrow> moves c Free_to_call (free_struct t s)
      | Reap_unmap (t # ts) det sz \<Rightarrow> moves c (Reap_free (t # ts) det sz) (munmap_stack t s)
      | Reap_free (t # ts) det sz \<Rightarrow> moves c (Reap_unmap ts det sz) (free_struct t s)
      | Undo_unregister t \<Rightarrow> moves c (Undo_unmap t) (s\<lparr>g_list := pthread_unregister t (g_list s)\<rparr>)
      | Undo_unmap t \<Rightarrow> moves c (Undo_free t) (munmap_stack t s)
      | Undo_free t \<Rightarrow> moves c Free_to_call (free_struct t s)
      | _ \<Rightarrow> s)"

text \<open>\<open>__pthread_trampoline_c\<close>: the routine returns and the end is published, then the thread terminates
  itself.\<close>

definition trampoline_finish :: "nat \<Rightarrow> life \<Rightarrow> life" where
  "trampoline_finish t s =
     uses t (s\<lparr>structs := (structs s)(t := (structs s t)\<lparr>finished := True\<rparr>), stage_of := (stage_of s)(t := Leaving)\<rparr>)"

definition trampoline_terminate :: "nat \<Rightarrow> life \<Rightarrow> life" where
  "trampoline_terminate t s = s\<lparr>stage_of := (stage_of s)(t := Terminated)\<rparr>"

definition pthread_join :: "nat \<Rightarrow> nat \<Rightarrow> life \<Rightarrow> life" where
  "pthread_join c t s = moves c (Join_spin t) (s\<lparr>joinable := joinable s - {t}\<rparr>)"

definition pthread_detach :: "nat \<Rightarrow> life \<Rightarrow> life" where
  "pthread_detach t s =
     uses t (s\<lparr>structs := (structs s)(t := (structs s t)\<lparr>detached := True\<rparr>), joinable := joinable s - {t}\<rparr>)"

inductive life_step :: "life \<Rightarrow> life \<Rightarrow> bool" where
  create: "client s c = Free_to_call \<Longrightarrow> life_step s (create_reap c det sz s)"
| register: "client s c = Reap_unmap [] det sz \<Longrightarrow> life_step s (create_register c det sz lo s)"
| no_memory: "client s c = Reap_unmap [] det sz \<Longrightarrow> life_step s (moves c Free_to_call s)"
| kernel: "client s c = Create_kernel t \<Longrightarrow> life_step s (create_kernel c t ok s)"
| join: "client s c = Free_to_call \<Longrightarrow> t \<in> joinable s \<Longrightarrow> life_step s (pthread_join c t s)"
| detach: "t \<in> joinable s \<Longrightarrow> life_step s (pthread_detach t s)"
| finish: "stage_of s t = Running \<Longrightarrow> life_step s (trampoline_finish t s)"
| terminate: "stage_of s t = Leaving \<Longrightarrow> life_step s (trampoline_terminate t s)"
| proceed: "life_step s (life_run c s)"

section \<open>What a client relies on\<close>

text \<open>The threads a call is about to release, and whether they are still registered.\<close>

fun claims :: "life_pc \<Rightarrow> nat list" where
  "claims (Join_spin t) = [t]"
| "claims (Join_unregister t) = [t]"
| "claims (Join_unmap t) = [t]"
| "claims (Join_free t) = [t]"
| "claims (Reap_unmap ts _ _) = ts"
| "claims (Reap_free ts _ _) = ts"
| "claims (Create_kernel t) = [t]"
| "claims (Undo_unregister t) = [t]"
| "claims (Undo_unmap t) = [t]"
| "claims (Undo_free t) = [t]"
| "claims Free_to_call = []"

fun pc_ok :: "life \<Rightarrow> life_pc \<Rightarrow> bool" where
  "pc_ok s (Join_spin t) \<longleftrightarrow> t \<in> set (g_list s) \<and> \<not> detached (structs s t) \<and> stage_of s t \<noteq> Unborn"
| "pc_ok s (Join_unregister t) \<longleftrightarrow> t \<in> set (g_list s) \<and> \<not> detached (structs s t) \<and> finished (structs s t)"
| "pc_ok s (Join_unmap t) \<longleftrightarrow>
     t \<notin> set (g_list s) \<and> t \<in> allocated s \<and> t \<in> mapped s \<and> finished (structs s t)"
| "pc_ok s (Join_free t) \<longleftrightarrow> t \<notin> set (g_list s) \<and> t \<in> allocated s \<and> finished (structs s t)"
| "pc_ok s (Reap_unmap ts _ _) \<longleftrightarrow>
     distinct ts \<and> (\<forall>t\<in>set ts. t \<notin> set (g_list s) \<and> t \<in> allocated s \<and> t \<in> mapped s \<and> finished (structs s t))"
| "pc_ok s (Reap_free ts _ _) \<longleftrightarrow>
     distinct ts \<and> (\<forall>t\<in>set ts. t \<notin> set (g_list s) \<and> t \<in> allocated s \<and> finished (structs s t)) \<and>
     (\<forall>t\<in>set (tl ts). t \<in> mapped s)"
| "pc_ok s (Create_kernel t) \<longleftrightarrow> t \<in> set (g_list s) \<and> stage_of s t = Unborn"
| "pc_ok s (Undo_unregister t) \<longleftrightarrow> t \<in> set (g_list s) \<and> stage_of s t = Unborn"
| "pc_ok s (Undo_unmap t) \<longleftrightarrow>
     t \<notin> set (g_list s) \<and> t \<in> allocated s \<and> t \<in> mapped s \<and> stage_of s t = Unborn"
| "pc_ok s (Undo_free t) \<longleftrightarrow> t \<notin> set (g_list s) \<and> t \<in> allocated s \<and> stage_of s t = Unborn"
| "pc_ok s Free_to_call \<longleftrightarrow> True"

definition claimed :: "life \<Rightarrow> nat \<Rightarrow> nat \<Rightarrow> bool" where
  "claimed s c t \<longleftrightarrow> t \<in> set (claims (client s c))"

text \<open>The invariant, in four parts.\<close>

definition store_ok :: "life \<Rightarrow> bool" where
  "store_ok s \<longleftrightarrow>
     \<not> fault s \<and> distinct (g_list s) \<and>
     (\<forall>t\<in>set (g_list s). t \<in> allocated s \<and> t \<in> mapped s) \<and>
     (\<forall>t\<in>allocated s. t < next_thread s) \<and>
     (\<forall>t. finished (structs s t) \<longleftrightarrow> stage_of s t = Leaving \<or> stage_of s t = Terminated) \<and>
     (\<forall>t. next_thread s \<le> t \<longrightarrow> stage_of s t = Unborn)"

definition clients_ok :: "life \<Rightarrow> bool" where
  "clients_ok s \<longleftrightarrow>
     (\<forall>c. pc_ok s (client s c)) \<and> (\<forall>c d t. claimed s c t \<longrightarrow> claimed s d t \<longrightarrow> c = d)"

definition joinable_ok :: "life \<Rightarrow> bool" where
  "joinable_ok s \<longleftrightarrow>
     (\<forall>t\<in>joinable s. t \<in> set (g_list s) \<and> \<not> detached (structs s t) \<and> stage_of s t \<noteq> Unborn \<and> (\<forall>c. \<not> claimed s c t))"

definition running_ok :: "life \<Rightarrow> bool" where
  "running_ok s \<longleftrightarrow>
     (\<forall>t. stage_of s t = Running \<longrightarrow> t \<in> set (g_list s) \<and> (\<forall>c. claimed s c t \<longrightarrow> client s c = Join_spin t))"

definition life_inv :: "life \<Rightarrow> bool" where
  "life_inv s \<longleftrightarrow> store_ok s \<and> clients_ok s \<and> joinable_ok s \<and> running_ok s"

text \<open>What a step may change about a thread that another call claims.\<close>

definition keeps :: "life \<Rightarrow> life \<Rightarrow> nat \<Rightarrow> bool" where
  "keeps s s' t \<longleftrightarrow>
     (t \<in> set (g_list s') \<longleftrightarrow> t \<in> set (g_list s)) \<and> (t \<in> allocated s \<longrightarrow> t \<in> allocated s') \<and>
     (t \<in> mapped s \<longrightarrow> t \<in> mapped s') \<and> (detached (structs s' t) \<longrightarrow> detached (structs s t)) \<and>
     (finished (structs s t) \<longrightarrow> finished (structs s' t)) \<and> (stage_of s' t = Unborn \<longleftrightarrow> stage_of s t = Unborn)"

lemma pc_ok_keeps: "pc_ok s p \<Longrightarrow> \<forall>t\<in>set (claims p). keeps s s' t \<Longrightarrow> pc_ok s' p"
proof (cases p)
  case (Reap_free ts det sz)
  assume "pc_ok s p" "\<forall>t\<in>set (claims p). keeps s s' t"
  then show ?thesis using Reap_free list.set_sel(2) [of ts] by (cases ts) (auto simp: keeps_def)
qed (auto simp: keeps_def)

lemma clients_change:
  assumes "clients_ok s" "\<And>d. d \<noteq> c \<Longrightarrow> client s' d = client s d"
    "\<And>d t. d \<noteq> c \<Longrightarrow> claimed s d t \<Longrightarrow> keeps s s' t"
    "pc_ok s' (client s' c)" "\<And>t d. claimed s' c t \<Longrightarrow> d \<noteq> c \<Longrightarrow> \<not> claimed s d t"
  shows "clients_ok s'"
proof -
  have o: "claimed s' d t = claimed s d t" if "d \<noteq> c" for d t using assms(2) [OF that] by (simp add: claimed_def)
  have "pc_ok s' (client s' d)" for d
  proof (cases "d = c")
    case False
    have "pc_ok s (client s d)" using assms(1) by (simp add: clients_ok_def)
    then show ?thesis unfolding assms(2) [OF False]
      by (rule pc_ok_keeps) (use assms(3) [OF False] in \<open>simp add: claimed_def\<close>)
  qed (use assms(4) in simp)
  moreover have "d = e" if "claimed s' d t" "claimed s' e t" for d e t
  proof -
    have "claimed s d t \<Longrightarrow> claimed s e t \<Longrightarrow> d = e" using assms(1) unfolding clients_ok_def by blast
    then show ?thesis using that assms(5) o by metis
  qed
  ultimately show ?thesis by (simp add: clients_ok_def)
qed

lemma uses_id: "t \<in> allocated s \<Longrightarrow> uses t s = s"
  by (simp add: uses_def)

lemma munmap_id: "t \<in> mapped s \<Longrightarrow> t \<in> allocated s \<Longrightarrow> munmap_stack t s = s\<lparr>mapped := mapped s - {t}\<rparr>"
  by (simp add: munmap_stack_def)

lemma free_id: "t \<in> allocated s \<Longrightarrow> free_struct t s = s\<lparr>allocated := allocated s - {t}\<rparr>"
  by (simp add: free_struct_def)

text \<open>A step of one call that touches only what the call claims.\<close>

lemma claims_step:
  assumes i: "life_inv s"
    and c: "s' = moves c p (s\<lparr>g_list := gl, mapped := ma, allocated := al\<rparr>)"
    and p: "pc_ok s' p" "set (claims p) \<subseteq> set (claims (client s c))"
    and g: "distinct gl" "set gl \<subseteq> set (g_list s)" "\<And>t. t \<in> set (g_list s) \<Longrightarrow> t \<notin> set gl \<Longrightarrow> claimed s c t \<and> stage_of s t \<noteq> Running"
    and m: "ma \<subseteq> mapped s" "\<And>t. t \<in> mapped s \<Longrightarrow> t \<notin> ma \<Longrightarrow> claimed s c t \<and> t \<notin> set (g_list s)"
    and l: "al \<subseteq> allocated s" "\<And>t. t \<in> allocated s \<Longrightarrow> t \<notin> al \<Longrightarrow> claimed s c t \<and> t \<notin> set (g_list s)"
    and r: "\<And>t. t \<in> set (claims p) \<Longrightarrow> stage_of s t = Running \<Longrightarrow> p = Join_spin t"
  shows "life_inv s'"
proof -
  have st: "store_ok s" "clients_ok s" "joinable_ok s" "running_ok s" using i by (simp_all add: life_inv_def)
  have f: "g_list s' = gl" "mapped s' = ma" "allocated s' = al" "structs s' = structs s" "stage_of s' = stage_of s"
    "next_thread s' = next_thread s" "joinable s' = joinable s" "fault s' = fault s" "client s' = (client s)(c := p)"
    by (simp_all add: c moves_def)
  have o: "\<not> claimed s c t" if "claimed s d t" "d \<noteq> c" for d t using st(2) that by (auto simp: clients_ok_def)
  have cl: "claimed s' d t \<Longrightarrow> claimed s d t" for d t
    using p(2) by (auto simp: claimed_def f split: if_splits)
  have "store_ok s'"
    using st(1) g(1, 2) m l unfolding store_ok_def f by blast
  moreover have "clients_ok s'"
  proof (rule clients_change [OF st(2), where c = c])
    show "keeps s s' t" if "d \<noteq> c" "claimed s d t" for d t
      using o [OF that(2, 1)] g(2, 3) m(2) l(2) unfolding keeps_def f by blast
    show "\<not> claimed s d t" if "claimed s' c t" "d \<noteq> c" for t d
      using cl [OF that(1)] o that(2) by blast
  qed (use p(1) f in simp_all)
  moreover have "joinable_ok s'"
    using st(3) g(3) cl unfolding joinable_ok_def f by blast
  moreover have "running_ok s'"
    using st(4) g(3) r cl unfolding running_ok_def by (auto simp: f claimed_def)
  ultimately show ?thesis by (simp add: life_inv_def)
qed

lemma life_run_inv:
  assumes i: "life_inv s"
  shows "life_inv (life_run c s)"
proof -
  have st: "store_ok s" "clients_ok s" "joinable_ok s" "running_ok s" using i by (simp_all add: life_inv_def)
  have p: "pc_ok s (client s c)" using st(2) by (simp add: clients_ok_def)
  have d: "distinct (g_list s)" "\<And>t. t \<in> set (g_list s) \<Longrightarrow> t \<in> allocated s \<and> t \<in> mapped s"
    "\<And>t. finished (structs s t) \<longleftrightarrow> stage_of s t = Leaving \<or> stage_of s t = Terminated"
    using st(1) by (simp_all add: store_ok_def)
  have nr: "stage_of s t \<noteq> Running" if "claimed s c t" "client s c \<noteq> Join_spin t" for t
    using st(4) that by (auto simp: running_ok_def)
  show ?thesis
  proof (cases "client s c")
    case (Join_spin t)
    with p d have a: "t \<in> set (g_list s)" "uses t s = s" by (simp_all add: uses_id)
    show ?thesis
    proof (cases "finished (structs s t)")
      case True
      show ?thesis
        by (rule claims_step [OF i, where c = c and p = "Join_unregister t" and gl = "g_list s" and ma = "mapped s" and al = "allocated s"])
          (use p a True Join_spin d in \<open>auto simp: moves_def\<close>)
    qed (use Join_spin a i in simp)
  next
    case (Join_unregister t)
    show ?thesis
      by (rule claims_step [OF i, where c = c and p = "Join_unmap t" and gl = "pthread_unregister t (g_list s)" and ma = "mapped s" and al = "allocated s"])
        (use p Join_unregister d nr in \<open>auto simp: moves_def unregister_distinct claimed_def\<close>)
  next
    case (Join_unmap t)
    show ?thesis
      by (rule claims_step [OF i, where c = c and p = "Join_free t" and gl = "g_list s" and ma = "mapped s - {t}" and al = "allocated s"])
        (use p Join_unmap d nr in \<open>auto simp: moves_def munmap_id claimed_def\<close>)
  next
    case (Join_free t)
    show ?thesis
      by (rule claims_step [OF i, where c = c and p = "Free_to_call" and gl = "g_list s" and ma = "mapped s" and al = "allocated s - {t}"])
        (use p Join_free d nr in \<open>auto simp: moves_def free_id claimed_def\<close>)
  next
    case (Undo_unregister t)
    show ?thesis
      by (rule claims_step [OF i, where c = c and p = "Undo_unmap t" and gl = "pthread_unregister t (g_list s)" and ma = "mapped s" and al = "allocated s"])
        (use p Undo_unregister d nr in \<open>auto simp: moves_def unregister_distinct claimed_def\<close>)
  next
    case (Undo_unmap t)
    show ?thesis
      by (rule claims_step [OF i, where c = c and p = "Undo_free t" and gl = "g_list s" and ma = "mapped s - {t}" and al = "allocated s"])
        (use p Undo_unmap d nr in \<open>auto simp: moves_def munmap_id claimed_def\<close>)
  next
    case (Undo_free t)
    show ?thesis
      by (rule claims_step [OF i, where c = c and p = "Free_to_call" and gl = "g_list s" and ma = "mapped s" and al = "allocated s - {t}"])
        (use p Undo_free d nr in \<open>auto simp: moves_def free_id claimed_def\<close>)
  next
    case (Reap_unmap ts det sz)
    show ?thesis
    proof (cases ts)
      case (Cons t us)
      show ?thesis
        by (rule claims_step [OF i, where c = c and p = "Reap_free ts det sz" and gl = "g_list s" and ma = "mapped s - {t}" and al = "allocated s"])
          (use p Reap_unmap Cons d nr in \<open>auto simp: moves_def munmap_id claimed_def\<close>)
    qed (use Reap_unmap i in simp)
  next
    case (Reap_free ts det sz)
    show ?thesis
    proof (cases ts)
      case (Cons t us)
      show ?thesis
        by (rule claims_step [OF i, where c = c and p = "Reap_unmap us det sz" and gl = "g_list s" and ma = "mapped s" and al = "allocated s - {t}"])
          (use p Reap_free Cons d nr in \<open>auto simp: moves_def free_id claimed_def\<close>)
    qed (use Reap_free i in simp)
  qed (use i in simp_all)
qed

lemma inv_parts:
  assumes "life_inv s"
  shows "\<not> fault s" "distinct (g_list s)"
    "\<And>t. t \<in> set (g_list s) \<Longrightarrow> t \<in> allocated s" "\<And>t. t \<in> set (g_list s) \<Longrightarrow> t \<in> mapped s"
    "\<And>t. t \<in> allocated s \<Longrightarrow> t < next_thread s"
    "\<And>t. finished (structs s t) \<longleftrightarrow> stage_of s t = Leaving \<or> stage_of s t = Terminated"
    "\<And>t. next_thread s \<le> t \<Longrightarrow> stage_of s t = Unborn"
    "\<And>c. pc_ok s (client s c)" "\<And>c d t. claimed s c t \<Longrightarrow> claimed s d t \<Longrightarrow> c = d"
    "\<And>t. t \<in> joinable s \<Longrightarrow> t \<in> set (g_list s) \<and> \<not> detached (structs s t) \<and> stage_of s t \<noteq> Unborn"
    "\<And>t c. t \<in> joinable s \<Longrightarrow> \<not> claimed s c t"
    "\<And>t. stage_of s t = Running \<Longrightarrow> t \<in> set (g_list s)"
    "\<And>t c. stage_of s t = Running \<Longrightarrow> claimed s c t \<Longrightarrow> client s c = Join_spin t"
    "clients_ok s"
  using assms by (simp_all add: life_inv_def store_ok_def clients_ok_def joinable_ok_def running_ok_def)

lemma claimed_allocated: "life_inv s \<Longrightarrow> claimed s c t \<Longrightarrow> t \<in> allocated s"
  using inv_parts(3, 8) [of s] by (cases "client s c") (auto simp: claimed_def dest: spec [where x = c], (metis pc_ok.simps)+)

lemma claimed_dead:
  assumes "life_inv s" "claimed s c t" "t \<in> set (g_list s)"
  shows "\<not> (detached (structs s t) \<and> finished (structs s t))"
  using inv_parts(8) [OF assms(1), of c] inv_parts(6) [OF assms(1), of t] assms(2, 3)
  by (cases "client s c") (auto simp: claimed_def)

lemma create_reap_inv:
  assumes i: "life_inv s" and c: "client s c = Free_to_call"
  shows "life_inv (create_reap c det sz s)"
proof -
  note ip = inv_parts [OF i]
  define dead where "dead = rev (filter (\<lambda>t. detached (structs s t) \<and> finished (structs s t)) (g_list s))"
  define live where "live = filter (\<lambda>t. \<not> (detached (structs s t) \<and> finished (structs s t))) (g_list s)"
  have s': "create_reap c det sz s = moves c (Reap_unmap dead det sz) (s\<lparr>g_list := live\<rparr>)" (is "_ = ?s'")
    by (simp add: create_reap_def reap_split_filter dead_def live_def)
  have dl: "set live \<subseteq> set (g_list s)" "distinct live" "distinct dead"
    "\<And>t. t \<in> set (g_list s) \<Longrightarrow> t \<notin> set live \<longleftrightarrow> t \<in> set dead"
    "\<And>t. t \<in> set dead \<Longrightarrow> t \<in> set (g_list s) \<and> detached (structs s t) \<and> finished (structs s t)"
    using ip(2) by (auto simp: dead_def live_def)
  have nc: "\<not> claimed s d t" if "t \<in> set dead" for d t
    using claimed_dead [OF i, of d t] dl(5) [OF that] by blast
  have f: "g_list ?s' = live" "mapped ?s' = mapped s" "allocated ?s' = allocated s" "structs ?s' = structs s"
    "stage_of ?s' = stage_of s" "next_thread ?s' = next_thread s" "joinable ?s' = joinable s" "fault ?s' = fault s"
    "client ?s' = (client s)(c := Reap_unmap dead det sz)"
    by (simp_all add: moves_def)
  have cl: "claimed ?s' d t \<longleftrightarrow> (if d = c then t \<in> set dead else claimed s d t)" for d t
    by (simp add: claimed_def f)
  have "store_ok ?s'" using ip(1, 3-7) dl(1, 2) unfolding store_ok_def f by blast
  moreover have "clients_ok ?s'"
  proof (rule clients_change [OF ip(14), where c = c])
    show "keeps s ?s' t" if "d \<noteq> c" "claimed s d t" for d t
      using nc [of t d] dl(1, 4) that(2) unfolding keeps_def f by blast
    show "\<not> claimed s d t" if "claimed ?s' c t" "d \<noteq> c" for t d
      using that(1) nc by (simp add: cl)
    show "pc_ok ?s' (client ?s' c)"
      using dl(3, 4, 5) ip(3, 4) by (auto simp: f)
  qed (simp add: f)
  moreover have "joinable_ok ?s'"
    unfolding joinable_ok_def f cl
  proof (intro ballI conjI allI)
    fix t assume t: "t \<in> joinable s"
    note j = ip(10) [OF t] ip(11) [OF t]
    have "t \<notin> set dead" using j(1) dl(5) by blast
    with j dl(4) show "t \<in> set live" "\<not> detached (structs s t)" "stage_of s t \<noteq> Unborn"
      "\<not> (if d = c then t \<in> set dead else claimed s d t)" for d by auto
  qed
  moreover have "running_ok ?s'"
    unfolding running_ok_def f(5) cl
  proof (intro allI impI conjI)
    fix t assume r: "stage_of s t = Running"
    then have nd: "t \<notin> set dead" using dl(5) ip(6) by fastforce
    with ip(12) [OF r] dl(4) show "t \<in> set (g_list ?s')" by (auto simp: f)
    fix d assume "if d = c then t \<in> set dead else claimed s d t"
    with nd ip(13) [OF r] show "client ?s' d = Join_spin t" by (auto simp: f split: if_splits)
  qed
  ultimately show ?thesis by (simp add: life_inv_def s')
qed

lemma create_register_inv:
  assumes i: "life_inv s" and c: "client s c = Reap_unmap [] det' sz'"
  shows "life_inv (create_register c det sz lo s)"
proof -
  note ip = inv_parts [OF i]
  define t0 where "t0 = next_thread s"
  let ?s' = "create_register c det sz lo s"
  have new: "t0 \<notin> allocated s" "t0 \<notin> set (g_list s)" "stage_of s t0 = Unborn" "\<not> claimed s d t0" "t0 \<notin> joinable s" for d
    using ip(3) [of t0] ip(5) [of t0] ip(7) [of t0] claimed_allocated [OF i, of d t0] ip(10) [of t0] by (auto simp: t0_def)
  have f: "g_list ?s' = t0 # g_list s" "mapped ?s' = insert t0 (mapped s)" "allocated ?s' = insert t0 (allocated s)"
    "stage_of ?s' = stage_of s" "next_thread ?s' = t0 + 1" "joinable ?s' = joinable s" "fault ?s' = fault s"
    "client ?s' = (client s)(c := Create_kernel t0)"
    "\<And>t. t \<noteq> t0 \<Longrightarrow> structs ?s' t = structs s t" "\<not> finished (structs ?s' t0)"
    by (simp_all add: create_register_def moves_def Let_def t0_def pthread_register_def)
  have cl: "claimed ?s' d t \<longleftrightarrow> (if d = c then t = t0 else claimed s d t)" for d t
    by (simp add: claimed_def f)
  have fin: "finished (structs ?s' t) \<longleftrightarrow> stage_of s t = Leaving \<or> stage_of s t = Terminated" for t
    by (cases "t = t0") (use f(9, 10) ip(6) new(3) in auto)
  have "store_ok ?s'"
    unfolding store_ok_def f fin using ip(1-5, 7) new by (auto simp: t0_def less_Suc_eq)
  moreover have "clients_ok ?s'"
  proof (rule clients_change [OF ip(14), where c = c])
    show "keeps s ?s' t" if "d \<noteq> c" "claimed s d t" for d t
    proof -
      have "t \<noteq> t0" using that(2) new(4) by blast
      then show ?thesis unfolding keeps_def f(1-4) by (simp add: f(9))
    qed
    show "\<not> claimed s d t" if "claimed ?s' c t" "d \<noteq> c" for t d
      using that(1) new(4) by (simp add: cl)
  qed (simp_all add: f new)
  moreover have "joinable_ok ?s'"
    unfolding joinable_ok_def f(1, 4, 6) cl
  proof (intro ballI conjI allI)
    fix t assume t: "t \<in> joinable s"
    then have "t \<noteq> t0" using new(5) by blast
    with ip(10) [OF t] ip(11) [OF t] show "t \<in> set (t0 # g_list s)" "\<not> detached (structs ?s' t)" "stage_of s t \<noteq> Unborn"
      "\<not> (if d = c then t = t0 else claimed s d t)" for d by (simp_all add: f(9))
  qed
  moreover have "running_ok ?s'"
    unfolding running_ok_def f(1, 4) cl f(8) using ip(12, 13) new(3) by auto
  ultimately show ?thesis by (simp add: life_inv_def)
qed

text \<open>The remaining steps change one thread that no other call claims.\<close>

lemma one_thread_step:
  assumes i: "life_inv s"
    and f: "g_list s' = g_list s" "mapped s' = mapped s" "allocated s' = allocated s" "next_thread s' = next_thread s"
      "fault s' = fault s" "\<And>u. u \<noteq> t \<Longrightarrow> structs s' u = structs s u" "\<And>u. u \<noteq> t \<Longrightarrow> stage_of s' u = stage_of s u"
      "\<And>d. d \<noteq> c \<Longrightarrow> client s' d = client s d" "\<And>u. u \<noteq> t \<Longrightarrow> u \<in> joinable s' \<longleftrightarrow> u \<in> joinable s"
      "set (claims (client s' c)) \<subseteq> insert t (set (claims (client s c)))"
    and t: "t < next_thread s" "finished (structs s' t) \<longleftrightarrow> stage_of s' t = Leaving \<or> stage_of s' t = Terminated"
    and k: "\<And>d. d \<noteq> c \<Longrightarrow> claimed s d t \<Longrightarrow> keeps s s' t" "pc_ok s' (client s' c)"
      "\<And>d. d \<noteq> c \<Longrightarrow> claimed s' c t \<Longrightarrow> \<not> claimed s d t"
    and j: "t \<in> joinable s' \<Longrightarrow> t \<in> set (g_list s) \<and> \<not> detached (structs s' t) \<and> stage_of s' t \<noteq> Unborn \<and> (\<forall>d. \<not> claimed s' d t)"
    and r: "stage_of s' t = Running \<Longrightarrow> t \<in> set (g_list s) \<and> (\<forall>d. claimed s' d t \<longrightarrow> client s' d = Join_spin t)"
    and q: "\<And>u. u \<in> set (claims (client s' c)) \<Longrightarrow> u \<noteq> t \<Longrightarrow> client s' c = client s c"
  shows "life_inv s'"
proof -
  note ip = inv_parts [OF i]
  have cl: "claimed s' d u \<Longrightarrow> claimed s d u \<or> d = c \<and> u = t" for d u
    using f(8) [of d] f(10) by (cases "d = c") (auto simp: claimed_def)
  have "finished (structs s' u) \<longleftrightarrow> stage_of s' u = Leaving \<or> stage_of s' u = Terminated" for u
    by (cases "u = t") (use f(6, 7) ip(6) t(2) in simp_all)
  moreover have "next_thread s \<le> u \<Longrightarrow> stage_of s' u = Unborn" for u
    by (cases "u = t") (use f(7) ip(7) t(1) in simp_all)
  ultimately have "store_ok s'" using ip(1-5) by (simp add: store_ok_def f(1-5))
  moreover have "clients_ok s'"
  proof (rule clients_change [OF ip(14), where c = c])
    show "keeps s s' u" if "d \<noteq> c" "claimed s d u" for d u
      by (cases "u = t") (use k(1) [OF that(1)] that(2) f(1-7) in \<open>simp_all add: keeps_def\<close>)
    show "\<not> claimed s d u" if "claimed s' c u" "d \<noteq> c" for u d
    proof (cases "u = t")
      case False
      then have "claimed s c u" using cl [OF that(1)] by blast
      with ip(9) that(2) show ?thesis by blast
    qed (use k(3) that in blast)
  qed (use f(8) k(2) in simp_all)
  moreover have "joinable_ok s'"
    unfolding joinable_ok_def
  proof
    fix u assume u: "u \<in> joinable s'"
    show "u \<in> set (g_list s') \<and> \<not> detached (structs s' u) \<and> stage_of s' u \<noteq> Unborn \<and> (\<forall>d. \<not> claimed s' d u)"
    proof (cases "u = t")
      case False
      then have us: "u \<in> joinable s" using u f(9) by blast
      then have "\<not> claimed s' d u" for d using cl [of d u] ip(11) False by blast
      with ip(10) [OF us] False show ?thesis by (simp add: f(1, 6, 7))
    qed (use j u f(1) in simp)
  qed
  moreover have "running_ok s'"
    unfolding running_ok_def
  proof (intro allI impI)
    fix u assume u: "stage_of s' u = Running"
    show "u \<in> set (g_list s') \<and> (\<forall>d. claimed s' d u \<longrightarrow> client s' d = Join_spin u)"
    proof (cases "u = t")
      case False
      then have su: "stage_of s u = Running" using u f(7) by simp
      have "client s' d = Join_spin u" if "claimed s' d u" for d
      proof -
        have "claimed s d u" using cl [OF that] False by blast
        then have "client s d = Join_spin u" by (rule ip(13) [OF su])
        moreover have "client s' d = client s d"
          using f(8) q [of u] that False by (cases "d = c") (simp_all add: claimed_def)
        ultimately show ?thesis by simp
      qed
      with ip(12) [OF su] show ?thesis by (simp add: f(1))
    qed (use r u f(1) in simp)
  qed
  ultimately show ?thesis by (simp add: life_inv_def)
qed

lemma create_kernel_inv:
  assumes i: "life_inv s" and c: "client s c = Create_kernel t"
  shows "life_inv (create_kernel c t ok s)"
proof -
  note ip = inv_parts [OF i]
  have t: "t \<in> set (g_list s)" "stage_of s t = Unborn" using ip(8) [of c] c by simp_all
  have "claimed s c t" using c by (simp add: claimed_def)
  then have o: "\<not> claimed s d t" if "d \<noteq> c" for d using ip(9) that by blast
  note facts = t c o ip(3) [of t] ip(5) [of t] ip(6) [of t] ip(10) [of t]
  show ?thesis
  proof (cases ok)
    case True
    show ?thesis
      by (rule one_thread_step [OF i, where t = t and c = c])
        (use facts True in \<open>auto simp: create_kernel_def moves_def claimed_def\<close>)
  next
    case False
    show ?thesis
      by (rule one_thread_step [OF i, where t = t and c = c])
        (use facts False in \<open>auto simp: create_kernel_def moves_def claimed_def\<close>)
  qed
qed

lemma pthread_join_inv:
  assumes i: "life_inv s" and c: "client s c = Free_to_call" "t \<in> joinable s"
  shows "life_inv (pthread_join c t s)"
proof -
  note ip = inv_parts [OF i]
  have t: "t \<in> set (g_list s)" "\<not> detached (structs s t)" "stage_of s t \<noteq> Unborn" "\<not> claimed s d t" for d
    using ip(10, 11) c(2) by blast+
  show ?thesis
    by (rule one_thread_step [OF i, where t = t and c = c])
      (use t c ip(3) [of t] ip(5) [of t] ip(6) [of t] in \<open>auto simp: pthread_join_def moves_def claimed_def\<close>)
qed

lemma unclaimed_pc_ok:
  assumes "life_inv s" "\<And>d. \<not> claimed s d t" "\<And>u. u \<noteq> t \<Longrightarrow> keeps s s' u"
  shows "pc_ok s' (client s d)"
proof (rule pc_ok_keeps [OF inv_parts(8) [OF assms(1)]], rule ballI)
  fix u assume "u \<in> set (claims (client s d))"
  then have "u \<noteq> t" using assms(2) [of d] by (auto simp: claimed_def)
  then show "keeps s s' u" by (rule assms(3))
qed

lemma pthread_detach_inv:
  assumes i: "life_inv s" and t: "t \<in> joinable s"
  shows "life_inv (pthread_detach t s)"
proof -
  note ip = inv_parts [OF i]
  have t: "t \<in> set (g_list s)" "\<not> claimed s d t" for d using ip(10, 11) t by blast+
  have p: "pc_ok (pthread_detach t s) (client s d)" for d
    by (rule unclaimed_pc_ok [OF i t(2)]) (simp add: keeps_def pthread_detach_def uses_def)
  have "pthread_detach t s = s\<lparr>structs := (structs s)(t := (structs s t)\<lparr>detached := True\<rparr>), joinable := joinable s - {t}\<rparr>"
    using ip(1) ip(3) [OF t(1)] by (simp add: pthread_detach_def uses_def)
  note e = this and p = p [unfolded this]
  show ?thesis unfolding e
    by (rule one_thread_step [OF i, where t = t and c = 0])
      (use t p [of 0] ip(3) [of t] ip(5) [of t] ip(6) [of t] ip(12) [of t] in \<open>auto simp: claimed_def\<close>)
qed

lemma trampoline_terminate_inv:
  assumes i: "life_inv s" and t: "stage_of s t = Leaving"
  shows "life_inv (trampoline_terminate t s)"
proof -
  note ip = inv_parts [OF i]
  let ?s' = "trampoline_terminate t s"
  have k: "keeps s ?s' u" for u using t by (simp add: keeps_def trampoline_terminate_def)
  have p: "pc_ok ?s' (client s d)" for d by (rule pc_ok_keeps [OF ip(8)]) (simp add: k)
  have o: "\<not> claimed s d t" if "claimed s 0 t" "d \<noteq> 0" for d using ip(9) that by blast
  have n: "t < next_thread s" using ip(7) [of t] t by (cases "t < next_thread s") auto
  show ?thesis
    by (rule one_thread_step [OF i, where t = t and c = 0])
      (use t n o p [of 0] k ip(6) [of t] ip(10) [of t] ip(11) [of t] in \<open>auto simp: trampoline_terminate_def claimed_def\<close>)
qed

lemma trampoline_finish_inv:
  assumes i: "life_inv s" and t: "stage_of s t = Running"
  shows "life_inv (trampoline_finish t s)"
proof -
  note ip = inv_parts [OF i]
  have l: "t \<in> set (g_list s)" "t \<in> allocated s" using ip(12) [OF t] ip(3) by blast+
  have e: "trampoline_finish t s =
      s\<lparr>structs := (structs s)(t := (structs s t)\<lparr>finished := True\<rparr>), stage_of := (stage_of s)(t := Leaving)\<rparr>" (is "_ = ?s'")
    using ip(1) l(2) by (simp add: trampoline_finish_def uses_def)
  have k: "keeps s ?s' u" for u using t by (simp add: keeps_def)
  have p: "pc_ok ?s' (client s d)" for d by (rule pc_ok_keeps [OF ip(8)]) (use k in blast)
  have o: "\<not> claimed s d t" if "claimed s 0 t" "d \<noteq> 0" for d using ip(9) that by blast
  show ?thesis unfolding e
    by (rule one_thread_step [OF i, where t = t and c = 0])
      (use t l o p [of 0] k ip(5) [of t] ip(10) [of t] ip(11) [of t] in \<open>auto simp: claimed_def\<close>)
qed

lemma no_memory_inv: "life_inv s \<Longrightarrow> client s c = Reap_unmap [] det sz \<Longrightarrow> life_inv (moves c Free_to_call s)"
  using claims_step [where s = s and c = c and p = Free_to_call and gl = "g_list s" and ma = "mapped s"
      and al = "allocated s" and s' = "moves c Free_to_call s"]
    inv_parts(2) [of s] by simp

lemma life_step_inv: "life_step s s' \<Longrightarrow> life_inv s \<Longrightarrow> life_inv s'"
  by (induction rule: life_step.induct)
    (simp_all only: create_reap_inv create_register_inv no_memory_inv create_kernel_inv pthread_join_inv
      pthread_detach_inv trampoline_finish_inv trampoline_terminate_inv life_run_inv)

lemma life_init_inv: "life_inv life_init"
  by (simp add: life_inv_def store_ok_def clients_ok_def joinable_ok_def running_ok_def claimed_def life_init_def no_thread_def)

lemma life_reach: "life_step\<^sup>*\<^sup>* life_init s \<Longrightarrow> life_inv s"
  by (induction rule: rtranclp_induct) (auto intro: life_init_inv life_step_inv)


section \<open>The stack of a thread that is leaving\<close>

text \<open>A run: a thread is created and joined, and the joiner sees the end as soon as it is published.\<close>

definition created :: life where
  "created = create_kernel 0 0 True (create_register 0 False 0 4096 (create_reap 0 False 0 life_init))"

definition joined_early :: life where
  "joined_early = life_run 0 (life_run 0 (life_run 0 (pthread_join 0 0 (trampoline_finish 0 created))))"

lemma created_reach: "life_step\<^sup>*\<^sup>* life_init created"
proof -
  let ?a = "create_reap 0 False 0 life_init"
  have "life_step life_init ?a" by (rule life_step.create) (simp add: life_init_def)
  moreover have "life_step ?a (create_register 0 False 0 4096 ?a)"
    by (rule life_step.register [where det = False and sz = 0]) (simp add: create_reap_def life_init_def moves_def)
  moreover have "life_step (create_register 0 False 0 4096 ?a) created"
    unfolding created_def
    by (rule life_step.kernel) (simp add: create_register_def create_reap_def life_init_def moves_def Let_def)
  ultimately show ?thesis by (meson rtranclp.rtrancl_into_rtrancl rtranclp.rtrancl_refl)
qed


lemmas life_run_defs = joined_early_def created_def create_kernel_def create_register_def create_reap_def
  pthread_join_def trampoline_finish_def uses_def munmap_stack_def life_init_def moves_def pthread_register_def

text \<open>C30 The end of a thread is published before it has left its stack: there is a run in which the thread
  still has to terminate itself and the joiner has unmapped the stack it stands on.\<close>
theorem stack_unmapped_under_thread:
  "\<exists>s. life_step\<^sup>*\<^sup>* life_init s \<and> stage_of s 0 = Leaving \<and> 0 \<notin> mapped s"
proof (intro exI conjI)
  have j: "0 \<in> joinable (trampoline_finish 0 created)" "client (trampoline_finish 0 created) 0 = Free_to_call"
    "stage_of created 0 = Running"
    by (simp_all add: life_run_defs Let_def)
  have "life_step created (trampoline_finish 0 created)" by (rule life_step.finish) (rule j(3))
  moreover have "life_step (trampoline_finish 0 created) (pthread_join 0 0 (trampoline_finish 0 created))"
    by (rule life_step.join [OF j(2, 1)])
  ultimately show "life_step\<^sup>*\<^sup>* life_init joined_early"
    unfolding joined_early_def using created_reach
    by (meson life_step.proceed rtranclp.rtrancl_into_rtrancl)
  show "stage_of joined_early 0 = Leaving" "0 \<notin> mapped joined_early"
    by (simp_all add: life_run_defs Let_def)
qed

end
