(* ===== verification/PthreadSync.thy ===== *)
theory PthreadSync
  imports Prelude "HOL-Library.Multiset"
begin

text \<open>
  The locks of \<open>userland/libc/src/pthread.c\<close>: mutexes and condition variables, read-write locks and
  \<open>pthread_once\<close>.  A step is one access to shared memory, so the threads interleave between any two
  lines of the code.  A thread is a number; its program counter names the access it makes next, and
  \<open>At_client\<close> is client code.  The counters that only the properties speak about are marked.

  A mutex has one holder, a waiter on a condition variable misses no signal sent after it released
  the mutex, and a read-write lock has one writer or readers.
\<close>

section \<open>Mutexes and condition variables\<close>

datatype mutex_type = Normal | Recursive

text \<open>Where a thread is in a call.  After an unlock the call returns, or polls the generation it
  has read with or without a deadline.\<close>

datatype after = Return | Poll bool u32

datatype mutex_pc =
    At_client
  | Lock_check int | Lock_exchange int | Lock_owner int | Lock_count int
  | Try_check | Try_exchange
  | Unlock_count after | Unlock_owner after | Unlock_owned after
  | Wait_load bool | Wait_poll bool u32
  | Signal_add

text \<open>One mutex and one condition variable.  \<open>depth\<close> (how often a thread holds the mutex), \<open>signals\<close>,
  \<open>loaded\<close> and \<open>released\<close> (the signals sent when a waiter read the generation and when it released
  the mutex) are for the properties.\<close>

record sync =
  owned :: bool
  owner :: "nat option"
  recursion :: int
  mtype :: mutex_type
  gen :: u32
  at :: "nat \<Rightarrow> mutex_pc"
  result :: "nat \<Rightarrow> int"
  depth :: "nat \<Rightarrow> nat"
  signals :: nat
  loaded :: "nat \<Rightarrow> nat"
  released :: "nat \<Rightarrow> nat"

definition EBUSY :: int where "EBUSY = 16"
definition ETIMEDOUT :: int where "ETIMEDOUT = 60"

definition pthread_mutex_init :: "mutex_type option \<Rightarrow> sync" where
  "pthread_mutex_init attr =
     \<lparr>owned = False, owner = None, recursion = 0, mtype = (case attr of None \<Rightarrow> Normal | Some ty \<Rightarrow> ty), gen = 0,
      at = (\<lambda>_. At_client), result = (\<lambda>_. 0), depth = (\<lambda>_. 0), signals = 0, loaded = (\<lambda>_. 0), released = (\<lambda>_. 0)\<rparr>"

definition goto :: "nat \<Rightarrow> mutex_pc \<Rightarrow> sync \<Rightarrow> sync" where
  "goto t p s = s\<lparr>at := (at s)(t := p)\<rparr>"

definition return_with :: "nat \<Rightarrow> int \<Rightarrow> sync \<Rightarrow> sync" where
  "return_with t r s = goto t At_client (s\<lparr>result := (result s)(t := r)\<rparr>)"

definition hold_again :: "nat \<Rightarrow> sync \<Rightarrow> sync" where
  "hold_again t s = s\<lparr>recursion := recursion s + 1, depth := (depth s)(t := depth s t + 1)\<rparr>"

text \<open>The steps of \<open>pthread_mutex_lock\<close>; the number it carries is what the call answers in the end.\<close>

fun mutex_lock_step :: "nat \<Rightarrow> sync \<Rightarrow> sync" where
  "mutex_lock_step t s =
     (case at s t of
        Lock_check r \<Rightarrow>
          if mtype s = Recursive \<and> owner s = Some t then return_with t r (hold_again t s)
          else goto t (Lock_exchange r) s
      | Lock_exchange r \<Rightarrow> if owned s then s else goto t (Lock_owner r) (s\<lparr>owned := True\<rparr>)
      | Lock_owner r \<Rightarrow> goto t (Lock_count r) (s\<lparr>owner := Some t\<rparr>)
      | Lock_count r \<Rightarrow> return_with t r (s\<lparr>recursion := 1, depth := (depth s)(t := depth s t + 1)\<rparr>)
      | _ \<Rightarrow> s)"

fun mutex_trylock_step :: "nat \<Rightarrow> sync \<Rightarrow> sync" where
  "mutex_trylock_step t s =
     (case at s t of
        Try_check \<Rightarrow>
          if mtype s = Recursive \<and> owner s = Some t then return_with t 0 (hold_again t s)
          else goto t Try_exchange s
      | Try_exchange \<Rightarrow>
          if owned s then return_with t EBUSY s else goto t (Lock_owner 0) (s\<lparr>owned := True\<rparr>)
      | _ \<Rightarrow> s)"

text \<open>What follows an unlock.\<close>

definition resume :: "nat \<Rightarrow> after \<Rightarrow> sync \<Rightarrow> sync" where
  "resume t k s =
     (case k of Return \<Rightarrow> return_with t 0 s
      | Poll timed g \<Rightarrow> goto t (Wait_poll timed g) (s\<lparr>released := (released s)(t := signals s)\<rparr>))"

fun mutex_unlock_step :: "nat \<Rightarrow> sync \<Rightarrow> sync" where
  "mutex_unlock_step t s =
     (case at s t of
        Unlock_count k \<Rightarrow>
          let s1 = s\<lparr>recursion := (if mtype s = Recursive then recursion s - 1 else recursion s),
                     depth := (depth s)(t := depth s t - 1)\<rparr> in
          if mtype s = Recursive \<and> 0 < recursion s1 then resume t k s1 else goto t (Unlock_owner k) s1
      | Unlock_owner k \<Rightarrow> goto t (Unlock_owned k) (s\<lparr>owner := None\<rparr>)
      | Unlock_owned k \<Rightarrow> resume t k (s\<lparr>owned := False\<rparr>)
      | _ \<Rightarrow> s)"

text \<open>\<open>pthread_cond_wait\<close> and, with a deadline, \<open>pthread_cond_timedwait\<close>; \<open>late\<close> says whether the
  deadline has passed.\<close>

fun cond_wait_step :: "bool \<Rightarrow> nat \<Rightarrow> sync \<Rightarrow> sync" where
  "cond_wait_step late t s =
     (case at s t of
        Wait_load timed \<Rightarrow>
          goto t (Unlock_count (Poll timed (gen s))) (s\<lparr>loaded := (loaded s)(t := signals s)\<rparr>)
      | Wait_poll timed g \<Rightarrow>
          if gen s \<noteq> g then goto t (Lock_check 0) s
          else if timed \<and> late then goto t (Lock_check ETIMEDOUT) s
          else s
      | _ \<Rightarrow> s)"

text \<open>\<open>pthread_cond_signal\<close> and \<open>pthread_cond_broadcast\<close> do the same.\<close>

fun cond_signal_step :: "nat \<Rightarrow> sync \<Rightarrow> sync" where
  "cond_signal_step t s =
     (case at s t of
        Signal_add \<Rightarrow> return_with t 0 (s\<lparr>gen := gen s + 1, signals := signals s + 1\<rparr>)
      | _ \<Rightarrow> s)"

text \<open>The next access of a thread.\<close>

definition sync_run :: "bool \<Rightarrow> nat \<Rightarrow> sync \<Rightarrow> sync" where
  "sync_run late t s =
     (case at s t of
        At_client \<Rightarrow> s
      | Lock_check _ \<Rightarrow> mutex_lock_step t s | Lock_exchange _ \<Rightarrow> mutex_lock_step t s
      | Lock_owner _ \<Rightarrow> mutex_lock_step t s | Lock_count _ \<Rightarrow> mutex_lock_step t s
      | Try_check \<Rightarrow> mutex_trylock_step t s | Try_exchange \<Rightarrow> mutex_trylock_step t s
      | Unlock_count _ \<Rightarrow> mutex_unlock_step t s | Unlock_owner _ \<Rightarrow> mutex_unlock_step t s
      | Unlock_owned _ \<Rightarrow> mutex_unlock_step t s
      | Wait_load _ \<Rightarrow> cond_wait_step late t s | Wait_poll _ _ \<Rightarrow> cond_wait_step late t s
      | Signal_add \<Rightarrow> cond_signal_step t s)"

text \<open>A client may lock, try to lock and signal at any time; it unlocks, and waits on, a mutex that
  it holds.\<close>

inductive sync_step :: "sync \<Rightarrow> sync \<Rightarrow> bool" where
  lock: "at s t = At_client \<Longrightarrow> sync_step s (goto t (Lock_check 0) s)"
| trylock: "at s t = At_client \<Longrightarrow> sync_step s (goto t Try_check s)"
| unlock: "at s t = At_client \<Longrightarrow> 0 < depth s t \<Longrightarrow> sync_step s (goto t (Unlock_count Return) s)"
| wait: "at s t = At_client \<Longrightarrow> depth s t = 1 \<Longrightarrow> sync_step s (goto t (Wait_load timed) s)"
| signal: "at s t = At_client \<Longrightarrow> sync_step s (goto t Signal_add s)"
| run: "sync_step s (sync_run late t s)"

section \<open>Mutual exclusion\<close>

text \<open>A thread between the exchange that took the lock bit and the one that clears it, outside of
  its critical section.\<close>

fun owns :: "mutex_pc \<Rightarrow> bool" where
  "owns (Lock_owner _) = True"
| "owns (Lock_count _) = True"
| "owns (Unlock_owner _) = True"
| "owns (Unlock_owned _) = True"
| "owns _ = False"

definition holds :: "sync \<Rightarrow> nat \<Rightarrow> bool" where
  "holds s t \<longleftrightarrow> 0 < depth s t \<or> owns (at s t)"

text \<open>Where a thread has its name in the mutex outside of its critical section, and how often it must
  hold the mutex where it is.\<close>

fun named :: "mutex_pc \<Rightarrow> bool" where
  "named (Lock_count _) = True"
| "named (Unlock_owner _) = True"
| "named _ = False"

fun needs :: "mutex_pc \<Rightarrow> nat \<Rightarrow> bool" where
  "needs (Unlock_count _) d = (0 < d)"
| "needs (Wait_load _) d = (d = 1)"
| "needs _ d = True"

definition owner_ok :: "sync \<Rightarrow> nat \<Rightarrow> bool" where
  "owner_ok s t \<longleftrightarrow>
     (owns (at s t) \<longrightarrow> depth s t = 0) \<and>
     (owner s = Some t \<longleftrightarrow> 0 < depth s t \<or> named (at s t)) \<and>
     (0 < depth s t \<longrightarrow> (if mtype s = Recursive then recursion s = int (depth s t) else depth s t = 1)) \<and>
     needs (at s t) (depth s t)"

definition sync_inv :: "sync \<Rightarrow> bool" where
  "sync_inv s \<longleftrightarrow>
     (owned s \<longleftrightarrow> (\<exists>t. holds s t)) \<and> (\<forall>t u. holds s t \<longrightarrow> holds s u \<longrightarrow> t = u) \<and> (\<forall>t. owner_ok s t)"

lemmas sync_defs = goto_def return_with_def hold_again_def resume_def sync_run_def Let_def

lemma inv_change:
  assumes "sync_inv s" "\<And>u. u \<noteq> t \<Longrightarrow> at s' u = at s u" "\<And>u. u \<noteq> t \<Longrightarrow> depth s' u = depth s u" "mtype s' = mtype s"
    "\<And>u. u \<noteq> t \<Longrightarrow> owner s' = Some u \<longleftrightarrow> owner s = Some u"
    "\<And>u. u \<noteq> t \<Longrightarrow> 0 < depth s u \<Longrightarrow> recursion s' = recursion s"
    "owner_ok s' t"
    "holds s' t \<longleftrightarrow> holds s t" "owned s' = owned s"
  shows "sync_inv s'"
proof -
  have h: "holds s' u = holds s u" for u
    by (cases "u = t") (use assms(2, 3, 8) in \<open>simp_all add: holds_def\<close>)
  have "owner_ok s' u" for u
  proof (cases "u = t")
    case False
    with assms(1) have "owner_ok s u" by (simp add: sync_inv_def)
    with assms(2) [OF False] assms(3) [OF False] assms(4) assms(5) [OF False] assms(6) [OF False]
    show ?thesis unfolding owner_ok_def by (cases "0 < depth s u") simp_all
  qed (use assms(7) in simp)
  with assms(1, 9) h show ?thesis by (simp add: sync_inv_def)
qed

text \<open>Taking the lock bit and giving it back.\<close>

lemma inv_take:
  assumes "sync_inv s" "\<not> owned s" "owner_ok s' t"
    "\<And>u. u \<noteq> t \<Longrightarrow> at s' u = at s u" "depth s' = depth s" "mtype s' = mtype s" "owner s' = owner s"
    "holds s' t" "owned s'"
  shows "sync_inv s'"
proof -
  have n: "\<not> holds s u" "owner_ok s u" for u using assms(1, 2) by (auto simp: sync_inv_def)
  have h: "holds s' u \<longleftrightarrow> u = t" for u
    by (cases "u = t") (use n assms(4, 5, 8) in \<open>simp_all add: holds_def\<close>)
  have "owner_ok s' u" for u
  proof (cases "u = t")
    case False
    with n(1) [of u] n(2) [of u] assms(4) [OF False] assms(5, 6, 7) show ?thesis
      by (simp add: owner_ok_def holds_def)
  qed (use assms(3) in simp)
  with assms(9) h show ?thesis by (auto simp: sync_inv_def)
qed

lemma inv_give:
  assumes "sync_inv s" "holds s t" "owner_ok s' t"
    "\<And>u. u \<noteq> t \<Longrightarrow> at s' u = at s u" "depth s' = depth s" "mtype s' = mtype s" "owner s' = owner s"
    "\<not> holds s' t" "\<not> owned s'"
  shows "sync_inv s'"
proof -
  have n: "\<not> holds s u" if "u \<noteq> t" for u using assms(1, 2) that by (auto simp: sync_inv_def)
  have h: "\<not> holds s' u" for u
    by (cases "u = t") (use n assms(4, 5, 8) in \<open>simp_all add: holds_def\<close>)
  have "owner_ok s' u" for u
  proof (cases "u = t")
    case False
    have "owner_ok s u" using assms(1) by (simp add: sync_inv_def)
    with n [OF False] assms(4) [OF False] assms(5, 6, 7) show ?thesis
      by (simp add: owner_ok_def holds_def)
  qed (use assms(3) in simp)
  with assms(9) h show ?thesis by (auto simp: sync_inv_def)
qed

lemma run_inv:
  assumes "sync_inv s"
  shows "sync_inv (sync_run late t s)"
proof -
  have free: "depth s t = 0" if "\<not> owned s" using assms that by (auto simp: sync_inv_def holds_def)
  have o: "owner_ok s t" using assms by (simp add: sync_inv_def)
  have others: "depth s u = 0 \<and> owner s \<noteq> Some u" if "u \<noteq> t" "holds s t" for u
  proof -
    have "\<not> holds s u" "owner_ok s u" using assms that by (auto simp: sync_inv_def)
    then show ?thesis by (cases "at s u") (simp_all add: holds_def owner_ok_def)
  qed
  show ?thesis
  proof (cases "at s t")
    case (Lock_exchange r)
    show ?thesis
    proof (cases "owned s")
      case False
      show ?thesis
        by (rule inv_take [OF assms False, where t = t])
          (use o free Lock_exchange False in \<open>simp_all add: sync_defs owner_ok_def holds_def\<close>)
    qed (use assms Lock_exchange in \<open>simp add: sync_defs\<close>)
  next
    case Try_exchange
    show ?thesis
    proof (cases "owned s")
      case False
      show ?thesis
        by (rule inv_take [OF assms False, where t = t])
          (use o free Try_exchange False in \<open>simp_all add: sync_defs owner_ok_def holds_def\<close>)
    next
      case True
      show ?thesis
        by (rule inv_change [OF assms, where t = t])
          (use o Try_exchange True in \<open>auto simp: sync_defs owner_ok_def holds_def split: if_splits\<close>)
    qed
  next
    case (Unlock_owned k)
    show ?thesis
      by (rule inv_give [OF assms, where t = t])
        (use o Unlock_owned in \<open>simp_all add: sync_defs owner_ok_def holds_def split: after.splits\<close>)
  qed ((rule inv_change [OF assms, where t = t];
      use o others in \<open>auto simp: sync_defs owner_ok_def holds_def split: if_splits after.splits\<close>)+)
qed

lemma goto_inv:
  assumes "sync_inv s" "at s t = At_client" "\<not> owns p" "\<not> named p" "needs p (depth s t)"
  shows "sync_inv (goto t p s)"
proof (rule inv_change [OF assms(1), where t = t])
  have "owner_ok s t" using assms(1) by (simp add: sync_inv_def)
  with assms(2-) show "owner_ok (goto t p s) t" by (auto simp: owner_ok_def goto_def split: if_splits)
qed (use assms in \<open>simp_all add: goto_def holds_def\<close>)

lemma sync_step_inv: "sync_step s s' \<Longrightarrow> sync_inv s \<Longrightarrow> sync_inv s'"
  by (induction rule: sync_step.induct) (simp_all add: run_inv goto_inv)

lemma sync_start: "sync_inv (pthread_mutex_init attr)"
  by (simp add: sync_inv_def pthread_mutex_init_def holds_def owner_ok_def)

lemma sync_reach: "sync_step\<^sup>*\<^sup>* (pthread_mutex_init attr) s \<Longrightarrow> sync_inv s"
  by (induction rule: rtranclp_induct) (auto intro: sync_start sync_step_inv)

text \<open>C26 In every interleaving at most one thread holds a mutex, and a recursive one counts how often.\<close>
theorem mutex_exclusion:
  assumes "sync_step\<^sup>*\<^sup>* (pthread_mutex_init attr) s" "0 < depth s t"
  shows "(if 0 < depth s u then u = t else True) \<and> owned s \<and> owner s = Some t \<and>
    (if mtype s = Recursive then recursion s = int (depth s t) else depth s t = 1)"
proof -
  note i = sync_reach [OF assms(1), unfolded sync_inv_def]
  have "holds s t" using assms(2) by (simp add: holds_def)
  moreover have "holds s u" if "0 < depth s u" using that by (simp add: holds_def)
  ultimately have "u = t" if "0 < depth s u" using i that by blast
  moreover have "owned s" using i \<open>holds s t\<close> by blast
  moreover have "owner_ok s t" using i by blast
  ultimately show ?thesis using assms(2) by (simp add: owner_ok_def)
qed

lemma sync_runs:
  "sync_step\<^sup>*\<^sup>* s0 s \<Longrightarrow> sync_step\<^sup>*\<^sup>* s0 (sync_run late t s)"
  by (rule rtranclp.rtrancl_into_rtrancl) (auto intro: sync_step.run)

fun schedule :: "nat list \<Rightarrow> sync \<Rightarrow> sync" where
  "schedule [] s = s"
| "schedule (t # ts) s = schedule ts (sync_run False t s)"

lemma schedule_reach: "sync_step\<^sup>*\<^sup>* s0 s \<Longrightarrow> sync_step\<^sup>*\<^sup>* s0 (schedule ts s)"
  by (induction ts arbitrary: s) (simp_all add: sync_runs)

definition lock_run :: "nat \<Rightarrow> sync \<Rightarrow> sync" where
  "lock_run t s = schedule [t, t, t, t] (goto t (Lock_check 0) s)"

lemma lock_reach:
  assumes "sync_step\<^sup>*\<^sup>* s0 s" "at s t = At_client"
  shows "sync_step\<^sup>*\<^sup>* s0 (lock_run t s)"
proof -
  have "sync_step\<^sup>*\<^sup>* s0 (goto t (Lock_check 0) s)"
    using assms by (meson rtranclp.rtrancl_into_rtrancl sync_step.lock)
  then show ?thesis unfolding lock_run_def by (rule schedule_reach)
qed

text \<open>The state after the first lock, one thread being in it.\<close>

definition locked :: "mutex_type \<Rightarrow> nat \<Rightarrow> sync" where
  "locked ty t = (pthread_mutex_init (Some ty))\<lparr>owned := True, owner := Some t, recursion := 1, depth := (\<lambda>_. 0)(t := 1)\<rparr>"

lemma lock_init: "lock_run t (pthread_mutex_init (Some ty)) = locked ty t"
  by (simp add: lock_run_def locked_def pthread_mutex_init_def sync_defs fun_eq_iff)

lemma locked_reach: "sync_step\<^sup>*\<^sup>* (pthread_mutex_init (Some ty)) (locked ty t)"
  unfolding lock_init [symmetric] by (rule lock_reach) (simp_all add: pthread_mutex_init_def)

lemma locked_simps:
  "at (locked ty t) = (\<lambda>_. At_client)" "owned (locked ty t)" "owner (locked ty t) = Some t"
  "recursion (locked ty t) = 1" "mtype (locked ty t) = ty" "gen (locked ty t) = 0" "signals (locked ty t) = 0"
  "depth (locked ty t) = (\<lambda>_. 0)(t := 1)"
  by (simp_all add: locked_def pthread_mutex_init_def)

theorem mutex_exclusion_witness: "owner (lock_run 3 (locked Recursive 3)) = Some 3"
proof -
  have "sync_step\<^sup>*\<^sup>* (pthread_mutex_init (Some Recursive)) (lock_run 3 (locked Recursive 3))"
    by (rule lock_reach [OF locked_reach]) (simp add: locked_simps)
  moreover have "0 < depth (lock_run 3 (locked Recursive 3)) 3"
    by (simp add: lock_run_def sync_defs locked_simps)
  ultimately show ?thesis using mutex_exclusion [of "Some Recursive" "lock_run 3 (locked Recursive 3)" 3 3] by blast
qed

lemma schedule_append: "schedule (ts @ us) s = schedule us (schedule ts s)"
  by (induction ts arbitrary: s) simp_all

lemma unlock_runs:
  assumes "at s t = Unlock_count Return" "mtype s = Recursive \<Longrightarrow> recursion s = 1"
  shows "\<not> owned (schedule [t, t, t] s)" "u \<noteq> t \<Longrightarrow> at (schedule [t, t, t] s) u = at s u"
proof -
  define s1 where "s1 = s\<lparr>recursion := (if mtype s = Recursive then recursion s - 1 else recursion s),
    depth := (depth s)(t := depth s t - 1), at := (at s)(t := Unlock_owner Return)\<rparr>"
  have "sync_run False t s = s1" using assms by (cases "mtype s") (simp_all add: sync_defs s1_def)
  moreover have "sync_run False t s1 = s1\<lparr>owner := None, at := (at s1)(t := Unlock_owned Return)\<rparr>" (is "_ = ?s2")
    by (simp add: sync_defs s1_def)
  moreover have "sync_run False t ?s2 = return_with t 0 (?s2\<lparr>owned := False\<rparr>)"
    by (simp add: sync_run_def resume_def)
  ultimately have "schedule [t, t, t] s = return_with t 0 (?s2\<lparr>owned := False\<rparr>)" by simp
  then show "\<not> owned (schedule [t, t, t] s)" "u \<noteq> t \<Longrightarrow> at (schedule [t, t, t] s) u = at s u"
    by (simp_all add: return_with_def goto_def s1_def)
qed

lemma lock_runs:
  "at s u = Lock_exchange r \<Longrightarrow> \<not> owned s \<Longrightarrow> 0 < depth (schedule [u, u, u] s) u"
  by (simp add: sync_defs)

text \<open>A mutex does not stay locked: when its holder unlocks it, a thread that spins on it and is the
  next to run has it after as many accesses as the code makes.\<close>
theorem mutex_handover:
  assumes "sync_step\<^sup>*\<^sup>* (pthread_mutex_init attr) s" "at s t = Unlock_count Return" "depth s t = 1"
    "at s u = Lock_exchange r"
  shows "0 < depth (schedule [t, t, t, u, u, u] s) u"
proof -
  have "owner_ok s t" using sync_reach [OF assms(1)] by (simp add: sync_inv_def)
  then have "mtype s = Recursive \<Longrightarrow> recursion s = 1" using assms(3) by (simp add: owner_ok_def)
  moreover have "u \<noteq> t" using assms(2, 4) by auto
  ultimately have "\<not> owned (schedule [t, t, t] s)" "at (schedule [t, t, t] s) u = Lock_exchange r"
    using unlock_runs [OF assms(2)] assms(4) by (simp_all del: schedule.simps)
  then have "0 < depth (schedule [u, u, u] (schedule [t, t, t] s)) u" by (intro lock_runs)
  then show ?thesis using schedule_append [of "[t, t, t]" "[u, u, u]" s] by (simp del: schedule.simps)
qed

definition contended :: sync where
  "contended = schedule [4] (goto 4 (Lock_check 0) (goto 3 (Unlock_count Return) (locked Normal 3)))"

theorem mutex_handover_witness: "0 < depth (schedule [3, 3, 3, 4, 4, 4] contended) 4"
proof (rule mutex_handover [where attr = "Some Normal" and r = 0])
  let ?s = "locked Normal 3"
  have "sync_step ?s (goto 3 (Unlock_count Return) ?s)"
    by (intro sync_step.unlock) (simp_all add: locked_simps)
  moreover have "sync_step (goto 3 (Unlock_count Return) ?s) (goto 4 (Lock_check 0) (goto 3 (Unlock_count Return) ?s))"
    by (intro sync_step.lock) (simp add: goto_def locked_simps)
  ultimately show "sync_step\<^sup>*\<^sup>* (pthread_mutex_init (Some Normal)) contended"
    unfolding contended_def using locked_reach [of Normal 3]
    by (intro schedule_reach) (meson rtranclp.rtrancl_into_rtrancl)
qed (simp_all add: contended_def sync_defs locked_simps)

section \<open>No signal is missed\<close>

fun read_gen :: "mutex_pc \<Rightarrow> u32 option" where
  "read_gen (Unlock_count (Poll _ g)) = Some g"
| "read_gen (Unlock_owner (Poll _ g)) = Some g"
| "read_gen (Unlock_owned (Poll _ g)) = Some g"
| "read_gen (Wait_poll _ g) = Some g"
| "read_gen _ = None"

lemma read_gen_unlock [simp]:
  "read_gen (Unlock_owner k) = read_gen (Unlock_count k)" "read_gen (Unlock_owned k) = read_gen (Unlock_count k)"
  by (cases k; simp)+

definition wake_inv :: "sync \<Rightarrow> bool" where
  "wake_inv s \<longleftrightarrow> gen s = of_nat (signals s) \<and>
     (\<forall>t g. read_gen (at s t) = Some g \<longrightarrow> g = of_nat (loaded s t) \<and> loaded s t \<le> signals s) \<and>
     (\<forall>t timed g. at s t = Wait_poll timed g \<longrightarrow> loaded s t \<le> released s t)"

lemma run_wake: "wake_inv s \<Longrightarrow> wake_inv (sync_run late t s)"
proof -
  assume w: "wake_inv s"
  then have "\<And>g. read_gen (at s t) = Some g \<Longrightarrow> g = of_nat (loaded s t) \<and> loaded s t \<le> signals s"
    by (simp add: wake_inv_def)
  with w show ?thesis
    by (cases "at s t") (auto simp: wake_inv_def sync_defs le_SucI split: if_splits after.splits)
qed

lemma goto_wake: "wake_inv s \<Longrightarrow> read_gen p = None \<Longrightarrow> wake_inv (goto t p s)"
  by (auto simp: wake_inv_def goto_def)

lemma sync_step_wake: "sync_step s s' \<Longrightarrow> wake_inv s \<Longrightarrow> wake_inv s'"
  by (induction rule: sync_step.induct) (simp_all add: run_wake goto_wake)

lemma wake_start: "wake_inv (pthread_mutex_init attr)"
  by (simp add: wake_inv_def pthread_mutex_init_def)

lemma wake_reach: "sync_step\<^sup>*\<^sup>* (pthread_mutex_init attr) s \<Longrightarrow> wake_inv s"
  by (induction rule: rtranclp_induct) (auto intro: wake_start sync_step_wake)

text \<open>C27 No wake-up is lost: once a signal has been sent after a waiter released the mutex, its next look
  at the generation ends the wait.  The generation has 32 bits, so fewer than \<open>2 ^ 32\<close> signals may
  come in between.\<close>
theorem cond_wakes:
  assumes "sync_step\<^sup>*\<^sup>* (pthread_mutex_init attr) s" "at s t = Wait_poll timed g"
    "released s t < signals s" "signals s - loaded s t < 2 ^ 32"
  shows "at (sync_run late t s) t = Lock_check 0"
proof -
  from wake_reach [OF assms(1)] have g: "gen s = of_nat (signals s)" "g = of_nat (loaded s t)" "loaded s t \<le> released s t"
    using assms(2) by (simp_all add: wake_inv_def)
  define d where "d = signals s - loaded s t"
  have d: "0 < d" "d < 2 ^ 32" using assms(3, 4) g(3) by (simp_all add: d_def)
  have "signals s = loaded s t + d" using assms(3) g(3) by (simp add: d_def)
  then have "gen s = g + of_nat d" using g by simp
  moreover have "(of_nat d :: u32) \<noteq> 0"
    using d dvd_imp_le [of "2 ^ 32" d] by (auto simp: word_of_nat_eq_0_iff)
  ultimately have "gen s \<noteq> g" by simp
  then show ?thesis using assms(2) by (simp add: sync_defs)
qed

definition signalled :: sync where
  "signalled = schedule [4] (goto 4 Signal_add (schedule [3, 3, 3, 3] (goto 3 (Wait_load False) (locked Normal 3))))"

theorem cond_wakes_witness: "at (sync_run False 3 signalled) 3 = Lock_check 0"
proof (rule cond_wakes [where attr = "Some Normal" and timed = False and g = 0])
  let ?s = "locked Normal 3"
  let ?w = "schedule [3, 3, 3, 3] (goto 3 (Wait_load False) ?s)"
  have "sync_step ?s (goto 3 (Wait_load False) ?s)" by (intro sync_step.wait) (simp_all add: locked_simps)
  then have "sync_step\<^sup>*\<^sup>* (pthread_mutex_init (Some Normal)) ?w"
    using locked_reach [of Normal 3] by (intro schedule_reach) (rule rtranclp.rtrancl_into_rtrancl)
  moreover have "sync_step ?w (goto 4 Signal_add ?w)"
    by (intro sync_step.signal) (simp add: sync_defs locked_simps)
  ultimately show "sync_step\<^sup>*\<^sup>* (pthread_mutex_init (Some Normal)) signalled"
    unfolding signalled_def by (intro schedule_reach) (rule rtranclp.rtrancl_into_rtrancl)
qed (simp_all add: signalled_def sync_defs locked_simps)

section \<open>Read-write locks\<close>

datatype rw_pc =
    Rw_client
  | Rd_load | Rd_cas int | Try_rd_load | Try_rd_cas int
  | Wr_cas | Try_wr_cas
  | Un_load | Un_store | Un_sub

text \<open>\<open>readers\<close> and \<open>writers\<close> are what the threads hold, for the properties.\<close>

record rwlock =
  rw_state :: int
  rw_at :: "nat \<Rightarrow> rw_pc"
  rw_result :: "nat \<Rightarrow> int"
  readers :: "nat multiset"
  writers :: "nat multiset"

definition pthread_rwlock_init :: rwlock where
  "pthread_rwlock_init = \<lparr>rw_state = 0, rw_at = (\<lambda>_. Rw_client), rw_result = (\<lambda>_. 0), readers = {#}, writers = {#}\<rparr>"

definition rw_goto :: "nat \<Rightarrow> rw_pc \<Rightarrow> rwlock \<Rightarrow> rwlock" where
  "rw_goto t p s = s\<lparr>rw_at := (rw_at s)(t := p)\<rparr>"

definition rw_return :: "nat \<Rightarrow> int \<Rightarrow> rwlock \<Rightarrow> rwlock" where
  "rw_return t r s = rw_goto t Rw_client (s\<lparr>rw_result := (rw_result s)(t := r)\<rparr>)"

definition become_reader :: "nat \<Rightarrow> rwlock \<Rightarrow> rwlock" where
  "become_reader t s = rw_return t 0 (s\<lparr>rw_state := rw_state s + 1, readers := add_mset t (readers s)\<rparr>)"

definition become_writer :: "nat \<Rightarrow> rwlock \<Rightarrow> rwlock" where
  "become_writer t s = rw_return t 0 (s\<lparr>rw_state := - 1, writers := add_mset t (writers s)\<rparr>)"

fun rwlock_rdlock_step :: "nat \<Rightarrow> rwlock \<Rightarrow> rwlock" where
  "rwlock_rdlock_step t s =
     (case rw_at s t of
        Rd_load \<Rightarrow> if 0 \<le> rw_state s then rw_goto t (Rd_cas (rw_state s)) s else s
      | Rd_cas v \<Rightarrow> if rw_state s = v then become_reader t s else rw_goto t Rd_load s
      | _ \<Rightarrow> s)"

fun rwlock_tryrdlock_step :: "nat \<Rightarrow> rwlock \<Rightarrow> rwlock" where
  "rwlock_tryrdlock_step t s =
     (case rw_at s t of
        Try_rd_load \<Rightarrow> if rw_state s < 0 then rw_return t EBUSY s else rw_goto t (Try_rd_cas (rw_state s)) s
      | Try_rd_cas v \<Rightarrow> if rw_state s = v then become_reader t s else rw_return t EBUSY s
      | _ \<Rightarrow> s)"

fun rwlock_wrlock_step :: "nat \<Rightarrow> rwlock \<Rightarrow> rwlock" where
  "rwlock_wrlock_step t s =
     (case rw_at s t of
        Wr_cas \<Rightarrow> if rw_state s = 0 then become_writer t s else s
      | _ \<Rightarrow> s)"

fun rwlock_trywrlock_step :: "nat \<Rightarrow> rwlock \<Rightarrow> rwlock" where
  "rwlock_trywrlock_step t s =
     (case rw_at s t of
        Try_wr_cas \<Rightarrow> if rw_state s = 0 then become_writer t s else rw_return t EBUSY s
      | _ \<Rightarrow> s)"

fun rwlock_unlock_step :: "nat \<Rightarrow> rwlock \<Rightarrow> rwlock" where
  "rwlock_unlock_step t s =
     (case rw_at s t of
        Un_load \<Rightarrow> rw_goto t (if rw_state s < 0 then Un_store else Un_sub) s
      | Un_store \<Rightarrow> rw_return t 0 (s\<lparr>rw_state := 0, writers := writers s - {#t#}\<rparr>)
      | Un_sub \<Rightarrow> rw_return t 0 (s\<lparr>rw_state := rw_state s - 1, readers := readers s - {#t#}\<rparr>)
      | _ \<Rightarrow> s)"

definition rw_run :: "nat \<Rightarrow> rwlock \<Rightarrow> rwlock" where
  "rw_run t s =
     (case rw_at s t of
        Rw_client \<Rightarrow> s
      | Rd_load \<Rightarrow> rwlock_rdlock_step t s | Rd_cas _ \<Rightarrow> rwlock_rdlock_step t s
      | Try_rd_load \<Rightarrow> rwlock_tryrdlock_step t s | Try_rd_cas _ \<Rightarrow> rwlock_tryrdlock_step t s
      | Wr_cas \<Rightarrow> rwlock_wrlock_step t s | Try_wr_cas \<Rightarrow> rwlock_trywrlock_step t s
      | Un_load \<Rightarrow> rwlock_unlock_step t s | Un_store \<Rightarrow> rwlock_unlock_step t s
      | Un_sub \<Rightarrow> rwlock_unlock_step t s)"

text \<open>A client unlocks what it holds.\<close>

inductive rw_step :: "rwlock \<Rightarrow> rwlock \<Rightarrow> bool" where
  rw_lock: "rw_at s t = Rw_client \<Longrightarrow> p \<in> {Rd_load, Try_rd_load, Wr_cas, Try_wr_cas} \<Longrightarrow> rw_step s (rw_goto t p s)"
| rw_unlock: "rw_at s t = Rw_client \<Longrightarrow> t \<in># readers s + writers s \<Longrightarrow> rw_step s (rw_goto t Un_load s)"
| rw_run: "rw_step s (rw_run t s)"

fun rw_needs :: "rw_pc \<Rightarrow> nat \<Rightarrow> rwlock \<Rightarrow> bool" where
  "rw_needs (Rd_cas v) t s = (0 \<le> v)"
| "rw_needs (Try_rd_cas v) t s = (0 \<le> v)"
| "rw_needs Un_load t s = (t \<in># readers s + writers s)"
| "rw_needs Un_store t s = (t \<in># writers s)"
| "rw_needs Un_sub t s = (t \<in># readers s)"
| "rw_needs _ t s = True"

definition rw_inv :: "rwlock \<Rightarrow> bool" where
  "rw_inv s \<longleftrightarrow>
     (if writers s = {#} then rw_state s = int (size (readers s))
      else rw_state s = - 1 \<and> size (writers s) = 1 \<and> readers s = {#}) \<and>
     (\<forall>t. rw_needs (rw_at s t) t s)"

lemmas rw_defs = rw_goto_def rw_return_def become_reader_def become_writer_def rw_run_def

lemma rw_needs_mono:
  "rw_needs p u s \<Longrightarrow> (u \<in># readers s \<Longrightarrow> u \<in># readers s') \<Longrightarrow> (u \<in># writers s \<Longrightarrow> u \<in># writers s') \<Longrightarrow> rw_needs p u s'"
  by (cases p) auto

lemma rw_inv_change:
  assumes "rw_inv s" "\<And>u. u \<noteq> t \<Longrightarrow> rw_at s' u = rw_at s u"
    "\<And>u. u \<noteq> t \<Longrightarrow> u \<in># readers s \<Longrightarrow> u \<in># readers s'" "\<And>u. u \<noteq> t \<Longrightarrow> u \<in># writers s \<Longrightarrow> u \<in># writers s'"
    "if writers s' = {#} then rw_state s' = int (size (readers s'))
     else rw_state s' = - 1 \<and> size (writers s') = 1 \<and> readers s' = {#}"
    "rw_needs (rw_at s' t) t s'"
  shows "rw_inv s'"
proof -
  have "rw_needs (rw_at s' u) u s'" for u
  proof (cases "u = t")
    case False
    have "rw_needs (rw_at s u) u s" using assms(1) by (simp add: rw_inv_def)
    then show ?thesis unfolding assms(2) [OF False]
      by (rule rw_needs_mono) (use assms(3, 4) False in blast)+
  qed (use assms(6) in simp)
  with assms(5) show ?thesis by (simp add: rw_inv_def)
qed

lemma in_minus_other: "u \<noteq> t \<Longrightarrow> u \<in># M - {#t#} \<longleftrightarrow> u \<in># M"
  by (simp flip: count_greater_zero_iff)

lemma rw_needs_goto: "rw_needs p u (rw_goto t q s) = rw_needs p u s"
  by (cases p) (simp_all add: rw_goto_def)

lemma rw_goto_inv: "rw_inv s \<Longrightarrow> rw_needs p t s \<Longrightarrow> rw_inv (rw_goto t p s)"
  by (simp add: rw_inv_def rw_needs_goto) (simp add: rw_goto_def)

lemma rw_run_inv:
  assumes i: "rw_inv s"
  shows "rw_inv (rw_run t s)"
proof -
  have n: "rw_needs (rw_at s t) t s" using i by (simp add: rw_inv_def)
  have c: "if writers s = {#} then rw_state s = int (size (readers s))
     else rw_state s = - 1 \<and> size (writers s) = 1 \<and> readers s = {#}" using i by (simp add: rw_inv_def)
  have r: "int (size (readers s - {#t#})) = int (size (readers s)) - 1" if "t \<in># readers s"
    using size_Suc_Diff1 [OF that] by linarith
  have w: "writers s - {#t#} = {#}" if "t \<in># writers s" "size (writers s) = Suc 0"
    using size_Suc_Diff1 [OF that(1)] that(2) by simp
  show ?thesis
    by (rule rw_inv_change [OF i, where t = t]; cases "rw_at s t")
      (use n c in \<open>auto simp: rw_defs r w in_minus_other simp del: size_Diff_singleton
        split: if_splits\<close>)
qed

lemma rw_step_inv: "rw_step s s' \<Longrightarrow> rw_inv s \<Longrightarrow> rw_inv s'"
  by (induction rule: rw_step.induct) (auto simp: rw_run_inv intro: rw_goto_inv)

lemma rw_start: "rw_inv pthread_rwlock_init"
  by (simp add: rw_inv_def pthread_rwlock_init_def)

lemma rw_reach: "rw_step\<^sup>*\<^sup>* pthread_rwlock_init s \<Longrightarrow> rw_inv s"
  by (induction rule: rtranclp_induct) (auto intro: rw_start rw_step_inv)

text \<open>C28 A read-write lock has one writer and no reader, or no writer, in every interleaving of its
  calls; its state is -1 or the number of its readers.\<close>
theorem rwlock_exclusion:
  assumes "rw_step\<^sup>*\<^sup>* pthread_rwlock_init s"
  shows "if writers s = {#} then rw_state s = int (size (readers s))
    else rw_state s = - 1 \<and> size (writers s) = 1 \<and> readers s = {#}"
  using rw_reach [OF assms] by (simp add: rw_inv_def)

definition two_readers :: rwlock where
  "two_readers = pthread_rwlock_init\<lparr>rw_state := 2, readers := {#1, 2#}\<rparr>"

lemma rw_runs: "rw_step\<^sup>*\<^sup>* s0 s \<Longrightarrow> rw_step\<^sup>*\<^sup>* s0 (rw_run t s)"
  by (rule rtranclp.rtrancl_into_rtrancl) (auto intro: rw_step.rw_run)

lemma read_lock_reach:
  assumes "rw_step\<^sup>*\<^sup>* s0 s" "rw_at s t = Rw_client"
  shows "rw_step\<^sup>*\<^sup>* s0 (rw_run t (rw_run t (rw_goto t Rd_load s)))"
proof -
  have "rw_step s (rw_goto t Rd_load s)" using assms(2) by (intro rw_step.rw_lock) simp_all
  with assms(1) show ?thesis by (intro rw_runs) (rule rtranclp.rtrancl_into_rtrancl)
qed

theorem rwlock_exclusion_witness: "rw_state two_readers = int (size (readers two_readers))"
proof -
  let ?r = "\<lambda>t s. rw_run t (rw_run t (rw_goto t Rd_load s))"
  have e: "?r 2 (?r 1 pthread_rwlock_init) = two_readers" "rw_at (?r 1 pthread_rwlock_init) 2 = Rw_client"
    by (simp_all add: rw_defs pthread_rwlock_init_def two_readers_def fun_eq_iff add_mset_commute)
  have "rw_step\<^sup>*\<^sup>* pthread_rwlock_init (?r 1 pthread_rwlock_init)"
    by (rule read_lock_reach) (simp_all add: pthread_rwlock_init_def)
  then have "rw_step\<^sup>*\<^sup>* pthread_rwlock_init two_readers"
    unfolding e(1) [symmetric] using e(2) by (rule read_lock_reach)
  from rwlock_exclusion [OF this] show ?thesis by (simp add: two_readers_def pthread_rwlock_init_def)
qed

section \<open>pthread_once\<close>

datatype once_pc = Once_client | Once_cas | Once_run | Once_store | Once_poll | Once_returned

record once_flag =
  flag :: int
  once_at :: "nat \<Rightarrow> once_pc"
  runs :: nat

definition once_goto :: "nat \<Rightarrow> once_pc \<Rightarrow> once_flag \<Rightarrow> once_flag" where
  "once_goto t p s = s\<lparr>once_at := (once_at s)(t := p)\<rparr>"

fun pthread_once_step :: "nat \<Rightarrow> once_flag \<Rightarrow> once_flag" where
  "pthread_once_step t s =
     (case once_at s t of
        Once_cas \<Rightarrow> if flag s = 0 then once_goto t Once_run (s\<lparr>flag := 1\<rparr>) else once_goto t Once_poll s
      | Once_run \<Rightarrow> once_goto t Once_store (s\<lparr>runs := runs s + 1\<rparr>)
      | Once_store \<Rightarrow> once_goto t Once_returned (s\<lparr>flag := 2\<rparr>)
      | Once_poll \<Rightarrow> if flag s = 2 then once_goto t Once_returned s else s
      | _ \<Rightarrow> s)"

inductive pthread_once_steps :: "once_flag \<Rightarrow> bool" where
  once_init: "pthread_once_steps \<lparr>flag = 0, once_at = (\<lambda>_. Once_client), runs = 0\<rparr>"
| once_call: "pthread_once_steps s \<Longrightarrow> once_at s t = Once_client \<Longrightarrow> pthread_once_steps (once_goto t Once_cas s)"
| once_again: "pthread_once_steps s \<Longrightarrow> once_at s t = Once_returned \<Longrightarrow> pthread_once_steps (once_goto t Once_cas s)"
| once_run: "pthread_once_steps s \<Longrightarrow> pthread_once_steps (pthread_once_step t s)"

fun executing :: "once_pc \<Rightarrow> bool" where
  "executing p \<longleftrightarrow> p = Once_run \<or> p = Once_store"

fun once_pc_ok :: "int \<Rightarrow> nat \<Rightarrow> once_pc \<Rightarrow> bool" where
  "once_pc_ok f r Once_run \<longleftrightarrow> f = 1 \<and> r = 0"
| "once_pc_ok f r Once_store \<longleftrightarrow> f = 1 \<and> r = 1"
| "once_pc_ok f r Once_returned \<longleftrightarrow> f = 2"
| "once_pc_ok f r p \<longleftrightarrow> True"

definition once_inv :: "once_flag \<Rightarrow> bool" where
  "once_inv s \<longleftrightarrow>
     (\<forall>t u. executing (once_at s t) \<longrightarrow> executing (once_at s u) \<longrightarrow> t = u) \<and>
     (\<forall>t. once_pc_ok (flag s) (runs s) (once_at s t)) \<and>
     (flag s = 0 \<longrightarrow> runs s = 0) \<and> (flag s = 2 \<longrightarrow> runs s = 1) \<and> runs s \<le> 1"

lemma once_others:
  assumes "once_inv s" "executing (once_at s t)" "u \<noteq> t"
  shows "once_pc_ok f r (once_at s u)"
proof -
  have "\<not> executing (once_at s u)" using assms by (auto simp: once_inv_def)
  moreover have "once_pc_ok (flag s) (runs s) (once_at s u)" "once_pc_ok (flag s) (runs s) (once_at s t)"
    using assms(1) by (simp_all add: once_inv_def)
  ultimately show ?thesis using assms(2) by (cases "once_at s u") auto
qed

lemma once_run_inv:
  assumes i: "once_inv s"
  shows "once_inv (pthread_once_step t s)"
proof (cases "executing (once_at s t)")
  case True
  have o: "once_pc_ok (flag s) (runs s) (once_at s t)" using i by (simp add: once_inv_def)
  have u: "\<not> executing (once_at s u)" if "u \<noteq> t" for u using i True that by (auto simp: once_inv_def)
  from True consider "once_at s t = Once_run" | "once_at s t = Once_store" by auto
  then show ?thesis
    using o u once_others [OF i True] by cases (auto simp: once_inv_def once_goto_def)
next
  case False
  show ?thesis
  proof (cases "once_at s t = Once_cas \<and> flag s = 0")
    case True
    have p: "once_pc_ok (flag s) (runs s) (once_at s u)" for u using i by (simp add: once_inv_def)
    have u: "\<not> executing (once_at s u)" for u using p [of u] True by (cases "once_at s u") simp_all
    have "once_pc_ok 1 0 (once_at s u)" for u using p [of u] u [of u] True by (cases "once_at s u") simp_all
    then show ?thesis using i u True by (simp add: once_inv_def once_goto_def)
  next
    case nf: False
    then show ?thesis using i False
      by (cases "once_at s t"; cases "flag s = 2") (simp_all add: once_inv_def once_goto_def)
  qed
qed

lemma once_inv: "pthread_once_steps s \<Longrightarrow> once_inv s"
proof (induction rule: pthread_once_steps.induct)
  case (once_run s t)
  then show ?case by (simp only: once_run_inv)
qed (simp_all add: once_inv_def once_goto_def)

text \<open>However many threads call \<open>pthread_once\<close>, the routine runs once at most, and before any call returns.\<close>

lemma pthread_once_correct:
  "pthread_once_steps s \<Longrightarrow> runs s \<le> 1 \<and> (\<forall>t. once_at s t = Once_returned \<longrightarrow> runs s = 1)"
proof -
  assume "pthread_once_steps s"
  then have "once_inv s" by (rule once_inv)
  then have "once_pc_ok (flag s) (runs s) (once_at s t)" "flag s = 2 \<Longrightarrow> runs s = 1" "runs s \<le> 1" for t
    by (simp_all add: once_inv_def)
  then show ?thesis by (metis once_pc_ok.simps(3))
qed

end
