(* ===== verification/CFContainers.thy ===== *)
theory CFContainers
  imports Bootstrap
begin

text \<open>
  The containers of CoreFoundation, \<open>userland/CoreFoundation/CFDictionary.c\<close>, \<open>CFSet.c\<close> and
  \<open>CFArray.c\<close>: a dictionary is the list of its keys with their values, a set and an array the list of
  their values, in the order of the slots.  The callback that compares two elements is an argument;
  without callbacks it is the identity.  Indices out of range are undefined, as in the code.

  Dictionaries that are filled one value at a time are a store of \<open>keyed_store\<close>, sets are sets, and
  edits of an array are edits of its list.
\<close>

section \<open>Dictionaries\<close>

type_synonym ('k, 'v) dict = "('k \<times> 'v) list"

text \<open>The index of a key; the code's -1 is \<open>None\<close>.\<close>

fun cf_dict_find :: "('k \<Rightarrow> 'k \<Rightarrow> bool) \<Rightarrow> 'k \<Rightarrow> ('k, 'v) dict \<Rightarrow> nat option" where
  "cf_dict_find eq k [] = None"
| "cf_dict_find eq k ((k', v) # d) = (if eq k' k then Some 0 else map_option Suc (cf_dict_find eq k d))"

definition cf_dict_create :: "'k list \<Rightarrow> 'v list \<Rightarrow> ('k, 'v) dict" where
  "cf_dict_create ks vs = zip ks vs"

definition cf_dict_create_copy :: "('k, 'v) dict \<Rightarrow> ('k, 'v) dict" where
  "cf_dict_create_copy d = cf_dict_create (map fst d) (map snd d)"

definition cf_dict_count :: "('k, 'v) dict \<Rightarrow> nat" where
  "cf_dict_count d = length d"

definition cf_dict_contains_key :: "('k \<Rightarrow> 'k \<Rightarrow> bool) \<Rightarrow> 'k \<Rightarrow> ('k, 'v) dict \<Rightarrow> bool" where
  "cf_dict_contains_key eq k d \<longleftrightarrow> cf_dict_find eq k d \<noteq> None"

definition cf_dict_contains_value :: "('v \<Rightarrow> 'v \<Rightarrow> bool) \<Rightarrow> 'v \<Rightarrow> ('k, 'v) dict \<Rightarrow> bool" where
  "cf_dict_contains_value eq v d \<longleftrightarrow> list_ex (\<lambda>kv. eq (snd kv) v) d"

definition cf_dict_get :: "('k \<Rightarrow> 'k \<Rightarrow> bool) \<Rightarrow> 'k \<Rightarrow> ('k, 'v) dict \<Rightarrow> 'v option" where
  "cf_dict_get eq k d = map_option (\<lambda>i. snd (d ! i)) (cf_dict_find eq k d)"

definition cf_dict_set :: "('k \<Rightarrow> 'k \<Rightarrow> bool) \<Rightarrow> 'k \<Rightarrow> 'v \<Rightarrow> ('k, 'v) dict \<Rightarrow> ('k, 'v) dict" where
  "cf_dict_set eq k v d =
     (case cf_dict_find eq k d of
        Some i \<Rightarrow> d[i := (fst (d ! i), v)]
      | None \<Rightarrow> d @ [(k, v)])"

definition cf_dict_add :: "('k \<Rightarrow> 'k \<Rightarrow> bool) \<Rightarrow> 'k \<Rightarrow> 'v \<Rightarrow> ('k, 'v) dict \<Rightarrow> ('k, 'v) dict" where
  "cf_dict_add eq k v d = (if cf_dict_find eq k d \<noteq> None then d else cf_dict_set eq k v d)"

definition cf_dict_remove :: "('k \<Rightarrow> 'k \<Rightarrow> bool) \<Rightarrow> 'k \<Rightarrow> ('k, 'v) dict \<Rightarrow> ('k, 'v) dict" where
  "cf_dict_remove eq k d =
     (case cf_dict_find eq k d of None \<Rightarrow> d | Some i \<Rightarrow> take i d @ drop (i + 1) d)"

definition cf_dict_remove_all :: "('k, 'v) dict \<Rightarrow> ('k, 'v) dict" where
  "cf_dict_remove_all d = []"

text \<open>\<open>dictEqual\<close>: as many entries, and every key of the first has an equal value in the second.\<close>

definition cf_dict_equal ::
  "('k \<Rightarrow> 'k \<Rightarrow> bool) \<Rightarrow> ('v \<Rightarrow> 'v \<Rightarrow> bool) \<Rightarrow> ('k, 'v) dict \<Rightarrow> ('k, 'v) dict \<Rightarrow> bool" where
  "cf_dict_equal keq veq a b \<longleftrightarrow> length a = length b \<and>
     list_all (\<lambda>(k, v). case cf_dict_get keq k b of None \<Rightarrow> False | Some w \<Rightarrow> veq v w) a"

subsection \<open>As a store of keys\<close>

definition keys_distinct :: "('k, 'v) dict \<Rightarrow> bool" where
  "keys_distinct d \<longleftrightarrow> distinct (map fst d)"

lemma cf_dict_find_None: "cf_dict_find (=) k d = None \<longleftrightarrow> k \<notin> fst ` set d"
  by (induction d) (auto split: if_splits)

lemma cf_dict_find_Some: "cf_dict_find (=) k d = Some i \<Longrightarrow> i < length d \<and> fst (d ! i) = k \<and> (\<forall>j<i. fst (d ! j) \<noteq> k)"
proof (induction d arbitrary: i)
  case (Cons kv d)
  then show ?case by (cases kv; cases i) (auto split: if_splits simp: less_Suc_eq_0_disj)
qed simp

lemma cf_dict_get_map_of: "cf_dict_get (=) k d = map_of d k"
proof (induction d)
  case (Cons kv d)
  then show ?case by (cases kv) (auto simp: cf_dict_get_def option.map_comp comp_def)
qed (simp add: cf_dict_get_def)

lemma cf_dict_set_map_of: "map_of (cf_dict_set (=) k v d) = (map_of d)(k \<mapsto> v)"
proof (induction d)
  case (Cons kv d)
  then show ?case
    by (cases kv) (auto simp: cf_dict_set_def fun_eq_iff split: option.splits)
qed (simp add: cf_dict_set_def)

lemma cf_dict_set_keys: "map fst (cf_dict_set (=) k v d) = (if k \<in> fst ` set d then map fst d else map fst d @ [k])"
proof (cases "cf_dict_find (=) k d")
  case (Some i)
  then have "k \<in> fst ` set d" using cf_dict_find_None [of k d] by fastforce
  moreover have "(map fst d)[i := k] = map fst d"
    using cf_dict_find_Some [OF Some] list_update_id [of "map fst d" i] by simp
  ultimately show ?thesis using Some cf_dict_find_Some [OF Some] by (simp add: cf_dict_set_def map_update)
next
  case None
  then show ?thesis using cf_dict_find_None [of k d] by (simp add: cf_dict_set_def)
qed

lemma cf_dict_remove_map_of: "keys_distinct d \<Longrightarrow> map_of (cf_dict_remove (=) k d) = (map_of d)(k := None)"
proof (induction d)
  case (Cons kv d)
  obtain k' v where kv: "kv = (k', v)" by (cases kv)
  show ?case
  proof (cases "k' = k")
    case True
    with Cons.prems have "map_of d k = None" by (simp add: kv keys_distinct_def map_of_eq_None_iff)
    then show ?thesis using True by (auto simp: kv cf_dict_remove_def fun_eq_iff)
  next
    case False
    have "map_of (cf_dict_remove (=) k d) = (map_of d)(k := None)"
      by (rule Cons.IH) (use Cons.prems in \<open>simp add: kv keys_distinct_def\<close>)
    moreover have "cf_dict_remove (=) k (kv # d) = kv # cf_dict_remove (=) k d"
      using False by (simp add: kv cf_dict_remove_def split: option.splits)
    ultimately show ?thesis using False by (intro ext) (simp add: kv)
  qed
qed (simp add: cf_dict_remove_def keys_distinct_def)

interpretation cfdict: keyed_store "cf_dict_get (=)" "cf_dict_set (=)" keys_distinct "\<lambda>_. True"
  by unfold_locales (auto simp: cf_dict_get_map_of cf_dict_set_map_of keys_distinct_def cf_dict_set_keys)

lemma cf_dict_remove_keys: "keys_distinct d \<Longrightarrow> keys_distinct (cf_dict_remove (=) k d)"
  using set_take_disj_set_drop_if_distinct [of "map fst d" i "i + 1" for i]
  by (auto simp: cf_dict_remove_def keys_distinct_def take_map [symmetric] drop_map [symmetric] split: option.splits)

text \<open>A dictionary is a map: after a value is set, added or removed, looking up any key finds what the
  operation leaves there, and only one entry has it.\<close>
theorem dictionary_is_map:
  assumes "keys_distinct d"
  shows "cf_dict_get (=) k' (cf_dict_set (=) k v d) = (if k' = k then Some v else cf_dict_get (=) k' d) \<and>
    cf_dict_get (=) k' (cf_dict_add (=) k v d) = (if k' = k \<and> \<not> cf_dict_contains_key (=) k d then Some v else cf_dict_get (=) k' d) \<and>
    cf_dict_get (=) k' (cf_dict_remove (=) k d) = (if k' = k then None else cf_dict_get (=) k' d) \<and>
    keys_distinct (cf_dict_set (=) k v d) \<and> keys_distinct (cf_dict_add (=) k v d) \<and> keys_distinct (cf_dict_remove (=) k d)"
proof -
  note m = cf_dict_get_map_of cf_dict_set_map_of cf_dict_remove_map_of [OF assms]
  have "keys_distinct (cf_dict_set (=) k v d)" using assms by (rule cfdict.inv_ins) simp
  then show ?thesis
    using assms by (simp add: m cf_dict_add_def cf_dict_contains_key_def cf_dict_remove_keys)
qed

theorem dictionary_is_map_witness:
  "cf_dict_get (=) (2::nat) (cf_dict_remove (=) 1 [(1, ''a''), (2, ''b'')]) = Some ''b''"
  using dictionary_is_map [of "[(1::nat, ''a''), (2, ''b'')]" 2 1 "''c''"]
  by (simp add: keys_distinct_def cf_dict_get_def)

text \<open>\<open>CFDictionaryCreate\<close> keeps every pair it is given: with a key twice, the count is too large, the
  first pair wins, and the dictionary is not equal to its own copy.\<close>

lemma cf_dict_create_keeps_duplicates:
  "cf_dict_count (cf_dict_create [1::nat, 1] [2::nat, 3]) = 2" "cf_dict_get (=) 1 (cf_dict_create [1::nat, 1] [2::nat, 3]) = Some 2"
  "\<not> cf_dict_equal (=) (=) (cf_dict_create [1::nat, 1] [2::nat, 3]) (cf_dict_create_copy (cf_dict_create [1, 1] [2, 3]))"
  by (simp_all add: cf_dict_create_copy_def cf_dict_create_def cf_dict_count_def cf_dict_equal_def cf_dict_get_def)

lemma cf_dict_equal_maps:
  assumes "keys_distinct a" "keys_distinct b"
  shows "cf_dict_equal (=) (=) a b \<longleftrightarrow> map_of a = map_of b"
proof -
  have da: "distinct a" "distinct b" using assms by (simp_all add: keys_distinct_def distinct_map)
  have m: "map_of d k = Some v \<longleftrightarrow> (k, v) \<in> set d" if "keys_distinct d" for d :: "('a, 'b) dict" and k v
    using that by (simp add: keys_distinct_def map_of_eq_Some_iff)
  have sub: "list_all (\<lambda>(k, v). case cf_dict_get (=) k b of None \<Rightarrow> False | Some w \<Rightarrow> v = w) a \<longleftrightarrow> set a \<subseteq> set b"
    unfolding list_all_iff cf_dict_get_map_of by (auto simp: m [OF assms(2)] split: option.splits) (metis m [OF assms(2)] option.inject subsetD)+
  have "cf_dict_equal (=) (=) a b \<longleftrightarrow> set a = set b"
    unfolding cf_dict_equal_def sub using da by (metis card_subset_eq distinct_card finite_set order_refl)
  also have "\<dots> \<longleftrightarrow> map_of a = map_of b"
    using assms by (simp add: keys_distinct_def map_of_inject_set)
  finally show ?thesis .
qed

section \<open>Sets\<close>

fun set_find :: "('a \<Rightarrow> 'a \<Rightarrow> bool) \<Rightarrow> 'a \<Rightarrow> 'a list \<Rightarrow> nat option" where
  "set_find eq v [] = None"
| "set_find eq v (w # s) = (if eq w v then Some 0 else map_option Suc (set_find eq v s))"

definition set_contains :: "('a \<Rightarrow> 'a \<Rightarrow> bool) \<Rightarrow> 'a \<Rightarrow> 'a list \<Rightarrow> bool" where
  "set_contains eq v s \<longleftrightarrow> set_find eq v s \<noteq> None"

definition set_get :: "('a \<Rightarrow> 'a \<Rightarrow> bool) \<Rightarrow> 'a \<Rightarrow> 'a list \<Rightarrow> 'a option" where
  "set_get eq v s = map_option (\<lambda>i. s ! i) (set_find eq v s)"

definition set_add :: "('a \<Rightarrow> 'a \<Rightarrow> bool) \<Rightarrow> 'a \<Rightarrow> 'a list \<Rightarrow> 'a list" where
  "set_add eq v s = (if set_find eq v s \<noteq> None then s else s @ [v])"

definition set_set :: "('a \<Rightarrow> 'a \<Rightarrow> bool) \<Rightarrow> 'a \<Rightarrow> 'a list \<Rightarrow> 'a list" where
  "set_set eq v s = (case set_find eq v s of Some i \<Rightarrow> s[i := v] | None \<Rightarrow> set_add eq v s)"

definition set_remove :: "('a \<Rightarrow> 'a \<Rightarrow> bool) \<Rightarrow> 'a \<Rightarrow> 'a list \<Rightarrow> 'a list" where
  "set_remove eq v s = (case set_find eq v s of None \<Rightarrow> s | Some i \<Rightarrow> take i s @ drop (i + 1) s)"

definition set_create :: "('a \<Rightarrow> 'a \<Rightarrow> bool) \<Rightarrow> 'a list \<Rightarrow> 'a list" where
  "set_create eq vs = fold (\<lambda>v s. if set_find eq v s \<noteq> None then s else s @ [v]) vs []"

lemma set_find_None: "set_find (=) v s = None \<longleftrightarrow> v \<notin> set s"
  by (induction s) (auto split: if_splits)

lemma set_find_Some: "set_find (=) v s = Some i \<Longrightarrow> i < length s \<and> s ! i = v"
proof (induction s arbitrary: i)
  case (Cons w s)
  then show ?case by (cases i) (auto split: if_splits)
qed simp

lemma set_create_distinct: "distinct (set_create (=) vs) \<and> set (set_create (=) vs) = set vs"
proof -
  have "distinct s \<Longrightarrow> distinct (fold (\<lambda>v s. if set_find (=) v s \<noteq> None then s else s @ [v]) vs s) \<and>
    set (fold (\<lambda>v s. if set_find (=) v s \<noteq> None then s else s @ [v]) vs s) = set s \<union> set vs" for s
  proof (induction vs arbitrary: s)
    case (Cons v vs)
    show ?case
    proof (cases "v \<in> set s")
      case True
      then have "set_find (=) v s \<noteq> None" using set_find_None by metis
      with Cons True show ?thesis by auto
    next
      case False
      then have "set_find (=) v s = None" using set_find_None by metis
      with Cons.IH [of "s @ [v]"] Cons.prems False show ?thesis by simp
    qed
  qed simp
  from this [of "[]"] show ?thesis by (simp add: set_create_def)
qed

text \<open>Sets are sets.\<close>

lemma cfset_is_set:
  assumes "distinct s"
  shows "distinct (set_add (=) v s) \<and> set (set_add (=) v s) = insert v (set s)"
    "distinct (set_set (=) v s) \<and> set (set_set (=) v s) = insert v (set s)"
    "distinct (set_remove (=) v s) \<and> set (set_remove (=) v s) = set s - {v}"
    "set_contains (=) v s \<longleftrightarrow> v \<in> set s"
proof -
  have n: "set_find (=) v s = None \<longleftrightarrow> v \<notin> set s" by (rule set_find_None)
  show add: "distinct (set_add (=) v s) \<and> set (set_add (=) v s) = insert v (set s)"
    using assms n by (auto simp: set_add_def)
  show "set_contains (=) v s \<longleftrightarrow> v \<in> set s" using n by (auto simp: set_contains_def)
  show "distinct (set_set (=) v s) \<and> set (set_set (=) v s) = insert v (set s)"
  proof (cases "set_find (=) v s")
    case (Some i)
    with set_find_Some [OF Some] have "s[i := v] = s" "v \<in> set s" by (auto simp: list_update_same_conv)
    with Some assms show ?thesis by (auto simp: set_set_def)
  qed (use add in \<open>simp add: set_set_def\<close>)
  show "distinct (set_remove (=) v s) \<and> set (set_remove (=) v s) = set s - {v}"
  proof (cases "set_find (=) v s")
    case (Some i)
    note i = set_find_Some [OF Some]
    then have s: "s = take i s @ v # drop (i + 1) s" using id_take_nth_drop [of i s] by simp
    have "distinct (take i s @ v # drop (i + 1) s)" using assms s by metis
    moreover have "set s = set (take i s @ v # drop (i + 1) s)" using s by metis
    ultimately show ?thesis using Some by (auto simp: set_remove_def)
  qed (use n assms in \<open>auto simp: set_remove_def\<close>)
qed

section \<open>Arrays\<close>

definition cf_array_append :: "'a \<Rightarrow> 'a list \<Rightarrow> 'a list" where
  "cf_array_append v a = a @ [v]"

definition cf_array_insert :: "nat \<Rightarrow> 'a \<Rightarrow> 'a list \<Rightarrow> 'a list outcome" where
  "cf_array_insert i v a = (if i \<le> length a then Ret (take i a @ v # drop i a) else Undef)"

definition cf_array_set :: "nat \<Rightarrow> 'a \<Rightarrow> 'a list \<Rightarrow> 'a list outcome" where
  "cf_array_set i v a = (if i < length a then Ret (a[i := v]) else Undef)"

definition cf_array_remove :: "nat \<Rightarrow> 'a list \<Rightarrow> 'a list outcome" where
  "cf_array_remove i a = (if i < length a then Ret (take i a @ drop (i + 1) a) else Undef)"

definition cf_array_get :: "nat \<Rightarrow> 'a list \<Rightarrow> 'a outcome" where
  "cf_array_get i a = (if i < length a then Ret (a ! i) else Undef)"

fun cf_array_index_of :: "('a \<Rightarrow> 'a \<Rightarrow> bool) \<Rightarrow> nat \<Rightarrow> nat \<Rightarrow> 'a \<Rightarrow> 'a list \<Rightarrow> nat option outcome" where
  "cf_array_index_of eq loc 0 v a = Ret None"
| "cf_array_index_of eq loc (Suc n) v a =
     (if length a \<le> loc then Undef
      else if eq (a ! loc) v then Ret (Some loc) else cf_array_index_of eq (loc + 1) n v a)"

fun remove_times :: "nat \<Rightarrow> nat \<Rightarrow> 'a list \<Rightarrow> 'a list outcome" where
  "remove_times loc 0 a = Ret a"
| "remove_times loc (Suc n) a = obind (cf_array_remove loc a) (remove_times loc n)"

fun insert_from :: "nat \<Rightarrow> 'a list \<Rightarrow> 'a list \<Rightarrow> 'a list outcome" where
  "insert_from loc [] a = Ret a"
| "insert_from loc (v # vs) a = obind (cf_array_insert loc v a) (insert_from (loc + 1) vs)"

definition cf_array_replace :: "nat \<Rightarrow> nat \<Rightarrow> 'a list \<Rightarrow> 'a list \<Rightarrow> 'a list outcome" where
  "cf_array_replace loc len vs a = obind (remove_times loc len a) (insert_from loc vs)"

definition cf_array_append_array :: "'a list \<Rightarrow> nat \<Rightarrow> nat \<Rightarrow> 'a list \<Rightarrow> 'a list outcome" where
  "cf_array_append_array a loc len b =
     (if loc + len \<le> length b then Ret (a @ take len (drop loc b)) else Undef)"

lemma remove_times_slice:
  "loc + n \<le> length a \<Longrightarrow> remove_times loc n a = Ret (take loc a @ drop (loc + n) a)"
proof (induction n arbitrary: a)
  case (Suc n)
  then have "cf_array_remove loc a = Ret (take loc a @ drop (loc + 1) a)" by (simp add: cf_array_remove_def)
  moreover have "remove_times loc n (take loc a @ drop (loc + 1) a) = Ret (take loc a @ drop (loc + Suc n) a)"
    using Suc.IH [of "take loc a @ drop (loc + 1) a"] Suc.prems by (simp add: min_def add.commute)
  ultimately show ?case by simp
qed simp

lemma insert_from_slice:
  "loc \<le> length a \<Longrightarrow> insert_from loc vs a = Ret (take loc a @ vs @ drop loc a)"
proof (induction vs arbitrary: loc a)
  case (Cons v vs)
  then have "insert_from (loc + 1) vs (take loc a @ v # drop loc a) = Ret (take loc a @ (v # vs) @ drop loc a)"
    using Cons.IH [of "loc + 1" "take loc a @ v # drop loc a"] by (simp add: min_def Suc_diff_le)
  with Cons.prems show ?case by (simp add: cf_array_insert_def)
qed simp

text \<open>\<open>CFArrayReplaceValues\<close>, made of single removals and insertions, replaces the slice.\<close>

lemma cf_array_replace_slice:
  "loc + len \<le> length a \<Longrightarrow> cf_array_replace loc len vs a = Ret (take loc a @ vs @ drop (loc + len) a)"
  by (simp add: cf_array_replace_def remove_times_slice insert_from_slice)

end
