(* ===== verification/CFPlist.thy ===== *)
theory CFPlist
  imports CFContainers Stdio XpcValue
begin

text \<open>
  Property lists as XML, \<open>userland/CoreFoundation/CFPropertyList.c\<close>: base64, the writer and the reader.
  An object is a value; a pointer into the text is the rest of the text.  \<open>NULL\<close> is \<open>None\<close>.  The
  reader of floating-point numbers is an argument.  A number that does not fit the buffer it is printed
  into is a fault, as the bytes behind the buffer are overwritten.

  What the writer writes is read back as the same value, except for real numbers, which all read back as
  one number, and integers of more than eleven characters, which overrun the writer's buffer.
\<close>

section \<open>Base64\<close>

definition b64_alphabet :: "u8 list" where
  "b64_alphabet = cs ''ABCDEFGHIJKLMNOPQRSTUVWXYZabcdefghijklmnopqrstuvwxyz0123456789+/''"

definition b64_char :: "u32 \<Rightarrow> u8" where
  "b64_char v = b64_alphabet ! unat (v AND 63)"

definition b64_join :: "u8 \<Rightarrow> u8 \<Rightarrow> u8 \<Rightarrow> u32" where
  "b64_join a b c = push_bit 16 (ucast a) OR push_bit 8 (ucast b) OR ucast c"

fun b64_encode :: "nat \<Rightarrow> u8 list \<Rightarrow> u8 list" where
  "b64_encode col (a # b # c # bs) =
     (let v = b64_join a b c;
          quad = [b64_char (drop_bit 18 v), b64_char (drop_bit 12 v), b64_char (drop_bit 6 v), b64_char v]
      in if 76 \<le> col + 4 then quad @ 10 # b64_encode 0 bs else quad @ b64_encode (col + 4) bs)"
| "b64_encode col [a] =
     (let v = push_bit 16 (ucast a) :: u32 in [b64_char (drop_bit 18 v), b64_char (drop_bit 12 v), 61, 61])"
| "b64_encode col [a, b] =
     (let v = push_bit 16 (ucast a) OR push_bit 8 (ucast b) :: u32
      in [b64_char (drop_bit 18 v), b64_char (drop_bit 12 v), b64_char (drop_bit 6 v), 61])"
| "b64_encode col [] = []"

definition b64_value :: "u8 \<Rightarrow> u32 option" where
  "b64_value c =
     (if 65 \<le> c \<and> c \<le> 90 then Some (ucast (c - 65))
      else if 97 \<le> c \<and> c \<le> 122 then Some (ucast (c - 97) + 26)
      else if 48 \<le> c \<and> c \<le> 57 then Some (ucast (c - 48) + 52)
      else if c = 43 then Some 62
      else if c = 47 then Some 63
      else None)"

definition b64_first :: "u32 \<Rightarrow> u32 \<Rightarrow> u8" where
  "b64_first v w = ucast (push_bit 2 v OR drop_bit 4 w)"

definition b64_second :: "u32 \<Rightarrow> u32 \<Rightarrow> u8" where
  "b64_second v w = ucast (push_bit 4 v OR drop_bit 2 w)"

definition b64_third :: "u32 \<Rightarrow> u32 \<Rightarrow> u8" where
  "b64_third v w = ucast (push_bit 6 v OR w)"

fun b64_tail :: "u32 list \<Rightarrow> u8 list" where
  "b64_tail [v, w] = [b64_first v w]"
| "b64_tail [v, w, x] = [b64_first v w, b64_second w x]"
| "b64_tail _ = []"

fun b64_decode :: "u32 list \<Rightarrow> u8 list \<Rightarrow> u8 list" where
  "b64_decode vals [] = b64_tail vals"
| "b64_decode vals (c # text) =
     (if c = 61 \<or> c = 10 \<or> c = 13 \<or> c = 32 \<or> c = 9 then b64_decode vals text
      else case b64_value c of
        None \<Rightarrow> b64_decode vals text
      | Some v \<Rightarrow>
          (case vals of
             [p, q, r] \<Rightarrow> b64_first p q # b64_second q r # b64_third r v # b64_decode [] text
           | _ \<Rightarrow> b64_decode (vals @ [v]) text))"

lemma b64_alphabet_bytes:
  "b64_alphabet =
     [65, 66, 67, 68, 69, 70, 71, 72, 73, 74, 75, 76, 77, 78, 79, 80, 81, 82, 83, 84, 85, 86, 87, 88, 89,
      90, 97, 98, 99, 100, 101, 102, 103, 104, 105, 106, 107, 108, 109, 110, 111, 112, 113, 114, 115, 116,
      117, 118, 119, 120, 121, 122, 48, 49, 50, 51, 52, 53, 54, 55, 56, 57, 43, 47]"
  by (simp add: b64_alphabet_def cs_def)

lemma b64_alphabet_values:
  "map b64_value b64_alphabet = map Some
     [0, 1, 2, 3, 4, 5, 6, 7, 8, 9, 10, 11, 12, 13, 14, 15, 16, 17, 18, 19, 20, 21, 22, 23, 24, 25, 26,
      27, 28, 29, 30, 31, 32, 33, 34, 35, 36, 37, 38, 39, 40, 41, 42, 43, 44, 45, 46, 47, 48, 49, 50, 51,
      52, 53, 54, 55, 56, 57, 58, 59, 60, 61, 62, 63]"
  by (simp add: b64_alphabet_bytes b64_value_def)

lemma b64_alphabet_plain: "list_all (\<lambda>c. c \<notin> {61, 10, 13, 32, 9}) b64_alphabet"
  by (simp add: b64_alphabet_bytes)

lemma b64_values_upt:
  "[0, 1, 2, 3, 4, 5, 6, 7, 8, 9, 10, 11, 12, 13, 14, 15, 16, 17, 18, 19, 20, 21, 22, 23, 24, 25, 26,
      27, 28, 29, 30, 31, 32, 33, 34, 35, 36, 37, 38, 39, 40, 41, 42, 43, 44, 45, 46, 47, 48, 49, 50, 51,
      52, 53, 54, 55, 56, 57, 58, 59, 60, 61, 62, 63] = (map of_nat [0..<64] :: u32 list)"
  by (simp add: upt_conv_Cons)

lemma b64_alphabet_nth:
  assumes "i < 64"
  shows "b64_value (b64_alphabet ! i) = Some (of_nat i)" "b64_alphabet ! i \<notin> {61, 10, 13, 32, 9}"
proof -
  have l: "length b64_alphabet = 64" by (simp add: b64_alphabet_bytes)
  have "map b64_value b64_alphabet = map (\<lambda>i. Some (of_nat i)) [0..<64]"
    using b64_alphabet_values unfolding b64_values_upt map_map comp_def .
  then have "map b64_value b64_alphabet ! i = map (\<lambda>i. Some (of_nat i)) [0..<64] ! i" by (rule arg_cong)
  also have "\<dots> = Some (of_nat ([0..<64] ! i))" by (rule nth_map) (use assms in \<open>simp del: upt_rec_numeral\<close>)
  also have "[0..<64] ! i = i" using assms by (simp del: upt_rec_numeral)
  finally show "b64_value (b64_alphabet ! i) = Some (of_nat i)" using assms l by (simp only: nth_map)
  have "b64_alphabet ! i \<in> set b64_alphabet" using assms l by (simp only: nth_mem)
  with b64_alphabet_plain show "b64_alphabet ! i \<notin> {61, 10, 13, 32, 9}"
    unfolding list_all_iff by (rule bspec)
qed

lemma b64_char_ok:
  "b64_value (b64_char v) = Some (v AND 63)" "b64_char v \<noteq> 61" "b64_char v \<noteq> 10" "b64_char v \<noteq> 13"
  "b64_char v \<noteq> 32" "b64_char v \<noteq> 9"
proof -
  have "v AND 63 \<le> 63" by (rule word_and_le1)
  then have "unat (v AND 63) < 64" by (simp add: word_le_nat_alt)
  from b64_alphabet_nth [OF this]
  show "b64_value (b64_char v) = Some (v AND 63)" "b64_char v \<noteq> 61" "b64_char v \<noteq> 10" "b64_char v \<noteq> 13"
    "b64_char v \<noteq> 32" "b64_char v \<noteq> 9"
    by (simp_all add: b64_char_def)
qed

lemma bit_63: "bit (63 :: u32) n \<longleftrightarrow> n < 6"
proof -
  have "(63 :: u32) = mask 6" by (simp add: mask_eq_exp_minus_1)
  then have "bit (63 :: u32) n = bit (mask 6 :: u32) n" by metis
  then show ?thesis by (simp only: bit_mask_iff) auto
qed

lemma byte_eqI:
  "(\<And>n. n \<in> {0, 1, 2, 3, 4, 5, 6, 7} \<Longrightarrow> bit x n = bit y n) \<Longrightarrow> x = (y :: u8)"
proof (rule bit_word_eqI)
  fix n assume h: "\<And>n. n \<in> {0, 1, 2, 3, 4, 5, 6, 7} \<Longrightarrow> bit x n = bit y n" and "n < LENGTH(8)"
  then have "n = 0 \<or> n = 1 \<or> n = 2 \<or> n = 3 \<or> n = 4 \<or> n = 5 \<or> n = 6 \<or> n = 7" by simp arith
  then show "bit x n = bit y n" by (intro h) auto
qed

lemma bit_u8_out: "8 \<le> n \<Longrightarrow> \<not> bit (a :: u8) n"
  by (auto dest: bit_imp_le_length)

lemma b64_parts:
  fixes a b c :: u8
  shows "b64_first (drop_bit 18 (b64_join a b c) AND 63) (drop_bit 12 (b64_join a b c) AND 63) = a"
    "b64_second (drop_bit 12 (b64_join a b c) AND 63) (drop_bit 6 (b64_join a b c) AND 63) = b"
    "b64_third (drop_bit 6 (b64_join a b c) AND 63) (b64_join a b c AND 63) = c"
  unfolding b64_join_def b64_first_def b64_second_def b64_third_def
  subgoal by (rule byte_eqI, elim insertE emptyE) (simp_all add: bit_simps bit_63 bit_u8_out)
  subgoal by (rule byte_eqI, elim insertE emptyE) (simp_all add: bit_simps bit_63 bit_u8_out)
  subgoal by (rule byte_eqI, elim insertE emptyE) (simp_all add: bit_simps bit_63 bit_u8_out)
  done

definition b64_blank :: "u8 \<Rightarrow> bool" where
  "b64_blank c \<longleftrightarrow> c = 61 \<or> c = 10 \<or> c = 13 \<or> c = 32 \<or> c = 9"

lemma b64_blank_61: "b64_blank 61"
  by (simp add: b64_blank_def)

lemma b64_decode_blank: "list_all b64_blank ws \<Longrightarrow> b64_decode vals (ws @ text) = b64_decode vals text"
  by (induction ws) (auto simp: b64_blank_def)

lemma b64_decode_end: "list_all b64_blank ws \<Longrightarrow> b64_decode vals ws = b64_tail vals"
  using b64_decode_blank [of ws vals "[]"] by simp

lemma b64_decode_char:
  "b64_decode vals (b64_char v # text) =
     (case vals of
        [p, q, r] \<Rightarrow> b64_first p q # b64_second q r # b64_third r (v AND 63) # b64_decode [] text
      | _ \<Rightarrow> b64_decode (vals @ [v AND 63]) text)"
  using b64_char_ok [of v] by simp

lemma b64_join_0: "push_bit 16 (ucast a) = b64_join a 0 0" "push_bit 16 (ucast a) OR push_bit 8 (ucast b) = b64_join a b 0"
  by (simp_all add: b64_join_def)

lemma b64_decode_encode: "list_all b64_blank ws \<Longrightarrow> b64_decode [] (b64_encode col bs @ ws) = bs"
proof (induction col bs rule: b64_encode.induct)
  case (1 col a b c bs)
  then show ?case by (simp add: Let_def b64_decode_char b64_parts del: b64_decode.simps(2))
      (auto simp: b64_decode_char b64_parts)
next
  case (2 col a)
  then have "list_all b64_blank (61 # 61 # ws)" by (simp add: b64_blank_61)
  then have "b64_decode vals (61 # 61 # ws) = b64_tail vals" for vals by (rule b64_decode_end)
  then show ?case
    using b64_parts(1) [of a 0 0]
    by (simp add: Let_def b64_join_0 b64_decode_char del: b64_decode.simps(2))
next
  case (3 col a b)
  then have "list_all b64_blank (61 # ws)" by (simp add: b64_blank_61)
  then have "b64_decode vals (61 # ws) = b64_tail vals" for vals by (rule b64_decode_end)
  then show ?case
    using b64_parts(1, 2) [of a b 0]
    by (simp add: Let_def b64_join_0(2) b64_decode_char del: b64_decode.simps(2))
qed (simp add: b64_decode_end)

lemma b64_encode_plain: "c \<in> set (b64_encode col bs) \<Longrightarrow> c \<noteq> 60 \<and> c \<noteq> 38"
proof -
  have al: "c \<noteq> 60 \<and> c \<noteq> 38" if "c \<in> set b64_alphabet" for c using that by (auto simp: b64_alphabet_bytes)
  have l: "length b64_alphabet = 64" by (simp add: b64_alphabet_bytes)
  have "b64_char v \<in> set b64_alphabet" for v
  proof -
    have "v AND 63 \<le> 63" by (rule word_and_le1)
    then have "unat (v AND 63) < length b64_alphabet" unfolding l by (simp add: word_le_nat_alt)
    then show ?thesis unfolding b64_char_def by (rule nth_mem)
  qed
  with al have "b64_char v \<noteq> 60 \<and> b64_char v \<noteq> 38" for v by blast
  then show "c \<in> set (b64_encode col bs) \<Longrightarrow> c \<noteq> 60 \<and> c \<noteq> 38"
    by (induction col bs rule: b64_encode.induct) (auto simp: Let_def split: if_splits)
qed

text \<open>What is encoded is decoded.\<close>

theorem b64_roundtrip: "b64_decode [] (b64_encode 0 bs) = bs"
  using b64_decode_encode [of "[]"] by simp

section \<open>Objects\<close>

text \<open>The types of the property lists, and \<open>CFOther\<close> for an object of another type.\<close>

datatype cf =
    CFBoolean bool
  | CFString cstr
  | CFInteger u64
  | CFReal u64
  | CFData "u8 list"
  | CFArray "cf list"
  | CFDictionary "(cf \<times> cf) list"
  | CFOther

section \<open>The writer\<close>

definition xml_indent :: "nat \<Rightarrow> u8 list" where
  "xml_indent depth = replicate depth 9"

definition escape_char :: "u8 \<Rightarrow> u8 list" where
  "escape_char c =
     (if c = 38 then cs ''&amp;'' else if c = 60 then cs ''&lt;'' else if c = 62 then cs ''&gt;''
      else if c = 34 then cs ''&quot;'' else if c = 39 then cs ''&apos;'' else [c])"

definition append_escaped :: "u8 list \<Rightarrow> u8 list" where
  "append_escaped s = concat (map escape_char (c_str s))"

definition append_string :: "cstr \<Rightarrow> u8 list \<Rightarrow> u8 list" where
  "append_string tag s = cs ''<'' @ tag @ cs ''>'' @ append_escaped s @ cs ''</'' @ tag @ cs ''>'' @ [10]"

text \<open>\<open>snprintf\<close> into a buffer on the stack.\<close>

definition print_into :: "nat \<Rightarrow> u8 list \<Rightarrow> arg list \<Rightarrow> cstr outcome" where
  "print_into n fmt args =
     obind (vsnprintf n fmt args) (\<lambda>(_, s). if n < length s then Fault else Ret (c_str s))"

definition wbind :: "u8 list option outcome \<Rightarrow> (u8 list \<Rightarrow> u8 list option outcome) \<Rightarrow> u8 list option outcome" where
  "wbind x f = obind x (\<lambda>r. case r of None \<Rightarrow> Ret None | Some w \<Rightarrow> f w)"

fun write_value :: "nat \<Rightarrow> cf \<Rightarrow> u8 list option outcome"
  and write_items :: "nat \<Rightarrow> cf list \<Rightarrow> u8 list option outcome"
  and write_entries :: "nat \<Rightarrow> (cf \<times> cf) list \<Rightarrow> u8 list option outcome"
where
  "write_value depth (CFBoolean b) =
     Ret (Some (xml_indent depth @ (if b then cs ''<true/>'' else cs ''<false/>'') @ [10]))"
| "write_value depth (CFString s) = Ret (Some (xml_indent depth @ append_string (cs ''string'') s))"
| "write_value depth (CFReal d) =
     obind (print_into 64 (cs ''<real>%.17g</real>'' @ [10]) [Slot d]) (\<lambda>s. Ret (Some (xml_indent depth @ s)))"
| "write_value depth (CFInteger v) =
     obind (print_into 32 (cs ''<integer>%lld</integer>'' @ [10]) [Slot v]) (\<lambda>s. Ret (Some (xml_indent depth @ s)))"
| "write_value depth (CFData bs) =
     Ret (Some (xml_indent depth @ cs ''<data>'' @ [10] @ b64_encode 0 bs @ [10] @ xml_indent depth @ cs ''</data>'' @ [10]))"
| "write_value depth (CFArray vs) =
     wbind (write_items (depth + 1) vs) (\<lambda>w.
       Ret (Some (xml_indent depth @ cs ''<array>'' @ [10] @ w @ xml_indent depth @ cs ''</array>'' @ [10])))"
| "write_value depth (CFDictionary kvs) =
     wbind (write_entries (depth + 1) kvs) (\<lambda>w.
       Ret (Some (xml_indent depth @ cs ''<dict>'' @ [10] @ w @ xml_indent depth @ cs ''</dict>'' @ [10])))"
| "write_value depth CFOther = Ret None"
| "write_items depth [] = Ret (Some [])"
| "write_items depth (v # vs) =
     wbind (write_value depth v) (\<lambda>w. wbind (write_items depth vs) (\<lambda>w'. Ret (Some (w @ w'))))"
| "write_entries depth [] = Ret (Some [])"
| "write_entries depth ((k, v) # kvs) =
     (case k of
        CFString s \<Rightarrow>
          wbind (write_value depth v) (\<lambda>w. wbind (write_entries depth kvs) (\<lambda>w'.
            Ret (Some (xml_indent depth @ append_string (cs ''key'') s @ w @ w'))))
      | _ \<Rightarrow> Ret None)"

definition xml_prolog :: "u8 list" where
  "xml_prolog = cs ''<?xml version=\"1.0\" encoding=\"UTF-8\"?>'' @ [10] @
     cs ''<!DOCTYPE plist PUBLIC \"-//Apple//DTD PLIST 1.0//EN\" \"http://www.apple.com/DTDs/PropertyList-1.0.dtd\">'' @ [10]"

definition CFPropertyListCreateXMLData :: "cf \<Rightarrow> u8 list option outcome" where
  "CFPropertyListCreateXMLData v =
     wbind (write_value 0 v) (\<lambda>w.
       Ret (Some (xml_prolog @ cs ''<plist version=\"1.0\">'' @ [10] @ w @ cs ''</plist>'' @ [10])))"

section \<open>The reader\<close>

definition xml_space :: "u8 \<Rightarrow> bool" where
  "xml_space c \<longleftrightarrow> c = 32 \<or> c = 9 \<or> c = 10 \<or> c = 13"

definition skipWs :: "u8 list \<Rightarrow> u8 list" where
  "skipWs s = dropWhile xml_space s"

definition skip_directive :: "u8 list \<Rightarrow> u8 list" where
  "skip_directive s = drop 1 (dropWhile (\<lambda>c. c \<noteq> 62) s)"

lemma length_skip_ws: "length (skipWs s) \<le> length s"
  by (simp add: skipWs_def length_dropWhile_le)

lemma length_skip_directive: "length (skip_directive s) \<le> length s - 1"
  using length_dropWhile_le [of "\<lambda>c. c \<noteq> 62" s] by (simp add: skip_directive_def)

function skip_prolog :: "u8 list \<Rightarrow> u8 list" where
  "skip_prolog s =
     (case skipWs s of
        c # d # r \<Rightarrow>
          if c = 60 \<and> (d = 63 \<or> d = 33) then skip_prolog (skip_directive (c # d # r)) else c # d # r
      | r \<Rightarrow> r)"
  by pat_completeness auto
termination
proof (relation "measure length")
  fix s :: "u8 list" and c t d r
  assume "skipWs s = c # t" "t = d # r"
  with length_skip_ws [of s] length_skip_directive [of "c # d # r"]
  show "(skip_directive (c # d # r), s) \<in> measure length" by simp
qed simp

declare skip_prolog.simps [simp del]

text \<open>The text up to the next tag, with its entities replaced.\<close>

function unescape :: "u8 list \<Rightarrow> u8 list" where
  "unescape [] = []"
| "unescape (c # s) =
     (if c = 38 \<and> take 5 (c # s) = cs ''&amp;'' then 38 # unescape (drop 4 s)
      else if c = 38 \<and> take 4 (c # s) = cs ''&lt;'' then 60 # unescape (drop 3 s)
      else if c = 38 \<and> take 4 (c # s) = cs ''&gt;'' then 62 # unescape (drop 3 s)
      else if c = 38 \<and> take 6 (c # s) = cs ''&quot;'' then 34 # unescape (drop 5 s)
      else if c = 38 \<and> take 6 (c # s) = cs ''&apos;'' then 39 # unescape (drop 5 s)
      else c # unescape s)"
  by pat_completeness auto
termination
  by (relation "measure length") auto

definition read_text :: "u8 list \<Rightarrow> u8 list \<times> u8 list" where
  "read_text s = (unescape (takeWhile (\<lambda>c. c \<noteq> 60) s), dropWhile (\<lambda>c. c \<noteq> 60) s)"

definition tag_char :: "u8 \<Rightarrow> bool" where
  "tag_char c \<longleftrightarrow> c \<noteq> 32 \<and> c \<noteq> 9 \<and> c \<noteq> 10 \<and> c \<noteq> 62 \<and> c \<noteq> 47"

text \<open>The name of a tag, whether it closes itself, and the text behind it.\<close>

definition read_tag_name :: "u8 list \<Rightarrow> cstr \<times> bool \<times> u8 list" where
  "read_tag_name s =
     (let r = dropWhile tag_char s
      in (c_str (takeWhile tag_char s), 47 \<in> set (takeWhile (\<lambda>c. c \<noteq> 62) r), drop 1 (dropWhile (\<lambda>c. c \<noteq> 62) r)))"

definition expect_close_tag :: "cstr \<Rightarrow> u8 list \<Rightarrow> u8 list option" where
  "expect_close_tag name s =
     (case skipWs s of
        c # d # r \<Rightarrow>
          if c = 60 \<and> d = 47 \<and> take (length name) r = name
          then (case skipWs (drop (length name) r) of
                  e # t \<Rightarrow> if e = 62 then Some t else None
                | [] \<Rightarrow> None)
          else None
      | _ \<Rightarrow> None)"

text \<open>The text of an element and the text behind its closing tag.\<close>

definition read_element :: "cstr \<Rightarrow> u8 list \<Rightarrow> (u8 list \<times> u8 list) option" where
  "read_element name s =
     (let (text, r) = read_text s in map_option (\<lambda>r'. (text, r')) (expect_close_tag name r))"

text \<open>The results of the mutually recursive parsers: no fuel, undefined behaviour, \<open>NULL\<close>, or an object
  and the rest of the text.\<close>

type_synonym parsed = "(cf \<times> u8 list) option outcome option"

definition pbind :: "parsed \<Rightarrow> (cf \<Rightarrow> u8 list \<Rightarrow> parsed) \<Rightarrow> parsed" where
  "pbind x f =
     (case x of
        Some (Ret (Some (v, r))) \<Rightarrow> f v r
      | _ \<Rightarrow> x)"

definition parsed_element ::
  "cstr \<Rightarrow> u8 list \<Rightarrow> (u8 list \<Rightarrow> cf outcome) \<Rightarrow> (cf \<times> u8 list) option outcome" where
  "parsed_element name s f =
     (case read_element name s of
        None \<Rightarrow> Ret None
      | Some (t, r') \<Rightarrow> obind (f t) (\<lambda>v. Ret (Some (v, r'))))"

definition parse_leaf :: "(cstr \<Rightarrow> u64 \<times> cstr) \<Rightarrow> cstr \<Rightarrow> u8 list \<Rightarrow> (cf \<times> u8 list) option outcome" where
  "parse_leaf strtod tag r =
     (if tag = cs ''true'' then Ret (Some (CFBoolean True, r))
      else if tag = cs ''false'' then Ret (Some (CFBoolean False, r))
      else if tag = cs ''string'' then parsed_element tag r (\<lambda>t. Ret (CFString t))
      else if tag = cs ''integer''
      then parsed_element tag r (\<lambda>t. obind (strtol (c_str t) 10) (\<lambda>(v, _). Ret (CFInteger (word_of_int v))))
      else if tag = cs ''real'' then parsed_element tag r (\<lambda>t. Ret (CFReal (fst (strtod (c_str t)))))
      else if tag = cs ''data'' then parsed_element tag r (\<lambda>t. Ret (CFData (b64_decode [] t)))
      else Ret None)"

text \<open>A tag that ends an array or a dictionary is next.\<close>

definition at_close_tag :: "u8 list \<Rightarrow> bool" where
  "at_close_tag s \<longleftrightarrow> 1 < length s \<and> s ! 0 = 60 \<and> s ! 1 = 47"

text \<open>An opening tag and the text behind it.\<close>

definition open_tag :: "u8 list \<Rightarrow> (cstr \<times> u8 list) option" where
  "open_tag s =
     (case s of
        [] \<Rightarrow> None
      | c # s1 \<Rightarrow>
          if c \<noteq> 60 then None
          else let (tag, self, r) = read_tag_name s1 in Some (tag, r))"

definition close_with :: "cf \<Rightarrow> cstr \<Rightarrow> u8 list \<Rightarrow> parsed" where
  "close_with v tag s = Some (Ret (map_option (\<lambda>r. (v, r)) (expect_close_tag tag s)))"

text \<open>The loops of a dictionary and of an array; the reader of their values is an argument.\<close>

fun parse_dict :: "(u8 list \<Rightarrow> parsed) \<Rightarrow> bool \<Rightarrow> nat \<Rightarrow> (cf, cf) dict \<Rightarrow> u8 list \<Rightarrow> parsed" where
  "parse_dict pv imm 0 d s = None"
| "parse_dict pv imm (Suc n) d s =
     (if at_close_tag (skipWs s)
      then close_with (CFDictionary (if imm then cf_dict_create_copy d else d)) (cs ''dict'') (skipWs s)
      else case open_tag (skipWs s) of
        None \<Rightarrow> Some (Ret None)
      | Some (tag, r) \<Rightarrow>
          if tag \<noteq> cs ''key'' then Some (Ret None)
          else case read_element (cs ''key'') r of
            None \<Rightarrow> Some (Ret None)
          | Some (t, r1) \<Rightarrow>
              pbind (pv r1) (\<lambda>v r2. parse_dict pv imm n (cf_dict_set (=) (CFString t) v d) r2))"

fun parse_array :: "(u8 list \<Rightarrow> parsed) \<Rightarrow> nat \<Rightarrow> cf list \<Rightarrow> u8 list \<Rightarrow> parsed" where
  "parse_array pv 0 a s = None"
| "parse_array pv (Suc n) a s =
     (if at_close_tag (skipWs s) then close_with (CFArray a) (cs ''array'') (skipWs s)
      else pbind (pv (skipWs s)) (\<lambda>v r. parse_array pv n (a @ [v]) r))"

fun parse_value :: "(cstr \<Rightarrow> u64 \<times> cstr) \<Rightarrow> bool \<Rightarrow> nat \<Rightarrow> u8 list \<Rightarrow> parsed" where
  "parse_value strtod imm 0 s = None"
| "parse_value strtod imm (Suc n) s =
     (case open_tag (skipWs s) of
        None \<Rightarrow> Some (Ret None)
      | Some (tag, r) \<Rightarrow>
          if tag = cs ''dict'' then parse_dict (parse_value strtod imm n) imm n [] r
          else if tag = cs ''array'' then parse_array (parse_value strtod imm n) n [] r
          else Some (parse_leaf strtod tag r))"

definition CFPropertyListCreateFromXMLData ::
  "(cstr \<Rightarrow> u64 \<times> cstr) \<Rightarrow> bool \<Rightarrow> nat \<Rightarrow> u8 list \<Rightarrow> cf option outcome option" where
  "CFPropertyListCreateFromXMLData strtod imm fuel s =
     (case open_tag (skipWs (skip_prolog s)) of
        None \<Rightarrow> Some (Ret None)
      | Some (tag, r) \<Rightarrow>
          if tag \<noteq> cs ''plist'' then Some (Ret None)
          else case parse_value strtod imm fuel r of
            None \<Rightarrow> None
          | Some x \<Rightarrow>
              Some (obind x (\<lambda>o1. Ret (case o1 of
                None \<Rightarrow> None
              | Some (v, r1) \<Rightarrow> if expect_close_tag (cs ''plist'') r1 = None then None else Some v))))"

fun CFPropertyListIsValid :: "cf \<Rightarrow> bool" where
  "CFPropertyListIsValid (CFArray vs) = list_all CFPropertyListIsValid vs"
| "CFPropertyListIsValid (CFDictionary kvs) =
     list_all (\<lambda>(k, v). (case k of CFString _ \<Rightarrow> True | _ \<Rightarrow> False) \<and> CFPropertyListIsValid v) kvs"
| "CFPropertyListIsValid CFOther = False"
| "CFPropertyListIsValid _ = True"

subsection \<open>The reader returns\<close>

lemma length_drop_gt: "length (drop 1 (dropWhile P s)) \<le> length s"
  using length_dropWhile_le [of P s] by simp

lemma length_read_tag_name: "read_tag_name s = (tag, self, r) \<Longrightarrow> length r \<le> length s"
  using length_drop_gt [of "\<lambda>c. c \<noteq> 62" "dropWhile tag_char s"] length_dropWhile_le [of tag_char s]
  by (auto simp: read_tag_name_def Let_def)

lemma length_expect_close_tag: "expect_close_tag name s = Some r \<Longrightarrow> length r < length s"
proof -
  assume "expect_close_tag name s = Some r"
  then obtain c d t e where "skipWs s = c # d # t" "skipWs (drop (length name) t) = e # r"
    by (auto simp: expect_close_tag_def split: list.splits if_splits)
  with length_skip_ws [of s] length_skip_ws [of "drop (length name) t"] show ?thesis by simp
qed

lemma length_read_element: "read_element name s = Some (text, r) \<Longrightarrow> length r < length s"
  using length_dropWhile_le [of "\<lambda>c. c \<noteq> 60" s]
  by (auto simp: read_element_def read_text_def dest!: length_expect_close_tag)

lemma parsed_element_Ret:
  "parsed_element name s f = Ret (Some (v, r)) \<Longrightarrow> length r < length s"
  by (auto simp: parsed_element_def dest: length_read_element split: option.splits)

lemma parse_leaf_Ret: "parse_leaf strtod tag s = Ret (Some (v, r)) \<Longrightarrow> length r \<le> length s"
  by (auto simp: parse_leaf_def split: if_splits dest!: parsed_element_Ret)

lemma pbind_Ret:
  "pbind x f = Some (Ret (Some y)) \<longleftrightarrow> (\<exists>v r. x = Some (Ret (Some (v, r))) \<and> f v r = Some (Ret (Some y)))"
  by (auto simp: pbind_def split: option.splits outcome.splits)

lemma pbind_None: "pbind x f = None \<longleftrightarrow> x = None \<or> (\<exists>v r. x = Some (Ret (Some (v, r))) \<and> f v r = None)"
  by (auto simp: pbind_def split: option.splits outcome.splits)

lemma length_open_tag: "open_tag (skipWs s) = Some (tag, r) \<Longrightarrow> length r < length s"
  using length_skip_ws [of s]
  by (auto simp: open_tag_def split: list.splits if_splits prod.splits dest!: length_read_tag_name)

lemma close_with_Ret: "close_with v0 tag (skipWs s) = Some (Ret (Some (v, r))) \<Longrightarrow> length r \<le> length s"
  using length_skip_ws [of s] by (auto simp: close_with_def dest!: length_expect_close_tag)

lemma close_with_not_None [simp]: "\<exists>x. close_with v0 tag s = Some x"
  by (simp add: close_with_def)

text \<open>Every success consumes something, and a value reader is asked only for shorter texts.\<close>

definition consumes :: "(u8 list \<Rightarrow> parsed) \<Rightarrow> bool" where
  "consumes pv \<longleftrightarrow> (\<forall>s v r. pv s = Some (Ret (Some (v, r))) \<longrightarrow> length r < length s)"

lemma consumesD: "consumes pv \<Longrightarrow> pv s = Some (Ret (Some (v, r))) \<Longrightarrow> length r < length s"
  by (simp add: consumes_def)

lemma parse_dict_shorter:
  "consumes pv \<Longrightarrow> parse_dict pv imm n d s = Some (Ret (Some (v, r))) \<Longrightarrow> length r \<le> length s"
proof (induction n arbitrary: d s)
  case (Suc n)
  show ?case
  proof (cases "at_close_tag (skipWs s)")
    case True
    with Suc.prems show ?thesis by (auto dest: close_with_Ret)
  next
    case False
    with Suc.prems obtain tag r1 tx r2 v' r3 d' where t: "open_tag (skipWs s) = Some (tag, r1)"
      and k: "read_element (cs ''key'') r1 = Some (tx, r2)"
      and p: "pv r2 = Some (Ret (Some (v', r3)))" "parse_dict pv imm n d' r3 = Some (Ret (Some (v, r)))"
      by (auto simp: pbind_Ret split: if_splits option.splits)
    from length_open_tag [OF t] length_read_element [OF k] consumesD [OF Suc.prems(1) p(1)]
      Suc.IH [OF Suc.prems(1) p(2)]
    show ?thesis by simp
  qed
qed simp

lemma parse_array_shorter:
  "consumes pv \<Longrightarrow> parse_array pv n a s = Some (Ret (Some (v, r))) \<Longrightarrow> length r \<le> length s"
proof (induction n arbitrary: a s)
  case (Suc n)
  then show ?case
    using length_skip_ws [of s]
    by (auto simp: pbind_Ret split: if_splits dest!: close_with_Ret consumesD Suc.IH [OF Suc.prems(1)])
qed simp

lemma parse_value_consumes: "consumes (parse_value strtod imm n)"
proof (induction n)
  case (Suc n)
  have "length r < length s" if h: "parse_value strtod imm (Suc n) s = Some (Ret (Some (v, r)))" for s v r
  proof -
    obtain tag r1 where "open_tag (skipWs s) = Some (tag, r1)" "length r \<le> length r1"
      using h by (auto split: option.splits if_splits
          dest!: parse_leaf_Ret parse_dict_shorter [OF Suc] parse_array_shorter [OF Suc])
    with length_open_tag show ?thesis by fastforce
  qed
  then show ?case by (simp only: consumes_def) blast
qed (simp add: consumes_def)

definition enough :: "(u8 list \<Rightarrow> parsed) \<Rightarrow> nat \<Rightarrow> bool" where
  "enough pv m \<longleftrightarrow> (\<forall>s. length s < m \<longrightarrow> (\<exists>x. pv s = Some x))"

lemma pbind_enough:
  "enough pv m \<Longrightarrow> length s < m \<Longrightarrow> (\<And>v r. pv s = Some (Ret (Some (v, r))) \<Longrightarrow> \<exists>x. f v r = Some x) \<Longrightarrow>
     \<exists>x. pbind (pv s) f = Some x"
  by (fastforce simp: enough_def pbind_def split: outcome.split option.split)

lemma parse_array_enough:
  "consumes pv \<Longrightarrow> enough pv m \<Longrightarrow> length s < m \<Longrightarrow> length s < n \<Longrightarrow> \<exists>x. parse_array pv n a s = Some x"
proof (induction n arbitrary: a s)
  case (Suc n)
  have l: "length (skipWs s) \<le> length s" by (rule length_skip_ws)
  have "\<exists>x. pbind (pv (skipWs s)) (\<lambda>v r. parse_array pv n (a @ [v]) r) = Some x"
  proof (rule pbind_enough [OF Suc.prems(2)])
    show "length (skipWs s) < m" using l Suc.prems(3) by linarith
    show "\<exists>x. parse_array pv n (a @ [v]) r = Some x" if "pv (skipWs s) = Some (Ret (Some (v, r)))" for v r
      by (rule Suc.IH) (use consumesD [OF Suc.prems(1) that] l Suc.prems in linarith)+
  qed
  then show ?case by simp
qed simp

lemma parse_dict_enough:
  "consumes pv \<Longrightarrow> enough pv m \<Longrightarrow> length s < m \<Longrightarrow> length s < n \<Longrightarrow> \<exists>x. parse_dict pv imm n d s = Some x"
proof (induction n arbitrary: d s)
  case (Suc n)
  have "\<exists>x. pbind (pv r1) (\<lambda>v r2. parse_dict pv imm n (d' v) r2) = Some x"
    if "open_tag (skipWs s) = Some (tag, r)" "read_element (cs ''key'') r = Some (tx, r1)" for tag r tx r1 d'
  proof (rule pbind_enough [OF Suc.prems(2)])
    note l = length_open_tag [OF that(1)] length_read_element [OF that(2)]
    then show "length r1 < m" using Suc.prems by linarith
    show "\<exists>x. parse_dict pv imm n (d' v) r2 = Some x" if "pv r1 = Some (Ret (Some (v, r2)))" for v r2
      by (rule Suc.IH) (use consumesD [OF Suc.prems(1) that] l Suc.prems in linarith)+
  qed
  then show ?case by (auto split: option.split)
qed simp

lemma parse_value_enough: "enough (parse_value strtod imm n) n"
proof (induction n)
  case (Suc n)
  have "\<exists>x. parse_value strtod imm (Suc n) s = Some x" if "length s < Suc n" for s
  proof (cases "open_tag (skipWs s)")
    case (Some tr)
    then obtain tag r where t: "open_tag (skipWs s) = Some (tag, r)" by (cases tr) simp
    have r: "length r < n" using length_open_tag [OF t] that by linarith
    show ?thesis
      using t parse_dict_enough [OF parse_value_consumes Suc r r]
        parse_array_enough [OF parse_value_consumes Suc r r] by simp
  qed simp
  then show ?case unfolding enough_def by blast
qed (simp add: enough_def)

lemma length_skip_prolog: "length (skip_prolog s) \<le> length s"
proof (induction s rule: skip_prolog.induct)
  case (1 s)
  show ?case
  proof (cases "\<exists>c d r. skipWs s = c # d # r \<and> c = 60 \<and> (d = 63 \<or> d = 33)")
    case True
    then obtain c d r where h: "skipWs s = c # d # r" "c = 60 \<and> (d = 63 \<or> d = 33)" by blast
    then have "length (skip_prolog s) = length (skip_prolog (skip_directive (c # d # r)))"
      by (subst skip_prolog.simps) simp
    also have "\<dots> \<le> length (skip_directive (c # d # r))" using 1 h by blast
    also have "\<dots> \<le> length s"
      using length_skip_directive [of "c # d # r"] length_skip_ws [of s] h(1) by simp
    finally show ?thesis .
  next
    case False
    then have "skip_prolog s = skipWs s"
      by (auto simp: skip_prolog.simps [of s] split: list.split)
    then show ?thesis by (simp add: length_skip_ws)
  qed
qed

text \<open>C25 The property-list reader returns on every text: a step of fuel for each byte is enough.\<close>
theorem cf_parse_returns:
  "CFPropertyListCreateFromXMLData strtod imm (length s + k) s \<noteq> None"
proof (cases "open_tag (skipWs (skip_prolog s))")
  case (Some tr)
  obtain tag r where tr: "tr = (tag, r)" by (cases tr)
  with Some have "length r < length (skip_prolog s)" by (auto dest: length_open_tag)
  with length_skip_prolog [of s] have "length r < length s + k" by linarith
  then obtain x where "parse_value strtod imm (length s + k) r = Some x"
    using parse_value_enough [of strtod imm "length s + k"] by (auto simp: enough_def)
  then show ?thesis using Some tr by (simp add: CFPropertyListCreateFromXMLData_def)
qed (simp add: CFPropertyListCreateFromXMLData_def)

section \<open>What is written is read back\<close>

subsection \<open>Tags and text\<close>

lemma c_str_plain: "0 \<notin> set s \<Longrightarrow> c_str s = s"
  by (rule c_str_id) (auto simp: is_cstr_def)

lemma read_tag_name_plain:
  assumes "list_all tag_char t" "0 \<notin> set t" "\<not> tag_char (hd u)" "list_all (\<lambda>c. c \<noteq> 62 \<and> c \<noteq> 47) u'" "u = u' @ 62 # s"
  shows "read_tag_name (t @ u) = (t, False, s)"
proof -
  have u: "takeWhile tag_char u = []" "dropWhile tag_char u = u"
    using assms(3) unfolding assms(5) by (cases u'; simp)+
  have "\<And>c. c \<in> set t \<Longrightarrow> tag_char c" using assms(1) by (simp add: list_all_iff)
  then have t: "takeWhile tag_char (t @ u) = t" "dropWhile tag_char (t @ u) = u"
    using u by (simp_all only: takeWhile_append2 dropWhile_append2 append_Nil2)
  have "\<And>c. c \<in> set u' \<Longrightarrow> c \<noteq> 62" and n: "47 \<notin> set u'" using assms(4) by (auto simp: list_all_iff)
  then have "takeWhile (\<lambda>c. c \<noteq> 62) u = u'" "dropWhile (\<lambda>c. c \<noteq> 62) u = 62 # s"
    by (simp_all add: assms(5))
  then show ?thesis using assms(2) n by (simp add: read_tag_name_def Let_def t c_str_plain)
qed

definition plain_tag :: "cstr \<Rightarrow> bool" where
  "plain_tag t \<longleftrightarrow> list_all tag_char t \<and> list_all (\<lambda>c. c \<noteq> 0) t"

lemma open_tag_plain: "plain_tag t \<Longrightarrow> open_tag (60 # t @ 62 # s) = Some (t, s)"
proof -
  assume p: "plain_tag t"
  then have "0 \<notin> set t" by (auto simp: plain_tag_def list_all_iff)
  moreover have "\<not> tag_char 62" by (simp add: tag_char_def)
  ultimately have "read_tag_name (t @ 62 # s) = (t, False, s)"
    using p by (intro read_tag_name_plain [of t "62 # s" "[]" s]) (simp_all add: plain_tag_def)
  then show ?thesis by (simp add: open_tag_def)
qed

lemma plain_tags:
  "plain_tag (cs ''dict'')" "plain_tag (cs ''array'')" "plain_tag (cs ''string'')" "plain_tag (cs ''key'')"
  "plain_tag (cs ''integer'')" "plain_tag (cs ''data'')"
  by (simp_all add: plain_tag_def tag_char_def cs_def)

lemma skip_ws_plain: "\<not> xml_space c \<Longrightarrow> skipWs (c # s) = c # s"
  by (simp add: skipWs_def)

lemma skip_ws_60 [simp]: "skipWs (60 # s) = 60 # s" "skipWs (62 # s) = 62 # s"
  by (simp_all add: skipWs_def xml_space_def)

lemma skip_ws_10 [simp]: "skipWs (10 # s) = skipWs s"
  by (simp add: skipWs_def xml_space_def)

lemma skip_ws_indent [simp]: "skipWs (xml_indent depth @ s) = skipWs s"
  by (induction depth) (simp_all add: skipWs_def xml_indent_def xml_space_def)

lemma skip_ws_idem [simp]: "skipWs (skipWs s) = skipWs s"
  by (simp add: skipWs_def)

lemma expect_close_tag_plain [simp]: "expect_close_tag t (60 # 47 # t @ 62 # s) = Some s"
  by (simp add: expect_close_tag_def)

lemma read_element_plain:
  assumes "list_all (\<lambda>c. c \<noteq> 60) x"
  shows "read_element t (x @ 60 # 47 # t @ 62 # s) = Some (unescape x, s)"
  using assms by (simp add: read_element_def read_text_def list_all_iff)

lemma unescape_plain: "list_all (\<lambda>c. c \<noteq> 38) x \<Longrightarrow> unescape x = x"
  by (induction x) simp_all

lemma unescape_escape_char: "unescape (escape_char c @ s) = c # unescape s"
  by (simp add: escape_char_def cs_def)

lemma append_escaped_back: "is_cstr s \<Longrightarrow> unescape (append_escaped s) = s"
proof (induction s)
  case (Cons c s)
  then have "append_escaped (c # s) = escape_char c @ append_escaped s" "is_cstr s"
    by (simp_all add: append_escaped_def c_str_def is_cstr_def)
  with Cons.IH show ?case by (simp add: unescape_escape_char)
qed (simp add: append_escaped_def c_str_def)

lemma append_escaped_plain: "list_all (\<lambda>c. c \<noteq> 60) (append_escaped s)"
proof -
  have "list_all (\<lambda>c. c \<noteq> 60) (escape_char c)" for c
    by (simp add: escape_char_def cs_def)
  then show ?thesis by (auto simp: append_escaped_def list_all_iff)
qed

lemma append_string_bytes:
  "append_string t s = 60 # t @ 62 # append_escaped s @ 60 # 47 # t @ 62 # [10]"
  by (simp add: append_string_def cs_def)

subsection \<open>Values\<close>

text \<open>The property lists that survive: strings and keys without null bytes, distinct string keys, no reals,
  and integers of at most eleven characters.\<close>

definition key_ok :: "cf \<Rightarrow> bool" where
  "key_ok k = (case k of CFString s \<Rightarrow> is_cstr s | _ \<Rightarrow> False)"

definition integer_ok :: "u64 \<Rightarrow> bool" where
  "integer_ok v \<longleftrightarrow> length (print_int (sint v)) \<le> 11"

fun plist_ok :: "cf \<Rightarrow> bool" where
  "plist_ok (CFBoolean b) = True"
| "plist_ok (CFString s) = is_cstr s"
| "plist_ok (CFInteger v) = integer_ok v"
| "plist_ok (CFReal d) = False"
| "plist_ok (CFData bs) = True"
| "plist_ok (CFArray vs) = list_all plist_ok vs"
| "plist_ok (CFDictionary kvs) = (keys_distinct kvs \<and> list_all (\<lambda>(k, v). key_ok k \<and> plist_ok v) kvs)"
| "plist_ok CFOther = False"

text \<open>Written at some depth, a value is read back, and the text behind it is left.\<close>

definition reads_back :: "(cstr \<Rightarrow> u64 \<times> cstr) \<Rightarrow> bool \<Rightarrow> nat \<Rightarrow> cf \<Rightarrow> u8 list \<Rightarrow> bool" where
  "reads_back strtod imm depth v w \<longleftrightarrow>
     (\<exists>c u. w = xml_indent depth @ 60 # c # u @ [10] \<and> c \<noteq> 47 \<and>
        (\<forall>n rest. length (60 # c # u @ rest) < n \<longrightarrow>
           parse_value strtod imm n (60 # c # u @ rest) = Some (Ret (Some (v, rest)))))"

lemma reads_backI:
  assumes "c \<noteq> 47"
    and "\<And>m rest. length (c # u @ rest) < m \<Longrightarrow>
      parse_value strtod imm (Suc m) (60 # c # u @ rest) = Some (Ret (Some (v, rest)))"
  shows "reads_back strtod imm depth v (xml_indent depth @ 60 # c # u @ [10])"
proof -
  have "parse_value strtod imm n (60 # c # u @ rest) = Some (Ret (Some (v, rest)))"
    if "length (60 # c # u @ rest) < n" for n rest
    using that assms(2) [of rest "n - 1"] by (cases n) simp_all
  with assms(1) show ?thesis unfolding reads_back_def by blast
qed

lemma reads_back_tag:
  assumes "plain_tag t" "t \<noteq> []"
    and "\<And>m rest. length (x @ rest) < m \<Longrightarrow>
      parse_value strtod imm (Suc m) (60 # t @ 62 # x @ rest) = Some (Ret (Some (v, rest)))"
  shows "reads_back strtod imm depth v (xml_indent depth @ 60 # t @ 62 # x @ [10])"
proof -
  obtain c t' where t: "t = c # t'" using assms(2) by (cases t) auto
  have "reads_back strtod imm depth v (xml_indent depth @ 60 # c # (t' @ 62 # x) @ [10])"
  proof (rule reads_backI)
    show "c \<noteq> 47" using assms(1) by (simp add: t plain_tag_def tag_char_def)
    show "parse_value strtod imm (Suc m) (60 # c # (t' @ 62 # x) @ rest) = Some (Ret (Some (v, rest)))"
      if "length (c # (t' @ 62 # x) @ rest) < m" for m rest
      using assms(3) [of rest m] that by (simp add: t)
  qed
  then show ?thesis by (simp add: t)
qed

lemma reads_back_element:
  assumes "plain_tag t" "t \<notin> {[], cs ''dict'', cs ''array''}" "list_all (\<lambda>c. c \<noteq> 60) x"
    and "\<And>r. parse_leaf strtod t r = parsed_element t r f" "f (unescape x) = Ret v"
  shows "reads_back strtod imm depth v (xml_indent depth @ 60 # t @ 62 # (x @ 60 # 47 # t @ [62]) @ [10])"
proof (rule reads_back_tag)
  fix m rest
  have "read_element t (x @ 60 # 47 # t @ 62 # rest) = Some (unescape x, rest)"
    using assms(3) by (rule read_element_plain)
  then show "parse_value strtod imm (Suc m) (60 # t @ 62 # (x @ 60 # 47 # t @ [62]) @ rest) = Some (Ret (Some (v, rest)))"
    using open_tag_plain [OF assms(1), of "x @ 60 # 47 # t @ 62 # rest"] assms(2, 4, 5)
    by (simp add: parsed_element_def)
qed (use assms(1, 2) in simp_all)

lemma reads_back_boolean:
  "reads_back strtod imm depth (CFBoolean b)
     (xml_indent depth @ (if b then cs ''<true/>'' else cs ''<false/>'') @ [10])"
proof -
  have "parse_value strtod imm (Suc m) (60 # 116 # [114, 117, 101, 47, 62] @ rest) = Some (Ret (Some (CFBoolean True, rest)))"
    "parse_value strtod imm (Suc m) (60 # 102 # [97, 108, 115, 101, 47, 62] @ rest) = Some (Ret (Some (CFBoolean False, rest)))"
    for m rest
    by (simp_all add: open_tag_def read_tag_name_def tag_char_def c_str_def parse_leaf_def cs_def)
  then have "reads_back strtod imm depth (CFBoolean True) (xml_indent depth @ 60 # 116 # [114, 117, 101, 47, 62] @ [10])"
    "reads_back strtod imm depth (CFBoolean False) (xml_indent depth @ 60 # 102 # [97, 108, 115, 101, 47, 62] @ [10])"
    by (intro reads_backI; simp)+
  then show ?thesis by (simp add: cs_def)
qed

lemma other_tags:
  "cs ''string'' \<notin> {[], cs ''dict'', cs ''array''}" "cs ''integer'' \<notin> {[], cs ''dict'', cs ''array''}"
  "cs ''data'' \<notin> {[], cs ''dict'', cs ''array''}" "cs ''dict'' \<noteq> []" "cs ''array'' \<noteq> []" "cs ''array'' \<noteq> cs ''dict''"
  by (simp_all add: cs_def)

lemma leaf_tags:
  "parse_leaf strtod (cs ''string'') r = parsed_element (cs ''string'') r (\<lambda>t. Ret (CFString t))"
  "parse_leaf strtod (cs ''integer'') r =
     parsed_element (cs ''integer'') r (\<lambda>t. obind (strtol (c_str t) 10) (\<lambda>(v, _). Ret (CFInteger (word_of_int v))))"
  "parse_leaf strtod (cs ''data'') r = parsed_element (cs ''data'') r (\<lambda>t. Ret (CFData (b64_decode [] t)))"
  unfolding parse_leaf_def by (simp_all add: cs_def)

lemma reads_back_string:
  "is_cstr s \<Longrightarrow> reads_back strtod imm depth (CFString s) (xml_indent depth @ append_string (cs ''string'') s)"
  using reads_back_element [OF plain_tags(3) other_tags(1) append_escaped_plain leaf_tags(1),
      where v = "CFString s" and imm = imm and depth = depth]
  by (simp add: append_string_bytes append_escaped_back)

lemma xml_indent_blank: "list_all b64_blank (xml_indent depth)"
  by (simp add: xml_indent_def list_all_iff b64_blank_def)

lemma reads_back_data:
  "reads_back strtod imm depth (CFData bs)
     (xml_indent depth @ cs ''<data>'' @ [10] @ b64_encode 0 bs @ [10] @ xml_indent depth @ cs ''</data>'' @ [10])"
proof -
  let ?x = "10 # b64_encode 0 bs @ 10 # xml_indent depth"
  have p: "list_all (\<lambda>c. c \<noteq> 60) ?x" "list_all (\<lambda>c. c \<noteq> 38) ?x"
    using b64_encode_plain by (auto simp: list_all_iff xml_indent_def)
  have "list_all b64_blank (10 # xml_indent depth)" using xml_indent_blank by (simp add: b64_blank_def)
  then have "b64_decode [] (b64_encode 0 bs @ 10 # xml_indent depth) = bs" by (rule b64_decode_encode)
  then have "b64_decode [] (unescape ?x) = bs"
    using b64_decode_blank [of "[10]" "[]" "b64_encode 0 bs @ 10 # xml_indent depth"]
    unfolding unescape_plain [OF p(2)] by (simp add: b64_blank_def)
  then show ?thesis
    using reads_back_element [OF plain_tags(6) other_tags(3) p(1) leaf_tags(3),
      where v = "CFData bs" and imm = imm and depth = depth]
    by (simp add: cs_def)
qed

subsection \<open>Numbers\<close>

lemma print_into_render:
  "0 < n \<Longrightarrow> print_into n fmt args = obind (render fmt args) (\<lambda>r. if length r < n then Ret (c_str r) else Fault)"
proof -
  have c: "c_str (r @ [0]) = c_str r" for r by (induction r) (simp_all add: c_str_def)
  show "0 < n \<Longrightarrow> ?thesis"
    by (cases "render fmt args") (auto simp: print_into_def vsnprintf_def vformat_buffer terminated_def c)
qed

lemma print_base_bytes: "list_all (\<lambda>c. c \<noteq> 0 \<and> c \<noteq> 60 \<and> c \<noteq> 38) (print_base 10 n)"
proof -
  have "digit_char d \<noteq> 0 \<and> digit_char d \<noteq> 60 \<and> digit_char d \<noteq> 38" if "d < 36" for d
  proof -
    have "list_all (\<lambda>d. digit_char d \<noteq> 0 \<and> digit_char d \<noteq> 60 \<and> digit_char d \<noteq> 38) [0..<36]" by code_simp
    then show ?thesis using that by (simp add: list_all_iff)
  qed
  then have "c \<noteq> 0 \<and> c \<noteq> 60 \<and> c \<noteq> 38" if "c \<in> set (print_base 10 n)" for c
    using print_base_plain [OF _ _ that] by auto
  then show ?thesis by (simp add: list_all_iff)
qed

lemma print_int_bytes: "list_all (\<lambda>c. c \<noteq> 0 \<and> c \<noteq> 60 \<and> c \<noteq> 38) (print_int v)"
  using print_base_bytes by (simp add: print_int_def)

lemma render_literal:
  "list_all (\<lambda>c. c \<noteq> 37) xs \<Longrightarrow> render (xs @ f) args = obind (render f args) (\<lambda>r. Ret (xs @ r))"
  by (induction xs) (simp_all add: obind_assoc)

lemma render_integer:
  assumes "sint v \<noteq> - (2 ^ 63)"
  shows "render (cs ''<integer>%lld</integer>'' @ [10]) [Slot v] =
    Ret (cs ''<integer>'' @ print_int (sint v) @ cs ''</integer>'' @ [10])"
proof -
  let ?a = "cs ''<integer>''" and ?b = "cs ''</integer>'' @ [10]"
  have "cs ''<integer>%lld</integer>'' @ [10] = ?a @ 37 # [108, 108] @ 100 # ?b" by (simp add: cs_def)
  moreover have "list_all (\<lambda>c. c \<noteq> 37) ?a" "list_all (\<lambda>c. c \<noteq> 37) ?b" by (simp_all add: cs_def)
  note l = this
  have "render ?b [] = Ret ?b" using render_literal [OF l(2), of "[]" "[]"] by (simp only: append_Nil2 render.simps obind.simps)
  moreover have "render (37 # [108, 108] @ 100 # ?b) [Slot v] =
      obind (render ?b []) (\<lambda>r. Ret (print_int (signed_value ([108, 108 :: u8] \<noteq> []) v) @ r))"
    by (rule render_signed) (use assms in \<open>simp_all add: signed_value_def\<close>)
  ultimately show ?thesis
    by (simp only: render_literal [OF l(1)] obind.simps signed_value_def not_Cons_self2 list.distinct simp_thms if_True)
qed

lemma print_base_room: "2 \<le> b \<Longrightarrow> n < b ^ length (print_base b n)"
proof (induction n rule: less_induct)
  case (less n)
  show ?case
  proof (cases "n < b")
    case True
    then show ?thesis by (simp add: print_base.simps [of b n])
  next
    case False
    then have "n div b < n" using less.prems by (intro div_less_dividend) simp_all
    then have "n div b < b ^ length (print_base b (n div b))" using less by blast
    then have "n < b ^ length (print_base b (n div b)) * b"
      using less.prems by (simp add: div_less_iff_less_mult)
    moreover have "print_base b n = print_base b (n div b) @ [digit_char (n mod b)]"
      using False less.prems by (simp add: print_base.simps [of b n])
    ultimately show ?thesis by (simp add: mult.commute)
  qed
qed

lemma integer_ok_min: "integer_ok v \<Longrightarrow> sint v \<noteq> - (2 ^ 63)"
proof
  assume ok: "integer_ok v" and v: "sint v = - (2 ^ 63)"
  then have l: "length (print_base 10 (2 ^ 63)) \<le> 10" by (simp add: integer_ok_def print_int_def)
  have "(2 :: nat) ^ 63 < 10 ^ length (print_base 10 (2 ^ 63))" by (rule print_base_room) simp
  also have "\<dots> \<le> 10 ^ 10" using l by (rule power_increasing) simp
  finally show False by simp
qed

lemma write_integer:
  assumes "sint v \<noteq> - (2 ^ 63)"
  shows "write_value depth (CFInteger v) =
    (if integer_ok v
     then Ret (Some (xml_indent depth @ cs ''<integer>'' @ print_int (sint v) @ cs ''</integer>'' @ [10]))
     else Fault)"
proof -
  let ?r = "cs ''<integer>'' @ print_int (sint v) @ cs ''</integer>'' @ [10]"
  have "length ?r < 32 \<longleftrightarrow> integer_ok v" by (auto simp: integer_ok_def cs_def)
  moreover have "0 \<notin> set ?r" using print_int_bytes [of "sint v"] by (auto simp: list_all_iff cs_def)
  then have "c_str ?r = ?r" by (rule c_str_plain)
  ultimately show ?thesis
    using render_integer [OF assms] by (simp only: write_value.simps print_into_render zero_less_numeral) simp
qed

lemma reads_back_integer:
  assumes "integer_ok v"
  shows "reads_back strtod imm depth (CFInteger v)
    (xml_indent depth @ cs ''<integer>'' @ print_int (sint v) @ cs ''</integer>'' @ [10])"
proof -
  let ?x = "print_int (sint v)"
  have p: "list_all (\<lambda>c. c \<noteq> 60) ?x" "list_all (\<lambda>c. c \<noteq> 38) ?x" "0 \<notin> set ?x"
    using print_int_bytes [of "sint v"] by (auto simp: list_all_iff)
  have "\<bar>sint v\<bar> \<le> long_max"
    using integer_ok_min [OF assms] sint_range_size [of v] by (auto simp: long_max_def word_size)
  then have "strtol (?x @ []) 10 = Ret (sint v, [])"
    by (rule strtol_print_int) (simp add: digit_of_def hd0_def)
  then have "obind (strtol (c_str (unescape ?x)) 10) (\<lambda>(v, _). Ret (CFInteger (word_of_int v))) = Ret (CFInteger v)"
    using p by (simp add: unescape_plain c_str_plain)
  with reads_back_element [OF plain_tags(5) other_tags(2) p(1) leaf_tags(2),
      where v = "CFInteger v" and imm = imm and depth = depth] show ?thesis
    by (simp add: cs_def)
qed

lemma write_real:
  "write_value depth (CFReal d) = Ret (Some (xml_indent depth @ cs ''<real>.17g</real>'' @ [10]))"
proof -
  have "render (cs ''<real>%.17g</real>'' @ [10]) [Slot d] = Ret (cs ''<real>.17g</real>'' @ [10])"
    by (simp add: cs_def directive_def format_width_def convert_def)
  moreover have "c_str (cs ''<real>.17g</real>'' @ [10]) = cs ''<real>.17g</real>'' @ [10]"
    by (rule c_str_plain) (simp add: cs_def)
  moreover have "length (cs ''<real>.17g</real>'' @ [10]) < 64" by (simp add: cs_def)
  ultimately show ?thesis by (simp only: write_value.simps print_into_render zero_less_numeral obind.simps if_True)
qed

subsection \<open>Containers\<close>

lemma parse_skip: "skipWs s = skipWs s' \<Longrightarrow> parse_value strtod imm n s = parse_value strtod imm n s'"
  by (cases n) simp_all

lemma parse_array_skip: "skipWs s = skipWs s' \<Longrightarrow> parse_array pv n a s = parse_array pv n a s'"
  by (cases n) simp_all

lemma parse_dict_skip: "skipWs s = skipWs s' \<Longrightarrow> parse_dict pv imm n d s = parse_dict pv imm n d s'"
  by (cases n) simp_all

lemma reads_backD:
  assumes "reads_back strtod imm depth v w" "length (w @ t) < n"
  shows "parse_value strtod imm n (w @ t) = Some (Ret (Some (v, 10 # t)))" "\<not> at_close_tag (skipWs (w @ t))"
proof -
  obtain c u where w: "w = xml_indent depth @ 60 # c # u @ [10]" "c \<noteq> 47"
    and p: "\<And>n rest. length (60 # c # u @ rest) < n \<Longrightarrow>
      parse_value strtod imm n (60 # c # u @ rest) = Some (Ret (Some (v, rest)))"
    using assms(1) unfolding reads_back_def by blast
  have "parse_value strtod imm n (w @ t) = parse_value strtod imm n (60 # c # u @ 10 # t)"
    by (rule parse_skip) (simp add: w)
  moreover have "length (60 # c # u @ 10 # t) < n" using assms(2) by (simp add: w)
  ultimately show "parse_value strtod imm n (w @ t) = Some (Ret (Some (v, 10 # t)))" using p by simp
  show "\<not> at_close_tag (skipWs (w @ t))" using w by (simp add: at_close_tag_def)
qed

lemma close_array:
  assumes "skipWs t = 60 # 47 # tag @ 62 # rest"
  shows "at_close_tag (skipWs t)" "close_with v tag (skipWs t) = Some (Ret (Some (v, rest)))"
  using assms by (simp_all add: at_close_tag_def close_with_def)

definition items_back :: "(cstr \<Rightarrow> u64 \<times> cstr) \<Rightarrow> bool \<Rightarrow> cf list \<Rightarrow> u8 list \<Rightarrow> bool" where
  "items_back strtod imm vs w \<longleftrightarrow>
     (\<forall>m k a t rest. skipWs t = 60 # 47 # cs ''array'' @ 62 # rest \<longrightarrow> length (w @ t) < m \<longrightarrow> length (w @ t) < k \<longrightarrow>
        parse_array (parse_value strtod imm m) k a (w @ t) = Some (Ret (Some (CFArray (a @ vs), rest))))"

lemma items_backD:
  "items_back strtod imm vs w \<Longrightarrow> skipWs t = 60 # 47 # cs ''array'' @ 62 # rest \<Longrightarrow> length (w @ t) < m \<Longrightarrow>
     length (w @ t) < k \<Longrightarrow>
     parse_array (parse_value strtod imm m) k a (w @ t) = Some (Ret (Some (CFArray (a @ vs), rest)))"
  unfolding items_back_def by blast

lemma items_back_Nil: "items_back strtod imm [] []"
  unfolding items_back_def
proof (intro allI impI)
  fix m k a t rest
  assume "skipWs t = 60 # 47 # cs ''array'' @ 62 # rest" "length ([] @ t) < k"
  then show "parse_array (parse_value strtod imm m) k a ([] @ t) = Some (Ret (Some (CFArray (a @ []), rest)))"
    using close_array [of t "cs ''array''" rest] by (cases k) simp_all
qed

lemma items_back_Cons:
  assumes v: "reads_back strtod imm depth v w" and vs: "items_back strtod imm vs w'"
  shows "items_back strtod imm (v # vs) (w @ w')"
  unfolding items_back_def
proof (intro allI impI)
  fix m k a t rest
  assume t: "skipWs t = 60 # 47 # cs ''array'' @ 62 # rest"
    and l: "length ((w @ w') @ t) < m" "length ((w @ w') @ t) < k"
  obtain k' where k: "k = Suc k'" using l(2) by (cases k) auto
  obtain j where w: "length w = Suc j" using v by (auto simp: reads_back_def)
  let ?s = "w @ w' @ t"
  have "parse_value strtod imm m (skipWs ?s) = parse_value strtod imm m ?s" by (rule parse_skip) simp
  also have "\<dots> = Some (Ret (Some (v, 10 # w' @ t)))" by (rule reads_backD [OF v]) (use l in simp)
  finally have "parse_array (parse_value strtod imm m) k a ?s =
      parse_array (parse_value strtod imm m) k' (a @ [v]) (10 # w' @ t)"
    using reads_backD(2) [OF v, of "w' @ t" m] l by (simp add: k pbind_def)
  also have "\<dots> = parse_array (parse_value strtod imm m) k' (a @ [v]) (w' @ t)" by (rule parse_array_skip) simp
  also have "\<dots> = Some (Ret (Some (CFArray ((a @ [v]) @ vs), rest)))"
    by (rule items_backD [OF vs t]) (use l w k in simp_all)
  finally show "parse_array (parse_value strtod imm m) k a ((w @ w') @ t) = Some (Ret (Some (CFArray (a @ v # vs), rest)))"
    by simp
qed

lemma reads_back_array:
  assumes "items_back strtod imm vs w"
  shows "reads_back strtod imm depth (CFArray vs)
    (xml_indent depth @ cs ''<array>'' @ [10] @ w @ xml_indent depth @ cs ''</array>'' @ [10])"
proof -
  let ?t = "cs ''array''"
  let ?x = "10 # w @ xml_indent depth @ 60 # 47 # ?t @ [62]"
  have "reads_back strtod imm depth (CFArray vs) (xml_indent depth @ 60 # ?t @ 62 # ?x @ [10])"
  proof (rule reads_back_tag [OF plain_tags(2) other_tags(5)])
    fix m rest
    assume l: "length (?x @ rest) < m"
    let ?r = "w @ xml_indent depth @ 60 # 47 # ?t @ 62 # rest"
    have "parse_array (parse_value strtod imm m) m [] (10 # ?r) = parse_array (parse_value strtod imm m) m [] ?r"
      by (rule parse_array_skip) simp
    also have "\<dots> = Some (Ret (Some (CFArray ([] @ vs), rest)))"
      by (rule items_backD [OF assms]) (use l in simp_all)
    finally show "parse_value strtod imm (Suc m) (60 # ?t @ 62 # ?x @ rest) = Some (Ret (Some (CFArray vs, rest)))"
      using open_tag_plain [OF plain_tags(2), of "10 # ?r"] other_tags(6) by simp
  qed
  then show ?thesis by (simp add: cs_def)
qed

definition entries_back :: "(cstr \<Rightarrow> u64 \<times> cstr) \<Rightarrow> bool \<Rightarrow> (cf, cf) dict \<Rightarrow> u8 list \<Rightarrow> bool" where
  "entries_back strtod imm kvs w \<longleftrightarrow>
     (\<forall>m k d t rest. keys_distinct (d @ kvs) \<longrightarrow> skipWs t = 60 # 47 # cs ''dict'' @ 62 # rest \<longrightarrow>
        length (w @ t) < m \<longrightarrow> length (w @ t) < k \<longrightarrow>
        parse_dict (parse_value strtod imm m) imm k d (w @ t) = Some (Ret (Some (CFDictionary (d @ kvs), rest))))"

lemma entries_backD:
  "entries_back strtod imm kvs w \<Longrightarrow> keys_distinct (d @ kvs) \<Longrightarrow> skipWs t = 60 # 47 # cs ''dict'' @ 62 # rest \<Longrightarrow>
     length (w @ t) < m \<Longrightarrow> length (w @ t) < k \<Longrightarrow>
     parse_dict (parse_value strtod imm m) imm k d (w @ t) = Some (Ret (Some (CFDictionary (d @ kvs), rest)))"
  unfolding entries_back_def by blast

lemma entries_back_Nil: "entries_back strtod imm [] []"
  unfolding entries_back_def
proof (intro allI impI)
  fix m k d t rest
  assume "skipWs t = 60 # 47 # cs ''dict'' @ 62 # rest" "length ([] @ t) < k"
  then show "parse_dict (parse_value strtod imm m) imm k d ([] @ t) = Some (Ret (Some (CFDictionary (d @ []), rest)))"
    using close_array [of t "cs ''dict''" rest]
    by (cases k) (simp_all add: cf_dict_create_copy_def cf_dict_create_def zip_map_fst_snd)
qed

lemma cf_dict_set_new: "keys_distinct (d @ (k, v) # kvs) \<Longrightarrow> cf_dict_set (=) k v d = d @ [(k, v)]"
  using cf_dict_find_None [of k d] by (auto simp: cf_dict_set_def keys_distinct_def split: option.split)

lemma key_read:
  assumes "is_cstr s"
  shows "open_tag (skipWs (xml_indent depth @ append_string (cs ''key'') s @ r)) =
      Some (cs ''key'', append_escaped s @ 60 # 47 # cs ''key'' @ 62 # 10 # r)"
    "read_element (cs ''key'') (append_escaped s @ 60 # 47 # cs ''key'' @ 62 # 10 # r) = Some (s, 10 # r)"
    "\<not> at_close_tag (skipWs (xml_indent depth @ append_string (cs ''key'') s @ r))"
proof -
  let ?r = "append_escaped s @ 60 # 47 # cs ''key'' @ 62 # 10 # r"
  have e: "append_string (cs ''key'') s @ r = 60 # cs ''key'' @ 62 # ?r"
    by (simp add: append_string_bytes)
  then show "open_tag (skipWs (xml_indent depth @ append_string (cs ''key'') s @ r)) = Some (cs ''key'', ?r)"
    by (simp only: e skip_ws_indent skip_ws_60 open_tag_plain [OF plain_tags(4)])
  show "\<not> at_close_tag (skipWs (xml_indent depth @ append_string (cs ''key'') s @ r))"
    by (simp only: e skip_ws_indent skip_ws_60) (simp add: at_close_tag_def cs_def)
  show "read_element (cs ''key'') ?r = Some (s, 10 # r)"
    using read_element_plain [OF append_escaped_plain] append_escaped_back [OF assms] by simp
qed

lemma entries_back_Cons:
  assumes s: "is_cstr s" and v: "reads_back strtod imm depth v w" and kvs: "entries_back strtod imm kvs w'"
  shows "entries_back strtod imm ((CFString s, v) # kvs) (xml_indent depth @ append_string (cs ''key'') s @ w @ w')"
  unfolding entries_back_def
proof (intro allI impI)
  fix m k d t rest
  let ?s = "xml_indent depth @ append_string (cs ''key'') s @ w @ w' @ t"
  assume d: "keys_distinct (d @ (CFString s, v) # kvs)" and t: "skipWs t = 60 # 47 # cs ''dict'' @ 62 # rest"
    and l: "length ((xml_indent depth @ append_string (cs ''key'') s @ w @ w') @ t) < m"
      "length ((xml_indent depth @ append_string (cs ''key'') s @ w @ w') @ t) < k"
  obtain k' where k: "k = Suc k'" using l(2) by (cases k) auto
  have l': "length (w @ w' @ t) < m" "length (w' @ t) < k'" "length (w' @ t) < m"
    using l by (auto simp: k append_string_bytes)
  let ?p = "parse_value strtod imm m"
  have "?p (10 # w @ w' @ t) = ?p (w @ w' @ t)" by (rule parse_skip) simp
  also have "\<dots> = Some (Ret (Some (v, 10 # w' @ t)))" by (rule reads_backD(1) [OF v l'(1)])
  finally have "parse_dict ?p imm k d ?s = parse_dict ?p imm k' (d @ [(CFString s, v)]) (10 # w' @ t)"
    using key_read [OF s, where r = "w @ w' @ t"] cf_dict_set_new [OF d] by (simp add: k pbind_def)
  also have "\<dots> = parse_dict ?p imm k' (d @ [(CFString s, v)]) (w' @ t)" by (rule parse_dict_skip) simp
  also have "\<dots> = Some (Ret (Some (CFDictionary ((d @ [(CFString s, v)]) @ kvs), rest)))"
    by (rule entries_backD [OF kvs _ t l'(3, 2)]) (use d in simp)
  finally show "parse_dict ?p imm k d ((xml_indent depth @ append_string (cs ''key'') s @ w @ w') @ t) =
      Some (Ret (Some (CFDictionary (d @ (CFString s, v) # kvs), rest)))"
    by simp
qed

lemma reads_back_dict:
  assumes "entries_back strtod imm kvs w" "keys_distinct kvs"
  shows "reads_back strtod imm depth (CFDictionary kvs)
    (xml_indent depth @ cs ''<dict>'' @ [10] @ w @ xml_indent depth @ cs ''</dict>'' @ [10])"
proof -
  let ?t = "cs ''dict''"
  let ?x = "10 # w @ xml_indent depth @ 60 # 47 # ?t @ [62]"
  have "reads_back strtod imm depth (CFDictionary kvs) (xml_indent depth @ 60 # ?t @ 62 # ?x @ [10])"
  proof (rule reads_back_tag [OF plain_tags(1) other_tags(4)])
    fix m rest
    assume l: "length (?x @ rest) < m"
    let ?r = "w @ xml_indent depth @ 60 # 47 # ?t @ 62 # rest" and ?p = "parse_value strtod imm m"
    have "parse_dict ?p imm m [] (10 # ?r) = parse_dict ?p imm m [] ?r"
      by (rule parse_dict_skip) simp
    also have "\<dots> = Some (Ret (Some (CFDictionary ([] @ kvs), rest)))"
      by (rule entries_backD [OF assms(1)]) (use l assms(2) in simp_all)
    finally show "parse_value strtod imm (Suc m) (60 # ?t @ 62 # ?x @ rest) = Some (Ret (Some (CFDictionary kvs, rest)))"
      using open_tag_plain [OF plain_tags(1), of "10 # ?r"] by simp
  qed
  then show ?thesis by (simp add: cs_def)
qed

subsection \<open>Property lists\<close>

lemma write_reads_back:
  "plist_ok v \<Longrightarrow> \<exists>w. write_value depth v = Ret (Some w) \<and> reads_back strtod imm depth v w"
  "list_all plist_ok vs \<Longrightarrow> \<exists>w. write_items depth vs = Ret (Some w) \<and> items_back strtod imm vs w"
  "list_all (\<lambda>(k, v). key_ok k \<and> plist_ok v) kvs \<Longrightarrow>
     \<exists>w. write_entries depth kvs = Ret (Some w) \<and> entries_back strtod imm kvs w"
proof (induction depth v and depth vs and depth kvs rule: write_value_write_items_write_entries.induct)
  case (1 depth b)
  then show ?case using reads_back_boolean by simp
next
  case (2 depth s)
  then show ?case using reads_back_string by simp
next
  case (4 depth v)
  then show ?case using reads_back_integer [of v] integer_ok_min [of v] by (simp add: write_integer del: write_value.simps)
next
  case (5 depth bs)
  then show ?case using reads_back_data by simp
next
  case (6 depth vs)
  then obtain w where "write_items (depth + 1) vs = Ret (Some w)" "items_back strtod imm vs w" by auto
  with reads_back_array [of strtod imm vs w depth] show ?case by (simp add: wbind_def)
next
  case (7 depth kvs)
  then obtain w where "write_entries (depth + 1) kvs = Ret (Some w)" "entries_back strtod imm kvs w"
    "keys_distinct kvs" by auto
  with reads_back_dict [of strtod imm kvs w depth] show ?case by (simp add: wbind_def)
next
  case (10 depth v vs)
  then obtain w w' where "write_value depth v = Ret (Some w)" "reads_back strtod imm depth v w"
    "write_items depth vs = Ret (Some w')" "items_back strtod imm vs w'" by auto
  with items_back_Cons [of strtod imm depth v w vs w'] show ?case by (simp add: wbind_def)
next
  case (12 depth k v kvs)
  then obtain s where k: "k = CFString s" "is_cstr s" by (auto simp: key_ok_def split: cf.splits)
  with 12 obtain w w' where "write_value depth v = Ret (Some w)" "reads_back strtod imm depth v w"
    "write_entries depth kvs = Ret (Some w')" "entries_back strtod imm kvs w'" by auto
  with entries_back_Cons [of s strtod imm depth v w kvs w'] k show ?case by (simp add: wbind_def)
qed (simp_all add: items_back_Nil entries_back_Nil)

lemma skip_prolog_directive:
  "d = 63 \<or> d = 33 \<Longrightarrow> list_all (\<lambda>c. c \<noteq> 62) u \<Longrightarrow> skip_prolog (60 # d # u @ 62 # s) = skip_prolog s"
proof -
  assume d: "d = 63 \<or> d = 33" and u: "list_all (\<lambda>c. c \<noteq> 62) u"
  then have "skip_directive (60 # d # u @ 62 # s) = s" by (auto simp: skip_directive_def list_all_iff)
  then show ?thesis using d by (subst skip_prolog.simps) simp
qed

lemma skip_prolog_stop: "skipWs s = 60 # c # r \<Longrightarrow> c \<noteq> 63 \<Longrightarrow> c \<noteq> 33 \<Longrightarrow> skip_prolog s = 60 # c # r"
  by (simp add: skip_prolog.simps [of s])

lemma skip_prolog_10: "skip_prolog (10 # s) = skip_prolog s"
  by (simp add: skip_prolog.simps [of "10 # s"] skip_prolog.simps [of s])

lemma prolog_read:
  "open_tag (skipWs (skip_prolog (xml_prolog @ cs ''<plist version=\"1.0\">'' @ s))) = Some (cs ''plist'', s)"
proof -
  let ?a = "cs ''xml version=\"1.0\" encoding=\"UTF-8\"?''"
  let ?b = "cs ''DOCTYPE plist PUBLIC \"-//Apple//DTD PLIST 1.0//EN\" \"http://www.apple.com/DTDs/PropertyList-1.0.dtd\"''"
  let ?c = "cs ''list version=\"1.0\"''"
  have x: "xml_prolog @ cs ''<plist version=\"1.0\">'' @ s =
      60 # 63 # ?a @ 62 # 10 # 60 # 33 # ?b @ 62 # 10 # 60 # 112 # ?c @ 62 # s"
    by (simp add: xml_prolog_def cs_def)
  have "list_all (\<lambda>c. c \<noteq> 62) ?a" "list_all (\<lambda>c. c \<noteq> 62) ?b" by (simp_all add: cs_def)
  then have "skip_prolog (xml_prolog @ cs ''<plist version=\"1.0\">'' @ s) = 60 # 112 # ?c @ 62 # s"
    unfolding x by (simp add: skip_prolog_directive skip_prolog_10 skip_prolog_stop)
  moreover have "open_tag (60 # 112 # ?c @ 62 # s) = Some (cs ''plist'', s)"
    by (simp add: open_tag_def read_tag_name_def tag_char_def c_str_def cs_def)
  ultimately show ?thesis by simp
qed



text \<open>An integer is written when its digits and sign take at most eleven characters; a longer one overruns
  the writer's buffer.\<close>
theorem write_integer_overflow:
  assumes "sint v \<noteq> - (2 ^ 63)"
  shows "CFPropertyListCreateXMLData (CFInteger v) = Fault \<longleftrightarrow> 11 < length (print_int (sint v))"
  using write_integer [OF assms, of 0] by (simp add: CFPropertyListCreateXMLData_def wbind_def integer_ok_def)

theorem write_integer_overflow_witness:
  "CFPropertyListCreateXMLData (CFInteger 100000000000) = Fault \<longleftrightarrow> 11 < length (print_int (sint (100000000000 :: u64)))"
  by (rule write_integer_overflow) simp

text \<open>Every real number is written as the same text.\<close>

lemma reals_written_alike: "CFPropertyListCreateXMLData (CFReal d) = CFPropertyListCreateXMLData (CFReal d')"
  by (simp add: CFPropertyListCreateXMLData_def write_real del: write_value.simps)

text \<open>A tag that closes itself is not understood: the value of \<open><string/>\<close> is looked for behind it.\<close>

lemma self_closing_string:
  "parse_value strtod imm 1 (cs ''<string/><true/>'') = Some (Ret None)"
  by (simp add: open_tag_def read_tag_name_def tag_char_def c_str_def cs_def parse_leaf_def parsed_element_def
      read_element_def read_text_def expect_close_tag_def)

end
