(* ===== verification/XpcConnection.thy ===== *)
theory XpcConnection
  imports XpcValue
begin

text \<open>
  Connections, \<open>userland/libxpc/xpc_connection.c\<close>: calls that wait for a reply, the receive thread that
  routes messages and completes the calls, suspension and cancellation.  Every section under the lock
  and every use of a pending record outside of it is a step, and steps of all threads interleave.
  Connection 0 owns the receive thread; the others are the peers that a listener accepts.  The kernel
  gives the messages and the moment the port fails.  What is freed is never reused.

  While the receive thread runs and peers answer only what they were asked, no freed record is touched
  and every call gets the answer to its own question.  When the thread ends, a waiting call and the
  thread both free the same record, the handler is not told, and later calls wait for ever.
\<close>

section \<open>Connections and pending calls\<close>

record conn_data =
  remote_port :: nat
  is_listener :: bool
  is_peer :: bool
  cancelled :: bool
  suspend_count :: nat
  next_msgid :: nat
  pending :: "nat list"
  peers :: "(nat \<times> nat) list"
  has_handler :: bool

datatype xresult = Payload xval | Connection_invalid

record xpc_pending =
  pd_msgid :: nat
  pd_sync :: bool
  pd_result :: "xresult option"

text \<open>A message: the name of its sender's port and what \<open>xpc_deserialize\<close> makes of its payload.\<close>

record wire_msg =
  wm_port :: nat
  wm_id :: nat
  wm_reply :: bool
  wm_body :: "xval option"

text \<open>Where a call is: about to link its record, about to send, waiting for the semaphore, woken.\<close>

datatype call_pc =
    Call_idle
  | Call_link bool nat nat
  | Call_send bool nat nat
  | Call_wait nat nat
  | Call_take nat nat

datatype recv_pc =
    Receiving
  | Routing nat wire_msg
  | Completing nat nat xresult
  | Delivering nat xresult bool
  | Failing "nat list"
  | Fail_each nat "nat list" "nat list"
  | Fail_free nat nat "nat list" "nat list"
  | Ended

text \<open>What goes to the dispatch queues: the notice of a new peer, an event, the reply to an asynchronous call.\<close>

datatype queued = Accept nat | Event nat xresult | Reply_block nat nat xresult

record xnet =
  conns :: "nat \<Rightarrow> conn_data"
  next_conn :: nat
  pds :: "nat \<Rightarrow> xpc_pending"
  live_pds :: "nat set"
  next_pd :: nat
  signalled :: "nat set"
  caller :: "nat \<Rightarrow> call_pc"
  receiver :: recv_pc
  sent :: "(nat \<times> nat) set"
  answered :: "(nat \<times> nat \<times> xval) set"
  dispatched :: "queued list"
  returned :: "(nat \<times> nat \<times> xresult option) list"
  rights :: "nat \<Rightarrow> nat"
  misuse :: bool

definition set_conn :: "nat \<Rightarrow> (conn_data \<Rightarrow> conn_data) \<Rightarrow> xnet \<Rightarrow> xnet" where
  "set_conn k f s = s\<lparr>conns := (conns s)(k := f (conns s k))\<rparr>"

definition call_goto :: "nat \<Rightarrow> call_pc \<Rightarrow> xnet \<Rightarrow> xnet" where
  "call_goto c p s = s\<lparr>caller := (caller s)(c := p)\<rparr>"

text \<open>A read or write of a pending record, and its release.\<close>

definition touch_pd :: "nat \<Rightarrow> xnet \<Rightarrow> xnet" where
  "touch_pd p s = s\<lparr>misuse := misuse s \<or> p \<notin> live_pds s\<rparr>"

definition free_pd :: "nat \<Rightarrow> xnet \<Rightarrow> xnet" where
  "free_pd p s = s\<lparr>misuse := misuse s \<or> p \<notin> live_pds s, live_pds := live_pds s - {p}\<rparr>"

section \<open>Calls that expect a reply\<close>

text \<open>\<open>xpc_connection_send_message_with_reply\<close> and its synchronous variant: a record with the next number,
  linked, then sent.  A message that does not fit or that the kernel refuses is not sent.\<close>

definition request_begin :: "nat \<Rightarrow> bool \<Rightarrow> nat \<Rightarrow> xnet \<Rightarrow> xnet" where
  "request_begin c sync k s =
     (let p = next_pd s; m = next_msgid (conns s k) + 1 in
      call_goto c (Call_link sync k p)
        (set_conn k (\<lambda>d. d\<lparr>next_msgid := m\<rparr>)
          (s\<lparr>pds := (pds s)(p := \<lparr>pd_msgid = m, pd_sync = sync, pd_result = None\<rparr>),
             live_pds := insert p (live_pds s), next_pd := p + 1\<rparr>)))"

definition request_link :: "nat \<Rightarrow> bool \<Rightarrow> nat \<Rightarrow> nat \<Rightarrow> xnet \<Rightarrow> xnet" where
  "request_link c sync k p s =
     call_goto c (Call_send sync k p) (set_conn k (\<lambda>d. d\<lparr>pending := p # pending d\<rparr>) (touch_pd p s))"

definition request_send :: "nat \<Rightarrow> bool \<Rightarrow> nat \<Rightarrow> nat \<Rightarrow> bool \<Rightarrow> xnet \<Rightarrow> xnet" where
  "request_send c sync k p ok s =
     call_goto c (if sync then Call_wait k p else Call_idle)
       (touch_pd p (s\<lparr>sent := (if ok then insert (k, pd_msgid (pds s p)) (sent s) else sent s)\<rparr>))"

definition request_woken :: "nat \<Rightarrow> nat \<Rightarrow> nat \<Rightarrow> xnet \<Rightarrow> xnet" where
  "request_woken c k p s = call_goto c (Call_take k p) (touch_pd p s)"

definition request_return :: "nat \<Rightarrow> nat \<Rightarrow> nat \<Rightarrow> xnet \<Rightarrow> xnet" where
  "request_return c k p s =
     call_goto c Call_idle
       (free_pd p (s\<lparr>returned := returned s @ [(k, pd_msgid (pds s p), pd_result (pds s p))]\<rparr>))"

text \<open>The number and the reply mark that \<open>xpc_connection_send_message\<close> sends: a dictionary made as the answer to
  a question carries the question's number.\<close>

definition message_header :: "bool \<Rightarrow> nat \<Rightarrow> nat \<times> bool" where
  "message_header is_dict assoc_msgid = (if is_dict \<and> assoc_msgid \<noteq> 0 then (assoc_msgid, True) else (0, False))"

section \<open>The receive thread\<close>

text \<open>The connection a message belongs to.  The kernel has added a reference to the sender's port name.\<close>

definition find_or_create_peer :: "nat \<Rightarrow> xnet \<Rightarrow> nat \<times> xnet" where
  "find_or_create_peer port s =
     (case map_of (peers (conns s 0)) port of
        Some k \<Rightarrow> (k, s\<lparr>rights := (rights s)(port := rights s port - 1)\<rparr>)
      | None \<Rightarrow>
          let k = next_conn s;
              peer = \<lparr>remote_port = port, is_listener = False, is_peer = True, cancelled = False, suspend_count = 0,
                      next_msgid = 0, pending = [], peers = [], has_handler = False\<rparr>
          in (k, (set_conn 0 (\<lambda>d. d\<lparr>peers := (port, k) # peers d\<rparr>)
                   (s\<lparr>conns := (conns s)(k := peer), next_conn := k + 1,
                      dispatched := dispatched s @ (if has_handler (conns s 0) then [Accept k] else [])\<rparr>))))"

definition receive :: "wire_msg \<Rightarrow> xnet \<Rightarrow> xnet" where
  "receive w s =
     (let s1 = s\<lparr>rights := (rights s)(wm_port w := rights s (wm_port w) + 1)\<rparr>;
          (k, s2) = (if is_listener (conns s 0) then find_or_create_peer (wm_port w) s1 else (0, s1))
      in s2\<lparr>receiver := Routing k w\<rparr>)"

definition body_value :: "wire_msg \<Rightarrow> xval" where
  "body_value w = (case wm_body w of None \<Rightarrow> XNull | Some v \<Rightarrow> v)"

text \<open>\<open>complete_pending\<close>: the record with the number is unlinked; then it is signalled, or freed and its block
  dispatched.\<close>

definition unlink_pending :: "nat \<Rightarrow> nat \<Rightarrow> xnet \<Rightarrow> nat option \<times> xnet" where
  "unlink_pending k m s =
     (case find (\<lambda>p. pd_msgid (pds s p) = m) (pending (conns s k)) of
        None \<Rightarrow> (None, s)
      | Some p \<Rightarrow> (Some p, set_conn k (\<lambda>d. d\<lparr>pending := remove1 p (pending d)\<rparr>) s))"

definition route_incoming :: "nat \<Rightarrow> wire_msg \<Rightarrow> xnet \<Rightarrow> xnet" where
  "route_incoming k w s =
     (if wm_reply w
      then case unlink_pending k (wm_id w) s of
          (None, s1) \<Rightarrow> s1\<lparr>receiver := Receiving\<rparr>
        | (Some p, s1) \<Rightarrow>
            s1\<lparr>receiver := Completing k p (Payload (body_value w)),
               answered := insert (k, wm_id w, body_value w) (answered s1)\<rparr>
      else s\<lparr>receiver := Delivering k (Payload (body_value w)) False\<rparr>)"

definition signal_pending :: "nat \<Rightarrow> xresult \<Rightarrow> xnet \<Rightarrow> xnet" where
  "signal_pending p r s =
     touch_pd p (s\<lparr>pds := (pds s)(p := (pds s p)\<lparr>pd_result := Some r\<rparr>), signalled := insert p (signalled s)\<rparr>)"

definition dispatch_reply :: "nat \<Rightarrow> nat \<Rightarrow> xresult \<Rightarrow> xnet \<Rightarrow> xnet" where
  "dispatch_reply k p r s =
     free_pd p (s\<lparr>dispatched := dispatched s @ [Reply_block k (pd_msgid (pds s p)) r]\<rparr>)"

definition complete_pending :: "nat \<Rightarrow> nat \<Rightarrow> xresult \<Rightarrow> xnet \<Rightarrow> xnet" where
  "complete_pending k p r s =
     (if pd_sync (pds s p) then signal_pending p r s else dispatch_reply k p r s)\<lparr>receiver := Receiving\<rparr>"

text \<open>\<open>deliver_event\<close> waits while the connection is suspended; a cancelled connection, or one without a handler,
  drops the event.\<close>

definition may_deliver :: "nat \<Rightarrow> xnet \<Rightarrow> bool" where
  "may_deliver k s \<longleftrightarrow> suspend_count (conns s k) = 0 \<or> cancelled (conns s k)"

definition deliver_event :: "nat \<Rightarrow> xresult \<Rightarrow> bool \<Rightarrow> xnet \<Rightarrow> xnet" where
  "deliver_event k e closing s =
     (let drop = cancelled (conns s k) \<or> \<not> has_handler (conns s k)
      in s\<lparr>dispatched := dispatched s @ (if drop then [] else [Event k e]),
           receiver := (if closing then Ended else Receiving)\<rparr>)"

text \<open>The port is gone: the connection is cancelled, then the calls of it and of its peers are failed.\<close>

definition recv_failed :: "xnet \<Rightarrow> xnet" where
  "recv_failed s =
     (set_conn 0 (\<lambda>d. d\<lparr>cancelled := True\<rparr>) s)\<lparr>receiver := Failing (0 # map snd (peers (conns s 0)))\<rparr>"

fun fail_step :: "xnet \<Rightarrow> xnet" where
  "fail_step s =
     (case receiver s of
        Failing (k # ks) \<Rightarrow>
          (set_conn k (\<lambda>d. d\<lparr>pending := []\<rparr>) s)\<lparr>receiver := Fail_each k (pending (conns s k)) ks\<rparr>
      | Failing [] \<Rightarrow>
          s\<lparr>receiver := (if has_handler (conns s 0) then Delivering 0 Connection_invalid True else Ended)\<rparr>
      | Fail_each k [] ks \<Rightarrow> s\<lparr>receiver := Failing ks\<rparr>
      | Fail_each k (p # ps) ks \<Rightarrow>
          if pd_sync (pds s p) then (signal_pending p Connection_invalid s)\<lparr>receiver := Fail_free k p ps ks\<rparr>
          else (dispatch_reply k p Connection_invalid s)\<lparr>receiver := Fail_each k ps ks\<rparr>
      | Fail_free k p ps ks \<Rightarrow> (free_pd p s)\<lparr>receiver := Fail_each k ps ks\<rparr>
      | _ \<Rightarrow> s)"

section \<open>The other operations\<close>

definition xpc_connection_suspend :: "nat \<Rightarrow> xnet \<Rightarrow> xnet" where
  "xpc_connection_suspend k = set_conn k (\<lambda>d. d\<lparr>suspend_count := suspend_count d + 1\<rparr>)"

definition xpc_connection_resume :: "nat \<Rightarrow> xnet \<Rightarrow> xnet" where
  "xpc_connection_resume k =
     set_conn k (\<lambda>d. d\<lparr>suspend_count := (if 0 < suspend_count d then suspend_count d - 1 else suspend_count d)\<rparr>)"

definition xpc_connection_cancel :: "nat \<Rightarrow> xnet \<Rightarrow> xnet" where
  "xpc_connection_cancel k = set_conn k (\<lambda>d. d\<lparr>cancelled := True\<rparr>)"

definition xpc_connection_set_event_handler :: "nat \<Rightarrow> xnet \<Rightarrow> xnet" where
  "xpc_connection_set_event_handler k = set_conn k (\<lambda>d. d\<lparr>has_handler := True\<rparr>)"

text \<open>The steps.  With \<open>honest\<close> peers a reply answers a message that was sent to them.\<close>

inductive xpc_step :: "bool \<Rightarrow> xnet \<Rightarrow> xnet \<Rightarrow> bool" for honest where
  begins: "caller s c = Call_idle \<Longrightarrow> k < next_conn s \<Longrightarrow> xpc_step honest s (request_begin c sync k s)"
| links: "caller s c = Call_link sync k p \<Longrightarrow> xpc_step honest s (request_link c sync k p s)"
| sends: "caller s c = Call_send sync k p \<Longrightarrow> xpc_step honest s (request_send c sync k p ok s)"
| woken: "caller s c = Call_wait k p \<Longrightarrow> p \<in> signalled s \<Longrightarrow> xpc_step honest s (request_woken c k p s)"
| returns: "caller s c = Call_take k p \<Longrightarrow> xpc_step honest s (request_return c k p s)"
| receives: "receiver s = Receiving \<Longrightarrow> xpc_step honest s (receive w s)"
| routes: "receiver s = Routing k w \<Longrightarrow> (honest \<and> wm_reply w \<longrightarrow> (k, wm_id w) \<in> sent s) \<Longrightarrow>
    xpc_step honest s (route_incoming k w s)"
| completes: "receiver s = Completing k p r \<Longrightarrow> xpc_step honest s (complete_pending k p r s)"
| delivers: "receiver s = Delivering k e closing \<Longrightarrow> may_deliver k s \<Longrightarrow>
    xpc_step honest s (deliver_event k e closing s)"
| fails: "receiver s = Receiving \<Longrightarrow> xpc_step honest s (recv_failed s)"
| fail_goes_on: "receiver s = Failing ks \<or> receiver s = Fail_each k ps ks \<or> receiver s = Fail_free k p ps ks \<Longrightarrow>
    xpc_step honest s (fail_step s)"
| suspends: "xpc_step honest s (xpc_connection_suspend k s)"
| resumes: "xpc_step honest s (xpc_connection_resume k s)"
| cancels: "xpc_step honest s (xpc_connection_cancel k s)"
| handles: "xpc_step honest s (xpc_connection_set_event_handler k s)"

definition xpc_init :: "bool \<Rightarrow> xnet" where
  "xpc_init listener =
     \<lparr>conns = (\<lambda>_. \<lparr>remote_port = 0, is_listener = listener, is_peer = False, cancelled = False, suspend_count = 0,
                    next_msgid = 0, pending = [], peers = [], has_handler = False\<rparr>),
      next_conn = 1, pds = (\<lambda>_. \<lparr>pd_msgid = 0, pd_sync = False, pd_result = None\<rparr>), live_pds = {}, next_pd = 0,
      signalled = {}, caller = (\<lambda>_. Call_idle), receiver = Receiving, sent = {}, answered = {}, dispatched = [],
      returned = [], rights = (\<lambda>_. 0), misuse = False\<rparr>"

inductive xpc_reach :: "bool \<Rightarrow> bool \<Rightarrow> xnet \<Rightarrow> bool" for honest listener where
  start: "xpc_reach honest listener (xpc_init listener)"
| more: "xpc_reach honest listener s \<Longrightarrow> xpc_step honest s s' \<Longrightarrow> xpc_reach honest listener s'"

section \<open>While the receive thread runs\<close>

fun running_pc :: "recv_pc \<Rightarrow> bool" where
  "running_pc Receiving = True"
| "running_pc (Routing _ _) = True"
| "running_pc (Completing _ _ _) = True"
| "running_pc (Delivering _ _ closing) = (\<not> closing)"
| "running_pc _ = False"

fun pd_of :: "call_pc \<Rightarrow> nat option" where
  "pd_of Call_idle = None"
| "pd_of (Call_link _ _ p) = Some p"
| "pd_of (Call_send _ _ p) = Some p"
| "pd_of (Call_wait _ p) = Some p"
| "pd_of (Call_take _ p) = Some p"

definition answer_there :: "xnet \<Rightarrow> nat \<Rightarrow> nat \<Rightarrow> bool" where
  "answer_there s k p \<longleftrightarrow> (\<exists>v. pd_result (pds s p) = Some (Payload v) \<and> (k, pd_msgid (pds s p), v) \<in> answered s)"

definition unsent :: "xnet \<Rightarrow> nat \<Rightarrow> nat \<Rightarrow> bool" where
  "unsent s k p \<longleftrightarrow> pd_msgid (pds s p) \<le> next_msgid (conns s k) \<and> (k, pd_msgid (pds s p)) \<notin> sent s"

fun call_ok :: "xnet \<Rightarrow> call_pc \<Rightarrow> bool" where
  "call_ok s Call_idle \<longleftrightarrow> True"
| "call_ok s (Call_link sync k p) \<longleftrightarrow>
     k < next_conn s \<and> p \<in> live_pds s \<and> p \<notin> signalled s \<and> pd_sync (pds s p) = sync \<and> unsent s k p"
| "call_ok s (Call_send sync k p) \<longleftrightarrow>
     k < next_conn s \<and> p \<in> live_pds s \<and> p \<in> set (pending (conns s k)) \<and> pd_sync (pds s p) = sync \<and> unsent s k p"
| "call_ok s (Call_wait k p) \<longleftrightarrow>
     k < next_conn s \<and> p \<in> live_pds s \<and> pd_sync (pds s p) \<and> (p \<in> signalled s \<longrightarrow> answer_there s k p)"
| "call_ok s (Call_take k p) \<longleftrightarrow>
     k < next_conn s \<and> p \<in> live_pds s \<and> pd_sync (pds s p) \<and> p \<in> signalled s \<and> answer_there s k p"

text \<open>What holds of one record: one call at most has it; linked or being completed, it is waited for.\<close>

definition rec_ok :: "xnet \<Rightarrow> nat \<Rightarrow> bool" where
  "rec_ok s p \<longleftrightarrow>
     (\<forall>c. pd_of (caller s c) = Some p \<longrightarrow> call_ok s (caller s c)) \<and>
     (\<forall>c d. pd_of (caller s c) = Some p \<longrightarrow> pd_of (caller s d) = Some p \<longrightarrow> c = d) \<and>
     (\<forall>k. p \<in> set (pending (conns s k)) \<longrightarrow>
        p \<in> live_pds s \<and> p \<notin> signalled s \<and> k < next_conn s \<and> (\<forall>j. p \<in> set (pending (conns s j)) \<longrightarrow> j = k) \<and>
        (\<forall>c. pd_of (caller s c) = Some p \<longrightarrow> caller s c = Call_wait k p \<or> (\<exists>sync. caller s c = Call_send sync k p))) \<and>
     (\<forall>k r. receiver s = Completing k p r \<longrightarrow>
        p \<in> live_pds s \<and> p \<notin> signalled s \<and> (\<forall>j. p \<notin> set (pending (conns s j))) \<and>
        (\<exists>v. r = Payload v \<and> (k, pd_msgid (pds s p), v) \<in> answered s) \<and>
        (\<forall>c. pd_of (caller s c) = Some p \<longrightarrow> caller s c = Call_wait k p)) \<and>
     (p \<in> live_pds s \<union> signalled s \<longrightarrow> p < next_pd s)"

text \<open>A step that leaves a record alone.\<close>

definition leaves :: "xnet \<Rightarrow> xnet \<Rightarrow> nat \<Rightarrow> bool" where
  "leaves s s' p \<longleftrightarrow>
     (\<forall>c. pd_of (caller s' c) = Some p \<longrightarrow> caller s' c = caller s c) \<and>
     (\<forall>k. p \<in> set (pending (conns s' k)) \<longleftrightarrow> p \<in> set (pending (conns s k))) \<and>
     pds s' p = pds s p \<and> (p \<in> live_pds s' \<longleftrightarrow> p \<in> live_pds s) \<and> (p \<in> signalled s' \<longleftrightarrow> p \<in> signalled s) \<and>
     (\<forall>k r. receiver s' = Completing k p r \<longrightarrow> receiver s = Completing k p r) \<and>
     (\<forall>c sync k. caller s c = Call_link sync k p \<or> caller s c = Call_send sync k p \<longrightarrow> unsent s k p \<longrightarrow> unsent s' k p) \<and>
     next_conn s \<le> next_conn s' \<and> next_pd s \<le> next_pd s' \<and> answered s \<subseteq> answered s'"

lemma call_ok_leaves:
  assumes l: "leaves s s' p" and c: "caller s c = pc" "pd_of pc = Some p" "call_ok s pc"
  shows "call_ok s' pc"
proof -
  have g: "pds s' p = pds s p" "p \<in> live_pds s' \<longleftrightarrow> p \<in> live_pds s" "p \<in> signalled s' \<longleftrightarrow> p \<in> signalled s"
    "\<And>k. p \<in> set (pending (conns s' k)) \<longleftrightarrow> p \<in> set (pending (conns s k))" "next_conn s \<le> next_conn s'"
    using l by (simp_all add: leaves_def)
  have a: "answer_there s k p \<Longrightarrow> answer_there s' k p" for k
    using l by (auto simp: leaves_def answer_there_def)
  have u: "pc = Call_link sync k p \<or> pc = Call_send sync k p \<Longrightarrow> unsent s k p \<Longrightarrow> unsent s' k p" for sync k
    using l c(1) unfolding leaves_def by blast
  show ?thesis
    using c(2, 3) g a u by (cases pc) auto
qed

lemma rec_ok_leaves:
  assumes l: "leaves s s' p" and r: "rec_ok s p"
  shows "rec_ok s' p"
proof -
  have c: "\<And>c. pd_of (caller s' c) = Some p \<Longrightarrow> caller s' c = caller s c" using l by (simp add: leaves_def)
  have g: "pds s' p = pds s p" "p \<in> live_pds s' \<longleftrightarrow> p \<in> live_pds s" "p \<in> signalled s' \<longleftrightarrow> p \<in> signalled s"
    "\<And>k. p \<in> set (pending (conns s' k)) \<longleftrightarrow> p \<in> set (pending (conns s k))" "next_conn s \<le> next_conn s'"
    "next_pd s \<le> next_pd s'" "answered s \<subseteq> answered s'"
    "\<And>k r. receiver s' = Completing k p r \<Longrightarrow> receiver s = Completing k p r"
    using l by (simp_all add: leaves_def)
  have 1: "call_ok s' (caller s' d)" if "pd_of (caller s' d) = Some p" for d
    using call_ok_leaves [OF l, of d "caller s d"] r that c [OF that] by (simp add: rec_ok_def)
  have 2: "d = e" if "pd_of (caller s' d) = Some p" "pd_of (caller s' e) = Some p" for d e
    using r that c [OF that(1)] c [OF that(2)] unfolding rec_ok_def by metis
  have 3: "p \<in> live_pds s' \<and> p \<notin> signalled s' \<and> k < next_conn s' \<and> (\<forall>j. p \<in> set (pending (conns s' j)) \<longrightarrow> j = k)"
    if "p \<in> set (pending (conns s' k))" for k
    using r that g unfolding rec_ok_def by (metis order_less_le_trans)
  have 4: "caller s' d = Call_wait k p \<or> (\<exists>sync. caller s' d = Call_send sync k p)"
    if "p \<in> set (pending (conns s' k))" "pd_of (caller s' d) = Some p" for k d
    using r that(1) that(2) c [OF that(2)] g(4) unfolding rec_ok_def by metis
  have 5: "p \<in> live_pds s' \<and> p \<notin> signalled s' \<and> (\<forall>j. p \<notin> set (pending (conns s' j))) \<and>
        (\<exists>v. r' = Payload v \<and> (k, pd_msgid (pds s' p), v) \<in> answered s')" if "receiver s' = Completing k p r'" for k r'
    unfolding g(1-4) using r g(8) [OF that] g(7) unfolding rec_ok_def by blast
  have 6: "caller s' d = Call_wait k p" if "receiver s' = Completing k p r'" "pd_of (caller s' d) = Some p" for k r' d
    using r g(8) [OF that(1)] that(2) c [OF that(2)] unfolding rec_ok_def by metis
  have 7: "p \<in> live_pds s' \<union> signalled s' \<Longrightarrow> p < next_pd s'"
    using r g(2, 3, 6) unfolding rec_ok_def by auto
  show ?thesis
    unfolding rec_ok_def using 1 2 3 4 5 6 7 by blast
qed

fun awaits_number :: "xnet \<Rightarrow> nat \<Rightarrow> nat \<Rightarrow> call_pc \<Rightarrow> bool" where
  "awaits_number s k m (Call_link _ j p) \<longleftrightarrow> j = k \<and> pd_msgid (pds s p) = m"
| "awaits_number s k m (Call_send _ j p) \<longleftrightarrow> j = k \<and> pd_msgid (pds s p) = m"
| "awaits_number s k m _ \<longleftrightarrow> False"

definition numbers_ok :: "xnet \<Rightarrow> bool" where
  "numbers_ok s \<longleftrightarrow>
     0 < next_conn s \<and> (\<forall>(k, m)\<in>sent s. k < next_conn s \<and> m \<le> next_msgid (conns s k)) \<and>
     (\<forall>c d k m. awaits_number s k m (caller s c) \<longrightarrow> awaits_number s k m (caller s d) \<longrightarrow> c = d)"

definition answers_ok :: "xnet \<Rightarrow> bool" where
  "answers_ok s \<longleftrightarrow>
     (\<forall>(k, m, r)\<in>set (returned s). \<exists>v. r = Some (Payload v) \<and> (k, m, v) \<in> answered s) \<and>
     (\<forall>k m r. Reply_block k m r \<in> set (dispatched s) \<longrightarrow> (\<exists>v. r = Payload v \<and> (k, m, v) \<in> answered s))"

definition xinv :: "xnet \<Rightarrow> bool" where
  "xinv s \<longleftrightarrow>
     \<not> misuse s \<and> (\<forall>k. distinct (pending (conns s k))) \<and> (\<forall>p. rec_ok s p) \<and> numbers_ok s \<and> answers_ok s"

lemma xinv_init: "xinv (xpc_init listener)"
  by (simp add: xinv_def xpc_init_def rec_ok_def numbers_ok_def answers_ok_def)

lemmas net_defs = set_conn_def call_goto_def touch_pd_def free_pd_def

lemma xinv_rec: "xinv s \<Longrightarrow> rec_ok s p"
  by (simp add: xinv_def)

lemma xinv_call:
  assumes "xinv s" "caller s c = pc" "pd_of pc = Some p"
  shows "call_ok s pc" "p \<in> live_pds s" "p < next_pd s" "\<And>d. pd_of (caller s d) = Some p \<Longrightarrow> d = c"
proof -
  have r: "rec_ok s p" using assms(1) by (rule xinv_rec)
  then show k: "call_ok s pc" using assms(2, 3) unfolding rec_ok_def by blast
  then show "p \<in> live_pds s" using assms(3) by (cases pc) auto
  then show "p < next_pd s" using r unfolding rec_ok_def by blast
  show "d = c" if "pd_of (caller s d) = Some p" for d
    using r that assms(2, 3) unfolding rec_ok_def by blast
qed

lemma xinv_pending:
  assumes "xinv s" "p \<in> set (pending (conns s k))"
  shows "p \<in> live_pds s" "p \<notin> signalled s" "k < next_conn s" "\<And>j. p \<in> set (pending (conns s j)) \<Longrightarrow> j = k"
    "\<And>c. pd_of (caller s c) = Some p \<Longrightarrow> caller s c = Call_wait k p \<or> (\<exists>sync. caller s c = Call_send sync k p)"
  using xinv_rec [OF assms(1), of p] assms(2) unfolding rec_ok_def by blast+

lemma xinv_completing:
  assumes "xinv s" "receiver s = Completing k p r"
  shows "p \<in> live_pds s" "p \<notin> signalled s" "p \<notin> set (pending (conns s j))"
    "\<exists>v. r = Payload v \<and> (k, pd_msgid (pds s p), v) \<in> answered s"
    "\<And>c. pd_of (caller s c) = Some p \<Longrightarrow> caller s c = Call_wait k p"
  using xinv_rec [OF assms(1), of p] assms(2) unfolding rec_ok_def by blast+

lemma rec_ok_no_receiver:
  assumes "\<And>c. pd_of (caller s c) = Some p \<Longrightarrow> call_ok s (caller s c) \<and> c = c0"
    and "\<And>k. p \<in> set (pending (conns s k)) \<Longrightarrow> p \<in> live_pds s \<and> p \<notin> signalled s \<and> k < next_conn s \<and> k = k0"
    and "\<And>c. pd_of (caller s c) = Some p \<Longrightarrow> caller s c = Call_wait k0 p \<or> (\<exists>sync. caller s c = Call_send sync k0 p)"
    and "\<And>k r. receiver s \<noteq> Completing k p r" "p < next_pd s"
  shows "rec_ok s p"
  unfolding rec_ok_def using assms by blast

lemma xinv_intro:
  assumes i: "xinv s" and m: "\<not> misuse s'" "\<And>k. distinct (pending (conns s' k))"
    and o: "\<And>p. p \<noteq> q \<Longrightarrow> leaves s s' p" and q: "rec_ok s' q" and n: "numbers_ok s'" "answers_ok s'"
  shows "xinv s'"
proof -
  have "rec_ok s' p" for p
    using q rec_ok_leaves [OF o xinv_rec [OF i]] by (cases "p = q") auto
  then show ?thesis using m n by (simp add: xinv_def)
qed

lemma xinv_same:
  assumes i: "xinv s" and m: "misuse s' = misuse s" and c: "caller s' = caller s" "pds s' = pds s" "live_pds s' = live_pds s"
      "signalled s' = signalled s" "next_pd s' = next_pd s" "sent s' = sent s" "answered s' = answered s" "returned s' = returned s"
    and k: "\<And>k. pending (conns s' k) = pending (conns s k)" "next_conn s \<le> next_conn s'"
      "\<And>k. k < next_conn s \<Longrightarrow> next_msgid (conns s' k) = next_msgid (conns s k)"
    and r: "\<And>k p r. receiver s' \<noteq> Completing k p r" "\<And>k m r. Reply_block k m r \<in> set (dispatched s') \<Longrightarrow> Reply_block k m r \<in> set (dispatched s)"
  shows "xinv s'"
proof (rule xinv_intro [OF i, where q = 0])
  have l: "leaves s s' p" for p
  proof -
    have "unsent s' j p" if "caller s e = Call_link sync j p \<or> caller s e = Call_send sync j p" "unsent s j p" for e sync j
    proof -
      have "j < next_conn s" using xinv_call(1) [OF i, of e "caller s e" p] that(1) by auto
      then show ?thesis using that(2) k(3) c by (simp add: unsent_def)
    qed
    then show ?thesis using c k r(1) by (auto simp: leaves_def)
  qed
  show "leaves s s' p" if "p \<noteq> 0" for p by (rule l)
  show "rec_ok s' 0" by (rule rec_ok_leaves [OF l xinv_rec [OF i]])
  show "\<not> misuse s'" "distinct (pending (conns s' k))" for k using i m k by (simp_all add: xinv_def)
  have aw: "awaits_number s' j n pc = awaits_number s j n pc" for j n pc using c by (cases pc) auto
  have "numbers_ok s" using i by (simp add: xinv_def)
  then have n: "0 < next_conn s" "\<And>j m. (j, m) \<in> sent s \<Longrightarrow> j < next_conn s \<and> m \<le> next_msgid (conns s j)"
    "\<And>e d j m. awaits_number s j m (caller s e) \<Longrightarrow> awaits_number s j m (caller s d) \<Longrightarrow> e = d"
    by (auto simp: numbers_ok_def)
  show "numbers_ok s'"
    unfolding numbers_ok_def c aw using n k(2, 3) by fastforce
  have "answers_ok s" using i by (simp add: xinv_def)
  then show "answers_ok s'" using r(2) unfolding answers_ok_def c by blast
qed

lemma numbers_okI:
  "0 < next_conn s \<Longrightarrow> (\<And>k m. (k, m) \<in> sent s \<Longrightarrow> k < next_conn s \<and> m \<le> next_msgid (conns s k)) \<Longrightarrow>
     (\<And>c d k m. awaits_number s k m (caller s c) \<Longrightarrow> awaits_number s k m (caller s d) \<Longrightarrow> c = d) \<Longrightarrow> numbers_ok s"
  by (auto simp: numbers_ok_def)

lemma numbers_same:
  assumes "numbers_ok s" "sent s' = sent s" "next_conn s' = next_conn s"
    "\<And>k. next_msgid (conns s k) \<le> next_msgid (conns s' k)"
    "\<And>c k m. awaits_number s' k m (caller s' c) \<Longrightarrow> awaits_number s k m (caller s c)"
  shows "numbers_ok s'"
proof -
  have n: "0 < next_conn s" "\<And>j m. (j, m) \<in> sent s \<Longrightarrow> j < next_conn s \<and> m \<le> next_msgid (conns s j)"
    "\<And>e d j m. awaits_number s j m (caller s e) \<Longrightarrow> awaits_number s j m (caller s d) \<Longrightarrow> e = d"
    using assms(1) by (auto simp: numbers_ok_def)
  have "m \<le> next_msgid (conns s' j)" if "(j, m) \<in> sent s" for j m
    using n(2) [OF that] assms(4) [of j] by linarith
  then show ?thesis unfolding numbers_ok_def assms(2, 3) using n assms(5) by blast
qed

lemma awaits_call:
  "xinv s \<Longrightarrow> awaits_number s k m (caller s c) \<Longrightarrow> m \<le> next_msgid (conns s k) \<and> (\<exists>p. pd_of (caller s c) = Some p)"
  using xinv_call(1) [of s c "caller s c"] by (cases "caller s c") (auto simp: unsent_def)

lemma xinv_begin:
  assumes i: "xinv s" and c: "caller s c = Call_idle" "k < next_conn s"
  shows "xinv (request_begin c sync k s)"
proof (rule xinv_intro [OF i, where q = "next_pd s"])
  let ?s = "request_begin c sync k s" and ?q = "next_pd s"
  note d = request_begin_def Let_def net_defs
  have r: "rec_ok s ?q" using i by (rule xinv_rec)
  then have fresh: "?q \<notin> live_pds s" "?q \<notin> signalled s" unfolding rec_ok_def by auto
  then have np: "?q \<notin> set (pending (conns s j))" for j using r unfolding rec_ok_def by blast
  have nc: "receiver s \<noteq> Completing j ?q r'" for j r' using r fresh unfolding rec_ok_def by blast
  have nh: "pd_of (caller s e) \<noteq> Some ?q" for e using xinv_call(3) [OF i] by blast
  have nx: "numbers_ok s" using i by (simp add: xinv_def)
  show "\<not> misuse ?s" "\<And>k. distinct (pending (conns ?s k))" using i by (simp_all add: d xinv_def)
  show "leaves s ?s p" if "p \<noteq> ?q" for p
    using that by (simp add: leaves_def d unsent_def)
  show "rec_ok ?s ?q"
    unfolding rec_ok_def using c np nc nh fresh nx
    by (auto simp: d unsent_def numbers_ok_def)
  show "answers_ok ?s" using i by (simp add: xinv_def answers_ok_def d)
  have o: "awaits_number ?s j m (caller s e) = awaits_number s j m (caller s e)" for e j m
    using nh [of e] by (cases "caller s e") (auto simp: d)
  have a: "awaits_number ?s j m (caller ?s e) \<longleftrightarrow>
      (if e = c then j = k \<and> m = next_msgid (conns s k) + 1 else awaits_number s j m (caller s e))" for e j m
    using o [of j m e] by (auto simp: d)
  have new: "\<not> awaits_number s k (next_msgid (conns s k) + 1) (caller s e)" for e
    using awaits_call [OF i, of k "next_msgid (conns s k) + 1" e] by auto
  have n: "0 < next_conn s" "\<And>j m. (j, m) \<in> sent s \<Longrightarrow> j < next_conn s \<and> m \<le> next_msgid (conns s j)"
    "\<And>e d j m. awaits_number s j m (caller s e) \<Longrightarrow> awaits_number s j m (caller s d) \<Longrightarrow> e = d"
    using nx by (auto simp: numbers_ok_def)
  have "e = e'" if "awaits_number ?s j m (caller ?s e)" "awaits_number ?s j m (caller ?s e')" for e e' j m
    using that n(3) [of j m e e'] new [of e] new [of e'] unfolding a by (cases "e = c"; cases "e' = c") auto
  moreover have "j < next_conn ?s \<and> m \<le> next_msgid (conns ?s j)" if "(j, m) \<in> sent ?s" for j m
    using n(2) [of j m] that by (auto simp: d)
  moreover have "0 < next_conn ?s" using n(1) by (simp add: d)
  ultimately show "numbers_ok ?s" unfolding numbers_ok_def by blast
qed

lemma xinv_link:
  assumes i: "xinv s" and c: "caller s c = Call_link sync k q"
  shows "xinv (request_link c sync k q s)"
proof (rule xinv_intro [OF i, where q = q])
  let ?s = "request_link c sync k q s"
  note d = request_link_def net_defs
  have r: "rec_ok s q" using i by (rule xinv_rec)
  note cq = xinv_call [OF i c, of q, simplified]
  have np: "q \<notin> set (pending (conns s j))" for j using xinv_pending(5) [OF i, of q j c] c by auto
  have nc: "receiver s \<noteq> Completing j q r'" for j r' using xinv_completing(5) [OF i, of j q r' c] c by auto
  show "\<not> misuse ?s" using i cq by (simp add: d xinv_def)
  show "distinct (pending (conns ?s j))" for j using i np by (simp add: d xinv_def)
  show "leaves s ?s p" if "p \<noteq> q" for p
    using that by (auto simp: leaves_def d unsent_def)
  show "rec_ok ?s q"
    unfolding rec_ok_def using c np nc cq by (auto simp: d unsent_def)
  show "answers_ok ?s" using i by (simp add: xinv_def answers_ok_def d)
  have "numbers_ok s" using i by (simp add: xinv_def)
  then show "numbers_ok ?s"
  proof (rule numbers_same)
    show "awaits_number s j m (caller s e)" if "awaits_number ?s j m (caller ?s e)" for e j m
      using that c by (cases "e = c"; cases "caller s e") (auto simp: d)
  qed (simp_all add: d)
qed

lemma xinv_send:
  assumes i: "xinv s" and c: "caller s c = Call_send sync k q"
  shows "xinv (request_send c sync k q ok s)"
proof (rule xinv_intro [OF i, where q = q])
  let ?s = "request_send c sync k q ok s"
  note d = request_send_def net_defs
  note cq = xinv_call [OF i c, of q, simplified]
  then have pq: "q \<in> set (pending (conns s k))" by simp
  note xp = xinv_pending [OF i pq]
  have nc: "receiver s \<noteq> Completing j q r'" for j r' using xinv_completing(3) [OF i, of j q r' k] pq by auto
  have nx: "numbers_ok s" using i by (simp add: xinv_def)
  then have n: "0 < next_conn s" "\<And>j m. (j, m) \<in> sent s \<Longrightarrow> j < next_conn s \<and> m \<le> next_msgid (conns s j)"
    "\<And>e d j m. awaits_number s j m (caller s e) \<Longrightarrow> awaits_number s j m (caller s d) \<Longrightarrow> e = d"
    by (auto simp: numbers_ok_def)
  show "\<not> misuse ?s" using i cq by (simp add: d xinv_def)
  show "distinct (pending (conns ?s j))" for j using i by (simp add: d xinv_def)
  show "leaves s ?s p" if p: "p \<noteq> q" for p
  proof -
    have "unsent ?s j p" if h: "caller s e = Call_link sy j p \<or> caller s e = Call_send sy j p" "unsent s j p" for e sy j
    proof -
      have "awaits_number s j (pd_msgid (pds s p)) (caller s e)" using h(1) by auto
      moreover have "awaits_number s k (pd_msgid (pds s q)) (caller s c)" using c by simp
      moreover have "e \<noteq> c" using h(1) c p by auto
      ultimately have "j \<noteq> k \<or> pd_msgid (pds s p) \<noteq> pd_msgid (pds s q)"
        using n(3) [of j "pd_msgid (pds s p)" e c] by auto
      then show ?thesis using h(2) by (auto simp: d unsent_def)
    qed
    moreover have "caller ?s e = caller s e" if "pd_of (caller ?s e) = Some p" for e
      using that p by (cases "e = c") (auto simp: d split: if_splits)
    ultimately show ?thesis unfolding leaves_def by (simp add: d)
  qed
  have h: "caller ?s e = Call_wait k q \<and> call_ok ?s (Call_wait k q) \<and> e = c" if "pd_of (caller ?s e) = Some q" for e
  proof -
    have "e = c" using cq(4) [of e] that by (auto simp: d split: if_splits)
    moreover from this have "caller ?s e = Call_wait k q" "sync" using that by (auto simp: d split: if_splits)
    ultimately show ?thesis using cq(1) xp(2) by (simp add: d)
  qed
  have f: "conns ?s = conns s" "receiver ?s = receiver s" "live_pds ?s = live_pds s" "signalled ?s = signalled s"
    "next_conn ?s = next_conn s" "next_pd ?s = next_pd s"
    by (simp_all add: d)
  show "rec_ok ?s q"
  proof (rule rec_ok_no_receiver)
    show "call_ok ?s (caller ?s e) \<and> e = c" if "pd_of (caller ?s e) = Some q" for e
      using h [OF that] by (metis)
    show "caller ?s e = Call_wait k q \<or> (\<exists>sync. caller ?s e = Call_send sync k q)" if "pd_of (caller ?s e) = Some q" for e
      using h [OF that] by blast
  qed (use f xp nc cq in \<open>auto simp del: call_ok.simps\<close>)
  show "answers_ok ?s" using i by (simp add: xinv_def answers_ok_def d)
  show "numbers_ok ?s"
  proof (rule numbers_okI)
    have a: "awaits_number s j m (caller s e)" if "awaits_number ?s j m (caller ?s e)" for e j m
      using that by (cases "e = c"; cases "caller s e") (auto simp: d split: if_splits)
    show "e = e'" if "awaits_number ?s j m (caller ?s e)" "awaits_number ?s j m (caller ?s e')" for e e' j m
      using a [OF that(1)] a [OF that(2)] by (rule n(3))
    show "j < next_conn ?s \<and> m \<le> next_msgid (conns ?s j)" if "(j, m) \<in> sent ?s" for j m
    proof -
      have "(j, m) \<in> sent s \<or> j = k \<and> m = pd_msgid (pds s q)"
        using that by (auto simp: d split: if_splits)
      moreover have "next_conn ?s = next_conn s" "next_msgid (conns ?s j) = next_msgid (conns s j)" by (simp_all add: d)
      ultimately show ?thesis using n(2) [of j m] cq(1) by (auto simp: unsent_def)
    qed
  qed (use n(1) in \<open>simp add: d\<close>)
qed

lemma xinv_woken:
  assumes i: "xinv s" and c: "caller s c = Call_wait k q" "q \<in> signalled s"
  shows "xinv (request_woken c k q s)"
proof (rule xinv_intro [OF i, where q = q])
  let ?s = "request_woken c k q s"
  note d = request_woken_def net_defs
  note cq = xinv_call [OF i c(1), of q, simplified]
  have np: "q \<notin> set (pending (conns s j))" for j using xinv_pending(2) [OF i] c(2) by blast
  have nc: "receiver s \<noteq> Completing j q r'" for j r' using xinv_completing(2) [OF i] c(2) by blast
  show "\<not> misuse ?s" using i cq by (simp add: d xinv_def)
  show "distinct (pending (conns ?s j))" for j using i by (simp add: d xinv_def)
  show "leaves s ?s p" if "p \<noteq> q" for p
    using that by (auto simp: leaves_def d unsent_def)
  show "rec_ok ?s q"
    unfolding rec_ok_def using c np nc cq by (auto simp: d answer_there_def)
  show "answers_ok ?s" using i by (simp add: xinv_def answers_ok_def d)
  have "numbers_ok s" using i by (simp add: xinv_def)
  then show "numbers_ok ?s"
  proof (rule numbers_same)
    show "awaits_number s j m (caller s e)" if "awaits_number ?s j m (caller ?s e)" for e j m
      using that c by (cases "e = c"; cases "caller s e") (auto simp: d)
  qed (simp_all add: d)
qed

lemma xinv_return:
  assumes i: "xinv s" and c: "caller s c = Call_take k q"
  shows "xinv (request_return c k q s)"
proof (rule xinv_intro [OF i, where q = q])
  let ?s = "request_return c k q s"
  note d = request_return_def net_defs
  note cq = xinv_call [OF i c, of q, simplified]
  then have sg: "q \<in> signalled s" "answer_there s k q" by simp_all
  have np: "q \<notin> set (pending (conns s j))" for j using xinv_pending(2) [OF i] sg by blast
  have nc: "receiver s \<noteq> Completing j q r'" for j r' using xinv_completing(2) [OF i] sg by blast
  show "\<not> misuse ?s" using i cq by (simp add: d xinv_def)
  show "distinct (pending (conns ?s j))" for j using i by (simp add: d xinv_def)
  show "leaves s ?s p" if "p \<noteq> q" for p
    using that by (auto simp: leaves_def d unsent_def)
  show "rec_ok ?s q"
    unfolding rec_ok_def using c np nc cq by (auto simp: d)
  have "answers_ok s" using i by (simp add: xinv_def)
  then show "answers_ok ?s" using sg(2) by (auto simp: answers_ok_def answer_there_def d)
  have "numbers_ok s" using i by (simp add: xinv_def)
  then show "numbers_ok ?s"
  proof (rule numbers_same)
    show "awaits_number s j m (caller s e)" if "awaits_number ?s j m (caller ?s e)" for e j m
      using that c by (cases "e = c"; cases "caller s e") (auto simp: d)
  qed (simp_all add: d)
qed

lemma xinv_peer:
  assumes i: "xinv s" and n: "\<And>j p r. receiver s \<noteq> Completing j p r"
  shows "xinv (receive w s)"
proof (rule xinv_same [OF i])
  have e: "pending (conns s (next_conn s)) = []"
    using xinv_pending(3) [OF i, of _ "next_conn s"] by (cases "pending (conns s (next_conn s))") auto
  have z: "next_conn s \<noteq> 0" using i by (simp add: xinv_def numbers_ok_def)
  note d = receive_def find_or_create_peer_def Let_def set_conn_def
  show "pending (conns (receive w s) k) = pending (conns s k)" for k
    using e z by (auto simp: d split: option.split)
  show "next_msgid (conns (receive w s) k) = next_msgid (conns s k)" if "k < next_conn s" for k
    using that by (auto simp: d split: option.split)
  show "Reply_block k m r \<in> set (dispatched s)" if "Reply_block k m r \<in> set (dispatched (receive w s))" for k m r
    using that by (auto simp: d split: option.splits if_splits)
qed (simp_all add: receive_def find_or_create_peer_def Let_def set_conn_def split: option.split)

lemma xinv_route:
  assumes i: "xinv s" and r: "receiver s = Routing k w" and h: "wm_reply w \<longrightarrow> (k, wm_id w) \<in> sent s"
  shows "xinv (route_incoming k w s)"
proof (cases "wm_reply w \<and> find (\<lambda>p. pd_msgid (pds s p) = wm_id w) (pending (conns s k)) \<noteq> None")
  case False
  then have "route_incoming k w s = s\<lparr>receiver := Receiving\<rparr> \<or>
      route_incoming k w s = s\<lparr>receiver := Delivering k (Payload (body_value w)) False\<rparr>"
    by (auto simp: route_incoming_def unlink_pending_def)
  then show ?thesis by (elim disjE) (simp_all only:, (rule xinv_same [OF i]; simp)+)
next
  case True
  then obtain q where q: "find (\<lambda>p. pd_msgid (pds s p) = wm_id w) (pending (conns s k)) = Some q" by auto
  then have pq: "q \<in> set (pending (conns s k))" "pd_msgid (pds s q) = wm_id w"
    by (auto simp: find_Some_iff)
  note xp = xinv_pending [OF i pq(1)]
  let ?s = "route_incoming k w s"
  have d: "?s = (set_conn k (\<lambda>d. d\<lparr>pending := remove1 q (pending d)\<rparr>) s)\<lparr>receiver := Completing k q (Payload (body_value w)),
      answered := insert (k, wm_id w, body_value w) (answered s)\<rparr>"
    using True q by (simp add: route_incoming_def unlink_pending_def set_conn_def)
  have dist: "distinct (pending (conns s j))" for j using i by (simp add: xinv_def)
  have held: "caller s c = Call_wait k q" if "pd_of (caller s c) = Some q" for c
    using xp(5) [OF that] xinv_call(1) [OF i, of c "caller s c" q] that h True pq by (auto simp: unsent_def)
  show ?thesis
  proof (rule xinv_intro [OF i, where q = q])
    show "\<not> misuse ?s" using i by (simp add: d set_conn_def xinv_def)
    show "distinct (pending (conns ?s j))" for j using dist by (simp add: d set_conn_def)
    show "leaves s ?s p" if "p \<noteq> q" for p
      using that by (auto simp: d set_conn_def leaves_def unsent_def)
    have np: "q \<notin> set (pending (conns ?s j))" for j
      using dist xp(4) [of j] by (auto simp: d set_conn_def)
    have ck: "call_ok ?s (caller s c)" if "pd_of (caller s c) = Some q" for c
      using xinv_call(1) [OF i, of c "caller s c" q] that held [OF that] xp(2) by (auto simp: d set_conn_def)
    have "receiver ?s = Completing k q (Payload (body_value w))" "caller ?s = caller s" "live_pds ?s = live_pds s"
      "signalled ?s = signalled s" "next_pd ?s = next_pd s" "pds ?s = pds s" "(k, wm_id w, body_value w) \<in> answered ?s"
      by (simp_all add: d set_conn_def)
    then show "rec_ok ?s q"
      using xinv_rec [OF i, of q] np held ck xp(1, 2) pq(2) unfolding rec_ok_def by auto
    show "answers_ok ?s" using i by (auto simp: d set_conn_def xinv_def answers_ok_def) blast
    have "numbers_ok s" using i by (simp add: xinv_def)
    then show "numbers_ok ?s"
    proof (rule numbers_same)
      show "awaits_number s j m (caller s e)" if "awaits_number ?s j m (caller ?s e)" for e j m
        using that by (cases "caller s e") (auto simp: d set_conn_def)
    qed (simp_all add: d set_conn_def)
  qed
qed

lemma xinv_complete:
  assumes i: "xinv s" and r: "receiver s = Completing k q a"
  shows "xinv (complete_pending k q a s)"
proof (rule xinv_intro [OF i, where q = q])
  let ?s = "complete_pending k q a s"
  note d = complete_pending_def signal_pending_def dispatch_reply_def net_defs
  note xc = xinv_completing [OF i r]
  show "\<not> misuse ?s" using i xc(1) by (simp add: d xinv_def)
  show "distinct (pending (conns ?s j))" for j using i by (simp add: d xinv_def)
  show "leaves s ?s p" if "p \<noteq> q" for p
    using that by (auto simp: leaves_def d unsent_def)
  have held: "caller s c = Call_wait k q \<and> pd_sync (pds s q) \<and> k < next_conn s" if "pd_of (caller s c) = Some q" for c
    using xc(5) [OF that] xinv_call(1) [OF i, of c "caller s c" q] that by auto
  obtain v where v: "a = Payload v" "(k, pd_msgid (pds s q), v) \<in> answered s" using xc(4) by blast
  have uq: "c = e" if "pd_of (caller s c) = Some q" "pd_of (caller s e) = Some q" for c e
    using xinv_call(4) [OF i, of e "caller s e" q] that by auto
  have "call_ok ?s (caller ?s c)" if "pd_of (caller ?s c) = Some q" for c
    using that held [of c] xc(1) v by (auto simp: d answer_there_def split: if_splits)
  moreover have "q < next_pd s" using xinv_rec [OF i, of q] xc(1) unfolding rec_ok_def by blast
  moreover have "caller ?s = caller s" "\<And>j. q \<notin> set (pending (conns ?s j))" "\<And>j p r'. receiver ?s \<noteq> Completing j p r'"
    "next_pd ?s = next_pd s"
    using xc(3) by (simp_all add: d)
  ultimately show "rec_ok ?s q" unfolding rec_ok_def using uq by auto
  have "answers_ok s" using i by (simp add: xinv_def)
  then show "answers_ok ?s" using v by (auto simp: answers_ok_def d)
  have "numbers_ok s" using i by (simp add: xinv_def)
  then show "numbers_ok ?s"
  proof (rule numbers_same)
    show "awaits_number s j m (caller s e)" if "awaits_number ?s j m (caller ?s e)" for e j m
      using that by (cases "caller s e") (auto simp: d split: if_splits)
  qed (simp_all add: d)
qed

text \<open>A receive thread that has stopped does not start again.\<close>

lemma running_back: "xpc_step honest s s' \<Longrightarrow> running_pc (receiver s') \<Longrightarrow> running_pc (receiver s)"
  by (induction rule: xpc_step.induct)
    (auto simp: request_begin_def request_link_def request_send_def request_woken_def request_return_def Let_def net_defs
      deliver_event_def recv_failed_def xpc_connection_suspend_def xpc_connection_resume_def xpc_connection_cancel_def
      xpc_connection_set_event_handler_def signal_pending_def dispatch_reply_def split: recv_pc.splits list.splits if_splits)

lemma xinv_control:
  assumes i: "xinv s" and f: "\<And>d. pending (f d) = pending d \<and> next_msgid (f d) = next_msgid d"
  shows "xinv (set_conn k f s)"
proof -
  have "receiver (set_conn k f s) = receiver s" by (simp add: set_conn_def)
  have l: "leaves s (set_conn k f s) p" for p using f by (auto simp: leaves_def set_conn_def unsent_def)
  have "numbers_ok s" using i by (simp add: xinv_def)
  then have "numbers_ok (set_conn k f s)"
  proof (rule numbers_same)
    show "awaits_number s j m (caller s e)" if "awaits_number (set_conn k f s) j m (caller (set_conn k f s) e)" for e j m
      using that by (cases "caller s e") (auto simp: set_conn_def)
  qed (use f in \<open>simp_all add: set_conn_def\<close>)
  then show ?thesis
    using i l rec_ok_leaves [OF l xinv_rec [OF i]] f by (simp add: xinv_def answers_ok_def set_conn_def)
qed

lemma xinv_step:
  assumes "xpc_step True s s'" "running_pc (receiver s')" "xinv s"
  shows "xinv s'"
  using assms
proof (cases rule: xpc_step.cases)
  case (begins c k sync)
  then show ?thesis using xinv_begin assms(3) by simp
next
  case (links c sync k p)
  then show ?thesis using xinv_link assms(3) by simp
next
  case (sends c sync k p ok)
  then show ?thesis using xinv_send assms(3) by simp
next
  case (woken c k p)
  then show ?thesis using xinv_woken assms(3) by simp
next
  case (returns c k p)
  then show ?thesis using xinv_return assms(3) by simp
next
  case (receives w)
  then show ?thesis using xinv_peer assms(3) by simp
next
  case (routes k w)
  then show ?thesis using xinv_route assms(3) by simp
next
  case (completes k p r)
  then show ?thesis using xinv_complete assms(3) by simp
next
  case (delivers k e closing)
  show ?thesis unfolding delivers(1)
    by (rule xinv_same [OF assms(3)]) (auto simp: deliver_event_def Let_def split: if_splits)
next
  case fails
  then show ?thesis using assms(2) by (simp add: recv_failed_def)
next
  case (fail_goes_on ks k ps p)
  then show ?thesis using assms(2) running_back [OF assms(1,2)] by auto
next
  case (suspends k)
  show ?thesis unfolding suspends xpc_connection_suspend_def by (rule xinv_control [OF assms(3)]) simp
next
  case (resumes k)
  show ?thesis unfolding resumes xpc_connection_resume_def by (rule xinv_control [OF assms(3)]) simp
next
  case (cancels k)
  show ?thesis unfolding cancels xpc_connection_cancel_def by (rule xinv_control [OF assms(3)]) simp
next
  case (handles k)
  show ?thesis unfolding handles xpc_connection_set_event_handler_def by (rule xinv_control [OF assms(3)]) simp
qed

lemma reach_xinv: "xpc_reach True listener s \<Longrightarrow> running_pc (receiver s) \<Longrightarrow> xinv s"
proof (induction rule: xpc_reach.induct)
  case (more s s')
  then show ?case using running_back [OF more.hyps(2)] xinv_step [OF more.hyps(2)] by blast
qed (rule xinv_init)

subsection \<open>No call is forgotten\<close>

fun in_hand :: "xnet \<Rightarrow> call_pc \<Rightarrow> bool" where
  "in_hand s (Call_wait k p) \<longleftrightarrow>
     p \<in> signalled s \<or> p \<in> set (pending (conns s k)) \<or> (\<exists>r. receiver s = Completing k p r)"
| "in_hand s _ \<longleftrightarrow> True"

definition none_forgotten :: "xnet \<Rightarrow> bool" where
  "none_forgotten s \<longleftrightarrow> (\<forall>c. in_hand s (caller s c))"

lemma in_hand_mono:
  "in_hand s pc \<Longrightarrow> signalled s \<subseteq> signalled s' \<Longrightarrow> (\<And>k. set (pending (conns s k)) \<subseteq> set (pending (conns s' k))) \<Longrightarrow>
     receiver s' = receiver s \<or> (\<forall>k p r. receiver s \<noteq> Completing k p r) \<Longrightarrow> in_hand s' pc"
  by (cases pc) fastforce+

lemma forgotten_step:
  assumes "xpc_step True s s'" "running_pc (receiver s')" "xinv s" "none_forgotten s"
  shows "none_forgotten s'"
proof -
  have h: "in_hand s (caller s c)" for c using assms(4) by (simp add: none_forgotten_def)
  note mono = in_hand_mono [OF h]
  show ?thesis
    using assms(1)
  proof (cases rule: xpc_step.cases)
    case (begins c k sync)
    then have "in_hand s' (caller s e)" for e by (intro mono) (auto simp: request_begin_def Let_def net_defs)
    then show ?thesis using begins by (auto simp: none_forgotten_def request_begin_def Let_def net_defs)
  next
    case (links c sync k p)
    then have "in_hand s' (caller s e)" for e by (intro mono) (auto simp: request_link_def net_defs)
    then show ?thesis using links by (auto simp: none_forgotten_def request_link_def net_defs)
  next
    case (sends c sync k p ok)
    then have "in_hand s' (caller s e)" for e by (intro mono) (auto simp: request_send_def net_defs)
    moreover have "p \<in> set (pending (conns s k))" using xinv_call(1) [OF assms(3) sends(2)] by simp
    ultimately show ?thesis using sends by (auto simp: none_forgotten_def request_send_def net_defs)
  next
    case (woken c k p)
    then have "in_hand s' (caller s e)" for e by (intro mono) (auto simp: request_woken_def net_defs)
    then show ?thesis using woken by (auto simp: none_forgotten_def request_woken_def net_defs)
  next
    case (returns c k p)
    then have "in_hand s' (caller s e)" for e by (intro mono) (auto simp: request_return_def net_defs)
    then show ?thesis using returns by (auto simp: none_forgotten_def request_return_def net_defs)
  next
    case (routes k w)
    show ?thesis
    proof (cases "\<exists>q. wm_reply w \<and> find (\<lambda>p. pd_msgid (pds s p) = wm_id w) (pending (conns s k)) = Some q")
      case False
      then have "in_hand s' (caller s e)" for e
        using routes by (intro mono) (auto simp: route_incoming_def unlink_pending_def split: option.split)
      moreover have "caller s' = caller s" using False routes by (auto simp: route_incoming_def unlink_pending_def split: option.split)
      ultimately show ?thesis by (simp add: none_forgotten_def)
    next
      case True
      then obtain q where q: "wm_reply w" "find (\<lambda>p. pd_msgid (pds s p) = wm_id w) (pending (conns s k)) = Some q" by blast
      then have pq: "q \<in> set (pending (conns s k))" by (auto simp: find_Some_iff)
      have d: "distinct (pending (conns s k))" using assms(3) by (simp add: xinv_def)
      have e: "caller s' = caller s" "signalled s' = signalled s" "receiver s' = Completing k q (Payload (body_value w))"
        "\<And>j. set (pending (conns s' j)) = set (pending (conns s j)) - (if j = k then {q} else {})"
        using q routes d by (auto simp: route_incoming_def unlink_pending_def set_conn_def)
      have "in_hand s' (caller s c)" for c
      proof (cases "caller s c")
        case (Call_wait j p)
        then show ?thesis using h [of c] e routes xinv_pending(4) [OF assms(3) pq, of j] by auto
      qed simp_all
      then show ?thesis by (simp add: none_forgotten_def e(1))
    qed
  next
    case (completes k p r)
    have "in_hand s' (caller s c)" for c
    proof (cases "caller s c")
      case (Call_wait j q)
      have "q = p \<Longrightarrow> pd_sync (pds s p)" using xinv_call(1) [OF assms(3) Call_wait] by simp
      then show ?thesis using h [of c] completes Call_wait
        by (auto simp: complete_pending_def signal_pending_def dispatch_reply_def net_defs)
    qed simp_all
    then show ?thesis using completes
      by (auto simp: none_forgotten_def complete_pending_def signal_pending_def dispatch_reply_def net_defs)
  next
    case (receives w)
    have z: "pending (conns s (next_conn s)) = []"
      using xinv_pending(3) [OF assms(3), of _ "next_conn s"] by (cases "pending (conns s (next_conn s))") auto
    have "in_hand s' (caller s e)" for e
      using receives z by (intro mono) (auto simp: receive_def find_or_create_peer_def Let_def set_conn_def split: option.split)
    moreover have "caller s' = caller s"
      using receives by (auto simp: receive_def find_or_create_peer_def Let_def set_conn_def split: option.split)
    ultimately show ?thesis by (simp add: none_forgotten_def)
  next
    case (delivers k e closing)
    then have "in_hand s' (caller s c)" for c by (intro mono) (auto simp: deliver_event_def Let_def)
    then show ?thesis using delivers by (simp add: none_forgotten_def deliver_event_def Let_def)
  next
    case fails
    then show ?thesis using assms(2) by (simp add: recv_failed_def)
  next
    case (fail_goes_on ks k ps p)
    then show ?thesis using assms(2) running_back [OF assms(1,2)] by auto
  qed (auto intro!: mono simp: none_forgotten_def xpc_connection_suspend_def xpc_connection_resume_def xpc_connection_cancel_def
      xpc_connection_set_event_handler_def set_conn_def)
qed

lemma reach_none_forgotten: "xpc_reach True listener s \<Longrightarrow> running_pc (receiver s) \<Longrightarrow> none_forgotten s"
proof (induction rule: xpc_reach.induct)
  case (more s s')
  then show ?case
    using running_back [OF more.hyps(2)] forgotten_step [OF more.hyps(2)] reach_xinv [OF more.hyps(1)] by blast
qed (simp add: none_forgotten_def xpc_init_def)

text \<open>The answers of returned calls and of reply blocks were received under the number of the call.\<close>

definition own_answer :: "xnet \<Rightarrow> nat \<times> nat \<times> xresult option \<Rightarrow> bool" where
  "own_answer s = (\<lambda>(k, m, r). \<exists>v. r = Some (Payload v) \<and> (k, m, v) \<in> answered s)"

definition own_block :: "xnet \<Rightarrow> queued \<Rightarrow> bool" where
  "own_block s e = (case e of Reply_block k m r \<Rightarrow> own_answer s (k, m, Some r) | _ \<Rightarrow> True)"

text \<open>C36 While the receive thread of a connection runs and its peers answer only what they were asked, in every
  interleaving of the calls, the messages, suspensions and cancellations: no pending record is used after
  it is freed, every answer goes to the call with its number, and every waiting call is still linked, being
  completed or signalled.\<close>
theorem xpc_calls_correct:
  assumes "xpc_reach True listener s" "running_pc (receiver s)"
  shows "\<not> misuse s \<and> list_all (own_answer s) (returned s) \<and> list_all (own_block s) (dispatched s) \<and> none_forgotten s"
proof -
  have i: "xinv s" by (rule reach_xinv [OF assms])
  then have "list_all (own_answer s) (returned s)"
    by (auto simp: xinv_def answers_ok_def list_all_iff own_answer_def)
  moreover have "list_all (own_block s) (dispatched s)"
    using i by (auto simp: xinv_def answers_ok_def list_all_iff own_block_def own_answer_def split: queued.split)
  ultimately show ?thesis using i reach_none_forgotten [OF assms] by (simp add: xinv_def)
qed

lemma answered_run:
  "\<exists>s. xpc_reach True False s \<and> running_pc (receiver s) \<and> returned s = [(0, 1, Some (Payload (XBool True)))]"
proof -
  let ?w = "\<lparr>wm_port = 9, wm_id = 1, wm_reply = True, wm_body = Some (XBool True)\<rparr>"
  let ?s3 = "request_send 0 True 0 0 True (request_link 0 True 0 0 (request_begin 0 True 0 (xpc_init False)))"
  let ?s6 = "complete_pending 0 0 (Payload (XBool True)) (route_incoming 0 ?w (receive ?w ?s3))"
  let ?s8 = "request_return 0 0 0 (request_woken 0 0 0 ?s6)"
  note d = xpc_init_def request_begin_def request_link_def request_send_def receive_def route_incoming_def unlink_pending_def
    body_value_def complete_pending_def signal_pending_def request_woken_def request_return_def net_defs Let_def
  have "xpc_reach True False (request_begin 0 True 0 (xpc_init False))"
    by (rule xpc_reach.more [OF xpc_reach.start begins]) (simp_all add: xpc_init_def)
  then have "xpc_reach True False (request_link 0 True 0 0 (request_begin 0 True 0 (xpc_init False)))"
    by (rule xpc_reach.more [OF _ links]) (simp add: d)
  then have "xpc_reach True False ?s3"
    by (rule xpc_reach.more [OF _ sends]) (simp add: d)
  then have "xpc_reach True False (receive ?w ?s3)"
    by (rule xpc_reach.more [OF _ receives]) (simp add: d)
  then have "xpc_reach True False (route_incoming 0 ?w (receive ?w ?s3))"
    by (rule xpc_reach.more [OF _ routes]) (simp_all add: d)
  then have "xpc_reach True False ?s6"
    by (rule xpc_reach.more [OF _ completes]) (simp add: d)
  then have "xpc_reach True False (request_woken 0 0 0 ?s6)"
    by (rule xpc_reach.more [OF _ woken]) (simp_all add: d)
  then have "xpc_reach True False ?s8"
    by (rule xpc_reach.more [OF _ returns]) (simp add: d)
  moreover have "running_pc (receiver ?s8) \<and> returned ?s8 = [(0, 1, Some (Payload (XBool True)))]"
    by (simp add: d)
  ultimately show ?thesis by blast
qed

theorem xpc_calls_correct_witness:
  "\<exists>s. returned s = [(0, 1, Some (Payload (XBool True)))] \<and> \<not> misuse s \<and> list_all (own_answer s) (returned s)"
  using answered_run xpc_calls_correct by blast

section \<open>When the receive thread stops\<close>

lemma fail_each_reaches:
  assumes "receiver s = Fail_each k (ps @ p # qs) ks" "pd_sync (pds s p)" "caller s c = Call_wait j p"
  shows "\<exists>s'. (xpc_step h)\<^sup>*\<^sup>* s s' \<and> misuse s'"
  using assms
proof (induction ps arbitrary: s)
  case Nil
  let ?a = "fail_step s" and ?b = "fail_step (fail_step s)"
  have a: "receiver ?a = Fail_free k p qs ks" "signalled ?a = insert p (signalled s)" "caller ?a = caller s"
    using Nil by (simp_all add: signal_pending_def touch_pd_def)
  then have b: "p \<notin> live_pds ?b" "p \<in> signalled ?b" "caller ?b c = Call_wait j p"
    using Nil by (simp_all add: free_pd_def)
  have "xpc_step h s ?a" by (rule fail_goes_on) (use Nil in simp)
  moreover have "xpc_step h ?a ?b" by (rule fail_goes_on) (use a in simp)
  moreover have "xpc_step h ?b (request_woken c j p ?b)" using b by (intro woken)
  moreover have "misuse (request_woken c j p ?b)" using b(1) by (simp add: request_woken_def net_defs)
  ultimately show ?case by (meson converse_rtranclp_into_rtranclp rtranclp.rtrancl_refl)
next
  case (Cons q ps)
  have st: "xpc_step h s (fail_step s)" by (rule fail_goes_on) (use Cons.prems in simp)
  show ?case
  proof (cases "pd_sync (pds s q)")
    case False
    have "\<exists>s'. (xpc_step h)\<^sup>*\<^sup>* (fail_step s) s' \<and> misuse s'"
      by (rule Cons.IH) (use Cons.prems False in \<open>simp_all add: dispatch_reply_def free_pd_def\<close>)
    with st show ?thesis by (meson converse_rtranclp_into_rtranclp)
  next
    case True
    have st2: "xpc_step h (fail_step s) (fail_step (fail_step s))"
      by (rule fail_goes_on) (use Cons.prems True in simp)
    have "\<exists>s'. (xpc_step h)\<^sup>*\<^sup>* (fail_step (fail_step s)) s' \<and> misuse s'"
      by (rule Cons.IH)
        (use Cons.prems True in \<open>simp_all add: signal_pending_def touch_pd_def free_pd_def\<close>)
    with st st2 show ?thesis by (meson converse_rtranclp_into_rtranclp)
  qed
qed


lemma waiting_run:
  "\<exists>s. xpc_reach True False s \<and> receiver s = Receiving \<and> caller s 0 = Call_wait 0 0 \<and> 0 \<notin> signalled s"
proof -
  let ?s1 = "request_begin 0 True 0 (xpc_init False)"
  let ?s3 = "request_send 0 True 0 0 True (request_link 0 True 0 0 ?s1)"
  note d = xpc_init_def request_begin_def request_link_def request_send_def net_defs Let_def
  have "xpc_reach True False ?s1"
    by (rule xpc_reach.more [OF xpc_reach.start begins]) (simp_all add: xpc_init_def)
  then have "xpc_reach True False (request_link 0 True 0 0 ?s1)"
    by (rule xpc_reach.more [OF _ links]) (simp add: d)
  then have "xpc_reach True False ?s3"
    by (rule xpc_reach.more [OF _ sends]) (simp add: d)
  moreover have "receiver ?s3 = Receiving \<and> caller ?s3 0 = Call_wait 0 0 \<and> 0 \<notin> signalled ?s3" by (simp add: d)
  ultimately show ?thesis by blast
qed


text \<open>Nor is the handler told: the thread cancels the connection before it delivers the error, and a cancelled
  connection drops it.\<close>

fun closing_ok :: "xnet \<Rightarrow> recv_pc \<Rightarrow> bool" where
  "closing_ok s (Failing _) \<longleftrightarrow> cancelled (conns s 0)"
| "closing_ok s (Fail_each _ _ _) \<longleftrightarrow> cancelled (conns s 0)"
| "closing_ok s (Fail_free _ _ _ _) \<longleftrightarrow> cancelled (conns s 0)"
| "closing_ok s (Delivering k e _) \<longleftrightarrow> (if e = Connection_invalid then cancelled (conns s k) else True)"
| "closing_ok s _ \<longleftrightarrow> True"

definition untold :: "xnet \<Rightarrow> bool" where
  "untold s \<longleftrightarrow> closing_ok s (receiver s) \<and> (\<forall>k. Event k Connection_invalid \<notin> set (dispatched s))"

lemma untold_step: "xpc_step h s s' \<Longrightarrow> untold s \<Longrightarrow> untold s'"
proof (induction rule: xpc_step.induct)
  case (begins s c k sync)
  then show ?case by (cases "receiver s") (auto simp: untold_def request_begin_def Let_def net_defs)
next
  case (links s c sync k p)
  then show ?case by (cases "receiver s") (auto simp: untold_def request_link_def net_defs)
next
  case (sends s c sync k p ok)
  then show ?case by (cases "receiver s") (auto simp: untold_def request_send_def net_defs)
next
  case (woken s c k p)
  then show ?case by (cases "receiver s") (auto simp: untold_def request_woken_def net_defs)
next
  case (returns s c k p)
  then show ?case by (cases "receiver s") (auto simp: untold_def request_return_def net_defs)
next
  case (receives s w)
  then show ?case
    by (auto simp: untold_def receive_def find_or_create_peer_def Let_def set_conn_def split: option.split)
next
  case (routes s k w)
  then show ?case
    by (auto simp: untold_def route_incoming_def unlink_pending_def set_conn_def split: option.split)
next
  case (completes s k p r)
  then show ?case
    by (auto simp: untold_def complete_pending_def signal_pending_def dispatch_reply_def net_defs)
next
  case (delivers s k e closing)
  then show ?case by (auto simp: untold_def deliver_event_def Let_def)
next
  case (fails s)
  then show ?case by (auto simp: untold_def recv_failed_def set_conn_def)
next
  case (fail_goes_on s ks k ps p)
  then show ?case
    by (auto simp: untold_def set_conn_def signal_pending_def dispatch_reply_def net_defs split: list.splits if_splits)
next
  case (suspends s k)
  then show ?case by (cases "receiver s") (auto simp: untold_def xpc_connection_suspend_def set_conn_def)
next
  case (resumes s k)
  then show ?case by (cases "receiver s") (auto simp: untold_def xpc_connection_resume_def set_conn_def)
next
  case (cancels s k)
  then show ?case by (cases "receiver s") (auto simp: untold_def xpc_connection_cancel_def set_conn_def)
next
  case (handles s k)
  then show ?case by (cases "receiver s") (auto simp: untold_def xpc_connection_set_event_handler_def set_conn_def)
qed

lemma invalid_never_delivered:
  "xpc_reach h listener s \<Longrightarrow> Event k Connection_invalid \<notin> set (dispatched s)"
proof -
  assume "xpc_reach h listener s"
  then have "untold s"
    by (induction rule: xpc_reach.induct) (auto simp: untold_step, simp add: untold_def xpc_init_def)
  then show ?thesis by (simp add: untold_def)
qed

text \<open>A synchronous call that begins when the thread has ended never returns.\<close>

definition stuck :: "nat \<Rightarrow> nat \<Rightarrow> nat \<Rightarrow> xnet \<Rightarrow> bool" where
  "stuck c k p s \<longleftrightarrow> receiver s = Ended \<and> p \<notin> signalled s \<and>
     caller s c \<in> {Call_link True k p, Call_send True k p, Call_wait k p}"

lemma stuck_step: "xpc_step h s s' \<Longrightarrow> stuck c k p s \<Longrightarrow> stuck c k p s'"
  by (induction rule: xpc_step.induct)
    (auto simp: stuck_def request_begin_def request_link_def request_send_def request_woken_def request_return_def Let_def
      net_defs xpc_connection_suspend_def xpc_connection_resume_def xpc_connection_cancel_def
      xpc_connection_set_event_handler_def)

lemma late_call_never_returns:
  assumes "receiver s = Ended" "next_pd s \<notin> signalled s" "(xpc_step h)\<^sup>*\<^sup>* (request_begin c True k s) s'"
  shows "caller s' c \<noteq> Call_idle"
proof -
  have "stuck c k (next_pd s) (request_begin c True k s)"
    using assms(1, 2) by (simp add: stuck_def request_begin_def Let_def net_defs)
  with assms(3) have "stuck c k (next_pd s) s'"
    by (induction rule: rtranclp_induct) (auto intro: stuck_step)
  then show ?thesis by (auto simp: stuck_def)
qed

text \<open>Port rights: a listener drops the extra reference a known peer's message brings, a client does not.\<close>

lemma peer_found: "map_of (peers (conns s 0)) port = Some k \<Longrightarrow> find_or_create_peer port s = (k, s\<lparr>rights := (rights s)(port := rights s port - 1)\<rparr>)"
  by (simp add: find_or_create_peer_def)

lemma listener_rights:
  "is_listener (conns s 0) \<Longrightarrow> map_of (peers (conns s 0)) (wm_port w) = Some k \<Longrightarrow> rights (receive w s) = rights s"
  by (auto simp: receive_def find_or_create_peer_def)

lemma client_rights_grow:
  "\<not> is_listener (conns s 0) \<Longrightarrow> rights (receive w s) (wm_port w) = rights s (wm_port w) + 1"
  by (simp add: receive_def)

end
