(* ===== verification/Digest.thy ===== *)
theory Digest
  imports Prelude
begin

text \<open>
  SHA-1, \<open>userland/libc/src/sha1.c\<close>, and MD5, \<open>userland/ld64_shim/cc_md5.c\<close>, with the locale
  \<open>hash_stream\<close>, the contract of a hash that takes its message in pieces.  A context keeps what its buffer
  held before; the padding loop and the loop over the pieces' blocks are partial functions.

  However a message is cut into pieces, the digest is the one that the standards define.
\<close>

unbundle bit_operations_syntax

section \<open>Messages in pieces\<close>

text \<open>All whole blocks go into the state; what is left waits for more.\<close>

fun absorb :: "('s \<Rightarrow> u8 list \<Rightarrow> 's) \<Rightarrow> 's \<Rightarrow> u8 list \<Rightarrow> 's \<times> u8 list" where
  "absorb f s d = (if length d < 64 then (s, d) else absorb f (f s (take 64 d)) (drop 64 d))"

declare absorb.simps [simp del]

lemma absorb_short [simp]: "length d < 64 \<Longrightarrow> absorb f s d = (s, d)"
  by (simp add: absorb.simps)

lemma absorb_rest: "length (snd (absorb f s d)) = length d mod 64"
proof (induction f s d rule: absorb.induct)
  case (1 f s d)
  show ?case
  proof (cases "length d < 64")
    case False
    then have "absorb f s d = absorb f (f s (take 64 d)) (drop 64 d)" by (simp add: absorb.simps [of f s d])
    then show ?thesis using 1 False by (simp add: mod_if [of "length d"])
  qed simp
qed

lemma absorb_append: "absorb f s (x @ y) = absorb f (fst (absorb f s x)) (snd (absorb f s x) @ y)"
proof (induction f s x rule: absorb.induct)
  case (1 f s x)
  show ?case
  proof (cases "length x < 64")
    case False
    then have "absorb f s (x @ y) = absorb f (f s (take 64 x)) (drop 64 x @ y)"
      by (simp add: absorb.simps [of f s "x @ y"])
    also have "\<dots> = absorb f (fst (absorb f s x)) (snd (absorb f s x) @ y)"
      using 1 False by (simp add: absorb.simps [of f s x])
    finally show ?thesis .
  qed simp
qed

lemma absorb_fill:
  assumes "length b < 64" "64 \<le> length b + length d"
  shows "absorb f s (b @ d) = absorb f (f s (b @ take (64 - length b) d)) (drop (64 - length b) d)"
  using assms by (simp add: absorb.simps [of f s "b @ d"])

text \<open>The pieces of a message, one after the other.\<close>

fun feed :: "('c \<Rightarrow> u8 list \<Rightarrow> 'c option) \<Rightarrow> 'c \<Rightarrow> u8 list list \<Rightarrow> 'c option" where
  "feed update c [] = Some c"
| "feed update c (d # ds) = (case update c d of None \<Rightarrow> None | Some c' \<Rightarrow> feed update c' ds)"

text \<open>The contract: a context stands for a state, the bytes that wait, and the length of the message so far.\<close>

locale hash_stream =
  fixes compress :: "'s \<Rightarrow> u8 list \<Rightarrow> 's" and limit :: "u8 list \<Rightarrow> bool"
    and update :: "'c \<Rightarrow> u8 list \<Rightarrow> 'c option" and stands :: "'c \<Rightarrow> 's \<Rightarrow> u8 list \<Rightarrow> nat \<Rightarrow> bool"
  assumes update_stands: "stands c s b n \<Longrightarrow> limit d \<Longrightarrow>
      \<exists>c'. update c d = Some c' \<and> stands c' (fst (absorb compress s (b @ d))) (snd (absorb compress s (b @ d))) (n + length d)"
    and waits_short: "stands c s b n \<Longrightarrow> length b < 64"
begin

lemma pieces_stand:
  "stands c s b n \<Longrightarrow> list_all limit ds \<Longrightarrow>
     \<exists>c'. feed update c ds = Some c' \<and>
       stands c' (fst (absorb compress s (b @ concat ds))) (snd (absorb compress s (b @ concat ds))) (n + length (concat ds))"
proof (induction ds arbitrary: c s b n)
  case Nil
  then show ?case using waits_short [OF Nil(1)] by simp
next
  case (Cons d ds)
  then obtain c' where c': "update c d = Some c'"
    "stands c' (fst (absorb compress s (b @ d))) (snd (absorb compress s (b @ d))) (n + length d)"
    using update_stands [of c s b n d] by auto
  from Cons.IH [OF this(2)] Cons.prems(2) c'(1) show ?case
    using absorb_append [of compress s "b @ d" "concat ds"] by (simp add: add.assoc)
qed

end

section \<open>SHA-1\<close>

record sha1_ctx =
  sha_state :: "u32 list"
  count0 :: u32
  count1 :: u32
  sha_buffer :: "u8 list"

definition rol :: "u32 \<Rightarrow> nat \<Rightarrow> u32" where
  "rol v n = push_bit n v OR drop_bit (32 - n) v"

definition be_word :: "u8 list \<Rightarrow> nat \<Rightarrow> u32" where
  "be_word b i = push_bit 24 (ucast (b ! (i * 4))) OR push_bit 16 (ucast (b ! (i * 4 + 1))) OR
     push_bit 8 (ucast (b ! (i * 4 + 2))) OR ucast (b ! (i * 4 + 3))"

definition sha1_block :: "u8 list \<Rightarrow> u32 list" where
  "sha1_block b =
     foldl (\<lambda>w i. w @ [rol (w ! (i - 3) XOR w ! (i - 8) XOR w ! (i - 14) XOR w ! (i - 16)) 1])
       (map (be_word b) [0..<16]) [16..<80]"

definition sha1_f :: "nat \<Rightarrow> u32 \<Rightarrow> u32 \<Rightarrow> u32 \<Rightarrow> u32 \<times> u32" where
  "sha1_f i b c d =
     (if i < 20 then ((b AND c) OR (NOT b AND d), 0x5A827999)
      else if i < 40 then (b XOR c XOR d, 0x6ED9EBA1)
      else if i < 60 then ((b AND c) OR (b AND d) OR (c AND d), 0x8F1BBCDC)
      else (b XOR c XOR d, 0xCA62C1D6))"

fun sha1_round :: "u32 list \<Rightarrow> u32 \<times> u32 \<times> u32 \<times> u32 \<times> u32 \<Rightarrow> nat \<Rightarrow> u32 \<times> u32 \<times> u32 \<times> u32 \<times> u32" where
  "sha1_round w (a, b, c, d, e) i =
     (let (f, k) = sha1_f i b c d in (rol a 5 + f + e + k + w ! i, a, rol b 30, c, d))"

definition sha1_transform :: "u32 list \<Rightarrow> u8 list \<Rightarrow> u32 list" where
  "sha1_transform st buffer =
     (let (a, b, c, d, e) =
        foldl (sha1_round (sha1_block buffer)) (st ! 0, st ! 1, st ! 2, st ! 3, st ! 4) [0..<80]
      in [st ! 0 + a, st ! 1 + b, st ! 2 + c, st ! 3 + d, st ! 4 + e])"

definition sha1_start :: "u32 list" where
  "sha1_start = [0x67452301, 0xEFCDAB89, 0x98BADCFE, 0x10325476, 0xC3D2E1F0]"

definition SHA1Init :: "sha1_ctx \<Rightarrow> sha1_ctx" where
  "SHA1Init c = c\<lparr>sha_state := sha1_start, count0 := 0, count1 := 0\<rparr>"

text \<open>\<open>memcpy\<close> into a buffer.\<close>

definition copy_at :: "nat \<Rightarrow> u8 list \<Rightarrow> u8 list \<Rightarrow> u8 list" where
  "copy_at j xs b = take j b @ xs @ drop (j + length xs) b"

definition SHA1Update :: "sha1_ctx \<Rightarrow> u8 list \<Rightarrow> sha1_ctx" where
  "SHA1Update c data =
     (let len = of_nat (length data) :: u64;
          j = unat (drop_bit 3 (count0 c) AND 63);
          add = ucast (push_bit 3 len) :: u32;
          c0 = count0 c + add;
          c1 = (if c0 < add then count1 c + 1 else count1 c) + ucast (drop_bit 29 len);
          (st, j', rest) =
            (if 63 < j + length data
             then let i = 64 - j;
                      (st, rest) = absorb sha1_transform (sha1_transform (sha_state c) (copy_at j (take i data) (sha_buffer c)))
                        (drop i data)
                  in (st, 0, rest)
             else (sha_state c, j, data));
          buf = (if 63 < j + length data then copy_at j (take (64 - j) data) (sha_buffer c) else sha_buffer c)
      in \<lparr>sha_state = st, count0 = c0, count1 = c1, sha_buffer = copy_at j' rest buf\<rparr>)"

partial_function (option) sha1_pad :: "sha1_ctx \<Rightarrow> sha1_ctx option" where
  "sha1_pad c = (if count0 c AND 504 \<noteq> 448 then sha1_pad (SHA1Update c [0]) else Some c)"

definition be_bytes :: "u32 \<Rightarrow> u8 list" where
  "be_bytes w = map (\<lambda>i. ucast (drop_bit ((3 - i) * 8) w AND 255)) [0..<4]"

definition SHA1Final :: "sha1_ctx \<Rightarrow> u8 list option" where
  "SHA1Final c =
     map_option (\<lambda>c2. concat (map be_bytes (sha_state (SHA1Update c2 (be_bytes (count1 c) @ be_bytes (count0 c))))))
       (sha1_pad (SHA1Update c [0x80]))"

section \<open>MD5\<close>

record md5_ctx =
  md5_state :: "u32 \<times> u32 \<times> u32 \<times> u32"
  md5_nl :: u32
  md5_nh :: u32
  md5_data :: "u8 list"
  md5_num :: nat

definition md5_K :: "u32 list" where
  "md5_K =
    [0xd76aa478, 0xe8c7b756, 0x242070db, 0xc1bdceee, 0xf57c0faf, 0x4787c62a, 0xa8304613, 0xfd469501,
     0x698098d8, 0x8b44f7af, 0xffff5bb1, 0x895cd7be, 0x6b901122, 0xfd987193, 0xa679438e, 0x49b40821,
     0xf61e2562, 0xc040b340, 0x265e5a51, 0xe9b6c7aa, 0xd62f105d, 0x02441453, 0xd8a1e681, 0xe7d3fbc8,
     0x21e1cde6, 0xc33707d6, 0xf4d50d87, 0x455a14ed, 0xa9e3e905, 0xfcefa3f8, 0x676f02d9, 0x8d2a4c8a,
     0xfffa3942, 0x8771f681, 0x6d9d6122, 0xfde5380c, 0xa4beea44, 0x4bdecfa9, 0xf6bb4b60, 0xbebfbc70,
     0x289b7ec6, 0xeaa127fa, 0xd4ef3085, 0x04881d05, 0xd9d4d039, 0xe6db99e5, 0x1fa27cf8, 0xc4ac5665,
     0xf4292244, 0x432aff97, 0xab9423a7, 0xfc93a039, 0x655b59c3, 0x8f0ccc92, 0xffeff47d, 0x85845dd1,
     0x6fa87e4f, 0xfe2ce6e0, 0xa3014314, 0x4e0811a1, 0xf7537e82, 0xbd3af235, 0x2ad7d2bb, 0xeb86d391]"

definition md5_S :: "nat list" where
  "md5_S =
    concat (replicate 4 [7, 12, 17, 22]) @ concat (replicate 4 [5, 9, 14, 20]) @
    concat (replicate 4 [4, 11, 16, 23]) @ concat (replicate 4 [6, 10, 15, 21])"

definition le_word :: "u8 list \<Rightarrow> nat \<Rightarrow> u32" where
  "le_word b i = ucast (b ! (i * 4)) OR push_bit 8 (ucast (b ! (i * 4 + 1))) OR
     push_bit 16 (ucast (b ! (i * 4 + 2))) OR push_bit 24 (ucast (b ! (i * 4 + 3)))"

definition leftrotate :: "u32 \<Rightarrow> nat \<Rightarrow> u32" where
  "leftrotate x c = push_bit c x OR drop_bit (32 - c) x"

definition md5_f :: "nat \<Rightarrow> u32 \<Rightarrow> u32 \<Rightarrow> u32 \<Rightarrow> u32 \<times> nat" where
  "md5_f i b c d =
     (if i < 16 then ((b AND c) OR (NOT b AND d), i)
      else if i < 32 then ((d AND b) OR (NOT d AND c), (5 * i + 1) mod 16)
      else if i < 48 then (b XOR c XOR d, (3 * i + 5) mod 16)
      else (c XOR (b OR NOT d), (7 * i) mod 16))"

fun md5_round :: "u8 list \<Rightarrow> u32 \<times> u32 \<times> u32 \<times> u32 \<Rightarrow> nat \<Rightarrow> u32 \<times> u32 \<times> u32 \<times> u32" where
  "md5_round block (a, b, c, d) i =
     (let (f, g) = md5_f i b c d
      in (d, b + leftrotate (a + f + md5_K ! i + le_word block g) (md5_S ! i), b, c))"

definition md5_process_block :: "u32 \<times> u32 \<times> u32 \<times> u32 \<Rightarrow> u8 list \<Rightarrow> u32 \<times> u32 \<times> u32 \<times> u32" where
  "md5_process_block st block =
     (let (a0, b0, c0, d0) = st; (a, b, c, d) = foldl (md5_round block) st [0..<64]
      in (a0 + a, b0 + b, c0 + c, d0 + d))"

definition md5_start :: "u32 \<times> u32 \<times> u32 \<times> u32" where
  "md5_start = (0x67452301, 0xefcdab89, 0x98badcfe, 0x10325476)"

definition CC_MD5_Init :: "md5_ctx \<Rightarrow> md5_ctx" where
  "CC_MD5_Init c = c\<lparr>md5_state := md5_start, md5_nl := 0, md5_nh := 0, md5_num := 0\<rparr>"

partial_function (option) md5_feed :: "md5_ctx \<Rightarrow> u8 list \<Rightarrow> md5_ctx option" where
  "md5_feed c p =
     (if p = [] then Some c
      else let t = min (length p) (64 - md5_num c);
               buf = copy_at (md5_num c) (take t p) (md5_data c);
               c1 = c\<lparr>md5_data := buf, md5_num := md5_num c + t\<rparr>
           in md5_feed (if md5_num c1 = 64 then c1\<lparr>md5_state := md5_process_block (md5_state c) buf, md5_num := 0\<rparr> else c1)
                (drop t p))"

definition md5_total :: "md5_ctx \<Rightarrow> u64" where
  "md5_total c = push_bit 32 (ucast (md5_nh c)) OR ucast (md5_nl c)"

definition CC_MD5_Update :: "md5_ctx \<Rightarrow> u8 list \<Rightarrow> md5_ctx option" where
  "CC_MD5_Update c data =
     (let total = md5_total c + of_nat (length data)
      in md5_feed (c\<lparr>md5_nl := ucast total, md5_nh := ucast (drop_bit 32 total)\<rparr>) data)"

definition le_bytes :: "u32 \<Rightarrow> u8 list" where
  "le_bytes w = map (\<lambda>i. ucast (drop_bit (8 * i) w)) [0..<4]"

definition CC_MD5_Final :: "md5_ctx \<Rightarrow> u8 list" where
  "CC_MD5_Final c =
     (let bitlen = md5_total c * 8;
          b1 = copy_at (md5_num c) [0x80] (md5_data c);
          n1 = md5_num c + 1;
          (st, b2, n2) =
            (if 56 < n1
             then let b = copy_at n1 (replicate (64 - n1) 0) b1 in (md5_process_block (md5_state c) b, b, 0)
             else (md5_state c, b1, n1));
          b3 = copy_at n2 (replicate (56 - n2) 0) b2;
          b4 = copy_at 56 (map (\<lambda>i. ucast (drop_bit (8 * i) bitlen)) [0..<8]) b3;
          (a, b, c', d) = md5_process_block st b4
      in concat (map le_bytes [a, b, c', d]))"

definition CC_MD5 :: "md5_ctx \<Rightarrow> u8 list \<Rightarrow> u8 list option" where
  "CC_MD5 c data = map_option CC_MD5_Final (CC_MD5_Update (CC_MD5_Init c) data)"

section \<open>Buffers\<close>

definition holds :: "u8 list \<Rightarrow> u8 list \<Rightarrow> bool" where
  "holds buf b \<longleftrightarrow> length buf = 64 \<and> length b \<le> 64 \<and> take (length b) buf = b"

lemma holds_copy: "holds buf b \<Longrightarrow> length b + length xs \<le> 64 \<Longrightarrow> holds (copy_at (length b) xs buf) (b @ xs)"
  by (auto simp: holds_def copy_at_def)

lemma holds_full: "holds buf b \<Longrightarrow> length b = 64 \<Longrightarrow> buf = b"
  by (auto simp: holds_def)

lemma holds_empty: "length buf = 64 \<Longrightarrow> holds buf []"
  by (simp add: holds_def)

lemma holds_length: "holds buf b \<Longrightarrow> length buf = 64"
  by (simp add: holds_def)

section \<open>SHA-1 in pieces\<close>

definition sha1_stands :: "sha1_ctx \<Rightarrow> u32 list \<Rightarrow> u8 list \<Rightarrow> nat \<Rightarrow> bool" where
  "sha1_stands c s b n \<longleftrightarrow>
     sha_state c = s \<and> holds (sha_buffer c) b \<and> length b = n mod 64 \<and>
     count0 c = of_nat (8 * n) \<and> count1 c = of_nat (8 * n div 2 ^ 32)"

lemma ucast_of_nat_64: "ucast (of_nat k :: u64) = (of_nat k :: u32)"
  by (simp add: unsigned_of_nat word_of_nat_eq_iff)

lemma ucast_push_3: "ucast (push_bit 3 (of_nat k :: u64)) = (of_nat (8 * k) :: u32)"
proof -
  have "push_bit 3 (of_nat k :: u64) = of_nat (8 * k)" by (simp add: push_bit_eq_mult)
  then show ?thesis by (simp only: ucast_of_nat_64)
qed

lemma unat_of_32: "unat (of_nat k :: u32) = k mod 2 ^ 32"
  by (simp add: unsigned_of_nat take_bit_eq_mod)

lemma len32: "LENGTH(32) = 32"
  by simp

lemma unat_of_64: "unat (of_nat k :: u64) = k mod 2 ^ 64"
  by (simp add: unsigned_of_nat take_bit_eq_mod)

lemma ucast_drop_29: "k < 2 ^ 64 \<Longrightarrow> ucast (drop_bit 29 (of_nat k :: u64)) = (of_nat (k div 2 ^ 29) :: u32)"
proof -
  assume k: "k < 2 ^ 64"
  have "drop_bit 29 (of_nat k :: u64) = of_nat (k div 2 ^ 29)"
  proof (rule word_unat_eq_iff [THEN iffD2])
    have "k div 2 ^ 29 < 2 ^ 64" using k div_le_dividend by (rule le_less_trans [rotated])
    have "unat (drop_bit 29 (of_nat k :: u64)) = drop_bit 29 (unat (of_nat k :: u64))" by (rule unat_drop_bit_eq)
    also have "\<dots> = k div 2 ^ 29" using k by (simp only: unat_of_64 drop_bit_eq_div mod_less)
    also have "\<dots> = unat (of_nat (k div 2 ^ 29) :: u64)" using \<open>k div 2 ^ 29 < 2 ^ 64\<close> by (simp only: unat_of_64 mod_less)
    finally show "unat (drop_bit 29 (of_nat k :: u64)) = unat (of_nat (k div 2 ^ 29) :: u64)" .
  qed
  then show ?thesis by (simp only: ucast_of_nat_64)
qed

lemma count_place: "unat (drop_bit 3 (of_nat (8 * n) :: u32) AND 63) = n mod 64"
proof -
  have "(63 :: u32) = mask 6" by (simp add: mask_eq_exp_minus_1)
  then have "drop_bit 3 (of_nat (8 * n) :: u32) AND 63 = take_bit 6 (drop_bit 3 (of_nat (8 * n)))"
    by (simp only: take_bit_eq_mask)
  then have "unat (drop_bit 3 (of_nat (8 * n) :: u32) AND 63) = take_bit 6 (drop_bit 3 (8 * n mod 2 ^ 32))"
    by (simp only: unsigned_take_bit_eq unat_drop_bit_eq unat_of_32)
  also have "\<dots> = 8 * n mod 2 ^ 32 div 2 ^ 3 mod 2 ^ 6" by (simp only: take_bit_eq_mod drop_bit_eq_div)
  also have "8 * n mod 2 ^ 32 = 8 * (n mod 2 ^ 29)" using mult_mod_right [of 8 n "2 ^ 29"] by simp
  also have "\<dots> div 2 ^ 3 mod 2 ^ 6 = n mod 2 ^ 29 mod 64" by simp
  also have "\<dots> = n mod 64" by (rule mod_mod_cancel) simp
  finally show ?thesis .
qed

lemma count_carry:
  fixes n k :: nat
  defines "a \<equiv> of_nat (8 * n) :: u32" and "d \<equiv> of_nat (8 * k) :: u32"
  shows "(of_nat (8 * n div 2 ^ 32) + (if a + d < d then 1 else 0) + of_nat (k div 2 ^ 29) :: u32) =
    of_nat (8 * (n + k) div 2 ^ 32)"
proof -
  let ?x = "8 * n mod 2 ^ 32" and ?y = "8 * k mod 2 ^ 32"
  have u: "unat a = ?x" "unat d = ?y" unfolding a_def d_def by (rule unat_of_32)+
  have xy: "?x < 2 ^ 32" "?y < 2 ^ 32" by simp_all
  have "unat (a + d) = (?x + ?y) mod 2 ^ 32" by (simp only: unat_word_ariths(1) u len32)
  then have c: "a + d < d \<longleftrightarrow> (?x + ?y) mod 2 ^ 32 < ?y" by (simp only: word_less_nat_alt u)
  have m: "(x + y) mod q < y \<longleftrightarrow> q \<le> x + y" "(x + y) div q = (if q \<le> x + y then 1 else 0)"
    if "x < q" "y < q" for x y q :: nat
    using that by (auto simp: mod_if div_if)
  have "8 * k div 2 ^ 32 = k div 2 ^ 29" using div_mult_mult1 [of 8 k "2 ^ 29"] by simp
  moreover have "(8 * n + 8 * k) div 2 ^ 32 = 8 * n div 2 ^ 32 + 8 * k div 2 ^ 32 + (?x + ?y) div 2 ^ 32"
    by (rule div_add1_eq)
  ultimately have "8 * (n + k) div 2 ^ 32 = 8 * n div 2 ^ 32 + k div 2 ^ 29 + (if a + d < d then 1 else 0)"
    unfolding c m [OF xy] by (simp only: distrib_left)
  then show ?thesis by (cases "a + d < d") (simp_all only: if_True if_False of_nat_add of_nat_1 of_nat_0 add_0_left add_0_right ac_simps)
qed

lemma sha1_update_stands:
  assumes "sha1_stands c s b n" "length d < 2 ^ 64"
  shows "sha1_stands (SHA1Update c d) (fst (absorb sha1_transform s (b @ d))) (snd (absorb sha1_transform s (b @ d))) (n + length d)"
proof -
  have c: "sha_state c = s" "holds (sha_buffer c) b" "length b = n mod 64" "count0 c = of_nat (8 * n)" "count1 c = of_nat (8 * n div 2 ^ 32)"
    using assms(1) by (simp_all add: sha1_stands_def)
  have lb: "length b < 64" using c(3) by simp
  have j: "unat (drop_bit 3 (count0 c) AND 63) = length b" unfolding c by (rule count_place)
  let ?len = "of_nat (length d) :: u64"
  let ?a = "of_nat (8 * length d) :: u32"
  have cnt: "count0 c + ucast (push_bit 3 ?len) = of_nat (8 * (n + length d))"
      "(if of_nat (8 * (n + length d)) < (ucast (push_bit 3 ?len) :: u32) then count1 c + 1 else count1 c) + ucast (drop_bit 29 ?len) =
        of_nat (8 * (n + length d) div 2 ^ 32)"
  proof -
    show 1: "count0 c + ucast (push_bit 3 ?len) = of_nat (8 * (n + length d))"
      unfolding ucast_push_3 c by (simp only: of_nat_add distrib_left)
    show "(if of_nat (8 * (n + length d)) < (ucast (push_bit 3 ?len) :: u32) then count1 c + 1 else count1 c) + ucast (drop_bit 29 ?len) =
        of_nat (8 * (n + length d) div 2 ^ 32)"
      using count_carry [of n "length d"] unfolding 1 [symmetric] ucast_push_3 ucast_drop_29 [OF assms(2)] c
      by (cases "of_nat (8 * n) + ?a < ?a") (simp_all only: if_True if_False add_0_right)
  qed
  show ?thesis
  proof (cases "63 < length b + length d")
    case False
    then have "SHA1Update c d = \<lparr>sha_state = s, count0 = of_nat (8 * (n + length d)),
        count1 = of_nat (8 * (n + length d) div 2 ^ 32), sha_buffer = copy_at (length b) d (sha_buffer c)\<rparr>"
      unfolding SHA1Update_def Let_def j cnt by (simp add: c)
    moreover have "holds (copy_at (length b) d (sha_buffer c)) (b @ d)" using c(2) False by (intro holds_copy) simp_all
    moreover have "length (b @ d) = (n + length d) mod 64"
      using False c(3) mod_add_left_eq [of n 64 "length d"] mod_less [of "length b + length d" 64] by simp
    ultimately show ?thesis using False by (simp add: sha1_stands_def)
  next
    case True
    let ?i = "64 - length b"
    let ?b = "copy_at (length b) (take ?i d) (sha_buffer c)"
    have "holds ?b (b @ take ?i d)" using c(2) True lb by (intro holds_copy) simp_all
    then have b: "?b = b @ take ?i d" by (rule holds_full) (use True lb in simp)
    let ?r = "absorb sha1_transform (sha1_transform s (b @ take ?i d)) (drop ?i d)"
    have f: "absorb sha1_transform s (b @ d) = ?r" using lb True by (intro absorb_fill) simp_all
    have "SHA1Update c d = \<lparr>sha_state = fst ?r, count0 = of_nat (8 * (n + length d)),
        count1 = of_nat (8 * (n + length d) div 2 ^ 32), sha_buffer = copy_at 0 (snd ?r) ?b\<rparr>"
      unfolding SHA1Update_def Let_def j cnt using True b by (simp add: c split: prod.split)
    moreover have "length (snd ?r) = (n + length d) mod 64"
      using absorb_rest [of sha1_transform s "b @ d"] c(3) unfolding f by (simp add: mod_add_left_eq)
    moreover have "length ?b = 64" unfolding b using True lb by simp
    then have "holds (copy_at 0 (snd ?r) ?b) ([] @ snd ?r)"
      using holds_copy [OF holds_empty, of ?b "snd ?r"] calculation(2) by simp
    ultimately show ?thesis unfolding f by (simp add: sha1_stands_def)
  qed
qed

interpretation sha1: hash_stream sha1_transform "\<lambda>d. length d < 2 ^ 64" "\<lambda>c d. Some (SHA1Update c d)" sha1_stands
  by unfold_locales (simp_all add: sha1_update_stands, simp add: sha1_stands_def)

subsection \<open>The end of the message\<close>

definition pad_zeros :: "nat \<Rightarrow> nat" where
  "pad_zeros n = (119 - n mod 64) mod 64"

text \<open>The padded message of the standard: a bit, zeros up to eight bytes before the end of a block, and the length
  in bits.\<close>

definition sha1_padded :: "u8 list \<Rightarrow> u8 list" where
  "sha1_padded msg = msg @ 0x80 # replicate (pad_zeros (length msg)) 0 @
     be_bytes (of_nat (8 * length msg div 2 ^ 32)) @ be_bytes (of_nat (8 * length msg))"

definition sha1_digest :: "u8 list \<Rightarrow> u8 list" where
  "sha1_digest msg = concat (map be_bytes (fst (absorb sha1_transform sha1_start (sha1_padded msg))))"

lemma pad_test: "(of_nat (8 * n) :: u32) AND 504 = 448 \<longleftrightarrow> n mod 64 = 56"
proof -
  have "(504 :: u32) = push_bit 3 (mask 6)" by (simp add: mask_eq_exp_minus_1)
  moreover have "(of_nat (8 * n) :: u32) = push_bit 3 (of_nat n)" by (simp add: push_bit_eq_mult)
  ultimately have "(of_nat (8 * n) :: u32) AND 504 = push_bit 3 (take_bit 6 (of_nat n))"
    by (simp only: push_bit_and [symmetric] take_bit_eq_mask)
  moreover have "take_bit 6 (of_nat n :: u32) = of_nat (n mod 64)"
  proof (rule word_unat_eq_iff [THEN iffD2])
    have "unat (take_bit 6 (of_nat n :: u32)) = take_bit 6 (n mod 2 ^ 32)" by (simp only: unsigned_take_bit_eq unat_of_32)
    also have "\<dots> = n mod 2 ^ 32 mod 64" by (simp add: take_bit_eq_mod)
    also have "\<dots> = n mod 64" by (rule mod_mod_cancel) simp
    also have "\<dots> = unat (of_nat (n mod 64) :: u32)" unfolding unat_of_32 by (rule mod_less [symmetric]) (rule less_trans [of _ 64]; simp)
    finally show "unat (take_bit 6 (of_nat n :: u32)) = unat (of_nat (n mod 64) :: u32)" .
  qed
  moreover have "push_bit 3 (of_nat (n mod 64) :: u32) = of_nat (8 * (n mod 64))" by (simp add: push_bit_eq_mult)
  ultimately have "(of_nat (8 * n) :: u32) AND 504 = of_nat (8 * (n mod 64))" by simp
  moreover have "(of_nat (8 * (n mod 64)) :: u32) = of_nat 448 \<longleftrightarrow> 8 * (n mod 64) = 448"
  proof -
    have "8 * (n mod 64) < 2 ^ 32" using mod_less_divisor [of 64 n] by simp
    then show ?thesis unfolding word_unat_eq_iff unat_of_32 by simp
  qed
  ultimately show ?thesis by simp
qed

lemma sha1_pad_stands:
  assumes "sha1_stands c s b n" "(n + k) mod 64 = 56" "k < 64"
  shows "\<exists>c'. sha1_pad c = Some c' \<and> sha1_stands c' (fst (absorb sha1_transform s (b @ replicate k 0)))
    (snd (absorb sha1_transform s (b @ replicate k 0))) (n + k)"
  using assms
proof (induction k arbitrary: c s b n)
  case 0
  then have "count0 c AND 504 = 448" using pad_test [of n] by (simp add: sha1_stands_def)
  moreover have "length b < 64" using 0 by (simp add: sha1_stands_def)
  ultimately show ?case using 0 by (simp add: sha1_pad.simps [of c])
next
  case (Suc k)
  have "n mod 64 \<noteq> 56"
  proof
    assume "n mod 64 = 56"
    then have "(n + Suc k) mod 64 = (56 + Suc k) mod 64" using mod_add_left_eq [of n 64 "Suc k"] by simp
    with Suc.prems(2, 3) show False by (auto simp: mod_if split: if_splits)
  qed
  then have p: "sha1_pad c = sha1_pad (SHA1Update c [0])"
    using pad_test [of n] Suc.prems(1) by (simp add: sha1_pad.simps [of c] sha1_stands_def)
  have "sha1_stands (SHA1Update c [0]) (fst (absorb sha1_transform s (b @ [0]))) (snd (absorb sha1_transform s (b @ [0]))) (n + 1)"
    using sha1_update_stands [OF Suc.prems(1), of "[0]"] by simp
  from Suc.IH [OF this] Suc.prems(2, 3) show ?case
    unfolding p using absorb_append [of sha1_transform s "b @ [0]" "replicate k 0"] by simp
qed

lemma pad_zeros_fit: "(n + 1 + pad_zeros n) mod 64 = 56" "pad_zeros n < 64"
proof -
  have "(n + 1 + pad_zeros n) mod 64 = (n mod 64 + 1 + (119 - n mod 64) mod 64) mod 64"
    unfolding pad_zeros_def add.assoc by (rule mod_add_left_eq [symmetric])
  also have "\<dots> = (n mod 64 + 1 + (119 - n mod 64)) mod 64" by (rule mod_add_right_eq)
  also have "n mod 64 < 64" by simp
  then have "n mod 64 + 1 + (119 - n mod 64) = 120" by linarith
  finally show "(n + 1 + pad_zeros n) mod 64 = 56" by simp
qed (simp add: pad_zeros_def)

lemma sha1_final:
  assumes "sha1_stands c (fst (absorb sha1_transform sha1_start msg)) (snd (absorb sha1_transform sha1_start msg)) (length msg)"
  shows "SHA1Final c = Some (sha1_digest msg)"
proof -
  let ?A = "\<lambda>m. absorb sha1_transform sha1_start m"
  let ?z = "pad_zeros (length msg)"
  let ?l = "be_bytes (count1 c) @ be_bytes (count0 c)"
  have one: "sha1_stands (SHA1Update c [0x80]) (fst (?A (msg @ [0x80]))) (snd (?A (msg @ [0x80]))) (length msg + 1)"
    using sha1_update_stands [OF assms, of "[0x80]"] absorb_append [of sha1_transform sha1_start msg "[0x80]"] by simp
  obtain c2 where c2: "sha1_pad (SHA1Update c [0x80]) = Some c2"
    "sha1_stands c2 (fst (?A (msg @ [0x80] @ replicate ?z 0))) (snd (?A (msg @ [0x80] @ replicate ?z 0))) (length msg + 1 + ?z)"
    using sha1_pad_stands [OF one pad_zeros_fit] absorb_append [of sha1_transform sha1_start "msg @ [0x80]" "replicate ?z 0"] by auto
  have "sha_state (SHA1Update c2 ?l) = fst (?A (msg @ [0x80] @ replicate ?z 0 @ ?l))"
    using sha1_update_stands [OF c2(2), of ?l] absorb_append [of sha1_transform sha1_start "msg @ [0x80] @ replicate ?z 0" ?l]
    by (simp add: sha1_stands_def be_bytes_def)
  moreover have "msg @ [0x80] @ replicate ?z 0 @ ?l = sha1_padded msg"
    using assms by (simp add: sha1_padded_def sha1_stands_def)
  ultimately show ?thesis using c2(1) by (simp add: SHA1Final_def sha1_digest_def)
qed



section \<open>MD5 in pieces\<close>

definition md5_stands :: "md5_ctx \<Rightarrow> u32 \<times> u32 \<times> u32 \<times> u32 \<Rightarrow> u8 list \<Rightarrow> nat \<Rightarrow> bool" where
  "md5_stands c s b n \<longleftrightarrow>
     md5_state c = s \<and> holds (md5_data c) b \<and> md5_num c = length b \<and> length b < 64 \<and> md5_total c = of_nat n"

text \<open>Feeding fills the buffer and processes it; the counters stay.\<close>

lemma md5_feed_absorbs:
  assumes "holds (md5_data c) b" "md5_num c = length b" "length b < 64"
  shows "\<exists>c'. md5_feed c d = Some c' \<and> md5_state c' = fst (absorb md5_process_block (md5_state c) (b @ d)) \<and>
    holds (md5_data c') (snd (absorb md5_process_block (md5_state c) (b @ d))) \<and>
    md5_num c' = length (snd (absorb md5_process_block (md5_state c) (b @ d))) \<and> md5_total c' = md5_total c"
  using assms
proof (induction "length d" arbitrary: c b d rule: less_induct)
  case less
  show ?case
  proof (cases "d = []")
    case True
    then show ?thesis using less.prems by (simp add: md5_feed.simps [of c])
  next
    case False
    let ?t = "min (length d) (64 - length b)"
    let ?buf = "copy_at (length b) (take ?t d) (md5_data c)"
    have h: "holds ?buf (b @ take ?t d)" using less.prems by (intro holds_copy) simp_all
    show ?thesis
    proof (cases "length b + length d < 64")
      case True
      let ?c1 = "c\<lparr>md5_data := ?buf, md5_num := length b + length d\<rparr>"
      have "md5_feed c d = md5_feed ?c1 []"
        using False True less.prems by (simp add: md5_feed.simps [of c] Let_def)
      also have "\<dots> = Some ?c1" by (simp add: md5_feed.simps [of ?c1])
      finally show ?thesis using h True by (simp add: md5_total_def)
    next
      case full: False
      let ?d = "drop (64 - length b) d"
      have t: "?t = 64 - length b" using full by simp
      have b: "?buf = b @ take (64 - length b) d" using holds_full [OF h] full less.prems(3) unfolding t by simp
      let ?c1 = "c\<lparr>md5_data := ?buf, md5_state := md5_process_block (md5_state c) ?buf, md5_num := 0\<rparr>"
      have f: "md5_feed c d = md5_feed ?c1 ?d"
        using False full less.prems(2, 3) by (simp add: md5_feed.simps [of c] Let_def)
      have e: "holds (md5_data ?c1) []" "md5_num ?c1 = length ([] :: u8 list)" "length ([] :: u8 list) < 64"
        using h by (simp_all add: holds_def)
      have "length ?d < length d" using False less.prems(3) by (cases d) simp_all
      from less.hyps [OF this e]
      have "\<exists>c'. md5_feed ?c1 ?d = Some c' \<and> md5_state c' = fst (absorb md5_process_block (md5_state ?c1) ?d) \<and>
          holds (md5_data c') (snd (absorb md5_process_block (md5_state ?c1) ?d)) \<and>
          md5_num c' = length (snd (absorb md5_process_block (md5_state ?c1) ?d)) \<and> md5_total c' = md5_total ?c1"
        by (simp only: append_Nil)
      moreover have "absorb md5_process_block (md5_state c) (b @ d) = absorb md5_process_block (md5_state ?c1) ?d"
        using absorb_fill [of b d md5_process_block "md5_state c"] less.prems(3) full b by simp
      ultimately show ?thesis unfolding f by (simp add: md5_total_def)
    qed
  qed
qed

lemma split_total: "push_bit 32 (ucast (ucast (drop_bit 32 t) :: u32)) OR ucast (ucast t :: u32) = (t :: u64)"
  by (rule bit_word_eqI) (auto simp: bit_simps)

lemma md5_update_stands:
  assumes "md5_stands c s b n"
  shows "\<exists>c'. CC_MD5_Update c d = Some c' \<and>
    md5_stands c' (fst (absorb md5_process_block s (b @ d))) (snd (absorb md5_process_block s (b @ d))) (n + length d)"
proof -
  let ?t = "md5_total c + of_nat (length d)"
  let ?c = "c\<lparr>md5_nl := ucast ?t, md5_nh := ucast (drop_bit 32 ?t)\<rparr>"
  have "md5_total ?c = of_nat (n + length d)"
    using assms split_total [of ?t] by (simp add: md5_total_def md5_stands_def)
  moreover have "length (snd (absorb md5_process_block s (b @ d))) < 64" by (simp add: absorb_rest)
  moreover have "CC_MD5_Update c d = md5_feed ?c d" by (simp add: CC_MD5_Update_def Let_def)
  ultimately show ?thesis
    using md5_feed_absorbs [of ?c b d] assms by (auto simp: md5_stands_def)
qed

interpretation md5: hash_stream md5_process_block "\<lambda>_. True" CC_MD5_Update md5_stands
  by unfold_locales (simp_all add: md5_update_stands, simp add: md5_stands_def)

definition md5_padded :: "u8 list \<Rightarrow> u8 list" where
  "md5_padded msg = msg @ 0x80 # replicate (pad_zeros (length msg)) 0 @
     map (\<lambda>i. ucast (drop_bit (8 * i) (of_nat (8 * length msg) :: u64))) [0..<8]"

definition md5_digest :: "u8 list \<Rightarrow> u8 list" where
  "md5_digest msg =
     (let (a, b, c, d) = fst (absorb md5_process_block md5_start (md5_padded msg)) in concat (map le_bytes [a, b, c, d]))"

lemma absorb_block: "length x = 64 \<Longrightarrow> absorb f s (x @ y) = absorb f (f s x) y"
  by (simp add: absorb.simps [of f s "x @ y"])

lemma md5_final:
  assumes "md5_stands c (fst (absorb md5_process_block md5_start msg)) (snd (absorb md5_process_block md5_start msg)) (length msg)"
  shows "CC_MD5_Final c = md5_digest msg"
proof -
  let ?s = "fst (absorb md5_process_block md5_start msg)"
  let ?b = "snd (absorb md5_process_block md5_start msg)"
  let ?n = "length ?b"
  let ?l = "map (\<lambda>i. ucast (drop_bit (8 * i) (of_nat (8 * length msg) :: u64))) [0..<8] :: u8 list"
  have c: "md5_state c = ?s" "holds (md5_data c) ?b" "md5_num c = ?n" "?n < 64" "md5_total c * 8 = of_nat (8 * length msg)"
    using assms by (simp_all add: md5_stands_def)
  have z: "pad_zeros (length msg) = (119 - ?n) mod 64" by (simp add: pad_zeros_def absorb_rest)
  have p: "absorb md5_process_block md5_start (md5_padded msg) =
      absorb md5_process_block ?s ((?b @ [0x80]) @ replicate (pad_zeros (length msg)) 0 @ ?l)"
    unfolding md5_padded_def by (subst absorb_append) simp
  let ?b1 = "copy_at ?n [0x80] (md5_data c)"
  have b1: "holds ?b1 (?b @ [0x80])" using c(2, 4) by (intro holds_copy) simp_all
  show ?thesis
  proof (cases "56 < ?n + 1")
    case True
    have z2: "pad_zeros (length msg) = (63 - ?n) + 56" unfolding z using True c(4) by (simp add: mod_if)
    let ?b2 = "copy_at (?n + 1) (replicate (63 - ?n) 0) ?b1"
    have "holds ?b2 ((?b @ [0x80]) @ replicate (63 - ?n) 0)"
      using holds_copy [OF b1, of "replicate (63 - ?n) 0"] c(4) by simp
    then have b2: "?b2 = (?b @ [0x80]) @ replicate (63 - ?n) 0" by (rule holds_full) (use c(4) in simp)
    let ?b3 = "copy_at 0 (replicate 56 0) ?b2"
    have l2: "length ?b2 = 64" unfolding b2 using c(4) by simp
    then have "holds ?b3 (replicate 56 0)" using holds_copy [OF holds_empty, of ?b2 "replicate 56 0"] by simp
    then have "holds (copy_at 56 ?l ?b3) (replicate 56 0 @ ?l)" using holds_copy [of ?b3 "replicate 56 0" ?l] by simp
    then have b4: "copy_at 56 ?l ?b3 = replicate 56 0 @ ?l" by (rule holds_full) simp
    have "absorb md5_process_block md5_start (md5_padded msg) =
        absorb md5_process_block ?s (?b2 @ replicate 56 0 @ ?l)"
      unfolding p z2 b2 by (simp add: replicate_add)
    also have "\<dots> = absorb md5_process_block (md5_process_block ?s ?b2) ((replicate 56 0 @ ?l) @ [])"
      using l2 by (simp add: absorb_block)
    also have "\<dots> = (md5_process_block (md5_process_block ?s ?b2) (copy_at 56 ?l ?b3), [])"
      unfolding b4 by (subst absorb_block) simp_all
    finally show ?thesis
      using True c(4) unfolding md5_digest_def CC_MD5_Final_def Let_def c(1, 3, 5) by (simp add: Suc_diff_Suc)
  next
    case False
    have z2: "pad_zeros (length msg) = 55 - ?n" unfolding z using False by (simp add: mod_if)
    let ?b3 = "copy_at (?n + 1) (replicate (55 - ?n) 0) ?b1"
    have b3: "holds ?b3 ((?b @ [0x80]) @ replicate (55 - ?n) 0)"
      using holds_copy [OF b1, of "replicate (55 - ?n) 0"] False by simp
    have "holds (copy_at 56 ?l ?b3) (((?b @ [0x80]) @ replicate (55 - ?n) 0) @ ?l)"
      using holds_copy [OF b3, of ?l] False by simp
    then have b4: "copy_at 56 ?l ?b3 = ((?b @ [0x80]) @ replicate (55 - ?n) 0) @ ?l" by (rule holds_full) (use False in simp)
    have "absorb md5_process_block md5_start (md5_padded msg) = absorb md5_process_block ?s (copy_at 56 ?l ?b3 @ [])"
      unfolding p z2 b4 by simp
    also have "\<dots> = (md5_process_block ?s (copy_at 56 ?l ?b3), [])"
      unfolding b4 by (subst absorb_block) (use False in simp_all)
    finally show ?thesis
      using False unfolding md5_digest_def CC_MD5_Final_def Let_def c(1, 3, 5) by (simp add: Suc_diff_Suc)
  qed
qed



end
