(* ===== verification/Keychain.thy ===== *)
theory Keychain
  imports CFPlist
begin

text \<open>
  The keychain, \<open>userland/Security/SecItem.c\<close>: a list of items that is searched, changed and pruned by
  queries, which are dictionaries of CoreFoundation.  Every operation holds the lock, so it is one step.
  Attributes that are not strings, or a value that is not data, are undefined, as the code copies them
  as such.

  For queries that name a service and an account the keychain is a map; an item without a service is
  refused when any item has its account.
\<close>

section \<open>Items and queries\<close>

record sec_item =
  item_service :: "cf option"
  item_account :: "cf option"
  item_label :: "cf option"
  item_data :: cf

datatype sec_status = ErrSecSuccess | ErrSecParam | ErrSecAllocate | ErrSecDuplicateItem | ErrSecItemNotFound

definition sec_name :: "string \<Rightarrow> cf" where
  "sec_name s = CFString (cs s)"

definition sec_value :: "(cf, cf) dict \<Rightarrow> string \<Rightarrow> cf option" where
  "sec_value d s = cf_dict_get (=) (sec_name s) d"

definition attrs_equal :: "cf option \<Rightarrow> cf option \<Rightarrow> bool" where
  "attrs_equal a b =
     (case (a, b) of (None, None) \<Rightarrow> True | (Some x, Some y) \<Rightarrow> x = y | _ \<Rightarrow> False)"

definition sec_matches :: "cf option \<Rightarrow> cf option \<Rightarrow> cf option \<Rightarrow> sec_item \<Rightarrow> bool" where
  "sec_matches service account label it \<longleftrightarrow>
     (service = None \<or> attrs_equal (item_service it) service) \<and>
     (account = None \<or> attrs_equal (item_account it) account) \<and>
     (label = None \<or> attrs_equal (item_label it) label)"

text \<open>The first match and the items behind it.\<close>

fun find_match ::
  "cf option \<Rightarrow> cf option \<Rightarrow> cf option \<Rightarrow> sec_item list \<Rightarrow> (sec_item \<times> sec_item list) option" where
  "find_match s a l [] = None"
| "find_match s a l (it # items) = (if sec_matches s a l it then Some (it, items) else find_match s a l items)"

definition class_from_dict :: "(cf, cf) dict \<Rightarrow> bool option" where
  "class_from_dict d = map_option (\<lambda>c. c = sec_name ''genp'') (sec_value d ''class'')"

definition build_attributes :: "sec_item \<Rightarrow> (cf, cf) dict" where
  "build_attributes it =
     (let set = (\<lambda>s v d. case v of None \<Rightarrow> d | Some x \<Rightarrow> cf_dict_set (=) (sec_name s) x d)
      in set ''labl'' (item_label it) (set ''acct'' (item_account it) (set ''svce'' (item_service it)
           (cf_dict_set (=) (sec_name ''class'') (sec_name ''genp'') []))))"

definition string_copy :: "cf option \<Rightarrow> cf option outcome" where
  "string_copy v = (case v of None \<Rightarrow> Ret None | Some (CFString s) \<Rightarrow> Ret (Some (CFString s)) | _ \<Rightarrow> Undef)"

definition data_copy :: "cf \<Rightarrow> cf outcome" where
  "data_copy v = (case v of CFData bs \<Rightarrow> Ret (CFData bs) | _ \<Rightarrow> Undef)"

section \<open>Operations\<close>

text \<open>A missing dictionary is \<open>None\<close>; whether \<open>calloc\<close> finds memory is an argument.\<close>

definition SecItemAdd ::
  "bool \<Rightarrow> (cf, cf) dict option \<Rightarrow> bool \<Rightarrow> sec_item list \<Rightarrow> (sec_status \<times> cf option \<times> sec_item list) outcome" where
  "SecItemAdd memory attributes want items =
     (case attributes of
        None \<Rightarrow> Ret (ErrSecParam, None, items)
      | Some d \<Rightarrow>
          if class_from_dict d \<noteq> Some True then Ret (ErrSecParam, None, items)
          else case sec_value d ''v_Data'' of
            None \<Rightarrow> Ret (ErrSecParam, None, items)
          | Some v \<Rightarrow>
              let service = sec_value d ''svce''; account = sec_value d ''acct''; label = sec_value d ''labl''
              in if find_match service account None items \<noteq> None then Ret (ErrSecDuplicateItem, None, items)
                 else if \<not> memory then Ret (ErrSecAllocate, None, items)
                 else obind (string_copy service) (\<lambda>s. obind (string_copy account) (\<lambda>a.
                      obind (string_copy label) (\<lambda>l. obind (data_copy v) (\<lambda>v'.
                        Ret (ErrSecSuccess,
                          if want \<and> sec_value d ''r_Data'' = Some (CFBoolean True) then Some v' else None,
                          \<lparr>item_service = s, item_account = a, item_label = l, item_data = v'\<rparr> # items))))))"

text \<open>The result for one item.\<close>

definition sec_entry :: "bool \<Rightarrow> bool \<Rightarrow> sec_item \<Rightarrow> cf" where
  "sec_entry want_data want_attrs it =
     (if want_data \<and> \<not> want_attrs then item_data it
      else if want_data then CFDictionary (cf_dict_set (=) (sec_name ''v_Data'') (item_data it) (build_attributes it))
      else CFDictionary (build_attributes it))"

function collect_matches ::
  "cf option \<Rightarrow> cf option \<Rightarrow> cf option \<Rightarrow> (sec_item \<Rightarrow> cf) \<Rightarrow> sec_item list \<Rightarrow> cf list" where
  "collect_matches s a l f items =
     (case find_match s a l items of
        None \<Rightarrow> []
      | Some (it, rest) \<Rightarrow> f it # collect_matches s a l f rest)"
  by pat_completeness auto

lemma find_match_shorter: "find_match s a l items = Some (it, rest) \<Longrightarrow> length rest < length items"
  by (induction items) (auto split: if_splits)

termination collect_matches
  by (relation "measure (\<lambda>(s, a, l, f, items). length items)") (auto dest: find_match_shorter)

declare collect_matches.simps [simp del]

definition SecItemCopyMatching ::
  "(cf, cf) dict option \<Rightarrow> bool \<Rightarrow> sec_item list \<Rightarrow> sec_status \<times> cf option" where
  "SecItemCopyMatching query want items =
     (case query of
        None \<Rightarrow> (ErrSecParam, None)
      | Some d \<Rightarrow>
          if class_from_dict d \<noteq> Some True then (ErrSecParam, None)
          else
            let service = sec_value d ''svce''; account = sec_value d ''acct''; label = sec_value d ''labl'';
                want_data = (sec_value d ''r_Data'' = Some (CFBoolean True));
                want_attrs = (sec_value d ''r_Attributes'' = Some (CFBoolean True))
            in if sec_value d ''m_Limit'' \<noteq> Some (sec_name ''m_LimitAll'')
               then (case find_match service account label items of
                       None \<Rightarrow> (ErrSecItemNotFound, None)
                     | Some (it, _) \<Rightarrow>
                         (ErrSecSuccess,
                          if want \<and> (want_data \<or> want_attrs) then Some (sec_entry want_data want_attrs it) else None))
               else (case collect_matches service account label (sec_entry want_data want_attrs) items of
                       [] \<Rightarrow> (ErrSecItemNotFound, None)
                     | es \<Rightarrow> (ErrSecSuccess, if want then Some (CFArray es) else None)))"

function update_matches ::
  "cf option \<Rightarrow> cf option \<Rightarrow> cf option \<Rightarrow> (sec_item \<Rightarrow> sec_item) \<Rightarrow> sec_item list \<Rightarrow> bool \<times> sec_item list" where
  "update_matches s a l f items =
     (case find_match s a l items of
        None \<Rightarrow> (False, items)
      | Some (it, rest) \<Rightarrow>
          (True, take (length items - length rest - 1) items @ f it # snd (update_matches s a l f rest)))"
  by pat_completeness auto
termination
  by (relation "measure (\<lambda>(s, a, l, f, items). length items)") (auto dest: find_match_shorter)

declare update_matches.simps [simp del]

definition SecItemUpdate ::
  "(cf, cf) dict option \<Rightarrow> (cf, cf) dict option \<Rightarrow> sec_item list \<Rightarrow> (sec_status \<times> sec_item list) outcome" where
  "SecItemUpdate query to_update items =
     (case (query, to_update) of
        (Some d, Some u) \<Rightarrow>
          if class_from_dict d \<noteq> Some True then Ret (ErrSecParam, items)
          else
            let service = sec_value d ''svce''; account = sec_value d ''acct''; label = sec_value d ''labl'';
                new_data = sec_value u ''v_Data''; new_label = sec_value u ''labl''
            in if find_match service account label items = None then Ret (ErrSecItemNotFound, items)
               else obind (case new_data of None \<Rightarrow> Ret None | Some v \<Rightarrow> obind (data_copy v) (\<lambda>v'. Ret (Some v'))) (\<lambda>v.
                    obind (string_copy new_label) (\<lambda>l.
                      Ret (ErrSecSuccess, snd (update_matches service account label
                        (\<lambda>it. it\<lparr>item_data := (case v of None \<Rightarrow> item_data it | Some v' \<Rightarrow> v'),
                                item_label := (if l = None then item_label it else l)\<rparr>) items))))
      | _ \<Rightarrow> Ret (ErrSecParam, items))"

fun delete_matches ::
  "cf option \<Rightarrow> cf option \<Rightarrow> cf option \<Rightarrow> sec_item list \<Rightarrow> bool \<times> sec_item list" where
  "delete_matches s a l [] = (False, [])"
| "delete_matches s a l (it # items) =
     (let (any, rest) = delete_matches s a l items
      in if sec_matches s a l it then (True, rest) else (any, it # rest))"

definition SecItemDelete :: "(cf, cf) dict option \<Rightarrow> sec_item list \<Rightarrow> sec_status \<times> sec_item list" where
  "SecItemDelete query items =
     (case query of
        None \<Rightarrow> (ErrSecParam, items)
      | Some d \<Rightarrow>
          if class_from_dict d \<noteq> Some True then (ErrSecParam, items)
          else let (any, rest) = delete_matches (sec_value d ''svce'') (sec_value d ''acct'') (sec_value d ''labl'') items
               in (if any then ErrSecSuccess else ErrSecItemNotFound, rest))"

section \<open>What the loops do\<close>

lemma find_match_None: "find_match s a l items = None \<longleftrightarrow> filter (sec_matches s a l) items = []"
  by (induction items) auto

lemma collect_matches_filter: "collect_matches s a l f items = map f (filter (sec_matches s a l) items)"
proof (induction items)
  case (Cons it items)
  then show ?case
    by (simp add: collect_matches.simps [of s a l f "it # items"] collect_matches.simps [of s a l f items] split: option.splits)
qed (simp add: collect_matches.simps)

lemma update_matches_map:
  "update_matches s a l f items =
     (filter (sec_matches s a l) items \<noteq> [], map (\<lambda>it. if sec_matches s a l it then f it else it) items)"
proof (induction items)
  case (Cons it items)
  show ?case
  proof (cases "sec_matches s a l it")
    case True
    then show ?thesis using Cons by (simp add: update_matches.simps [of s a l f "it # items"])
  next
    case False
    show ?thesis
    proof (cases "find_match s a l items")
      case None
      then show ?thesis using Cons False
        by (simp add: update_matches.simps [of s a l f "it # items"] update_matches.simps [of s a l f items])
    next
      case (Some p)
      obtain x rest where p: "p = (x, rest)" by (cases p)
      have "length rest < length items" using Some p find_match_shorter by blast
      then have "length (it # items) - length rest - 1 = Suc (length items - length rest - 1)" by simp
      then show ?thesis using Cons Some False
        by (simp add: p update_matches.simps [of s a l f "it # items"] update_matches.simps [of s a l f items]
            del: diff_Suc_1 length_Cons)
    qed
  qed
qed (simp add: update_matches.simps)

lemma delete_matches_filter:
  "delete_matches s a l items = (filter (sec_matches s a l) items \<noteq> [], filter (\<lambda>it. \<not> sec_matches s a l it) items)"
  by (induction items) (auto simp: Let_def)

section \<open>The keychain as a map\<close>

text \<open>An item is found by its service and account; no two items have the same.\<close>

definition sec_key :: "sec_item \<Rightarrow> cf option \<times> cf option" where
  "sec_key it = (item_service it, item_account it)"

definition keychain :: "sec_item list \<Rightarrow> cf option \<times> cf option \<Rightarrow> (cf option \<times> cf) option" where
  "keychain items = map_of (map (\<lambda>it. (sec_key it, (item_label it, item_data it))) items)"

definition keychain_ok :: "sec_item list \<Rightarrow> bool" where
  "keychain_ok items \<longleftrightarrow> distinct (map sec_key items)"

text \<open>A query for a generic password that names both.\<close>

definition names_item :: "(cf, cf) dict \<Rightarrow> cf option \<times> cf option \<Rightarrow> bool" where
  "names_item d k \<longleftrightarrow>
     class_from_dict d = Some True \<and>
     (\<exists>s a. k = (Some (CFString s), Some (CFString a)) \<and>
        sec_value d ''svce'' = Some (CFString s) \<and> sec_value d ''acct'' = Some (CFString a))"

lemma attrs_equal_eq: "attrs_equal a b \<longleftrightarrow> a = b"
  by (auto simp: attrs_equal_def split: option.splits)

lemma names_itemE:
  assumes "names_item d k"
  obtains s a where "class_from_dict d = Some True" "k = (Some (CFString s), Some (CFString a))"
    "sec_value d ''svce'' = Some (CFString s)" "sec_value d ''acct'' = Some (CFString a)"
  using assms by (auto simp: names_item_def)

lemma sec_matches_key:
  "sec_matches (Some s) (Some a) None it \<longleftrightarrow> sec_key it = (Some s, Some a)"
  by (auto simp: sec_matches_def attrs_equal_eq sec_key_def)

lemma keychain_None: "keychain items k = None \<longleftrightarrow> k \<notin> sec_key ` set items"
  by (simp add: keychain_def map_of_eq_None_iff image_image)

lemma keychain_Cons:
  "keychain (it # items) = (keychain items)(sec_key it \<mapsto> (item_label it, item_data it))"
  by (simp add: keychain_def)

lemma find_match_key:
  "find_match (Some s) (Some a) None items = None \<longleftrightarrow> keychain items (Some s, Some a) = None"
  by (auto simp: find_match_None filter_empty_conv sec_matches_key keychain_None) (metis imageI)

lemma find_match_entry:
  "find_match (Some s) (Some a) None items = Some (it, rest) \<Longrightarrow>
     keychain items (Some s, Some a) = Some (item_label it, item_data it)"
  by (induction items) (auto simp: sec_matches_key keychain_Cons split: if_splits)

lemma keychain_update:
  assumes "\<And>it. sec_key (f it) = sec_key it"
    and "\<And>it. (item_label (f it), item_data (f it)) = g (item_label it, item_data it)"
  shows "keychain (map (\<lambda>it. if sec_key it = k then f it else it) items) =
     (keychain items)(k := map_option g (keychain items k))"
  using assms by (induction items) (auto simp: keychain_Cons keychain_def fun_eq_iff)

lemma keychain_filter: "keychain (filter (\<lambda>it. sec_key it \<noteq> k) items) = (keychain items)(k := None)"
  by (induction items) (auto simp: keychain_Cons keychain_def fun_upd_twist)

text \<open>The keys stay unique whatever the queries are.\<close>

lemma string_copy_Ret: "string_copy v = Ret x \<Longrightarrow> x = v"
  by (auto simp: string_copy_def split: option.splits cf.splits)

lemma find_match_same: "sec_key it = (s, a) \<Longrightarrow> it \<in> set items \<Longrightarrow> find_match s a None items \<noteq> None"
  by (auto simp: find_match_None filter_empty_conv sec_matches_def attrs_equal_eq sec_key_def)

lemma obind_RetE:
  assumes "obind x f = Ret y" obtains v where "x = Ret v" "f v = Ret y"
  using assms by (cases x) auto

lemma add_keeps_keys:
  assumes "SecItemAdd memory d want items = Ret (st, res, items')" "keychain_ok items"
  shows "keychain_ok items'"
proof -
  have "items' = items \<or> (\<exists>it s a. items' = it # items \<and> sec_key it = (s, a) \<and> find_match s a None items = None)"
    using assms(1)
    by (auto simp: SecItemAdd_def Let_def sec_key_def dest!: string_copy_Ret elim!: obind_RetE
        split: option.splits if_splits)
  then show ?thesis
  proof
    assume "items' = items"
    then show ?thesis using assms(2) by simp
  next
    assume "\<exists>it s a. items' = it # items \<and> sec_key it = (s, a) \<and> find_match s a None items = None"
    then obtain it s a where it: "items' = it # items" "sec_key it = (s, a)" "find_match s a None items = None" by blast
    have "sec_key it \<notin> sec_key ` set items"
    proof
      assume "sec_key it \<in> sec_key ` set items"
      then obtain x where "x \<in> set items" "sec_key x = (s, a)" using it(2) by auto
      then show False using it(3) find_match_same by blast
    qed
    then show ?thesis using it(1) assms(2) by (simp add: keychain_ok_def)
  qed
qed

lemma update_keeps_keys:
  assumes "SecItemUpdate q u items = Ret (st, items')"
  shows "map sec_key items' = map sec_key items"
  using assms
  by (auto simp: SecItemUpdate_def Let_def update_matches_map sec_key_def elim!: obind_RetE
      split: option.splits if_splits)

lemma delete_keeps_keys:
  assumes "keychain_ok items" shows "keychain_ok (snd (SecItemDelete q items))"
  using assms
  by (auto simp: SecItemDelete_def Let_def delete_matches_filter keychain_ok_def distinct_map_filter split: option.splits)

section \<open>Queries that name an item\<close>

text \<open>The value and label a query changes.\<close>

definition sec_change :: "(cf, cf) dict \<Rightarrow> cf option \<times> cf \<Rightarrow> cf option \<times> cf" where
  "sec_change u = (\<lambda>(l, v).
     (case sec_value u ''labl'' of None \<Rightarrow> l | Some l' \<Rightarrow> Some l',
      case sec_value u ''v_Data'' of None \<Rightarrow> v | Some v' \<Rightarrow> v'))"

definition sec_typed :: "(cf, cf) dict \<Rightarrow> bool" where
  "sec_typed u \<longleftrightarrow>
     (case sec_value u ''labl'' of Some (CFString _) \<Rightarrow> True | None \<Rightarrow> True | _ \<Rightarrow> False) \<and>
     (case sec_value u ''v_Data'' of Some (CFData _) \<Rightarrow> True | None \<Rightarrow> True | _ \<Rightarrow> False)"

lemma sec_typed_copies:
  assumes "sec_typed u"
  shows "string_copy (sec_value u ''labl'') = Ret (sec_value u ''labl'')"
    and "sec_value u ''v_Data'' = Some v \<Longrightarrow> data_copy v = Ret v"
  using assms by (auto simp: sec_typed_def string_copy_def data_copy_def split: option.splits cf.splits)

lemma add_named:
  assumes "names_item d k" "sec_typed d" "sec_value d ''v_Data'' = Some v"
  shows "SecItemAdd True (Some d) False items =
     (if keychain items k \<noteq> None then Ret (ErrSecDuplicateItem, None, items)
      else Ret (ErrSecSuccess, None,
        \<lparr>item_service = fst k, item_account = snd k, item_label = sec_value d ''labl'', item_data = v\<rparr> # items))"
  using assms(1)
proof (cases rule: names_itemE)
  case (1 s a)
  then show ?thesis
    using sec_typed_copies [OF assms(2)] assms(3)
    by (simp add: SecItemAdd_def Let_def find_match_key string_copy_def [of "Some (CFString _)"] del: not_None_eq)
qed

lemma copy_named:
  assumes "names_item d k" "sec_value d ''labl'' = None" "sec_value d ''m_Limit'' = None"
    "sec_value d ''r_Data'' = Some (CFBoolean True)" "sec_value d ''r_Attributes'' = None"
  shows "SecItemCopyMatching (Some d) True items =
     (case keychain items k of None \<Rightarrow> (ErrSecItemNotFound, None) | Some (l, v) \<Rightarrow> (ErrSecSuccess, Some v))"
  using assms(1)
proof (cases rule: names_itemE)
  case (1 s a)
  show ?thesis
  proof (cases "find_match (Some (CFString s)) (Some (CFString a)) None items")
    case None
    then show ?thesis using 1 assms(2-) find_match_key [of "CFString s" "CFString a" items]
      by (simp add: SecItemCopyMatching_def Let_def)
  next
    case (Some p)
    then show ?thesis using 1 assms(2-) find_match_entry [of "CFString s" "CFString a" items "fst p" "snd p"]
      by (simp add: SecItemCopyMatching_def Let_def sec_entry_def case_prod_beta)
  qed
qed

lemma matches_named: "sec_matches (Some s) (Some a) None = (\<lambda>it. sec_key it = (Some s, Some a))"
  by (rule ext) (simp add: sec_matches_key)

lemma delete_named:
  assumes "names_item d k" "sec_value d ''labl'' = None"
  shows "fst (SecItemDelete (Some d) items) = (if keychain items k = None then ErrSecItemNotFound else ErrSecSuccess)"
    and "keychain (snd (SecItemDelete (Some d) items)) = (keychain items)(k := None)"
proof -
  obtain s a where q: "class_from_dict d = Some True" "k = (Some (CFString s), Some (CFString a))"
    "sec_value d ''svce'' = Some (CFString s)" "sec_value d ''acct'' = Some (CFString a)"
    using assms(1) by (rule names_itemE)
  have del: "SecItemDelete (Some d) items =
      (if filter (\<lambda>it. sec_key it = k) items \<noteq> [] then ErrSecSuccess else ErrSecItemNotFound,
       filter (\<lambda>it. sec_key it \<noteq> k) items)"
    by (simp add: SecItemDelete_def q assms(2) delete_matches_filter matches_named)
  have "filter (\<lambda>it. sec_key it = k) items = [] \<longleftrightarrow> keychain items k = None"
    by (auto simp: keychain_None filter_empty_conv)
  then show "fst (SecItemDelete (Some d) items) = (if keychain items k = None then ErrSecItemNotFound else ErrSecSuccess)"
    using del by simp
  show "keychain (snd (SecItemDelete (Some d) items)) = (keychain items)(k := None)"
    using del by (simp add: keychain_filter)
qed

lemma update_named:
  assumes "names_item d k" "sec_value d ''labl'' = None" "sec_typed u"
  shows "\<exists>items'. SecItemUpdate (Some d) (Some u) items =
       Ret (if keychain items k = None then ErrSecItemNotFound else ErrSecSuccess, items') \<and>
     keychain items' = (keychain items)(k := map_option (sec_change u) (keychain items k))"
  using assms(1)
proof (cases rule: names_itemE)
  case (1 s a)
  define f :: "sec_item \<Rightarrow> sec_item" where "f = (\<lambda>it. it\<lparr>
     item_data := (case sec_value u ''v_Data'' of None \<Rightarrow> item_data it | Some v' \<Rightarrow> v'),
     item_label := (if sec_value u ''labl'' = None then item_label it else sec_value u ''labl'')\<rparr>)"
  have f: "sec_key (f it) = sec_key it"
    "(item_label (f it), item_data (f it)) = sec_change u (item_label it, item_data it)" for it
    by (auto simp: f_def sec_key_def sec_change_def split: option.splits)
  have data: "(case sec_value u ''v_Data'' of None \<Rightarrow> Ret None | Some v \<Rightarrow> obind (data_copy v) (\<lambda>v'. Ret (Some v'))) =
      Ret (sec_value u ''v_Data'')"
    using sec_typed_copies(2) [OF assms(3)] by (cases "sec_value u ''v_Data''") auto
  show ?thesis
  proof (cases "keychain items k")
    case None
    then have "(keychain items)(k := map_option (sec_change u) (keychain items k)) = keychain items" by auto
    then show ?thesis using None 1 assms(2) by (simp add: SecItemUpdate_def Let_def find_match_key)
  next
    case (Some e)
    have "SecItemUpdate (Some d) (Some u) items =
        Ret (ErrSecSuccess, map (\<lambda>it. if sec_key it = k then f it else it) items)"
      using Some 1 assms(2) sec_typed_copies(1) [OF assms(3)] find_match_key [of "CFString s" "CFString a" items]
      by (simp add: SecItemUpdate_def Let_def data update_matches_map matches_named f_def)
    then show ?thesis using Some keychain_update [of f "sec_change u" k items, OF f] by simp
  qed
qed

definition asks_data :: "(cf, cf) dict \<Rightarrow> cf option \<times> cf option \<Rightarrow> bool" where
  "asks_data q k \<longleftrightarrow>
     names_item q k \<and> sec_value q ''labl'' = None \<and> sec_value q ''m_Limit'' = None \<and>
     sec_value q ''r_Data'' = Some (CFBoolean True) \<and> sec_value q ''r_Attributes'' = None"

definition adds_data :: "(cf, cf) dict \<Rightarrow> cf option \<times> cf option \<Rightarrow> cf \<Rightarrow> bool" where
  "adds_data d k v \<longleftrightarrow> names_item d k \<and> sec_typed d \<and> sec_value d ''v_Data'' = Some v"

lemma add_as_map:
  assumes "adds_data d k v" "keychain_ok items"
  shows "\<exists>items'. SecItemAdd True (Some d) False items =
       Ret (if keychain items k = None then ErrSecSuccess else ErrSecDuplicateItem, None, items') \<and>
     keychain items' = (if keychain items k = None then (keychain items)(k \<mapsto> (sec_value d ''labl'', v)) else keychain items) \<and>
     keychain_ok items'"
  using assms
  by (auto simp: adds_data_def add_named keychain_Cons sec_key_def keychain_ok_def keychain_None)

text \<open>C40 For queries that name a service and an account the keychain is a map from the pair to a label and a
  value, whatever else it holds.  \<open>SecItemAdd\<close> adds an entry where there is none and else reports a
  duplicate and changes nothing.  \<open>SecItemCopyMatching\<close> returns the value, or that there is no item.
  \<open>SecItemUpdate\<close> changes what the second dictionary names, of this entry only, and \<open>SecItemDelete\<close>
  removes this entry only; both report an item that is not there.  Two items never have the same service and
  account.\<close>

theorem keychain_is_map:
  assumes "adds_data d k v" "asks_data q k" "sec_typed u" "keychain_ok items"
  shows "(\<exists>items'. SecItemAdd True (Some d) False items =
       Ret (if keychain items k = None then ErrSecSuccess else ErrSecDuplicateItem, None, items') \<and>
     keychain items' = (if keychain items k = None then (keychain items)(k \<mapsto> (sec_value d ''labl'', v)) else keychain items) \<and>
     keychain_ok items') \<and>
   SecItemCopyMatching (Some q) True items =
     (case keychain items k of None \<Rightarrow> (ErrSecItemNotFound, None) | Some (l, w) \<Rightarrow> (ErrSecSuccess, Some w)) \<and>
   (\<exists>items'. SecItemUpdate (Some q) (Some u) items =
       Ret (if keychain items k = None then ErrSecItemNotFound else ErrSecSuccess, items') \<and>
     keychain items' = (keychain items)(k := map_option (sec_change u) (keychain items k)) \<and> keychain_ok items') \<and>
   (\<exists>items'. SecItemDelete (Some q) items =
       (if keychain items k = None then ErrSecItemNotFound else ErrSecSuccess, items') \<and>
     keychain items' = (keychain items)(k := None) \<and> keychain_ok items')"
proof (intro conjI)
  have q: "names_item q k" "sec_value q ''labl'' = None" using assms(2) by (auto simp: asks_data_def)
  show "SecItemCopyMatching (Some q) True items =
      (case keychain items k of None \<Rightarrow> (ErrSecItemNotFound, None) | Some (l, w) \<Rightarrow> (ErrSecSuccess, Some w))"
    using assms(2) copy_named by (simp add: asks_data_def)
  show "\<exists>items'. SecItemUpdate (Some q) (Some u) items =
       Ret (if keychain items k = None then ErrSecItemNotFound else ErrSecSuccess, items') \<and>
     keychain items' = (keychain items)(k := map_option (sec_change u) (keychain items k)) \<and> keychain_ok items'"
    using update_named [OF q assms(3), of items] update_keeps_keys assms(4) by (fastforce simp: keychain_ok_def)
  show "\<exists>items'. SecItemDelete (Some q) items =
       (if keychain items k = None then ErrSecItemNotFound else ErrSecSuccess, items') \<and>
     keychain items' = (keychain items)(k := None) \<and> keychain_ok items'"
    using delete_named [OF q, of items] delete_keeps_keys [OF assms(4), of "Some q"]
    by (intro exI [of _ "snd (SecItemDelete (Some q) items)"]) (simp add: prod_eq_iff)
qed (rule add_as_map [OF assms(1,4)])

definition example_item :: "(cf, cf) dict" where
  "example_item = [(sec_name ''class'', sec_name ''genp''), (sec_name ''svce'', sec_name ''mail''),
     (sec_name ''acct'', sec_name ''ann''), (sec_name ''v_Data'', CFData [1, 2])]"

definition example_query :: "(cf, cf) dict" where
  "example_query = [(sec_name ''class'', sec_name ''genp''), (sec_name ''svce'', sec_name ''mail''),
     (sec_name ''acct'', sec_name ''ann''), (sec_name ''r_Data'', CFBoolean True)]"

lemmas example_defs = sec_value_def cf_dict_get_map_of sec_name_def cs_def class_from_dict_def names_item_def sec_typed_def

theorem keychain_is_map_witness:
  "\<exists>items'. SecItemAdd True (Some example_item) False [] = Ret (ErrSecSuccess, None, items') \<and>
     keychain items' (Some (sec_name ''mail''), Some (sec_name ''ann'')) = Some (None, CFData [1, 2])"
proof -
  have "adds_data example_item (Some (sec_name ''mail''), Some (sec_name ''ann'')) (CFData [1, 2])"
    by (simp add: adds_data_def example_item_def example_defs)
  moreover have "asks_data example_query (Some (sec_name ''mail''), Some (sec_name ''ann''))"
    by (simp add: asks_data_def example_query_def example_defs)
  moreover have "sec_typed example_item" by (simp add: example_item_def example_defs)
  moreover have "sec_value example_item ''labl'' = None" by (simp add: example_item_def example_defs)
  ultimately show ?thesis
    using keychain_is_map [of example_item _ "CFData [1, 2]" example_query example_item "[]"]
    by (fastforce simp: keychain_ok_def keychain_def)
qed

text \<open>An attribute the new item does not have is not compared: an item without a service is refused when any
  item has its account, though it would have been another item.\<close>

lemma add_without_service:
  assumes "it \<in> set items" "item_account it = Some a" "class_from_dict d = Some True"
    "sec_value d ''v_Data'' \<noteq> None" "sec_value d ''svce'' = None" "sec_value d ''acct'' = Some a"
  shows "SecItemAdd memory (Some d) want items = Ret (ErrSecDuplicateItem, None, items)"
proof -
  have "find_match None (Some a) None items \<noteq> None"
    using assms(1,2) by (auto simp: find_match_None filter_empty_conv sec_matches_def attrs_equal_eq)
  then show ?thesis using assms(3-) by (auto simp: SecItemAdd_def Let_def)
qed

end
