(* ===== verification/Spec2Isabelle.thy ===== *)
theory Spec2Isabelle
  imports Loader XpcSerialize XpcHeap Launchd Bootstrap Control Environ CTime
    Malloc DispatchSync ObjcRealize ObjcArc Pthread PthreadSync CFPlist XpcConnection Digest Keychain
begin

text \<open>
  A verification development for AsterOS, a Darwin userland on xnu.  The repository's own code
  is in \<open>src/userland\<close> and \<open>src/boot\<close>; the rest, under \<open>src/src\<close>, is vendored.  The development
  models C functions of the userland whose results depend on their own logic: the dynamic
  linker, libxpc, launchd with its protocols and command, libdispatch, libobjc and libc.

  The parts and how they interact.  The kernel starts launchd as process 1.  launchd reads its
  daemons' property lists, starts and restarts the daemons, serves the bootstrap namespace,
  where a service is registered under a name and looked up by its clients, and a control
  service that the command launchctl talks to.  A daemon is a program that dyld loads: it maps
  the images a program depends on, rebases them, binds their imported symbols through the
  export tries of the images they come from, and binds lazily when a stub is first called.
  Programs exchange messages with libxpc, whose values are reference-counted objects that are
  serialized into Mach messages.  Objective-C programs run on libobjc, which the dynamic linker
  starts with the images it loaded.  All of them are linked with libc.

  Values.  An integer is a word of its width, or a number where the text of a theory says why no
  overflow is possible; pointers of dyld are 64-bit words into a byte memory
  (\<open>Memory.thy\<close>), elsewhere a pointer is an index, a rest of a string, or an object's
  number.  A function that can fail answers an option, an error code of the source or an
  \<open>outcome\<close>, which separates a normal return from a deliberate panic, from an access outside
  mapped memory and from an operation C leaves undefined (\<open>Prelude.thy\<close>).
\<close>

section \<open>The theories\<close>

text \<open>
  \<^item> \<open>Prelude\<close>, \<open>Memory\<close>: words, outcomes, little-endian byte images; memory and the
    disjointness of spans.

  dyld (\<open>userland/dyld\<close>):
  \<^item> \<open>Uleb\<close> (\<open>uleb.h\<close>): the LEB128 readers, and that they decode what an encoder writes.
  \<^item> \<open>Image\<close> (\<open>image.h\<close>): image and segment records, the translation of addresses.
  \<^item> \<open>ExportTrie\<close> (\<open>export_trie.c\<close>): the walk of an export trie.  It finds exactly the symbol
    of a trie that is laid out as a tree; a cyclic trie is walked for ever.
  \<^item> \<open>Rebase\<close> (\<open>rebase.c\<close>): the rebase opcodes; their run adds the slide to the list of slots
    that an abstract reading of the stream denotes, and to nothing else.
  \<^item> \<open>Bind\<close> (\<open>bind.c\<close>, \<open>stub_binder.c\<close>): bind opcodes, symbol lookup by ordinal, lazy binding;
    the same refinement.
  \<^item> \<open>Loader\<close> (\<open>macho_load.c\<close>, \<open>dyld_main.c\<close>): the loading of a program with all its
    dependencies, that it returns and resolves what was named; the start of a program.

  libxpc (\<open>userland/libxpc\<close>):
  \<^item> \<open>XpcValue\<close> (\<open>xpc_object.c\<close>, \<open>xpc_array.c\<close>, \<open>xpc_dictionary.c\<close>): the operations on values.
  \<^item> \<open>XpcSerialize\<close> (\<open>xpc_serialize.c\<close>): the wire format, with its round trip and the safety of
    decoding arbitrary bytes.
  \<^item> \<open>Refcount\<close>: the locale \<open>refcounted\<close>, the contract of objects that own references to
    others, with its balance invariant.  \<open>XpcHeap\<close>: libxpc's objects on a heap, an interpretation.
  \<^item> \<open>XpcConnection\<close> (\<open>xpc_connection.c\<close>): calls and the receive thread as a step relation, with the
    safety of calls while the thread runs and what goes wrong when it stops.

  launchd (\<open>userland/launchd\<close>, \<open>userland/launchctl\<close>):
  \<^item> \<open>Plist\<close> (\<open>plist.c\<close>): the parser of daemon files.
  \<^item> \<open>Launchd\<close> (\<open>launchd.c\<close>): the table of daemons as a state machine.
  \<^item> \<open>Bootstrap\<close> (\<open>bootstrap_server.c\<close>, \<open>libc/src/mach_bootstrap.c\<close>): the registry and its
    clients, and the locale \<open>keyed_store\<close>, the contract of maps from names to values, with the
    registry and libxpc's dictionaries as interpretations.
  \<^item> \<open>Control\<close> (\<open>control_server.c\<close>, \<open>launchd_control_client.c\<close>, \<open>launchctl.c\<close>): the control
    service, composed with the table.

  libc (\<open>userland/libc/src\<close>):
  \<^item> \<open>CString\<close> (\<open>string.c\<close>): comparison, search, copies and tokens.
  \<^item> \<open>Sort\<close> (\<open>stdlib_misc.c\<close>, \<open>CoreFoundation/CFArray.c\<close>): the sorts and the binary search,
    with the locale \<open>comparison\<close>, the contract of comparison functions.
  \<^item> \<open>CFContainers\<close> (\<open>CFDictionary.c\<close>, \<open>CFSet.c\<close>, \<open>CFArray.c\<close>): the containers of CoreFoundation by their
    contents, the dictionary an interpretation of \<open>keyed_store\<close>; \<open>CFPlist\<close> (\<open>CFPropertyList.c\<close>): base64,
    the writer and the reader of property lists; \<open>Keychain\<close> (\<open>Security/SecItem.c\<close>): the keychain and its
    queries, a refinement of a map from services and accounts to values.
  \<^item> \<open>Digest\<close> (\<open>sha1.c\<close>, \<open>ld64_shim/cc_md5.c\<close>): SHA-1 and MD5 of messages that arrive in pieces, with the
    locale \<open>hash_stream\<close>, the contract of their updates.
  \<^item> \<open>Environ\<close>, \<open>Stdlib\<close> (\<open>stdlib_misc.c\<close>): the environment, an interpretation of
    \<open>keyed_store\<close>; number parsing, paths, random numbers and temporary names.
  \<^item> \<open>Stdio\<close> (\<open>stdio.c\<close>, \<open>scanf.c\<close>): formatted output against what a format denotes,
    reading back printed numbers, and the byte streams.
  \<^item> \<open>CTime\<close> (\<open>time.c\<close>): dates and broken-down time, against a calendar that counts days.
  \<^item> \<open>Pthread\<close>, \<open>PthreadSync\<close> (\<open>pthread.c\<close>): the registry and the life of threads, mutexes, condition
    variables and read-write locks, with every access to shared memory a step.
  \<^item> \<open>Malloc\<close> (\<open>malloc.c\<close>): the allocator, with the locale \<open>allocator\<close>, the contract under which
    what a program holds never overlaps.
\<close>

text \<open>
  libdispatch (\<open>userland/libdispatch\<close>):
  \<^item> \<open>Dispatch\<close> (\<open>dispatch_queue.c\<close>): queues and the worker pool as a step relation over all
    interleavings, with the order and exclusion of serial queues and the pool's coming to rest.
  \<^item> \<open>DispatchSync\<close> (\<open>dispatch_once.c\<close>, \<open>dispatch_group.c\<close>, \<open>dispatch_semaphore.c\<close>,
    \<open>dispatch_time.c\<close>): once, groups, semaphores and timers.

  libobjc (\<open>userland/libobjc\<close>):
  \<^item> \<open>ObjcRuntime\<close> (\<open>selector.c\<close>, \<open>class.c\<close>, \<open>runtime.c\<close>, \<open>dispatch.c\<close>): selectors, classes and
    message dispatch; the caches of dispatch are invisible.
  \<^item> \<open>ObjcRealize\<close> (\<open>class.c\<close>, \<open>init.c\<close>): the start of the runtime, which realises the classes of
    the images and lays out their variables.
  \<^item> \<open>ObjcArc\<close> (\<open>arc.c\<close>, \<open>autorelease.c\<close>): retain counts, weak references and autorelease pools,
    a refinement of ownership.
\<close>

section \<open>Bounds and fuel\<close>

text \<open>
  Loops that always end are total functions with a measure.  The others have a bound: the
  property-list parser takes twice the length of its text plus four, which is never used up;
  the loading of images has one more than the size of the image table as the depth of its calls,
  which is proved to be enough; the realisation of a class has three more than the class's depth,
  which is proved to be enough too;
  the reader of CoreFoundation's property lists has a step for each byte.  The walk of an export trie, the opcode interpreters and the
  search along superclasses are runs whose result is \<open>None\<close> if they do not return, and the
  properties state for which inputs they do.  The fork results and
  clock steps that the kernel gives launchd, the answers of \<open>wait4\<close>, the file system and the
  entropy are arguments, so that every behaviour of the kernel is some value of them.
\<close>

section \<open>Not modelled\<close>

text \<open>
  Left out are the ports and the service names of libxpc's connections, which are calls of the
  kernel, and the rest of CoreFoundation: its object headers, strings and numbers.  The assembly, the
  floating-point code, the shell, the boot loader and the services in Objective-C are left aside:
  they are interfaces to hardware or system calls, or vendored.  Inside the
  modelled files logging, diagnostics on the console and the creation of ports and threads are
  left out.  launchd's steps are taken to be atomic, which they are where the code holds the
  lock of its table; the main loop does not take it, and a change between its look-up and its
  update is not modelled.
\<close>

end
